(* ===== verification/Prelude.thy ===== *)
theory Prelude
  imports Main "HOL-Library.Word" "HOL-Library.Monad_Syntax"
begin

text \<open>
  Shared vocabulary of the development: the machine types of the C sources, the
  \<^verbatim>\<open><ctype.h>\<close> predicates of the C locale that the parsers call, decimal and
  hexadecimal \<^verbatim>\<open>printf\<close> output, truncating signed division, and the generic
  lemmas on lists and words that the component theories use.
  The collections \<open>step_simps\<close> and \<open>frag_simps\<close> gather the rewrite rules of the
  machine-level proofs.
\<close>

unbundle bit_operations_syntax

named_theorems step_simps \<open>one step of an abstract machine, per instruction\<close>
named_theorems frag_simps \<open>code fragments inside a larger program\<close>

section \<open>Machine types\<close>

type_synonym byte = "8 word"
type_synonym u16 = "16 word"
type_synonym i32 = "32 word"
type_synonym i64 = "64 word"

text \<open>
  A HOL \<^typ>\<open>char\<close> is one byte. On x86-64 the C type \<^verbatim>\<open>char\<close> is signed, so widening it
  to a 64-bit integer extends the sign.
\<close>

definition char_to_i64 :: "char \<Rightarrow> i64" where
  "char_to_i64 c = signed_take_bit 7 (of_char c)"

definition nul :: char where
  "nul = CHR 0x00"

text \<open>A character array read as a C string: what follows a zero byte is not seen.\<close>

definition c_string :: "string \<Rightarrow> string" where
  "c_string s = takeWhile (\<lambda>c. c \<noteq> nul) s"

lemma c_string_simps [simp]:
  "c_string [] = []" "c_string (c # s) = (if c = nul then [] else c # c_string s)"
  by (auto simp: c_string_def)

lemma c_string_self: "nul \<notin> set s \<Longrightarrow> c_string s = s"
  by (auto simp: c_string_def takeWhile_eq_all_conv)

lemma c_string_append: "nul \<notin> set s \<Longrightarrow> c_string (s @ t) = s @ c_string t"
  by (induction s) auto

lemma c_string_no_nul: "nul \<notin> set (c_string s)"
  by (auto simp: c_string_def dest: set_takeWhileD)

lemma c_string_take: "take (length (c_string s)) s = c_string s"
  unfolding c_string_def by (metis append_eq_conv_conj takeWhile_dropWhile_id)

section \<open>\<^verbatim>\<open><ctype.h>\<close> in the C locale\<close>

definition isspace :: "char \<Rightarrow> bool" where
  "isspace c = (let n = (of_char c :: nat) in (9 \<le> n \<and> n \<le> 13) \<or> n = 32)"

definition isupper :: "char \<Rightarrow> bool" where
  "isupper c = (let n = (of_char c :: nat) in 65 \<le> n \<and> n \<le> 90)"

lemma isupper_bounds: "isupper c \<longleftrightarrow> 65 \<le> (of_char c :: nat) \<and> (of_char c :: nat) \<le> 90"
  by (simp add: isupper_def Let_def)

lemma isupper_not_nul [simp]: "\<not> isupper nul"
  by (simp add: isupper_def nul_def)

section \<open>Numbers as text\<close>

definition digit_char :: "nat \<Rightarrow> char" where
  "digit_char d = char_of (if d < 10 then 48 + d else 87 + d)"

fun digits_base :: "nat \<Rightarrow> nat \<Rightarrow> string" where
  "digits_base b n =
     (if n < b \<or> b < 2 then [digit_char n]
      else digits_base b (n div b) @ [digit_char (n mod b)])"

declare digits_base.simps [simp del]

text \<open>\<^verbatim>\<open>%ld\<close> (signed decimal), \<^verbatim>\<open>%d\<close> on a count, \<^verbatim>\<open>%x\<close> (lower-case hexadecimal).\<close>

definition print_ld :: "i64 \<Rightarrow> string" where
  "print_ld v = (if sint v < 0 then ''-'' @ digits_base 10 (nat (- sint v))
                 else digits_base 10 (nat (sint v)))"

definition print_d :: "nat \<Rightarrow> string" where
  "print_d n = digits_base 10 n"

definition print_x :: "nat \<Rightarrow> string" where
  "print_x n = digits_base 16 n"

section \<open>Signed arithmetic\<close>

text \<open>
  C and x86 division rounds towards zero and traps on a zero divisor and on the one
  quotient that does not fit, \<^verbatim>\<open>INT64_MIN / -1\<close>.
\<close>

definition quot :: "int \<Rightarrow> int \<Rightarrow> int" where
  "quot a b = sgn a * sgn b * (\<bar>a\<bar> div \<bar>b\<bar>)"

definition signed_div64 :: "i64 \<Rightarrow> i64 \<Rightarrow> i64 option" where
  "signed_div64 a b =
     (if b = 0 then None
      else if sint a = - (2 ^ 63) \<and> sint b = - 1 then None
      else Some (word_of_int (quot (sint a) (sint b))))"

text \<open>Signed comparison of two words.\<close>

definition slt :: "'a::len word \<Rightarrow> 'a word \<Rightarrow> bool" where
  "slt a b \<longleftrightarrow> sint a < sint b"

section \<open>Little-endian integers\<close>

text \<open>The number that a list of bytes holds, least significant byte first, and back.\<close>

fun le_nat :: "byte list \<Rightarrow> nat" where
  "le_nat [] = 0"
| "le_nat (b # bs) = unat b + 256 * le_nat bs"

fun le_bytes :: "nat \<Rightarrow> nat \<Rightarrow> byte list" where
  "le_bytes 0 n = []"
| "le_bytes (Suc k) n = of_nat (n mod 256) # le_bytes k (n div 256)"

lemma length_le_bytes [simp]: "length (le_bytes k n) = k"
  by (induction k arbitrary: n) simp_all

lemma unat_byte: "unat (b :: byte) < 256"
  using unsigned_less [of b] by simp

lemma unat_of_nat_byte: "n < 256 \<Longrightarrow> unat (of_nat n :: byte) = n"
  by (simp add: unat_of_nat take_bit_eq_mod)

lemma le_nat_bytes: "le_nat (le_bytes k n) = n mod 256 ^ k"
proof (induction k arbitrary: n)
  case (Suc k)
  have "le_nat (le_bytes (Suc k) n) = n mod 256 + 256 * (n div 256 mod 256 ^ k)"
    by (simp add: Suc unat_of_nat_byte)
  also have "\<dots> = n mod (256 * 256 ^ k)" by (simp add: mod_mult2_eq)
  finally show ?case by simp
qed simp

lemma le_bytes_nat: "length bs = k \<Longrightarrow> le_bytes k (le_nat bs) = bs"
proof (induction bs arbitrary: k)
  case (Cons b bs)
  have "(unat b + 256 * le_nat bs) mod 256 = unat b" "(unat b + 256 * le_nat bs) div 256 = le_nat bs"
    using unat_byte [of b] by simp_all
  with Cons show ?case by (auto simp: Suc_length_conv)
qed simp

lemma le_nat_bound: "le_nat bs < 256 ^ length bs"
proof (induction bs)
  case (Cons b bs)
  then have "le_nat bs + 1 \<le> 256 ^ length bs" by simp
  then have "256 * (le_nat bs + 1) \<le> 256 * 256 ^ length bs" by (rule mult_le_mono2)
  with unat_byte [of b] show ?case by simp
qed simp

section \<open>Lists\<close>

text \<open>
  \<open>frag P i c\<close>: the list \<open>c\<close> stands in \<open>P\<close> from index \<open>i\<close> on.
\<close>

definition frag :: "'a list \<Rightarrow> nat \<Rightarrow> 'a list \<Rightarrow> bool" where
  "frag P i c \<longleftrightarrow> (\<exists>pre post. P = pre @ c @ post \<and> length pre = i)"

lemma frag_Nil [frag_simps]: "frag P i [] \<longleftrightarrow> i \<le> length P"
proof
  assume "i \<le> length P"
  then have "P = take i P @ [] @ drop i P" and "length (take i P) = i" by simp_all
  then show "frag P i []" unfolding frag_def by blast
qed (auto simp: frag_def)

lemma frag_append [frag_simps]:
  "frag P i (a @ b) \<longleftrightarrow> frag P i a \<and> frag P (i + length a) b"
proof
  assume "frag P i (a @ b)"
  then obtain pre post where P: "P = pre @ (a @ b) @ post" and i: "length pre = i"
    by (auto simp: frag_def)
  then have "P = pre @ a @ (b @ post)" and "P = (pre @ a) @ b @ post"
    and "length (pre @ a) = i + length a" by simp_all
  then show "frag P i a \<and> frag P (i + length a) b"
    unfolding frag_def using i by blast
next
  assume "frag P i a \<and> frag P (i + length a) b"
  then obtain pre post pre' post' where
    P: "P = pre @ a @ post" "length pre = i" and
    P': "P = pre' @ b @ post'" "length pre' = i + length a"
    unfolding frag_def by blast
  from P(1) P'(1) have "pre' @ (b @ post') = (pre @ a) @ post" by simp
  moreover from P(2) P'(2) have "length pre' = length (pre @ a)" by simp
  ultimately have "pre' = pre @ a" using append_eq_append_conv by blast
  with P P' show "frag P i (a @ b)" unfolding frag_def by auto
qed

lemma frag_Cons [frag_simps]:
  "frag P i (x # c) \<longleftrightarrow> i < length P \<and> P ! i = x \<and> frag P (Suc i) c"
proof -
  have 1: "frag P i [x] \<longleftrightarrow> i < length P \<and> P ! i = x"
  proof
    assume "i < length P \<and> P ! i = x"
    then have "P = take i P @ [x] @ drop (Suc i) P" and "length (take i P) = i"
      by (auto simp: id_take_nth_drop)
    then show "frag P i [x]" unfolding frag_def by blast
  qed (auto simp: frag_def)
  show ?thesis using frag_append [of P i "[x]" c] 1 by simp
qed

lemma frag_self: "frag (pre @ c @ post) (length pre) c"
  unfolding frag_def by blast

lemma frag_length: "frag P i c \<Longrightarrow> i + length c \<le> length P"
  by (auto simp: frag_def)

end
