(* ===== verification/Basic_Ast.thy ===== *)
theory Basic_Ast
  imports Prelude
begin

text \<open>
  The abstract syntax of TeenyBASIC (\<^verbatim>\<open>src/assembly-compiler/include/ast.h\<close> and
  \<^verbatim>\<open>src/assembly-compiler/src/ast.c\<close>): one constructor per node type, the node
  constructors with their \<^verbatim>\<open>NULL\<close> handling (a \<^verbatim>\<open>node_t *\<close> that may be \<^verbatim>\<open>NULL\<close> is a
  \<open>node option\<close>), the debug printer and the order in which \<^verbatim>\<open>free_ast\<close> releases
  the blocks of a tree.
\<close>

section \<open>Nodes\<close>

text \<open>
  The structs \<^verbatim>\<open>num_node_t\<close>, \<^verbatim>\<open>binary_node_t\<close>, \<^verbatim>\<open>var_node_t\<close>, \<^verbatim>\<open>sequence_node_t\<close>,
  \<^verbatim>\<open>print_node_t\<close>, \<^verbatim>\<open>let_node_t\<close>, \<^verbatim>\<open>if_node_t\<close> and \<^verbatim>\<open>while_node_t\<close>, told apart in C by
  the tag \<^verbatim>\<open>node_type_t\<close>. The \<^verbatim>\<open>else_branch\<close> of an IF may be \<^verbatim>\<open>NULL\<close>.
\<close>

datatype node =
    NUM i64
  | BINARY_OP char node node
  | VAR char
  | SEQUENCE "node list"
  | PRINT node
  | LET char node
  | IF node node "node option"
  | WHILE node node

section \<open>Constructors\<close>

definition init_num_node :: "i64 \<Rightarrow> node option" where
  "init_num_node value = Some (NUM value)"

definition init_binary_node :: "char \<Rightarrow> node option \<Rightarrow> node option \<Rightarrow> node option" where
  "init_binary_node op left right =
     (case (left, right) of
        (Some l, Some r) \<Rightarrow> Some (BINARY_OP op l r)
      | _ \<Rightarrow> None)"

definition init_var_node :: "char \<Rightarrow> node option" where
  "init_var_node name = (if name = nul then None else Some (VAR name))"

text \<open>
  The statement array of \<^verbatim>\<open>init_sequence_node\<close> is never \<^verbatim>\<open>NULL\<close> with a positive count in
  the parser; an array pointer and its count are one list, and \<^verbatim>\<open>NULL\<close> is \<^const>\<open>None\<close>.
\<close>

definition init_sequence_node :: "nat \<Rightarrow> node list option \<Rightarrow> node option" where
  "init_sequence_node statement_count statements =
     (case statements of
        None \<Rightarrow> (if statement_count > 0 then None else Some (SEQUENCE []))
      | Some ss \<Rightarrow> Some (SEQUENCE (take statement_count ss)))"

definition init_print_node :: "node option \<Rightarrow> node option" where
  "init_print_node expr = (case expr of None \<Rightarrow> None | Some e \<Rightarrow> Some (PRINT e))"

definition init_let_node :: "char \<Rightarrow> node option \<Rightarrow> node option" where
  "init_let_node var value =
     (if var = nul then None
      else case value of None \<Rightarrow> None | Some v \<Rightarrow> Some (LET var v))"

definition init_if_node :: "node option \<Rightarrow> node option \<Rightarrow> node option \<Rightarrow> node option" where
  "init_if_node condition if_branch else_branch =
     (case (condition, if_branch) of
        (Some c, Some t) \<Rightarrow> Some (IF c t else_branch)
      | _ \<Rightarrow> None)"

definition init_while_node :: "node option \<Rightarrow> node option \<Rightarrow> node option" where
  "init_while_node condition body =
     (case (condition, body) of
        (Some c, Some b) \<Rightarrow> Some (WHILE c b)
      | _ \<Rightarrow> None)"

lemmas init_node_defs =
  init_num_node_def init_binary_node_def init_var_node_def init_sequence_node_def
  init_print_node_def init_let_node_def init_if_node_def init_while_node_def

section \<open>Releasing a tree\<close>

text \<open>
  A block of the tree is a node, named by its path from the root, or the statement array
  of a sequence node. \<open>free_ast p n\<close> lists the blocks passed to \<^verbatim>\<open>free\<close> in order, for a
  node standing at path \<open>p\<close>.
\<close>

datatype block = NodeBlock "nat list" | ArrayBlock "nat list"

fun free_ast :: "nat list \<Rightarrow> node \<Rightarrow> block list"
  and free_statements :: "nat list \<Rightarrow> nat \<Rightarrow> node list \<Rightarrow> block list" where
  "free_ast p (NUM v) = [NodeBlock p]"
| "free_ast p (VAR x) = [NodeBlock p]"
| "free_ast p (BINARY_OP op left right) =
     free_ast (p @ [0]) left @ free_ast (p @ [1]) right @ [NodeBlock p]"
| "free_ast p (SEQUENCE statements) =
     free_statements p 0 statements @ [ArrayBlock p, NodeBlock p]"
| "free_ast p (PRINT expr) = free_ast (p @ [0]) expr @ [NodeBlock p]"
| "free_ast p (LET var value) = free_ast (p @ [0]) value @ [NodeBlock p]"
| "free_ast p (IF condition if_branch else_branch) =
     free_ast (p @ [0]) condition @ free_ast (p @ [1]) if_branch
     @ (case else_branch of None \<Rightarrow> [] | Some b \<Rightarrow> free_ast (p @ [2]) b) @ [NodeBlock p]"
| "free_ast p (WHILE condition body) =
     free_ast (p @ [0]) condition @ free_ast (p @ [1]) body @ [NodeBlock p]"
| "free_statements p i [] = []"
| "free_statements p i (s # ss) = free_ast (p @ [i]) s @ free_statements p (Suc i) ss"

text \<open>The blocks that make up a tree, independently of any order of release.\<close>

fun blocks_of :: "nat list \<Rightarrow> node \<Rightarrow> block set"
  and blocks_of_list :: "nat list \<Rightarrow> nat \<Rightarrow> node list \<Rightarrow> block set" where
  "blocks_of p (NUM v) = {NodeBlock p}"
| "blocks_of p (VAR x) = {NodeBlock p}"
| "blocks_of p (BINARY_OP op l r) =
     {NodeBlock p} \<union> blocks_of (p @ [0]) l \<union> blocks_of (p @ [1]) r"
| "blocks_of p (SEQUENCE ss) = {NodeBlock p, ArrayBlock p} \<union> blocks_of_list p 0 ss"
| "blocks_of p (PRINT e) = {NodeBlock p} \<union> blocks_of (p @ [0]) e"
| "blocks_of p (LET x e) = {NodeBlock p} \<union> blocks_of (p @ [0]) e"
| "blocks_of p (IF c t e) =
     {NodeBlock p} \<union> blocks_of (p @ [0]) c \<union> blocks_of (p @ [1]) t
     \<union> (case e of None \<Rightarrow> {} | Some b \<Rightarrow> blocks_of (p @ [2]) b)"
| "blocks_of p (WHILE c b) =
     {NodeBlock p} \<union> blocks_of (p @ [0]) c \<union> blocks_of (p @ [1]) b"
| "blocks_of_list p i [] = {}"
| "blocks_of_list p i (s # ss) = blocks_of (p @ [i]) s \<union> blocks_of_list p (Suc i) ss"

section \<open>The debug printer\<close>

definition print_indent :: "nat \<Rightarrow> string" where
  "print_indent indent = replicate indent (CHR 0x09)"

definition newline :: string where
  "newline = [CHR 0x0A]"

fun print_ast_indented :: "node \<Rightarrow> nat \<Rightarrow> string"
  and print_ast_list :: "node list \<Rightarrow> nat \<Rightarrow> string" where
  "print_ast_indented (NUM value) indent = print_ld value"
| "print_ast_indented (BINARY_OP op left right) indent =
     [op] @ ''('' @ print_ast_indented left indent @ '', '' @
     print_ast_indented right indent @ '')''"
| "print_ast_indented (VAR name) indent = [name]"
| "print_ast_indented (SEQUENCE statements) indent = print_ast_list statements indent"
| "print_ast_indented (PRINT expr) indent =
     print_indent indent @ ''PRINT('' @ print_ast_indented expr indent @ '')'' @ newline"
| "print_ast_indented (LET var value) indent =
     print_indent indent @ ''LET('' @ [var] @ '', '' @ print_ast_indented value indent
     @ '')'' @ newline"
| "print_ast_indented (IF condition if_branch else_branch) indent =
     print_indent indent @ ''IF('' @ print_ast_indented condition indent @ '','' @ newline
     @ print_ast_indented if_branch (indent + 1)
     @ (case else_branch of
          None \<Rightarrow> []
        | Some b \<Rightarrow> print_indent indent @ '','' @ newline @ print_ast_indented b (indent + 1))
     @ print_indent indent @ '')'' @ newline"
| "print_ast_indented (WHILE condition body) indent =
     print_indent indent @ ''WHILE('' @ print_ast_indented condition indent @ '','' @ newline
     @ print_ast_indented body (indent + 1) @ print_indent indent @ '')'' @ newline"
| "print_ast_list [] indent = []"
| "print_ast_list (s # ss) indent = print_ast_indented s indent @ print_ast_list ss indent"

definition print_ast :: "node \<Rightarrow> string" where
  "print_ast n = print_ast_indented n 0"

section \<open>Every block is released exactly once\<close>

definition block_path :: "block \<Rightarrow> nat list" where
  "block_path b = (case b of NodeBlock p \<Rightarrow> p | ArrayBlock p \<Rightarrow> p)"

text \<open>All blocks released below path \<open>p\<close> carry \<open>p\<close> as a prefix.\<close>

lemma free_ast_prefix:
  "b \<in> set (free_ast p n) \<Longrightarrow> \<exists>q. block_path b = p @ q"
  "b \<in> set (free_statements p i ss) \<Longrightarrow> \<exists>j q. i \<le> j \<and> block_path b = p @ j # q"
proof (induction p n and p i ss rule: free_ast_free_statements.induct)
  case (10 p i s ss)
  then show ?case by (auto dest: Suc_leD)
qed (auto simp: block_path_def split: option.splits)

lemma free_ast_set:
  "set (free_ast p n) = blocks_of p n"
  "set (free_statements p i ss) = blocks_of_list p i ss"
  by (induction p n and p i ss rule: free_ast_free_statements.induct)
     (auto split: option.splits)

lemma free_ast_disjoint:
  "i \<noteq> j \<Longrightarrow> set (free_ast (p @ [i]) m) \<inter> set (free_ast (p @ [j]) n) = {}"
  by (fastforce dest: free_ast_prefix(1))

lemma free_ast_disjoint_rest:
  "set (free_ast (p @ [i]) m) \<inter> set (free_statements p (Suc i) ss) = {}"
  by (fastforce dest: free_ast_prefix)

lemma parent_not_in_child [simp]:
  "NodeBlock p \<notin> set (free_ast (p @ [i]) n)" "ArrayBlock p \<notin> set (free_ast (p @ [i]) n)"
  by (fastforce dest: free_ast_prefix(1) simp: block_path_def)+

lemma parent_not_in_children [simp]:
  "NodeBlock p \<notin> set (free_statements p i ss)" "ArrayBlock p \<notin> set (free_statements p i ss)"
  by (fastforce dest: free_ast_prefix(2) simp: block_path_def)+

lemma free_ast_distinct:
  "distinct (free_ast p n)"
  "distinct (free_statements p i ss)"
  by (induction p n and p i ss rule: free_ast_free_statements.induct)
     (simp_all add: free_ast_disjoint free_ast_disjoint_rest Int_Un_distrib split: option.splits)

text \<open>
  C37: \<^verbatim>\<open>free_ast\<close> passes every block of a tree (each node and the statement array of each
  sequence) to \<^verbatim>\<open>free\<close> exactly once: nothing is leaked and nothing is released twice.
\<close>

theorem free_ast_exact:
  "distinct (free_ast p n) \<and> set (free_ast p n) = blocks_of p n"
  by (simp add: free_ast_distinct free_ast_set)

end
