(* ===== verification/Basic_Semantics.thy ===== *)
theory Basic_Semantics
  imports Basic_Ast
begin

text \<open>
  What a TeenyBASIC program means, independently of the compiler: expressions evaluate to
  64-bit two's complement integers over 26 variables, a division by zero or an
  unrepresentable quotient has no value, and a statement takes the variables and the
  printed numbers from one state to the next. The well-formedness predicates say which
  trees the grammar of \<^verbatim>\<open>src/assembly-compiler/src/parser.c\<close> describes.
\<close>

type_synonym vars = "char \<Rightarrow> i64"

section \<open>Expressions and conditions\<close>

definition arith :: "char \<Rightarrow> i64 \<Rightarrow> i64 \<Rightarrow> i64 option" where
  "arith op a b =
     (if op = CHR ''+'' then Some (a + b)
      else if op = CHR ''-'' then Some (a - b)
      else if op = CHR ''*'' then Some (a * b)
      else if op = CHR ''/'' then signed_div64 a b
      else None)"

fun eval_expr :: "node \<Rightarrow> vars \<Rightarrow> i64 option" where
  "eval_expr (NUM v) s = Some v"
| "eval_expr (VAR x) s = Some (s x)"
| "eval_expr (BINARY_OP op l r) s = do { a \<leftarrow> eval_expr l s; b \<leftarrow> eval_expr r s; arith op a b }"
| "eval_expr _ s = None"

definition compare_op :: "char \<Rightarrow> i64 \<Rightarrow> i64 \<Rightarrow> bool option" where
  "compare_op op a b =
     (if op = CHR ''<'' then Some (slt a b)
      else if op = CHR ''>'' then Some (slt b a)
      else if op = CHR ''='' then Some (a = b)
      else None)"

fun eval_cond :: "node \<Rightarrow> vars \<Rightarrow> bool option" where
  "eval_cond (BINARY_OP op l r) s =
     do { a \<leftarrow> eval_expr l s; b \<leftarrow> eval_expr r s; compare_op op a b }"
| "eval_cond _ s = None"

section \<open>Statements\<close>

text \<open>\<open>exec_stmt n s s' out\<close>: running \<open>n\<close> from variables \<open>s\<close> ends in \<open>s'\<close> having printed \<open>out\<close>.\<close>

inductive exec_stmt :: "node \<Rightarrow> vars \<Rightarrow> vars \<Rightarrow> i64 list \<Rightarrow> bool"
  and exec_stmts :: "node list \<Rightarrow> vars \<Rightarrow> vars \<Rightarrow> i64 list \<Rightarrow> bool" where
  ex_print: "eval_expr e s = Some v \<Longrightarrow> exec_stmt (PRINT e) s s [v]"
| ex_let: "eval_expr e s = Some v \<Longrightarrow> exec_stmt (LET x e) s (s(x := v)) []"
| ex_seq: "exec_stmts ss s s' out \<Longrightarrow> exec_stmt (SEQUENCE ss) s s' out"
| ex_if_true: "eval_cond c s = Some True \<Longrightarrow> exec_stmt t s s' out \<Longrightarrow> exec_stmt (IF c t e) s s' out"
| ex_if_else: "eval_cond c s = Some False \<Longrightarrow> exec_stmt b s s' out \<Longrightarrow>
     exec_stmt (IF c t (Some b)) s s' out"
| ex_if_skip: "eval_cond c s = Some False \<Longrightarrow> exec_stmt (IF c t None) s s []"
| ex_while_end: "eval_cond c s = Some False \<Longrightarrow> exec_stmt (WHILE c b) s s []"
| ex_while_loop: "eval_cond c s = Some True \<Longrightarrow> exec_stmt b s s1 out1 \<Longrightarrow>
     exec_stmt (WHILE c b) s1 s2 out2 \<Longrightarrow> exec_stmt (WHILE c b) s s2 (out1 @ out2)"
| ex_nil: "exec_stmts [] s s []"
| ex_cons: "exec_stmt n s s1 out1 \<Longrightarrow> exec_stmts ns s1 s2 out2 \<Longrightarrow>
     exec_stmts (n # ns) s s2 (out1 @ out2)"

inductive_cases exec_printE: "exec_stmt (PRINT e) s s' out"
inductive_cases exec_letE: "exec_stmt (LET x e) s s' out"
inductive_cases exec_seqE: "exec_stmt (SEQUENCE ss) s s' out"
inductive_cases exec_ifE: "exec_stmt (IF c t e) s s' out"
inductive_cases exec_whileE: "exec_stmt (WHILE c b) s s' out"
inductive_cases exec_nilE: "exec_stmts [] s s' out"
inductive_cases exec_consE: "exec_stmts (n # ns) s s' out"

section \<open>Well-formed trees\<close>

definition arith_op :: "char \<Rightarrow> bool" where
  "arith_op op \<longleftrightarrow> op = CHR ''+'' \<or> op = CHR ''-'' \<or> op = CHR ''*'' \<or> op = CHR ''/''"

definition compare_char :: "char \<Rightarrow> bool" where
  "compare_char op \<longleftrightarrow> op = CHR ''<'' \<or> op = CHR ''>'' \<or> op = CHR ''=''"

fun wf_expr :: "node \<Rightarrow> bool" where
  "wf_expr (NUM v) = True"
| "wf_expr (VAR x) = isupper x"
| "wf_expr (BINARY_OP op l r) = (arith_op op \<and> wf_expr l \<and> wf_expr r)"
| "wf_expr _ = False"

fun wf_cond :: "node \<Rightarrow> bool" where
  "wf_cond (BINARY_OP op l r) = (compare_char op \<and> wf_expr l \<and> wf_expr r)"
| "wf_cond _ = False"

fun wf_stmt :: "node \<Rightarrow> bool" where
  "wf_stmt (PRINT e) = wf_expr e"
| "wf_stmt (LET x e) = (isupper x \<and> wf_expr e)"
| "wf_stmt (SEQUENCE ss) = list_all wf_stmt ss"
| "wf_stmt (IF c t e) = (wf_cond c \<and> wf_stmt t \<and> (case e of None \<Rightarrow> True | Some b \<Rightarrow> wf_stmt b))"
| "wf_stmt (WHILE c b) = (wf_cond c \<and> wf_stmt b)"
| "wf_stmt _ = False"

section \<open>Constant subexpressions\<close>

text \<open>
  \<open>is_const e\<close>: no variable occurs. \<open>no_const_op e\<close>: no operation of \<open>e\<close> has two
  constant operands. \<open>fold_safe n\<close>: every printed expression is constant as a whole or
  has no constant operation in it, and no condition has one in either side.
\<close>

fun is_const :: "node \<Rightarrow> bool" where
  "is_const (NUM v) = True"
| "is_const (BINARY_OP op l r) = (arith_op op \<and> is_const l \<and> is_const r)"
| "is_const _ = False"

fun no_const_op :: "node \<Rightarrow> bool" where
  "no_const_op (BINARY_OP op l r) =
     (\<not> is_const (BINARY_OP op l r) \<and> no_const_op l \<and> no_const_op r)"
| "no_const_op _ = True"

fun fold_safe :: "node \<Rightarrow> bool" where
  "fold_safe (PRINT e) = (is_const e \<or> no_const_op e)"
| "fold_safe (LET x e) = True"
| "fold_safe (SEQUENCE ss) = list_all fold_safe ss"
| "fold_safe (IF c t e) =
     (no_const_op c \<and> fold_safe t \<and> (case e of None \<Rightarrow> True | Some b \<Rightarrow> fold_safe b))"
| "fold_safe (WHILE c b) = (no_const_op c \<and> fold_safe b)"
| "fold_safe _ = True"

section \<open>The semantics is deterministic\<close>

lemma exec_deterministic:
  "exec_stmt n s s1 out1 \<Longrightarrow> exec_stmt n s s2 out2 \<Longrightarrow> s2 = s1 \<and> out2 = out1"
  "exec_stmts ns s s1 out1 \<Longrightarrow> exec_stmts ns s s2 out2 \<Longrightarrow> s2 = s1 \<and> out2 = out1"
proof (induction arbitrary: s2 out2 and s2 out2 rule: exec_stmt_exec_stmts.inducts)
  case ex_print
  then show ?case by (auto elim: exec_printE)
next
  case ex_let
  then show ?case by (auto elim: exec_letE)
next
  case ex_seq
  from ex_seq.prems show ?case by (rule exec_seqE) (rule ex_seq.IH)
next
  case ex_if_true
  from ex_if_true.prems show ?case
    by (rule exec_ifE) (use ex_if_true.hyps(1) ex_if_true.IH in simp_all)
next
  case ex_if_else
  from ex_if_else.prems show ?case
    by (rule exec_ifE) (use ex_if_else.hyps(1) ex_if_else.IH in simp_all)
next
  case ex_if_skip
  from ex_if_skip.prems show ?case
    by (rule exec_ifE) (use ex_if_skip.hyps in simp_all)
next
  case ex_while_end
  from ex_while_end.prems show ?case
    by (rule exec_whileE) (use ex_while_end.hyps in simp_all)
next
  case ex_while_loop
  from ex_while_loop.prems show ?case
    by (rule exec_whileE) (use ex_while_loop.hyps(1) ex_while_loop.IH in \<open>simp, metis\<close>)
next
  case ex_nil
  then show ?case by (auto elim: exec_nilE)
next
  case ex_cons
  from ex_cons.prems show ?case by (rule exec_consE) (use ex_cons.IH in metis)
qed

end
