(* ===== verification/Basic_Parser.thy ===== *)
theory Basic_Parser
  imports Basic_Semantics
begin

text \<open>
  The recursive-descent parser of \<^verbatim>\<open>src/assembly-compiler/src/parser.c\<close>. The stream of a
  \<^verbatim>\<open>parser_state_t\<close> is a seekable file: its bytes and the current position. The scanning
  loops are total functions, with the bytes left as their measure; the mutually recursive
  functions of the grammar take fuel, whose exhaustion is the outer \<^const>\<open>None\<close>, and are shown
  to return whenever the fuel is at least three more than four times the bytes left. A returned
  \<^verbatim>\<open>node_t *\<close> is a \<open>node option\<close>.
\<close>

section \<open>The stream\<close>

record parser_state =
  contents :: string
  pos :: nat

definition remaining :: "parser_state \<Rightarrow> nat" where
  "remaining state = length (contents state) - pos state"

definition fgetc :: "parser_state \<Rightarrow> char option \<times> parser_state" where
  "fgetc state =
     (if pos state < length (contents state)
      then (Some (contents state ! pos state), state\<lparr>pos := pos state + 1\<rparr>)
      else (None, state))"

definition save_position :: "parser_state \<Rightarrow> nat" where
  "save_position state = pos state"

definition restore_position :: "parser_state \<Rightarrow> nat \<Rightarrow> parser_state" where
  "restore_position state position = state\<lparr>pos := position\<rparr>"

definition rewind_one :: "parser_state \<Rightarrow> parser_state" where
  "rewind_one state = state\<lparr>pos := pos state - 1\<rparr>"

lemma fgetc_some:
  "fgetc state = (Some c, state') \<Longrightarrow>
     remaining state' < remaining state \<and> contents state' = contents state
     \<and> pos state' = Suc (pos state) \<and> pos state < length (contents state)
     \<and> c = contents state ! pos state"
  by (auto simp: fgetc_def remaining_def split: if_splits)

section \<open>Character classes\<close>

definition is_variable_name :: "char \<Rightarrow> bool" where
  "is_variable_name c = isupper c"

definition is_open_paren :: "char \<Rightarrow> bool" where
  "is_open_paren c \<longleftrightarrow> c = CHR ''(''"

definition is_close_paren :: "char \<Rightarrow> bool" where
  "is_close_paren c \<longleftrightarrow> c = CHR '')''"

definition is_factor_op :: "char \<Rightarrow> bool" where
  "is_factor_op c \<longleftrightarrow> c = CHR ''*'' \<or> c = CHR ''/''"

definition is_term_op :: "char \<Rightarrow> bool" where
  "is_term_op c \<longleftrightarrow> c = CHR ''+'' \<or> c = CHR ''-''"

definition is_comparison_op :: "char \<Rightarrow> bool" where
  "is_comparison_op c \<longleftrightarrow> c = CHR ''<'' \<or> c = CHR ''='' \<or> c = CHR ''>''"

definition is_operator :: "char \<Rightarrow> bool" where
  "is_operator c \<longleftrightarrow> is_open_paren c \<or> is_close_paren c \<or> is_factor_op c \<or> is_term_op c
     \<or> is_comparison_op c"

definition is_comment_start :: "char \<Rightarrow> bool" where
  "is_comment_start c \<longleftrightarrow> c = CHR ''#''"

lemmas char_class_defs = is_variable_name_def is_open_paren_def is_close_paren_def
  is_factor_op_def is_term_op_def is_comparison_op_def is_operator_def is_comment_start_def

section \<open>Scanning\<close>

function advance :: "parser_state \<Rightarrow> char \<times> parser_state" where
  "advance state =
     (case fgetc state of
        (None, state') \<Rightarrow> (nul, state')
      | (Some result, state') \<Rightarrow> (if \<not> isspace result then (result, state') else advance state'))"
  by pat_completeness auto
termination by (relation "measure remaining") (auto dest: fgetc_some [OF sym])

declare advance.simps [simp del]

definition try_advance :: "parser_state \<Rightarrow> (char \<Rightarrow> bool) \<Rightarrow> char \<times> parser_state" where
  "try_advance state predicate =
     (let (next, state') = advance state in
      if next \<noteq> nul \<and> \<not> predicate next then (nul, rewind_one state') else (next, state'))"

definition MAX_KEYWORD_LENGTH :: nat where
  "MAX_KEYWORD_LENGTH = 100"

text \<open>
  The loop of \<^verbatim>\<open>advance_until_separator\<close>; \<open>result\<close> holds the \<open>index\<close> bytes written so far.
\<close>

function until_separator_loop :: "string \<Rightarrow> parser_state \<Rightarrow> string option \<times> parser_state" where
  "until_separator_loop result state =
     (let index = length result in
      if index > MAX_KEYWORD_LENGTH then (None, state)
      else case fgetc state of
        (None, state') \<Rightarrow> (if index > 0 then (Some result, state') else (None, state'))
      | (Some c, state') \<Rightarrow>
          (if is_operator c \<and> index > 0 then (Some result, rewind_one state')
           else if isspace c then
             (if index > 0 then (Some result, state') else until_separator_loop result state')
           else until_separator_loop (result @ [c]) state'))"
  by pat_completeness auto
termination by (relation "measure (\<lambda>(_, state). remaining state)") (auto dest: fgetc_some [OF sym])

declare until_separator_loop.simps [simp del]

text \<open>
  The result is used as a C string by every caller: what follows a zero byte is not seen.
\<close>

definition advance_until_separator :: "parser_state \<Rightarrow> string option \<times> parser_state" where
  "advance_until_separator state =
     (let (result, state') = until_separator_loop [] state in (map_option c_string result, state'))"

definition at_end :: "parser_state \<Rightarrow> bool \<times> parser_state" where
  "at_end state =
     (let (next, state') = advance state in
      if next \<noteq> nul then (False, rewind_one state') else (True, state'))"

function skip_line :: "parser_state \<Rightarrow> parser_state" where
  "skip_line state =
     (case fgetc state of
        (None, state') \<Rightarrow> state'
      | (Some character, state') \<Rightarrow> (if character = CHR 0x0A then state' else skip_line state'))"
  by pat_completeness auto
termination by (relation "measure remaining") (auto dest: fgetc_some [OF sym])

declare skip_line.simps [simp del]

section \<open>Numbers\<close>

text \<open>
  \<^verbatim>\<open>strtol(s, &end, 0)\<close> of the C standard library: an optional sign, then \<^verbatim>\<open>0x\<close> for base 16,
  \<^verbatim>\<open>0\<close> for base 8, otherwise base 10, and the longest run of digits. The result is the
  value, the rest of the string that \<^verbatim>\<open>end\<close> points to, and whether \<^verbatim>\<open>errno\<close> is set (the
  value does not fit in a \<^verbatim>\<open>long\<close>).
\<close>

definition digit_value :: "char \<Rightarrow> nat option" where
  "digit_value c = (let n = (of_char c :: nat) in
     if 48 \<le> n \<and> n \<le> 57 then Some (n - 48)
     else if 97 \<le> n \<and> n \<le> 122 then Some (n - 87)
     else if 65 \<le> n \<and> n \<le> 90 then Some (n - 55)
     else None)"

definition is_digit_in :: "nat \<Rightarrow> char \<Rightarrow> bool" where
  "is_digit_in base c = (case digit_value c of None \<Rightarrow> False | Some d \<Rightarrow> d < base)"

fun read_digits :: "nat \<Rightarrow> nat \<Rightarrow> string \<Rightarrow> nat \<times> string" where
  "read_digits base acc [] = (acc, [])"
| "read_digits base acc (c # s) =
     (if is_digit_in base c then read_digits base (acc * base + the (digit_value c)) s
      else (acc, c # s))"

definition strtol_sign :: "string \<Rightarrow> bool \<times> string" where
  "strtol_sign s = (case s of
       c # t \<Rightarrow> (if c = CHR ''-'' then (True, t) else if c = CHR ''+'' then (False, t) else (False, s))
     | [] \<Rightarrow> (False, []))"

definition strtol_base :: "string \<Rightarrow> nat \<times> string" where
  "strtol_base s = (case s of
       z # x # d # t \<Rightarrow>
         (if z = CHR ''0'' \<and> (x = CHR ''x'' \<or> x = CHR ''X'') \<and> is_digit_in 16 d then (16, d # t)
          else if z = CHR ''0'' then (8, s) else (10, s))
     | z # t \<Rightarrow> (if z = CHR ''0'' then (8, s) else (10, s))
     | [] \<Rightarrow> (10, []))"

definition strtol0 :: "string \<Rightarrow> i64 \<times> string \<times> bool" where
  "strtol0 s =
     (let (neg, t) = strtol_sign (dropWhile isspace s); (base, u) = strtol_base t in
      case u of
        [] \<Rightarrow> (0, s, False)
      | d # _ \<Rightarrow>
          (if \<not> is_digit_in base d then (0, s, False)
           else
             let (n, rest) = read_digits base 0 u; v = (if neg then - int n else int n) in
             if v < - (2 ^ 63) then (word_of_int (- (2 ^ 63)), rest, True)
             else if 2 ^ 63 \<le> v then (word_of_int (2 ^ 63 - 1), rest, True)
             else (word_of_int v, rest, False)))"

definition num :: "parser_state \<Rightarrow> node option \<times> parser_state" where
  "num state =
     (case advance_until_separator state of
        (None, state') \<Rightarrow> (None, state')
      | (Some num_string, state') \<Rightarrow>
          (let (value, num_end, errno) = strtol0 num_string in
           if errno \<or> num_end \<noteq> [] then (None, state') else (init_num_node value, state')))"

section \<open>Expressions\<close>

text \<open>
  \<open>term_loop\<close> and \<open>expression_loop\<close> are the \<^verbatim>\<open>while (true)\<close> loops of \<^verbatim>\<open>term\<close> and
  \<^verbatim>\<open>expression\<close>, with the tree built so far.
\<close>

type_synonym parsed = "(node option \<times> parser_state) option"

fun factor :: "nat \<Rightarrow> parser_state \<Rightarrow> parsed"
  and parse_term :: "nat \<Rightarrow> parser_state \<Rightarrow> parsed"
  and term_loop :: "nat \<Rightarrow> node option \<Rightarrow> parser_state \<Rightarrow> parsed"
  and expression :: "nat \<Rightarrow> parser_state \<Rightarrow> parsed"
  and expression_loop :: "nat \<Rightarrow> node option \<Rightarrow> parser_state \<Rightarrow> parsed" where
  "factor 0 state = None"
| "factor (Suc f) state =
     (let (paren, state1) = try_advance state is_open_paren in
      if paren \<noteq> nul then do {
        (node, state2) \<leftarrow> expression f state1;
        let (close, state3) = try_advance state2 is_close_paren;
        Some (if close = nul then None else node, state3)
      }
      else
        let (var, state2) = try_advance state1 is_variable_name in
        if var \<noteq> nul then Some (init_var_node var, state2) else Some (num state2))"
| "parse_term 0 state = None"
| "parse_term (Suc f) state = do {
     (result, state1) \<leftarrow> factor f state;
     term_loop f result state1
   }"
| "term_loop 0 result state = None"
| "term_loop (Suc f) result state =
     (let (next, state1) = try_advance state is_factor_op in
      if next = nul then Some (result, state1)
      else do {
        (right, state2) \<leftarrow> factor f state1;
        term_loop f (init_binary_node next result right) state2
      })"
| "expression 0 state = None"
| "expression (Suc f) state = do {
     (result, state1) \<leftarrow> parse_term f state;
     expression_loop f result state1
   }"
| "expression_loop 0 result state = None"
| "expression_loop (Suc f) result state =
     (let (next, state1) = try_advance state is_term_op in
      if next = nul then Some (result, state1)
      else do {
        (right, state2) \<leftarrow> parse_term f state1;
        expression_loop f (init_binary_node next result right) state2
      })"

definition comparison :: "nat \<Rightarrow> parser_state \<Rightarrow> parsed" where
  "comparison f state = do {
     (left, state1) \<leftarrow> expression f state;
     let (op, state2) = try_advance state1 is_comparison_op;
     (right, state3) \<leftarrow> expression f state2;
     Some (init_binary_node op left right, state3)
   }"

section \<open>Statements\<close>

text \<open>Each round of the loop consumes the comment sign at least.\<close>

lemma advance_props:
  "advance state = (c, state') \<Longrightarrow>
     contents state' = contents state \<and> pos state \<le> pos state'
     \<and> (pos state \<le> length (contents state) \<longrightarrow> pos state' \<le> length (contents state))
     \<and> (c \<noteq> nul \<longrightarrow> pos state < pos state' \<and> remaining state' < remaining state)
     \<and> (c \<noteq> nul \<longrightarrow> \<not> isspace c)"
proof (induction state arbitrary: c state' rule: advance.induct)
  case (1 state)
  show ?case
  proof (cases "fgetc state")
    case (Pair r state1)
    show ?thesis
    proof (cases r)
      case None
      with "1.prems" Pair show ?thesis
        by (auto simp: advance.simps [of state] fgetc_def split: if_splits)
    next
      case (Some a)
      note g = fgetc_some [of state a state1] Pair Some
      show ?thesis
      proof (cases "isspace a")
        case True
        with "1.prems" g have "advance state1 = (c, state')" by (simp add: advance.simps [of state])
        from "1.IH" [OF _ _ _ this] Pair Some True show ?thesis using g by fastforce
      next
        case False
        with "1.prems" g show ?thesis by (auto simp: advance.simps [of state])
      qed
    qed
  qed
qed

lemma skip_line_props:
  "contents (skip_line state) = contents state \<and> pos state \<le> pos (skip_line state)
   \<and> (pos state \<le> length (contents state) \<longrightarrow> pos (skip_line state) \<le> length (contents state))"
proof (induction state rule: skip_line.induct)
  case (1 state)
  then show ?case
    using skip_line.simps [of state] by (auto simp: fgetc_def split: if_splits)
qed

lemma try_advance_props:
  assumes "try_advance state p = (c, state')"
  shows "contents state' = contents state" "pos state \<le> pos state'"
    "pos state \<le> length (contents state) \<Longrightarrow> pos state' \<le> length (contents state)"
    "c \<noteq> nul \<Longrightarrow> pos state < pos state'" "c \<noteq> nul \<Longrightarrow> remaining state' < remaining state"
    "c \<noteq> nul \<Longrightarrow> p c"
  using assms advance_props [of state]
  by (fastforce simp: try_advance_def rewind_one_def split: prod.splits if_splits)+

lemma remaining_mono:
  "contents t = contents s \<Longrightarrow> pos s \<le> pos t \<Longrightarrow> remaining t \<le> remaining s"
  by (auto simp: remaining_def)

function skip_comments :: "parser_state \<Rightarrow> parser_state" where
  "skip_comments state =
     (let (c, state1) = try_advance state is_comment_start in
      if c \<noteq> nul then skip_comments (skip_line state1) else state1)"
  by pat_completeness auto
termination
proof (relation "measure remaining")
  fix state :: parser_state and x c state1
  assume x: "x = try_advance state is_comment_start" "(c, state1) = x" and "c \<noteq> nul"
  then have "remaining state1 < remaining state" using try_advance_props(5) by metis
  then show "(skip_line state1, state) \<in> measure remaining"
    using skip_line_props [of state1] remaining_mono [of "skip_line state1" state1] by simp
qed simp

declare skip_comments.simps [simp del]

text \<open>
  A statement returns the flag \<^verbatim>\<open>*end\<close> next to the node. \<open>closes_block\<close> is the test on the
  word after \<^verbatim>\<open>END\<close>.
\<close>

definition closes_block :: "string \<Rightarrow> parser_state \<Rightarrow> bool \<times> parser_state" where
  "closes_block keyword state =
     (case advance_until_separator state of
        (None, state1) \<Rightarrow> (False, state1)
      | (Some next, state1) \<Rightarrow> (next = keyword, state1))"

type_synonym parsed_statement = "(bool \<times> node option \<times> parser_state) option"

definition let_statement :: "nat \<Rightarrow> parser_state \<Rightarrow> parsed_statement" where
  "let_statement f state =
     (let (var, state1) = advance state in
      if \<not> is_variable_name var then Some (False, None, state1)
      else
        let (eq, state2) = advance state1 in
        if eq \<noteq> CHR ''='' then Some (False, None, state2)
        else do {
          (e, state3) \<leftarrow> expression f state2;
          Some (False, init_let_node var e, state3)
        })"

text \<open>The bodies of \<^verbatim>\<open>IF\<close> and \<^verbatim>\<open>WHILE\<close>; the argument \<open>seq\<close> is the recursive call of \<^verbatim>\<open>sequence\<close>.\<close>

definition if_statement :: "(parser_state \<Rightarrow> parsed) \<Rightarrow> nat \<Rightarrow> parser_state \<Rightarrow> parsed_statement" where
  "if_statement seq f state = do {
     (condition, state1) \<leftarrow> comparison f state;
     (if_branch, state2) \<leftarrow> seq state1;
     let (word, state3) = advance_until_separator state2;
     (else_branch, word', state4) \<leftarrow>
       (if word = Some ''ELSE'' then do {
          (else_branch, s1) \<leftarrow> seq state3;
          let (word', s2) = advance_until_separator s1;
          Some (else_branch, word', s2)
        }
        else Some (None, word, state3));
     if word' \<noteq> Some ''END'' then Some (False, None, state4)
     else
       let (closed, state5) = closes_block ''IF'' state4 in
       if \<not> closed then Some (False, None, state5)
       else Some (False, init_if_node condition if_branch else_branch, state5)
   }"

definition while_statement :: "(parser_state \<Rightarrow> parsed) \<Rightarrow> nat \<Rightarrow> parser_state \<Rightarrow> parsed_statement" where
  "while_statement seq f state = do {
     (condition, state1) \<leftarrow> comparison f state;
     (body, state2) \<leftarrow> seq state1;
     let (word, state3) = advance_until_separator state2;
     if word \<noteq> Some ''END'' then Some (False, None, state3)
     else
       let (closed, state4) = closes_block ''WHILE'' state3 in
       if \<not> closed then Some (False, None, state4)
       else Some (False, init_while_node condition body, state4)
   }"

text \<open>\<^verbatim>\<open>END\<close> at the start of a statement must be followed by \<^verbatim>\<open>IF\<close> or \<^verbatim>\<open>WHILE\<close>, and is left in place.\<close>

definition end_statement :: "nat \<Rightarrow> parser_state \<Rightarrow> parsed_statement" where
  "end_statement start state =
     (case advance_until_separator state of
        (None, state1) \<Rightarrow> Some (False, None, state1)
      | (Some next, state1) \<Rightarrow>
          (if \<not> (next = ''IF'' \<or> next = ''WHILE'') then Some (False, None, state1)
           else Some (True, None, restore_position state1 start)))"

fun statement :: "nat \<Rightarrow> parser_state \<Rightarrow> parsed_statement"
  and sequence_loop :: "nat \<Rightarrow> node list \<Rightarrow> parser_state \<Rightarrow> parsed" where
  "statement 0 state = None"
| "statement (Suc f) state =
     (let state1 = skip_comments state; start = save_position state1 in
      case advance_until_separator state1 of
        (None, state2) \<Rightarrow> Some (True, None, state2)
      | (Some next, state2) \<Rightarrow>
          (if next = ''ELSE'' then Some (True, None, restore_position state2 start)
           else if next = ''END'' then end_statement start state2
           else if next = ''PRINT'' then do {
             (e, state3) \<leftarrow> expression f state2;
             Some (False, init_print_node e, state3)
           }
           else if next = ''LET'' then let_statement f state2
           else if next = ''IF'' then if_statement (\<lambda>s. sequence_loop f [] s) f state2
           else if next = ''WHILE'' then while_statement (\<lambda>s. sequence_loop f [] s) f state2
           else Some (False, None, state2)))"
| "sequence_loop 0 statements state = None"
| "sequence_loop (Suc f) statements state = do {
     (end_reached, next, state1) \<leftarrow> statement f state;
     if end_reached then
       Some (case statements of
               [s] \<Rightarrow> Some s
             | _ \<Rightarrow> init_sequence_node (length statements)
                      (if statements = [] then None else Some statements), state1)
     else case next of
       None \<Rightarrow> Some (None, state1)
     | Some s \<Rightarrow> sequence_loop f (statements @ [s]) state1
   }"

definition sequence :: "nat \<Rightarrow> parser_state \<Rightarrow> parsed" where
  "sequence f state = sequence_loop f [] state"

definition parse_fuel :: "nat \<Rightarrow> string \<Rightarrow> node option option" where
  "parse_fuel f program = do {
     (ast, state) \<leftarrow> sequence f \<lparr>contents = program, pos = 0\<rparr>;
     let (ended, _) = at_end state;
     Some (if ended then ast else None)
   }"

text \<open>Enough fuel for a file of the given length (\<open>parse_total\<close>).\<close>

definition parse :: "string \<Rightarrow> node option" where
  "parse program = (case parse_fuel (4 * length program + 3) program of
     None \<Rightarrow> None | Some ast \<Rightarrow> ast)"

section \<open>The parser makes progress\<close>

definition follows :: "parser_state \<Rightarrow> parser_state \<Rightarrow> bool" where
  "follows s t \<longleftrightarrow> contents t = contents s \<and> pos s \<le> pos t"

lemma follows_refl [simp]: "follows s s"
  by (simp add: follows_def)

lemma follows_trans: "follows s t \<Longrightarrow> follows t u \<Longrightarrow> follows s u"
  by (simp add: follows_def)

lemma follows_remaining: "follows s t \<Longrightarrow> remaining t \<le> remaining s"
  by (simp add: follows_def remaining_mono)

lemma advance_follows: "advance s = (c, t) \<Longrightarrow> follows s t"
  using advance_props by (simp add: follows_def)

lemma try_advance_follows: "try_advance s p = (c, t) \<Longrightarrow> follows s t"
  using try_advance_props(1,2) by (simp add: follows_def)

lemma until_separator_loop_props:
  "until_separator_loop r s = (w, t) \<Longrightarrow> follows s t \<and>
     (\<forall>x. w = Some x \<longrightarrow> x \<noteq> [] \<and> length x \<le> MAX_KEYWORD_LENGTH
        \<and> (\<exists>v. x = r @ v \<and> remaining t + length v \<le> remaining s))"
proof (induction r s arbitrary: w t rule: until_separator_loop.induct)
  case (1 r s)
  show ?case
  proof (cases "MAX_KEYWORD_LENGTH < length r")
    case True
    with "1.prems" show ?thesis by (simp add: until_separator_loop.simps [of r s])
  next
    case len: False
    show ?thesis
    proof (cases "fgetc s")
      case (Pair o1 s1)
      show ?thesis
      proof (cases o1)
        case None
        with "1.prems" Pair len show ?thesis
          by (auto simp: until_separator_loop.simps [of r s] Let_def fgetc_def split: if_splits)
      next
        case (Some c)
        with Pair have g: "fgetc s = (Some c, s1)" by simp
        have s1: "contents s1 = contents s" "pos s1 = Suc (pos s)" "Suc (remaining s1) = remaining s"
          using fgetc_some [OF g] by (auto simp: remaining_def)
        then have fs: "follows s s1" "rewind_one s1 = s"
          by (simp_all add: follows_def rewind_one_def)
        consider (stop) "w = Some r" "t = s" "r \<noteq> []" | (space) "w = Some r" "t = s1" "r \<noteq> []"
          | (skip) "isspace c" "r = []" "until_separator_loop r s1 = (w, t)"
          | (add) "\<not> (is_operator c \<and> length r > 0)" "\<not> isspace c" "until_separator_loop (r @ [c]) s1 = (w, t)"
          using "1.prems" len g fs by (auto simp: until_separator_loop.simps [of r s] Let_def split: if_splits)
        then show ?thesis
        proof cases
          case skip
          have "follows s1 t \<and> (\<forall>x. w = Some x \<longrightarrow> x \<noteq> [] \<and> length x \<le> MAX_KEYWORD_LENGTH
              \<and> (\<exists>v. x = r @ v \<and> remaining t + length v \<le> remaining s1))"
            by (rule "1.IH"(1) [OF refl len g [symmetric] refl _ _ _ skip(3)]) (use skip in simp_all)
          moreover from this have "follows s t" using fs(1) by (blast intro: follows_trans)
          ultimately show ?thesis using s1(3) by fastforce
        next
          case add
          have "follows s1 t \<and> (\<forall>x. w = Some x \<longrightarrow> x \<noteq> [] \<and> length x \<le> MAX_KEYWORD_LENGTH
              \<and> (\<exists>v. x = (r @ [c]) @ v \<and> remaining t + length v \<le> remaining s1))"
            by (rule "1.IH"(2) [OF refl len g [symmetric] refl _ _ add(3)]) (use add in simp_all)
          moreover from this have "follows s t" using fs(1) by (blast intro: follows_trans)
          ultimately show ?thesis using s1(3) by fastforce
        qed (use s1 fs len in auto)
      qed
    qed
  qed
qed

lemma word_follows: "advance_until_separator s = (w, t) \<Longrightarrow> follows s t"
  using until_separator_loop_props [of "[]" s] by (auto simp: advance_until_separator_def split: prod.splits)

lemma word_remaining: "advance_until_separator s = (Some w, t) \<Longrightarrow> remaining t < remaining s"
proof -
  assume "advance_until_separator s = (Some w, t)"
  then obtain x where "until_separator_loop [] s = (Some x, t)"
    by (auto simp: advance_until_separator_def split: prod.splits)
  from until_separator_loop_props [OF this] show ?thesis
    by (cases x) auto
qed

lemma num_props: "num s = (r, t) \<Longrightarrow> follows s t \<and> (\<forall>e. r = Some e \<longrightarrow> wf_expr e)"
  by (auto simp: num_def init_num_node_def word_follows split: prod.splits option.splits if_splits)

lemma skip_comments_follows: "follows s (skip_comments s)"
proof (induction s rule: skip_comments.induct)
  case (1 s)
  obtain c s1 where g: "try_advance s is_comment_start = (c, s1)" by fastforce
  have "follows s s1" "follows s1 (skip_line s1)"
    using try_advance_follows [OF g] skip_line_props by (simp_all add: follows_def)
  moreover have "follows (skip_line s1) (skip_comments (skip_line s1))" if "c \<noteq> nul"
    by (rule 1 [OF g [symmetric] refl that])
  ultimately have "follows s s1" "c \<noteq> nul \<Longrightarrow> follows s (skip_comments (skip_line s1))"
    by (blast intro: follows_trans)+
  then show ?case by (simp add: skip_comments.simps [of s] g)
qed

definition wf_opt :: "node option \<Rightarrow> bool" where
  "wf_opt r \<longleftrightarrow> (\<forall>e. r = Some e \<longrightarrow> wf_expr e)"

lemma wf_opt_simps [simp]: "wf_opt None" "wf_opt (Some e) = wf_expr e"
  by (simp_all add: wf_opt_def)

lemma wf_opt_binary:
  "wf_opt l \<Longrightarrow> wf_opt r \<Longrightarrow> arith_op op \<Longrightarrow> wf_opt (init_binary_node op l r)"
  by (auto simp: init_binary_node_def split: option.splits)

lemma bind_pairE:
  assumes "m \<bind> (\<lambda>(a, b). k a b) = Some z"
  obtains a b where "m = Some (a, b)" "k a b = Some z"
  using assms by (cases m) auto

lemma expr_props:
  "factor f s = Some (r, t) \<Longrightarrow> follows s t \<and> wf_opt r"
  "parse_term f s = Some (r, t) \<Longrightarrow> follows s t \<and> wf_opt r"
  "term_loop f acc s = Some (r, t) \<Longrightarrow> wf_opt acc \<Longrightarrow> follows s t \<and> wf_opt r"
  "expression f s = Some (r, t) \<Longrightarrow> follows s t \<and> wf_opt r"
  "expression_loop f acc s = Some (r, t) \<Longrightarrow> wf_opt acc \<Longrightarrow> follows s t \<and> wf_opt r"
proof (induction f s and f s and f acc s and f s and f acc s arbitrary: r t and r t and r t and r t and r t
    rule: factor_parse_term_term_loop_expression_expression_loop.induct)
  case (2 f s)
  obtain c1 s1 where g1: "try_advance s is_open_paren = (c1, s1)" by fastforce
  obtain c2 s2 where g2: "try_advance s1 is_variable_name = (c2, s2)" by fastforce
  note fl = try_advance_follows [OF g1] try_advance_follows [OF g2]
  show ?case
  proof (cases "c1 = nul")
    case True
    have "follows s s2" using fl by (rule follows_trans)
    moreover have "num s2 = (r, t) \<or> s2 = t \<and> r = Some (VAR c2) \<and> isupper c2"
      using "2.prems" True g1 g2 try_advance_props(6) [OF g2]
      by (auto simp: init_var_node_def is_variable_name_def split: if_splits)
    ultimately show ?thesis
      using num_props [of s2 r t] follows_trans [of s s2 t] by (auto simp: wf_opt_def)
  next
    case False
    with "2.prems" g1 obtain r1 s3 where e: "expression f s1 = Some (r1, s3)"
      and k: "(let (close, s4) = try_advance s3 is_close_paren in Some (if close = nul then None else r1, s4)) = Some (r, t)"
      by (auto elim!: bind_pairE)
    have "follows s1 s3 \<and> wf_opt r1" by (rule "2.IH" [OF g1 [symmetric] refl False e])
    moreover obtain c4 s4 where g4: "try_advance s3 is_close_paren = (c4, s4)" by fastforce
    moreover have "follows s s3" using fl(1) calculation(1) by (blast intro: follows_trans)
    ultimately show ?thesis
      using k follows_trans [OF _ try_advance_follows [OF g4], of s] by auto
  qed
next
  case (4 f s)
  from "4.prems" obtain r1 s1 where 1: "factor f s = Some (r1, s1)" "term_loop f r1 s1 = Some (r, t)"
    by (auto elim!: bind_pairE)
  from "4.IH"(1) [OF 1(1)] "4.IH"(2) [OF 1(1) refl 1(2)] show ?case by (blast intro: follows_trans)
next
  case (6 f acc s)
  obtain c s1 where g: "try_advance s is_factor_op = (c, s1)" by fastforce
  show ?case
  proof (cases "c = nul")
    case True
    with "6.prems" g try_advance_follows [OF g] show ?thesis by simp
  next
    case False
    with "6.prems"(1) g obtain r1 s2 where 1: "factor f s1 = Some (r1, s2)"
      and 2: "term_loop f (init_binary_node c acc r1) s2 = Some (r, t)" by (auto elim!: bind_pairE)
    have f1: "follows s1 s2 \<and> wf_opt r1" by (rule "6.IH"(1) [OF g [symmetric] refl False 1])
    moreover have "arith_op c" using try_advance_props(6) [OF g False] by (auto simp: is_factor_op_def arith_op_def)
    ultimately have "wf_opt (init_binary_node c acc r1)" using "6.prems"(2) by (simp add: wf_opt_binary)
    from "6.IH"(2) [OF g [symmetric] refl False 1 refl 2 this] f1 try_advance_follows [OF g]
    show ?thesis by (blast intro: follows_trans)
  qed
next
  case (8 f s)
  from "8.prems" obtain r1 s1 where 1: "parse_term f s = Some (r1, s1)" "expression_loop f r1 s1 = Some (r, t)"
    by (auto elim!: bind_pairE)
  from "8.IH"(1) [OF 1(1)] "8.IH"(2) [OF 1(1) refl 1(2)] show ?case by (blast intro: follows_trans)
next
  case (10 f acc s)
  obtain c s1 where g: "try_advance s is_term_op = (c, s1)" by fastforce
  show ?case
  proof (cases "c = nul")
    case True
    with "10.prems" g try_advance_follows [OF g] show ?thesis by simp
  next
    case False
    with "10.prems"(1) g obtain r1 s2 where 1: "parse_term f s1 = Some (r1, s2)"
      and 2: "expression_loop f (init_binary_node c acc r1) s2 = Some (r, t)" by (auto elim!: bind_pairE)
    have f1: "follows s1 s2 \<and> wf_opt r1" by (rule "10.IH"(1) [OF g [symmetric] refl False 1])
    moreover have "arith_op c" using try_advance_props(6) [OF g False] by (auto simp: is_term_op_def arith_op_def)
    ultimately have "wf_opt (init_binary_node c acc r1)" using "10.prems"(2) by (simp add: wf_opt_binary)
    from "10.IH"(2) [OF g [symmetric] refl False 1 refl 2 this] f1 try_advance_follows [OF g]
    show ?thesis by (blast intro: follows_trans)
  qed
next
  case (1 s) then show ?case by simp
next
  case (3 s) then show ?case by simp
next
  case (5 a s) then show ?case by simp
next
  case (7 s) then show ?case by simp
next
  case (9 a s) then show ?case by simp
qed


lemma expr_total:
  "4 * remaining s + 1 \<le> f \<Longrightarrow> \<exists>x. factor f s = Some x"
  "4 * remaining s + 2 \<le> f \<Longrightarrow> \<exists>x. parse_term f s = Some x"
  "4 * remaining s + 1 \<le> f \<Longrightarrow> \<exists>x. term_loop f acc s = Some x"
  "4 * remaining s + 3 \<le> f \<Longrightarrow> \<exists>x. expression f s = Some x"
  "4 * remaining s + 1 \<le> f \<Longrightarrow> \<exists>x. expression_loop f acc s = Some x"
proof (induction f s and f s and f acc s and f s and f acc s
    rule: factor_parse_term_term_loop_expression_expression_loop.induct)
  case (2 f s)
  obtain c1 s1 where g1: "try_advance s is_open_paren = (c1, s1)" by fastforce
  show ?case
  proof (cases "c1 = nul")
    case False
    from try_advance_props(5) [OF g1 False] "2.prems" have "4 * remaining s1 + 3 \<le> f" by simp
    then obtain x where "expression f s1 = Some x" using "2.IH" [OF g1 [symmetric] refl False] by blast
    then show ?thesis using g1 False by (cases x) (simp split: prod.splits)
  qed (simp add: g1 split: prod.splits)
next
  case (4 f s)
  then obtain r s1 where x: "factor f s = Some (r, s1)" by fastforce
  then have "remaining s1 \<le> remaining s" using expr_props(1) follows_remaining by blast
  with "4.prems" have "\<exists>x. term_loop f r s1 = Some x" by (intro "4.IH"(2) [OF x refl]) simp
  with x show ?case by simp
next
  case (6 f acc s)
  obtain c s1 where g: "try_advance s is_factor_op = (c, s1)" by fastforce
  show ?case
  proof (cases "c = nul")
    case False
    from try_advance_props(5) [OF g False] "6.prems" have f: "4 * remaining s1 + 2 \<le> f" by simp
    then obtain r s2 where x: "factor f s1 = Some (r, s2)"
      using "6.IH"(1) [OF g [symmetric] refl False] by fastforce
    then have "remaining s2 \<le> remaining s1" using expr_props(1) follows_remaining by blast
    with f have "\<exists>x. term_loop f (init_binary_node c acc r) s2 = Some x"
      by (intro "6.IH"(2) [OF g [symmetric] refl False x refl]) simp
    with x g False show ?thesis by simp
  qed (simp add: g)
next
  case (8 f s)
  then obtain r s1 where x: "parse_term f s = Some (r, s1)" by fastforce
  then have "remaining s1 \<le> remaining s" using expr_props(2) follows_remaining by blast
  with "8.prems" have "\<exists>x. expression_loop f r s1 = Some x" by (intro "8.IH"(2) [OF x refl]) simp
  with x show ?case by simp
next
  case (10 f acc s)
  obtain c s1 where g: "try_advance s is_term_op = (c, s1)" by fastforce
  show ?case
  proof (cases "c = nul")
    case False
    from try_advance_props(5) [OF g False] "10.prems" have f: "4 * remaining s1 + 2 \<le> f" by simp
    then obtain r s2 where x: "parse_term f s1 = Some (r, s2)"
      using "10.IH"(1) [OF g [symmetric] refl False] by fastforce
    then have "remaining s2 \<le> remaining s1" using expr_props(2) follows_remaining by blast
    with f have "\<exists>x. expression_loop f (init_binary_node c acc r) s2 = Some x"
      by (intro "10.IH"(2) [OF g [symmetric] refl False x refl]) simp
    with x g False show ?thesis by simp
  qed (simp add: g)
qed simp_all

text \<open>
  The trees the parser builds. A sequence of one statement is that statement; statements
  are not sequences; a comparison whose operator is missing from the source has the
  operator \<^verbatim>\<open>'\0'\<close>.
\<close>

fun parsed_cond :: "node \<Rightarrow> bool" where
  "parsed_cond (BINARY_OP op l r) = ((compare_char op \<or> op = nul) \<and> wf_expr l \<and> wf_expr r)"
| "parsed_cond _ = False"

fun parsed_tree :: "bool \<Rightarrow> node \<Rightarrow> bool" where
  "parsed_tree b (PRINT e) = wf_expr e"
| "parsed_tree b (LET x e) = (isupper x \<and> wf_expr e)"
| "parsed_tree b (SEQUENCE ss) = (b \<and> length ss \<noteq> 1 \<and> list_all (parsed_tree False) ss)"
| "parsed_tree b (IF c t e) = (parsed_cond c \<and> parsed_tree True t
     \<and> (case e of None \<Rightarrow> True | Some n \<Rightarrow> parsed_tree True n))"
| "parsed_tree b (WHILE c n) = (parsed_cond c \<and> parsed_tree True n)"
| "parsed_tree b _ = False"

lemma parsed_tree_mono: "parsed_tree False n \<Longrightarrow> parsed_tree b n"
  by (cases n) simp_all

lemma comparison_props:
  assumes "comparison f s = Some (r, t)"
  shows "follows s t" "r = Some c \<Longrightarrow> parsed_cond c"
proof -
  from assms obtain l s1 where l: "expression f s = Some (l, s1)"
    and k: "(let (op, s2) = try_advance s1 is_comparison_op in
      expression f s2 \<bind> (\<lambda>(r, s3). Some (init_binary_node op l r, s3))) = Some (r, t)"
    unfolding comparison_def by (auto elim!: bind_pairE)
  obtain op s2 where g: "try_advance s1 is_comparison_op = (op, s2)" by fastforce
  from k g obtain r1 where r: "expression f s2 = Some (r1, t)" "r = init_binary_node op l r1"
    by (auto elim!: bind_pairE)
  from expr_props(4) [OF l] expr_props(4) [OF r(1)] try_advance_follows [OF g]
  show "follows s t" by (blast intro: follows_trans)
  show "parsed_cond c" if "r = Some c"
    using expr_props(4) [OF l] expr_props(4) [OF r(1)] try_advance_props(6) [OF g] that r(2)
    by (auto simp: init_binary_node_def compare_char_def is_comparison_op_def split: option.splits)
qed

lemma comparison_total:
  assumes "4 * remaining s + 3 \<le> f"
  shows "\<exists>x. comparison f s = Some x"
proof -
  from expr_total(4) [OF assms] obtain l s1 where l: "expression f s = Some (l, s1)" by fastforce
  obtain op s2 where g: "try_advance s1 is_comparison_op = (op, s2)" by fastforce
  have "remaining s2 \<le> remaining s"
    using expr_props(4) [OF l] try_advance_follows [OF g] by (blast intro: follows_trans follows_remaining)
  with assms have "4 * remaining s2 + 3 \<le> f" by simp
  from expr_total(4) [OF this] obtain r t where "expression f s2 = Some (r, t)" by fastforce
  with l g show ?thesis by (simp add: comparison_def)
qed


section \<open>Every program is parsed to a grammatical tree\<close>

text \<open>
  \<open>stmt_post s x\<close>: what a statement parsed from \<open>s\<close> returns. A node comes without
  the end flag.
\<close>

definition stmt_post :: "parser_state \<Rightarrow> bool \<times> node option \<times> parser_state \<Rightarrow> bool" where
  "stmt_post s x \<longleftrightarrow> (case x of (e, r, t) \<Rightarrow> follows s t
     \<and> (\<forall>n. r = Some n \<longrightarrow> \<not> e \<and> parsed_tree False n))"

definition seq_post :: "parser_state \<Rightarrow> node option \<times> parser_state \<Rightarrow> bool" where
  "seq_post s x \<longleftrightarrow> (case x of (r, t) \<Rightarrow> follows s t \<and> (\<forall>n. r = Some n \<longrightarrow> parsed_tree True n))"

lemma closes_block_follows: "closes_block w s = (b, t) \<Longrightarrow> follows s t"
  by (auto simp: closes_block_def word_follows split: prod.splits option.splits)

lemma let_statement_post:
  assumes "let_statement f s = Some x"
  shows "stmt_post s x"
proof -
  obtain v s1 where g1: "advance s = (v, s1)" by fastforce
  obtain c s2 where g2: "advance s1 = (c, s2)" by fastforce
  have f2: "follows s s1" "follows s s2"
    using advance_follows [OF g1] advance_follows [OF g2] by (blast intro: follows_trans)+
  consider "x = (False, None, s1)" | "x = (False, None, s2)"
    | e s3 where "is_variable_name v" "expression f s2 = Some (e, s3)" "x = (False, init_let_node v e, s3)"
    using assms g1 g2 by (auto simp: let_statement_def split: if_splits elim!: bind_pairE)
  then show ?thesis
  proof cases
    case 3
    with expr_props(4) [OF 3(2)] f2(2) follows_trans [of s s2 s3] show ?thesis
      by (auto simp: stmt_post_def init_let_node_def is_variable_name_def split: if_splits option.splits)
  qed (use f2 in \<open>simp_all add: stmt_post_def\<close>)
qed

lemma let_statement_total:
  assumes "4 * remaining s + 3 \<le> f"
  shows "\<exists>x. let_statement f s = Some x"
proof -
  obtain v s1 where g1: "advance s = (v, s1)" by fastforce
  obtain c s2 where g2: "advance s1 = (c, s2)" by fastforce
  have "remaining s2 \<le> remaining s"
    using advance_follows [OF g1] advance_follows [OF g2] by (blast intro: follows_trans follows_remaining)
  with assms have "4 * remaining s2 + 3 \<le> f" by simp
  from expr_total(4) [OF this] obtain e t where "expression f s2 = Some (e, t)" by fastforce
  with g1 g2 show ?thesis by (auto simp: let_statement_def)
qed

lemma end_statement_post:
  assumes "end_statement (pos s) s1 = Some x" and "follows s s1"
  shows "stmt_post s x"
proof -
  obtain w s2 where g: "advance_until_separator s1 = (w, s2)" by fastforce
  have f2: "follows s s2" using assms(2) word_follows [OF g] by (rule follows_trans)
  then have "follows s (restore_position s2 (pos s))" by (simp add: follows_def restore_position_def)
  with assms(1) g f2 show ?thesis
    by (auto simp: end_statement_def stmt_post_def split: option.splits if_splits)
qed

lemma end_statement_total: "\<exists>x. end_statement p s = Some x"
proof -
  obtain w t where "advance_until_separator s = (w, t)" by fastforce
  then have "end_statement p s \<noteq> None" by (cases w) (simp_all add: end_statement_def del: not_None_eq)
  then show ?thesis by blast
qed

lemma if_statement_post:
  assumes seq: "\<And>s x. seq s = Some x \<Longrightarrow> seq_post s x" and x: "if_statement seq f s = Some x"
  shows "stmt_post s x"
proof -
  from x obtain c s1 t s2 where c: "comparison f s = Some (c, s1)" and t: "seq s1 = Some (t, s2)"
    unfolding if_statement_def by (auto elim!: bind_pairE)
  obtain w s3 where w: "advance_until_separator s2 = (w, s3)" by fastforce
  define el where "el = (if w = Some ''ELSE'' then do {
      (else_branch, s1) \<leftarrow> seq s3;
      let (word', s2) = advance_until_separator s1;
      Some (else_branch, word', s2) } else Some (None, w, s3))"
  from x c t w obtain e w' s4 where e: "el = Some (e, w', s4)"
    and k: "(if w' \<noteq> Some ''END'' then Some (False, None, s4)
      else let (closed, s5) = closes_block ''IF'' s4 in
        if \<not> closed then Some (False, None, s5) else Some (False, init_if_node c t e, s5)) = Some x"
    unfolding if_statement_def el_def [symmetric] by (auto simp: el_def [symmetric] split: bind_splits)
  have f3: "follows s s3" and tr: "\<And>n. t = Some n \<Longrightarrow> parsed_tree True n"
    using comparison_props(1) [OF c] seq [OF t] word_follows [OF w]
    by (auto simp: seq_post_def dest: follows_trans)
  have e4: "follows s s4 \<and> (\<forall>n. e = Some n \<longrightarrow> parsed_tree True n)"
  proof (cases "w = Some ''ELSE''")
    case True
    with e obtain s5 where "seq s3 = Some (e, s5)" "advance_until_separator s5 = (w', s4)"
      by (auto simp: el_def elim!: bind_pairE split: prod.splits)
    with seq [of s3] word_follows [of s5] f3 show ?thesis
      by (auto simp: seq_post_def dest: follows_trans)
  next
    case False
    with e f3 show ?thesis by (simp add: el_def)
  qed
  obtain b s5 where cb: "closes_block ''IF'' s4 = (b, s5)" by fastforce
  with e4 have "follows s s5" using closes_block_follows follows_trans by blast
  with k e4 cb tr comparison_props(2) [OF c] show ?thesis
    by (auto simp: stmt_post_def init_if_node_def split: if_splits option.splits)
qed

lemma while_statement_post:
  assumes seq: "\<And>s x. seq s = Some x \<Longrightarrow> seq_post s x" and x: "while_statement seq f s = Some x"
  shows "stmt_post s x"
proof -
  from x obtain c s1 t s2 where c: "comparison f s = Some (c, s1)" and t: "seq s1 = Some (t, s2)"
    unfolding while_statement_def by (auto elim!: bind_pairE)
  obtain w s3 where w: "advance_until_separator s2 = (w, s3)" by fastforce
  obtain b s4 where cb: "closes_block ''WHILE'' s3 = (b, s4)" by fastforce
  have f3: "follows s s3" and tr: "\<And>n. t = Some n \<Longrightarrow> parsed_tree True n"
    using comparison_props(1) [OF c] seq [OF t] word_follows [OF w]
    by (auto simp: seq_post_def dest: follows_trans)
  then have "follows s s4" using closes_block_follows [OF cb] by (blast intro: follows_trans)
  with x c t w cb f3 tr comparison_props(2) [OF c] show ?thesis
    by (auto simp: while_statement_def stmt_post_def init_while_node_def split: if_splits option.splits)
qed

lemma if_statement_total:
  assumes seq: "\<And>s' x. seq s' = Some x \<Longrightarrow> seq_post s' x"
    and tot: "\<And>s'. remaining s' \<le> remaining s \<Longrightarrow> \<exists>x. seq s' = Some x"
    and f: "4 * remaining s + 3 \<le> f"
  shows "\<exists>x. if_statement seq f s = Some x"
proof -
  from comparison_total [OF f] obtain c s1 where c: "comparison f s = Some (c, s1)" by fastforce
  note f1 = comparison_props(1) [OF c]
  from tot [OF follows_remaining [OF f1]] obtain t s2 where t: "seq s1 = Some (t, s2)" by fastforce
  obtain w s3 where w: "advance_until_separator s2 = (w, s3)" by fastforce
  have "follows s s3" using f1 seq [OF t] word_follows [OF w] by (auto simp: seq_post_def dest: follows_trans)
  from tot [OF follows_remaining [OF this]] obtain e s4 where "seq s3 = Some (e, s4)" by fastforce
  with c t w show ?thesis by (auto simp: if_statement_def split: prod.splits)
qed

lemma while_statement_total:
  assumes tot: "\<And>s'. remaining s' \<le> remaining s \<Longrightarrow> \<exists>x. seq s' = Some x"
    and f: "4 * remaining s + 3 \<le> f"
  shows "\<exists>x. while_statement seq f s = Some x"
proof -
  from comparison_total [OF f] obtain c s1 where c: "comparison f s = Some (c, s1)" by fastforce
  from tot [OF follows_remaining [OF comparison_props(1) [OF c]]]
  obtain t s2 where t: "seq s1 = Some (t, s2)" by fastforce
  with c show ?thesis by (auto simp: while_statement_def split: prod.splits)
qed

definition progress_post :: "parser_state \<Rightarrow> bool \<times> node option \<times> parser_state \<Rightarrow> bool" where
  "progress_post s x \<longleftrightarrow> stmt_post s x
     \<and> (fst (snd x) \<noteq> None \<longrightarrow> remaining (snd (snd x)) < remaining s)"

lemma keyword_cases:
  obtains (else_word) "w = ''ELSE''" | (end_word) "w = ''END''" | (print_word) "w = ''PRINT''"
    | (let_word) "w = ''LET''" | (if_word) "w = ''IF''" | (while_word) "w = ''WHILE''"
    | (other) "w \<notin> {''ELSE'', ''END'', ''PRINT'', ''LET'', ''IF'', ''WHILE''}"
proof -
  have "\<And>a b c d e f :: string. w = a \<or> w = b \<or> w = c \<or> w = d \<or> w = e \<or> w = f \<or> w \<notin> {a, b, c, d, e, f}"
    by blast
  from this [of "''ELSE''" "''END''" "''PRINT''" "''LET''" "''IF''" "''WHILE''"]
  show thesis using that by argo
qed

lemma statement_step:
  assumes seq: "\<And>s y. sequence_loop f [] s = Some y \<Longrightarrow> seq_post s y"
    and "statement (Suc f) s = Some x"
  shows "progress_post s x"
proof -
  define s1 where "s1 = skip_comments s"
  have f1: "follows s s1" by (simp add: s1_def skip_comments_follows)
  obtain w s2 where g: "advance_until_separator s1 = (w, s2)" by fastforce
  have f2: "follows s s2" using f1 word_follows [OF g] by (rule follows_trans)
  show ?thesis
  proof (cases w)
    case None
    with assms(2) g f2 show ?thesis by (auto simp: s1_def [symmetric] progress_post_def stmt_post_def)
  next
    case (Some nw)
    have r2: "remaining s2 < remaining s"
      using word_remaining [of s1 nw s2] g Some follows_remaining [OF f1] by simp
    have lift: "progress_post s x" if "stmt_post s2 x"
    proof (cases x)
      case (fields e r t)
      with that have "follows s2 t" "\<forall>n. r = Some n \<longrightarrow> \<not> e \<and> parsed_tree False n" by (simp_all add: stmt_post_def)
      with fields show ?thesis
        using follows_trans [OF f2] follows_remaining [of s2 t] r2 by (simp add: progress_post_def stmt_post_def)
    qed
    have x: "(if nw = ''ELSE'' then Some (True, None, restore_position s2 (pos s1))
      else if nw = ''END'' then end_statement (pos s1) s2
      else if nw = ''PRINT'' then expression f s2 \<bind> (\<lambda>(e, s3). Some (False, init_print_node e, s3))
      else if nw = ''LET'' then let_statement f s2
      else if nw = ''IF'' then if_statement (sequence_loop f []) f s2
      else if nw = ''WHILE'' then while_statement (sequence_loop f []) f s2
      else Some (False, None, s2)) = Some x"
      using assms(2)
      by (simp only: statement.simps Let_def s1_def [symmetric] g Some save_position_def prod.case option.case)
    show ?thesis
    proof (cases rule: keyword_cases [of nw])
      case else_word
      with x f1 f2 show ?thesis
        by (auto simp: progress_post_def stmt_post_def follows_def restore_position_def)
    next
      case end_word
      with x have e: "end_statement (pos s1) s2 = Some x" by simp
      have "stmt_post s1 x" by (rule end_statement_post [OF e word_follows [OF g]])
      with f1 have "stmt_post s x" using follows_trans [OF f1] by (auto simp: stmt_post_def)
      moreover have "fst (snd x) = None"
        using e by (auto simp: end_statement_def split: prod.splits option.splits if_splits)
      ultimately show ?thesis by (simp add: progress_post_def)
    next
      case print_word
      with x obtain e s3 where e: "expression f s2 = Some (e, s3)" "x = (False, init_print_node e, s3)"
        by (auto elim!: bind_pairE)
      with expr_props(4) [OF e(1)] show ?thesis
        by (intro lift) (auto simp: stmt_post_def init_print_node_def split: option.splits)
    next
      case let_word
      with x show ?thesis by (intro lift let_statement_post [of f]) simp
    next
      case if_word
      with x show ?thesis using if_statement_post [of "sequence_loop f []" f s2 x, OF seq] by (intro lift) simp
    next
      case while_word
      with x show ?thesis using while_statement_post [of "sequence_loop f []" f s2 x, OF seq] by (intro lift) simp
    next
      case other
      with x f2 show ?thesis by (auto simp: progress_post_def stmt_post_def)
    qed
  qed
qed

lemma sequence_step:
  assumes st: "\<And>s x. statement f s = Some x \<Longrightarrow> progress_post s x"
    and seq: "\<And>acc s y. sequence_loop f acc s = Some y \<Longrightarrow> list_all (parsed_tree False) acc \<Longrightarrow> seq_post s y"
    and y: "sequence_loop (Suc f) acc s = Some y" and acc: "list_all (parsed_tree False) acc"
  shows "seq_post s y"
proof -
  from y obtain e r s1 where x: "statement f s = Some (e, r, s1)"
    by (cases "statement f s") auto
  from st [OF x] have f1: "follows s s1" and r: "\<And>n. r = Some n \<Longrightarrow> parsed_tree False n"
    by (auto simp: progress_post_def stmt_post_def)
  show ?thesis
  proof (cases e)
    case True
    with y x acc f1 show ?thesis
      by (auto simp: seq_post_def init_sequence_node_def parsed_tree_mono split: list.splits)
  next
    case False
    show ?thesis
    proof (cases r)
      case None
      with y x False f1 show ?thesis by (auto simp: seq_post_def)
    next
      case (Some n)
      with y x False have "sequence_loop f (acc @ [n]) s1 = Some y" by simp
      from seq [OF this] acc r [OF Some] have "seq_post s1 y" by simp
      with f1 show ?thesis by (auto simp: seq_post_def dest: follows_trans)
    qed
  qed
qed

lemma statement_props:
  "statement f s = Some x \<Longrightarrow> progress_post s x"
  "sequence_loop f acc s = Some y \<Longrightarrow> list_all (parsed_tree False) acc \<Longrightarrow> seq_post s y"
proof (induction f arbitrary: s x acc y)
  case (Suc f)
  { case 1
    show ?case by (rule statement_step [OF _ 1], erule Suc.IH(2)) simp
  next
    case 2
    show ?case by (rule sequence_step [OF Suc.IH 2])
  }
qed simp_all

lemma statement_total:
  "4 * remaining s + 2 \<le> f \<Longrightarrow> \<exists>x. statement f s = Some x"
  "4 * remaining s + 3 \<le> f \<Longrightarrow> \<exists>x. sequence_loop f acc s = Some x"
proof (induction f arbitrary: s acc)
  case (Suc f)
  { case 1
    define s1 where "s1 = skip_comments s"
    have f1: "follows s s1" by (simp add: s1_def skip_comments_follows)
    obtain w s2 where g: "advance_until_separator s1 = (w, s2)" by fastforce
    show ?case
    proof (cases w)
      case None
      with g show ?thesis by (auto simp: s1_def)
    next
      case (Some nw)
      have "remaining s2 < remaining s"
        using word_remaining [of s1 nw s2] g Some follows_remaining [OF f1] by simp
      with 1 have f: "4 * remaining s2 + 3 \<le> f" by simp
      have seq: "\<exists>x. sequence_loop f [] s' = Some x" if "remaining s' \<le> remaining s2" for s'
        using that f by (intro Suc.IH(2)) simp
      have post: "sequence_loop f [] s' = Some y \<Longrightarrow> seq_post s' y" for s' y
        by (erule statement_props(2)) simp
      obtain e s3 where e: "expression f s2 = Some (e, s3)" using expr_total(4) [OF f] by auto
      obtain x1 where x1: "let_statement f s2 = Some x1" using let_statement_total [OF f] by blast
      obtain x2 where x2: "if_statement (sequence_loop f []) f s2 = Some x2"
        using if_statement_total [of "sequence_loop f []", OF post seq f] by blast
      obtain x3 where x3: "while_statement (sequence_loop f []) f s2 = Some x3"
        using while_statement_total [of _ "sequence_loop f []", OF seq f] by blast
      obtain x4 where x4: "end_statement (pos s1) s2 = Some x4"
        using end_statement_total by blast
      have "statement (Suc f) s \<noteq> None"
        by (simp add: s1_def [symmetric] Let_def save_position_def g Some e x1 x2 x3 x4 del: not_None_eq)
      then show ?thesis by blast
    qed
  next
    case 2
    then have "4 * remaining s + 2 \<le> f" by simp
    from Suc.IH(1) [OF this] obtain e r s1 where x: "statement f s = Some (e, r, s1)" by fastforce
    from statement_props(1) [OF x] have "r \<noteq> None \<Longrightarrow> remaining s1 < remaining s"
      by (simp add: progress_post_def)
    then have "\<exists>x. sequence_loop f a s1 = Some x" if "r \<noteq> None" for a
      using that 2 by (intro Suc.IH(2)) simp
    with x show ?case by (cases r) auto
  }
qed simp_all

section \<open>More fuel changes nothing\<close>

lemmas expr_fuel_simps = factor.simps parse_term.simps term_loop.simps expression.simps expression_loop.simps

lemma expr_fuel:
  "factor f s = Some x \<Longrightarrow> factor (Suc f) s = Some x"
  "parse_term f s = Some x \<Longrightarrow> parse_term (Suc f) s = Some x"
  "term_loop f acc s = Some x \<Longrightarrow> term_loop (Suc f) acc s = Some x"
  "expression f s = Some x \<Longrightarrow> expression (Suc f) s = Some x"
  "expression_loop f acc s = Some x \<Longrightarrow> expression_loop (Suc f) acc s = Some x"
proof (induction f arbitrary: s x acc)
  case (Suc f)
  { case 1
    obtain c s1 where g: "try_advance s is_open_paren = (c, s1)" by fastforce
    note eq = factor.simps(2) Let_def g prod.case
    show ?case
    proof (cases "c = nul")
      case True
      with 1 show ?thesis unfolding eq by simp
    next
      case False
      with 1 obtain e where e: "expression f s1 = Some e"
        unfolding eq by (cases "expression f s1") simp_all
      from 1 False show ?thesis unfolding eq by (simp only: e Suc.IH(4) [OF e])
    qed
  next
    case 2
    then obtain r s1 where 1: "factor f s = Some (r, s1)" and 2: "term_loop f r s1 = Some x"
      by (auto elim!: bind_pairE)
    from Suc.IH(1) [OF 1] Suc.IH(3) [OF 2] show ?case by (subst parse_term.simps) simp
  next
    case 3
    obtain c s1 where g: "try_advance s is_factor_op = (c, s1)" by fastforce
    show ?case
    proof (cases "c = nul")
      case True
      with 3 g show ?thesis by simp
    next
      case False
      with 3 g obtain r s2 where 1: "factor f s1 = Some (r, s2)"
        and 2: "term_loop f (init_binary_node c acc r) s2 = Some x" by (auto elim!: bind_pairE)
      from Suc.IH(1) [OF 1] Suc.IH(3) [OF 2] show ?thesis
        using g False by (subst term_loop.simps) (simp del: expr_fuel_simps)
    qed
  next
    case 4
    then obtain r s1 where 1: "parse_term f s = Some (r, s1)" and 2: "expression_loop f r s1 = Some x"
      by (auto elim!: bind_pairE)
    from Suc.IH(2) [OF 1] Suc.IH(5) [OF 2] show ?case by (subst expression.simps) (simp del: expr_fuel_simps)
  next
    case 5
    obtain c s1 where g: "try_advance s is_term_op = (c, s1)" by fastforce
    show ?case
    proof (cases "c = nul")
      case True
      with 5 g show ?thesis by simp
    next
      case False
      with 5 g obtain r s2 where 1: "parse_term f s1 = Some (r, s2)"
        and 2: "expression_loop f (init_binary_node c acc r) s2 = Some x" by (auto elim!: bind_pairE)
      from Suc.IH(2) [OF 1] Suc.IH(5) [OF 2] show ?thesis
        using g False by (subst expression_loop.simps) (simp del: expr_fuel_simps)
    qed
  }
qed simp_all

lemma comparison_fuel:
  assumes "comparison f s = Some x"
  shows "comparison (Suc f) s = Some x"
proof -
  from assms obtain l s1 where l: "expression f s = Some (l, s1)"
    unfolding comparison_def by (auto elim!: bind_pairE)
  obtain op s2 where g: "try_advance s1 is_comparison_op = (op, s2)" by fastforce
  note eq = comparison_def Let_def g Option.bind.simps prod.case
  from assms l obtain r where r: "expression f s2 = Some r"
    unfolding eq by (cases "expression f s2") (auto simp: g)
  from assms show ?thesis unfolding eq l expr_fuel(4) [OF l] r expr_fuel(4) [OF r] .
qed

lemma let_statement_fuel:
  assumes "let_statement f s = Some x"
  shows "let_statement (Suc f) s = Some x"
proof -
  obtain v s1 where g1: "advance s = (v, s1)" by fastforce
  obtain c s2 where g2: "advance s1 = (c, s2)" by fastforce
  note eq = let_statement_def Let_def g1 g2 prod.case
  show ?thesis
  proof (cases "expression f s2")
    case None
    with assms show ?thesis unfolding eq by (simp split: if_splits)
  next
    case (Some e)
    from assms show ?thesis unfolding eq Some expr_fuel(4) [OF Some] .
  qed
qed

lemma while_statement_fuel:
  assumes mono: "\<And>s x. seq s = Some x \<Longrightarrow> seq' s = Some x" and x: "while_statement seq f s = Some x"
  shows "while_statement seq' (Suc f) s = Some x"
proof -
  from x obtain c s1 t s2 where c: "comparison f s = Some (c, s1)" and t: "seq s1 = Some (t, s2)"
    unfolding while_statement_def by (auto elim!: bind_pairE)
  from x c t mono [OF t] comparison_fuel [OF c] show ?thesis by (simp add: while_statement_def)
qed

lemma if_statement_fuel:
  assumes mono: "\<And>s x. seq s = Some x \<Longrightarrow> seq' s = Some x" and x: "if_statement seq f s = Some x"
  shows "if_statement seq' (Suc f) s = Some x"
proof -
  from x obtain c s1 t s2 where c: "comparison f s = Some (c, s1)" and t: "seq s1 = Some (t, s2)"
    unfolding if_statement_def by (auto elim!: bind_pairE)
  obtain w s3 where w: "advance_until_separator s2 = (w, s3)" by fastforce
  note eqs = c t w mono [OF t] comparison_fuel [OF c]
  show ?thesis
  proof (cases "w = Some ''ELSE''")
    case True
    with x eqs obtain y where y: "seq s3 = Some y"
      by (cases "seq s3") (simp_all add: if_statement_def)
    with x eqs True mono [OF y] show ?thesis by (simp add: if_statement_def)
  next
    case False
    with x eqs show ?thesis by (simp add: if_statement_def)
  qed
qed

text \<open>A statement by its first word.\<close>

lemma statement_word:
  assumes "advance_until_separator (skip_comments s) = (Some w, s2)"
  shows "statement (Suc f) s =
     (if w = ''ELSE'' then Some (True, None, restore_position s2 (pos (skip_comments s)))
      else if w = ''END'' then end_statement (pos (skip_comments s)) s2
      else if w = ''PRINT'' then expression f s2 \<bind> (\<lambda>(e, s3). Some (False, init_print_node e, s3))
      else if w = ''LET'' then let_statement f s2
      else if w = ''IF'' then if_statement (sequence_loop f []) f s2
      else if w = ''WHILE'' then while_statement (sequence_loop f []) f s2
      else Some (False, None, s2))"
  by (simp only: statement.simps Let_def assms save_position_def prod.case option.case)

lemma statement_words:
  assumes g: "advance_until_separator (skip_comments s) = (Some w, s2)"
  shows "w = ''ELSE'' \<Longrightarrow> statement (Suc f) s = Some (True, None, restore_position s2 (pos (skip_comments s)))"
    "w = ''END'' \<Longrightarrow> statement (Suc f) s = end_statement (pos (skip_comments s)) s2"
    "w = ''PRINT'' \<Longrightarrow> statement (Suc f) s =
       expression f s2 \<bind> (\<lambda>(e, s3). Some (False, init_print_node e, s3))"
    "w = ''LET'' \<Longrightarrow> statement (Suc f) s = let_statement f s2"
    "w = ''IF'' \<Longrightarrow> statement (Suc f) s = if_statement (sequence_loop f []) f s2"
    "w = ''WHILE'' \<Longrightarrow> statement (Suc f) s = while_statement (sequence_loop f []) f s2"
    "w \<notin> {''ELSE'', ''END'', ''PRINT'', ''LET'', ''IF'', ''WHILE''} \<Longrightarrow>
       statement (Suc f) s = Some (False, None, s2)"
  unfolding statement_word [OF g] by simp_all

lemma sequence_loop_eq:
  assumes "statement f s = Some (e, r, s1)"
  shows "sequence_loop (Suc f) acc s =
     (if e then Some (case acc of [n] \<Rightarrow> Some n
        | _ \<Rightarrow> init_sequence_node (length acc) (if acc = [] then None else Some acc), s1)
      else case r of None \<Rightarrow> Some (None, s1) | Some n \<Rightarrow> sequence_loop f (acc @ [n]) s1)"
  by (simp only: sequence_loop.simps assms Option.bind.simps prod.case)

lemma statement_fuel:
  "statement f s = Some x \<Longrightarrow> statement (Suc f) s = Some x"
  "sequence_loop f acc s = Some y \<Longrightarrow> sequence_loop (Suc f) acc s = Some y"
proof (induction f arbitrary: s x acc y)
  case (Suc f)
  { case 1
    obtain w s2 where g: "advance_until_separator (skip_comments s) = (w, s2)" by fastforce
    show ?case
    proof (cases w)
      case None
      with 1 g show ?thesis by simp
    next
      case (Some nw)
      with g have g: "advance_until_separator (skip_comments s) = (Some nw, s2)" by simp
      show ?thesis
      proof (cases rule: keyword_cases [of nw])
        case print_word
        note eq = statement_words(3) [OF g print_word]
        from 1 obtain e where e: "expression f s2 = Some e"
          unfolding eq by (cases "expression f s2") auto
        from 1 show ?thesis unfolding eq by (simp only: e expr_fuel(4) [OF e])
      next
        case let_word
        from 1 show ?thesis unfolding statement_words(4) [OF g let_word] by (rule let_statement_fuel)
      next
        case if_word
        from 1 show ?thesis
          unfolding statement_words(5) [OF g if_word] by (rule if_statement_fuel [rotated]) (erule Suc.IH(2))
      next
        case while_word
        from 1 show ?thesis
          unfolding statement_words(6) [OF g while_word] by (rule while_statement_fuel [rotated]) (erule Suc.IH(2))
      next
        case else_word
        from 1 show ?thesis unfolding statement_words(1) [OF g else_word] .
      next
        case end_word
        from 1 show ?thesis unfolding statement_words(2) [OF g end_word] .
      next
        case other
        from 1 show ?thesis unfolding statement_words(7) [OF g other] .
      qed
    qed
  next
    case 2
    then obtain e r s1 where x: "statement f s = Some (e, r, s1)"
      by (cases "statement f s") auto
    from 2 show ?case
      unfolding sequence_loop_eq [OF x] sequence_loop_eq [OF Suc.IH(1) [OF x]]
      using Suc.IH(2) by (cases e; cases r) simp_all
  }
qed simp_all

lemma sequence_fuel:
  assumes "sequence f s = Some x" and "f \<le> g"
  shows "sequence g s = Some x"
  using assms(2)
proof (induction rule: dec_induct)
  case base
  then show ?case by (rule assms(1))
next
  case (step n)
  then show ?case unfolding sequence_def by (blast intro: statement_fuel(2))
qed

section \<open>Properties\<close>

lemma parse_fuel_some:
  assumes "4 * length program + 3 \<le> f"
  shows "\<exists>r. parse_fuel f program = Some r"
proof -
  have "\<exists>x. sequence f \<lparr>contents = program, pos = 0\<rparr> = Some x"
    unfolding sequence_def by (rule statement_total(2)) (use assms in \<open>simp add: remaining_def\<close>)
  then show ?thesis by (auto simp: parse_fuel_def split: prod.splits)
qed

lemma parse_fuel_mono:
  assumes "parse_fuel f program = Some r" and "f \<le> g"
  shows "parse_fuel g program = Some r"
proof -
  from assms(1) obtain x where x: "sequence f \<lparr>contents = program, pos = 0\<rparr> = Some x"
    by (cases "sequence f \<lparr>contents = program, pos = 0\<rparr>") (auto simp: parse_fuel_def)
  from assms(1) show ?thesis unfolding parse_fuel_def x sequence_fuel [OF x assms(2)] .
qed

lemma parse_fuel_grammatical:
  assumes "parse_fuel f program = Some (Some ast)"
  shows "parsed_tree True ast"
proof -
  from assms obtain t where "sequence f \<lparr>contents = program, pos = 0\<rparr> = Some (Some ast, t)"
    by (auto simp: parse_fuel_def split: bind_splits prod.splits if_splits)
  then show ?thesis
    using statement_props(2) [of f "[]" "\<lparr>contents = program, pos = 0\<rparr>"]
    by (auto simp: sequence_def seq_post_def)
qed


definition sample_program :: string where
  "sample_program = ''LET A = 0x10 # comment'' @ newline @ ''PRINT (A+2) * -3'' @ newline"

lemma parse_sample: "parse sample_program = Some (SEQUENCE [LET (CHR ''A'') (NUM 16),
    PRINT (BINARY_OP (CHR ''*'') (BINARY_OP (CHR ''+'') (VAR (CHR ''A'')) (NUM 2)) (NUM (- 3)))])"
  by code_simp


text \<open>
  A word that \<^verbatim>\<open>advance_until_separator\<close> returns has at least one and at most
  \<^verbatim>\<open>MAX_KEYWORD_LENGTH\<close> bytes, so that the word and its terminating zero fit the buffer of
  \<^verbatim>\<open>MAX_KEYWORD_LENGTH + 1\<close> bytes; the stream only moves forward, past the bytes of the word.
\<close>

theorem keyword_fits_buffer:
  assumes "until_separator_loop [] s = (Some w, t)"
  shows "0 < length w \<and> length w + 1 \<le> MAX_KEYWORD_LENGTH + 1 \<and> contents t = contents s
    \<and> pos s \<le> pos t \<and> remaining t + length w \<le> remaining s"
  using until_separator_loop_props [OF assms] by (auto simp: follows_def)

theorem keyword_fits_buffer_witness:
  "length ''PRINT'' + 1 \<le> MAX_KEYWORD_LENGTH + 1"
proof -
  have "until_separator_loop [] \<lparr>contents = ''PRINT 1'', pos = 0\<rparr> =
      (Some ''PRINT'', \<lparr>contents = ''PRINT 1'', pos = 6\<rparr>)"
    by code_simp
  from keyword_fits_buffer [OF this] show ?thesis by blast
qed

text \<open>
  A syntax error inside an \<^verbatim>\<open>ELSE\<close> branch is not reported. Where the statements after
  \<^verbatim>\<open>ELSE\<close> do not parse but \<^verbatim>\<open>END IF\<close> follows the offending word, \<^verbatim>\<open>sequence\<close> returns \<^verbatim>\<open>NULL\<close>, which
  \<^verbatim>\<open>init_if_node\<close> takes for a missing branch: the program is accepted without it.
\<close>

theorem else_error_accepted:
  "parse ''IF A<1 PRINT 1 ELSE NONSENSE END IF'' =
     Some (IF (BINARY_OP (CHR ''<'') (VAR (CHR ''A'')) (NUM 1)) (PRINT (NUM 1)) None)
   \<and> parse ''IF A<1 NONSENSE ELSE PRINT 1 END IF'' = None"
  by code_simp

end
