(* ===== verification/X86_Machine.thy ===== *)
theory X86_Machine
  imports Prelude
begin

text \<open>
  The target of the TeenyBASIC compiler: the x86-64 instructions that
  \<^verbatim>\<open>src/assembly-compiler/src/compile.c\<close> and \<^verbatim>\<open>compiler.c\<close> print, with the exact text of
  each line (\<open>asm_line\<close>), and a machine that runs them. Addresses are unbounded
  integers (the machine never runs out of stack), memory holds one quadword per 8-byte
  aligned address and an unaligned access is stuck, and the flags are known only after a
  \<^verbatim>\<open>cmp\<close>: a conditional jump on flags left by any other instruction is stuck too.
  \<^verbatim>\<open>call print_int\<close> is the routine of \<^verbatim>\<open>src/assembly-compiler/runtime/print_int.s\<close>, which
  prints \<^verbatim>\<open>%rdi\<close> and then overwrites every caller-save register.
\<close>

section \<open>Instructions and their text\<close>

datatype label =
    IF_label nat | ELSE_label nat | END_IF_label nat
  | START_WHILE_label nat | WHILE_label nat | WHILE_END_label nat

datatype jcc = Jl | Jge | Jg | Jle | Je | Jne

datatype instr =
    Movq_imm_rdi i64
  | Call_print_int
  | Push_rdi
  | Pop_rcx
  | Pop_rdi
  | Cmp_rcx_rdi
  | Addq_rcx_rdi
  | Subq_rcx_rdi
  | Imulq_rcx_rdi
  | Movq_rdi_rax
  | Cqto
  | Idiv_rcx
  | Movq_rax_rdi
  | Movq_var_rdi nat
  | Movq_rdi_var nat
  | Shlq_rdi nat
  | Jcc jcc label
  | Jmp label
  | Label label
  | Push_rbp
  | Movq_rsp_rbp
  | Subq_imm_rsp nat
  | Leave
  | Ret

fun label_text :: "label \<Rightarrow> string" where
  "label_text (IF_label n) = ''.IF_'' @ print_d n"
| "label_text (ELSE_label n) = ''.ELSE_'' @ print_d n"
| "label_text (END_IF_label n) = ''.END_IF_'' @ print_d n"
| "label_text (START_WHILE_label n) = ''.START_WHILE_'' @ print_d n"
| "label_text (WHILE_label n) = ''.WHILE_'' @ print_d n"
| "label_text (WHILE_END_label n) = ''.WHILE_END_'' @ print_d n"

fun jcc_text :: "jcc \<Rightarrow> string" where
  "jcc_text Jl = ''jl''"
| "jcc_text Jge = ''jge''"
| "jcc_text Jg = ''jg''"
| "jcc_text Jle = ''jle''"
| "jcc_text Je = ''je''"
| "jcc_text Jne = ''jne''"

fun instr_text :: "instr \<Rightarrow> string" where
  "instr_text (Movq_imm_rdi v) = ''movq $'' @ print_ld v @ '', %rdi''"
| "instr_text Call_print_int = ''call print_int''"
| "instr_text Push_rdi = ''push %rdi''"
| "instr_text Pop_rcx = ''pop %rcx''"
| "instr_text Pop_rdi = ''pop %rdi''"
| "instr_text Cmp_rcx_rdi = ''cmp %rcx, %rdi''"
| "instr_text Addq_rcx_rdi = ''addq %rcx, %rdi''"
| "instr_text Subq_rcx_rdi = ''subq %rcx, %rdi''"
| "instr_text Imulq_rcx_rdi = ''imulq %rcx, %rdi''"
| "instr_text Movq_rdi_rax = ''movq %rdi, %rax''"
| "instr_text Cqto = ''cqto''"
| "instr_text Idiv_rcx = ''idiv %rcx''"
| "instr_text Movq_rax_rdi = ''movq %rax, %rdi''"
| "instr_text (Movq_var_rdi k) = ''movq -0x'' @ print_x k @ ''(%rbp), %rdi''"
| "instr_text (Movq_rdi_var k) = ''movq %rdi, -0x'' @ print_x k @ ''(%rbp)''"
| "instr_text (Shlq_rdi k) = ''shlq $'' @ print_d k @ '', %rdi''"
| "instr_text (Jcc c l) = jcc_text c @ '' '' @ label_text l"
| "instr_text (Jmp l) = ''jmp '' @ label_text l"
| "instr_text (Label l) = label_text l @ '':''"
| "instr_text Push_rbp = ''push %rbp''"
| "instr_text Movq_rsp_rbp = ''movq %rsp, %rbp''"
| "instr_text (Subq_imm_rsp n) = ''subq $'' @ print_d n @ '', %rsp''"
| "instr_text Leave = ''leave''"
| "instr_text Ret = ''ret''"

text \<open>One \<^verbatim>\<open>printf\<close> of the compiler: a tab, the instruction, a newline.\<close>

definition asm_line :: "instr \<Rightarrow> string" where
  "asm_line i = [CHR 0x09] @ instr_text i @ [CHR 0x0A]"

section \<open>Machine state\<close>

record flags =
  zf :: bool
  sf :: bool
  ovf :: bool

record machine =
  rip :: nat
  rdi :: i64
  rcx :: i64
  rax :: i64
  rdx :: i64
  rbp :: int
  rsp :: int
  rflags :: "flags option"
  mem :: "int \<Rightarrow> i64"
  dead :: "int \<Rightarrow> i64"
  outp :: "i64 list"

definition aligned :: "int \<Rightarrow> bool" where
  "aligned a \<longleftrightarrow> a mod 8 = 0"

text \<open>The flags that \<^verbatim>\<open>cmp b, a\<close> (AT\&T order) sets from the difference \<open>a - b\<close>.\<close>

definition cmp_flags :: "i64 \<Rightarrow> i64 \<Rightarrow> flags" where
  "cmp_flags a b =
     \<lparr> zf = (a - b = 0), sf = bit (a - b) 63, ovf = (sint a - sint b \<noteq> sint (a - b)) \<rparr>"

fun jcc_taken :: "jcc \<Rightarrow> flags \<Rightarrow> bool" where
  "jcc_taken Jl f = (sf f \<noteq> ovf f)"
| "jcc_taken Jge f = (sf f = ovf f)"
| "jcc_taken Jg f = (\<not> zf f \<and> sf f = ovf f)"
| "jcc_taken Jle f = (zf f \<or> sf f \<noteq> ovf f)"
| "jcc_taken Je f = zf f"
| "jcc_taken Jne f = (\<not> zf f)"

text \<open>The index of the first definition of a label.\<close>

fun label_index :: "instr list \<Rightarrow> label \<Rightarrow> nat option" where
  "label_index [] l = None"
| "label_index (i # is) l = (if i = Label l then Some 0 else map_option Suc (label_index is l))"

text \<open>
  \<^verbatim>\<open>idiv %rcx\<close>: the signed 128-bit dividend in \<^verbatim>\<open>%rdx:%rax\<close> by \<^verbatim>\<open>%rcx\<close>; the trap (\<^verbatim>\<open>#DE\<close>)
  is \<^const>\<open>None\<close>.
\<close>

definition idiv_step :: "machine \<Rightarrow> machine option" where
  "idiv_step s =
     (let n = sint (rdx s) * 2 ^ 64 + uint (rax s); d = sint (rcx s); q = quot n d in
      if d = 0 \<or> q < - (2 ^ 63) \<or> 2 ^ 63 \<le> q then None
      else Some (s\<lparr>rip := Suc (rip s), rax := word_of_int q, rdx := word_of_int (n - q * d),
                   rflags := None\<rparr>))"

definition push_step :: "i64 \<Rightarrow> machine \<Rightarrow> machine option" where
  "push_step v s =
     (if aligned (rsp s)
      then Some (s\<lparr>rip := Suc (rip s), rsp := rsp s - 8, mem := (mem s)(rsp s - 8 := v)\<rparr>)
      else None)"

text \<open>
  The registers after \<^verbatim>\<open>print_int\<close>, from the \<^verbatim>\<open>movq\<close>s that end \<^verbatim>\<open>print_int.s\<close>. The call and
  the \<^verbatim>\<open>printf\<close> inside it use the stack below \<^verbatim>\<open>%rsp\<close>; what they leave there is arbitrary,
  and is read from the field \<^const>\<open>dead\<close>.
\<close>

definition print_int_step :: "machine \<Rightarrow> machine" where
  "print_int_step s =
     s\<lparr>rip := Suc (rip s), outp := outp s @ [rdi s],
       mem := (\<lambda>a. if a < rsp s then dead s a else mem s a),
       rax := 0x6A2CFE91073BD845, rdi := 0x03BAD7C14F2E6589,
       rdx := 0xEC364B2D5A7F9810, rcx := 0xFC85AD49320BE167, rflags := None\<rparr>"

fun instr_step :: "instr list \<Rightarrow> instr \<Rightarrow> machine \<Rightarrow> machine option" where
  "instr_step P (Movq_imm_rdi v) s = Some (s\<lparr>rip := Suc (rip s), rdi := v\<rparr>)"
| "instr_step P Call_print_int s = Some (print_int_step s)"
| "instr_step P Push_rdi s = push_step (rdi s) s"
| "instr_step P Pop_rcx s =
     (if aligned (rsp s)
      then Some (s\<lparr>rip := Suc (rip s), rcx := mem s (rsp s), rsp := rsp s + 8\<rparr>) else None)"
| "instr_step P Pop_rdi s =
     (if aligned (rsp s)
      then Some (s\<lparr>rip := Suc (rip s), rdi := mem s (rsp s), rsp := rsp s + 8\<rparr>) else None)"
| "instr_step P Cmp_rcx_rdi s =
     Some (s\<lparr>rip := Suc (rip s), rflags := Some (cmp_flags (rdi s) (rcx s))\<rparr>)"
| "instr_step P Addq_rcx_rdi s =
     Some (s\<lparr>rip := Suc (rip s), rdi := rdi s + rcx s, rflags := None\<rparr>)"
| "instr_step P Subq_rcx_rdi s =
     Some (s\<lparr>rip := Suc (rip s), rdi := rdi s - rcx s, rflags := None\<rparr>)"
| "instr_step P Imulq_rcx_rdi s =
     Some (s\<lparr>rip := Suc (rip s), rdi := rdi s * rcx s, rflags := None\<rparr>)"
| "instr_step P Movq_rdi_rax s = Some (s\<lparr>rip := Suc (rip s), rax := rdi s\<rparr>)"
| "instr_step P Cqto s =
     Some (s\<lparr>rip := Suc (rip s), rdx := (if bit (rax s) 63 then - 1 else 0)\<rparr>)"
| "instr_step P Idiv_rcx s = idiv_step s"
| "instr_step P Movq_rax_rdi s = Some (s\<lparr>rip := Suc (rip s), rdi := rax s\<rparr>)"
| "instr_step P (Movq_var_rdi k) s =
     (if aligned (rbp s - int k)
      then Some (s\<lparr>rip := Suc (rip s), rdi := mem s (rbp s - int k)\<rparr>) else None)"
| "instr_step P (Movq_rdi_var k) s =
     (if aligned (rbp s - int k)
      then Some (s\<lparr>rip := Suc (rip s), mem := (mem s)(rbp s - int k := rdi s)\<rparr>) else None)"
| "instr_step P (Shlq_rdi k) s =
     Some (s\<lparr>rip := Suc (rip s), rdi := push_bit (k mod 64) (rdi s), rflags := None\<rparr>)"
| "instr_step P (Jcc c l) s =
     (case rflags s of
        None \<Rightarrow> None
      | Some f \<Rightarrow>
          (if jcc_taken c f then map_option (\<lambda>i. s\<lparr>rip := i\<rparr>) (label_index P l)
           else Some (s\<lparr>rip := Suc (rip s)\<rparr>)))"
| "instr_step P (Jmp l) s = map_option (\<lambda>i. s\<lparr>rip := i\<rparr>) (label_index P l)"
| "instr_step P (Label l) s = Some (s\<lparr>rip := Suc (rip s)\<rparr>)"
| "instr_step P Push_rbp s = push_step (word_of_int (rbp s)) s"
| "instr_step P Movq_rsp_rbp s = Some (s\<lparr>rip := Suc (rip s), rbp := rsp s\<rparr>)"
| "instr_step P (Subq_imm_rsp n) s =
     Some (s\<lparr>rip := Suc (rip s), rsp := rsp s - int n, rflags := None\<rparr>)"
| "instr_step P Leave s =
     (if aligned (rbp s)
      then Some (s\<lparr>rip := Suc (rip s), rsp := rbp s + 8, rbp := uint (mem s (rbp s))\<rparr>)
      else None)"
| "instr_step P Ret s = Some (s\<lparr>rip := length P, rsp := rsp s + 8\<rparr>)"

text \<open>
  One step of the program \<open>P\<close>. Control that has left the program (\<open>rip = length P\<close>, where
  \<^verbatim>\<open>ret\<close> sends it) takes no further step.
\<close>

definition machine_step :: "instr list \<Rightarrow> machine \<Rightarrow> machine option" where
  "machine_step P s = (if rip s < length P then instr_step P (P ! rip s) s else None)"

text \<open>Some number of steps, and a run of the machine with a step budget.\<close>

definition steps_to :: "instr list \<Rightarrow> machine \<Rightarrow> machine \<Rightarrow> bool" where
  "steps_to P = (\<lambda>s t. machine_step P s = Some t)\<^sup>*\<^sup>*"

fun run_machine :: "nat \<Rightarrow> instr list \<Rightarrow> machine \<Rightarrow> machine option" where
  "run_machine 0 P s = (if rip s = length P then Some s else None)"
| "run_machine (Suc n) P s =
     (if rip s = length P then Some s
      else case machine_step P s of None \<Rightarrow> None | Some t \<Rightarrow> run_machine n P t)"

section \<open>Flags and signed comparison\<close>

lemma sint_bounds64: "- (2 ^ 63) \<le> sint (a :: i64)" "sint (a :: i64) < 2 ^ 63"
  using sint_greater_eq [of a] sint_less [of a] by simp_all

lemma sint_minus64:
  "sint (a - b :: i64) =
     (if sint a - sint b < - (2 ^ 63) then sint a - sint b + 2 ^ 64
      else if 2 ^ 63 \<le> sint a - sint b then sint a - sint b - 2 ^ 64
      else sint a - sint b)"
proof -
  define d where "d = sint a - sint b"
  have lo: "- (2 ^ 64) < d" and hi: "d < 2 ^ 64"
    using sint_bounds64 [of a] sint_bounds64 [of b] by (simp_all add: d_def)
  have eq: "sint (a - b) = (d + 2 ^ 63) mod 2 ^ 64 - 2 ^ 63"
    by (simp add: sint_word_diff d_def signed_take_bit_eq_take_bit_shift take_bit_eq_mod)
  consider "d < - (2 ^ 63)" | "2 ^ 63 \<le> d" | "- (2 ^ 63) \<le> d" "d < 2 ^ 63" by linarith
  then show ?thesis
  proof cases
    case 1
    have "(d + 2 ^ 63) mod 2 ^ 64 = (d + 2 ^ 63 + 2 ^ 64) mod 2 ^ 64" by (rule mod_add_self2 [symmetric])
    also have "\<dots> = d + 2 ^ 63 + 2 ^ 64" using 1 lo by (intro mod_pos_pos_trivial) simp_all
    finally show ?thesis using 1 eq by (simp add: d_def)
  next
    case 2
    have "(d + 2 ^ 63) mod 2 ^ 64 = (d + 2 ^ 63 - 2 ^ 64) mod 2 ^ 64" by (rule minus_mod_self2 [symmetric])
    also have "\<dots> = d + 2 ^ 63 - 2 ^ 64" using 2 hi by (intro mod_pos_pos_trivial) simp_all
    finally show ?thesis using 2 eq by (simp add: d_def)
  next
    case 3
    then have "(d + 2 ^ 63) mod 2 ^ 64 = d + 2 ^ 63" by (intro mod_pos_pos_trivial) simp_all
    then show ?thesis using 3 eq by (simp add: d_def)
  qed
qed

lemma bit63_iff_neg: "bit (a :: i64) 63 \<longleftrightarrow> sint a < 0"
  using bit_last_iff [of a] by simp

lemma cmp_flags_slt: "sf (cmp_flags a b) \<noteq> ovf (cmp_flags a b) \<longleftrightarrow> slt a b"
  using sint_bounds64 [of a] sint_bounds64 [of b]
  by (auto simp: cmp_flags_def slt_def bit63_iff_neg sint_minus64)

lemma cmp_flags_eq: "zf (cmp_flags a b) \<longleftrightarrow> a = b"
  by (simp add: cmp_flags_def)

lemma slt_linear: "slt b a \<longleftrightarrow> a \<noteq> b \<and> \<not> slt a b"
  by (auto simp: slt_def order_less_le intro: signed_word_eqI)

lemma jcc_taken_cmp:
  "jcc_taken Jl (cmp_flags a b) \<longleftrightarrow> slt a b"
  "jcc_taken Jge (cmp_flags a b) \<longleftrightarrow> \<not> slt a b"
  "jcc_taken Jg (cmp_flags a b) \<longleftrightarrow> slt b a"
  "jcc_taken Jle (cmp_flags a b) \<longleftrightarrow> \<not> slt b a"
  "jcc_taken Je (cmp_flags a b) \<longleftrightarrow> a = b"
  "jcc_taken Jne (cmp_flags a b) \<longleftrightarrow> a \<noteq> b"
  using cmp_flags_slt [of a b] cmp_flags_eq [of a b] slt_linear [of b a] by auto

end
