(* ===== verification/Basic_Compile.thy ===== *)
theory Basic_Compile
  imports Basic_Ast X86_Machine
begin

text \<open>
  The TeenyBASIC code generator, \<^verbatim>\<open>src/assembly-compiler/src/compile.c\<close>, with the frame
  that \<^verbatim>\<open>src/assembly-compiler/src/compiler.c\<close> prints around its output. The generator's
  global label counters are explicit state, its output is a list of instructions
  (\<open>asm_line\<close> gives each its printed text), and the division traps of the constant
  folder, which kill the compiler itself, are the result \<^const>\<open>None\<close>.
\<close>

section \<open>Constant folding\<close>

definition is_binary :: "node \<Rightarrow> bool" where
  "is_binary n = (case n of BINARY_OP _ _ _ \<Rightarrow> True | _ \<Rightarrow> False)"

definition is_arith_op :: "char \<Rightarrow> bool" where
  "is_arith_op op \<longleftrightarrow> op = CHR ''+'' \<or> op = CHR ''-'' \<or> op = CHR ''*'' \<or> op = CHR ''/''"

text \<open>
  The arithmetic of the folder on \<^verbatim>\<open>int64_t\<close> values. Sums, differences and products wrap,
  as the compiler's overflow test programs expect; a quotient may trap.
\<close>

definition fold_value :: "char \<Rightarrow> i64 \<Rightarrow> i64 \<Rightarrow> i64 option" where
  "fold_value bi_op left_val right_val =
     (if bi_op = CHR ''+'' then Some (left_val + right_val)
      else if bi_op = CHR ''-'' then Some (left_val - right_val)
      else if bi_op = CHR ''*'' then Some (left_val * right_val)
      else if bi_op = CHR ''/'' then signed_div64 left_val right_val
      else Some left_val)"

text \<open>
  The folder stores a result in the number node that the variable \<^verbatim>\<open>left\<close> points to. That
  node is the leftmost leaf of the left subtree, and the subtree keeps it: the store
  changes the tree.
\<close>

fun set_leftmost :: "node \<Rightarrow> i64 \<Rightarrow> node" where
  "set_leftmost (BINARY_OP op l r) v = BINARY_OP op (set_leftmost l v) r"
| "set_leftmost (NUM _) v = NUM v"
| "set_leftmost n v = n"

text \<open>
  \<open>compute_folds n = Some (t, p)\<close>: after the call on the node \<open>n\<close>, the tree that was \<open>n\<close>
  has become \<open>t\<close> and the caller's pointer \<^verbatim>\<open>*node\<close> refers to \<open>p\<close>. The recursive calls
  update the local variables \<^verbatim>\<open>left\<close> and \<^verbatim>\<open>right\<close>, not the fields of the node.
\<close>

fun compute_folds :: "node \<Rightarrow> (node \<times> node) option" where
  "compute_folds (BINARY_OP bi_op l r) = do {
     (l', left) \<leftarrow> (if is_binary l then compute_folds l else Some (l, l));
     (r', right) \<leftarrow> (if is_binary r then compute_folds r else Some (r, r));
     (case (left, right) of
        (NUM left_val, NUM right_val) \<Rightarrow>
          (if is_arith_op bi_op then do {
             v \<leftarrow> fold_value bi_op left_val right_val;
             Some (BINARY_OP bi_op (set_leftmost l' v) r', NUM v)
           }
           else Some (BINARY_OP bi_op l' r', BINARY_OP bi_op l' r'))
      | _ \<Rightarrow> Some (BINARY_OP bi_op l' r', BINARY_OP bi_op l' r'))
   }"
| "compute_folds n = Some (n, n)"

section \<open>Code generation\<close>

record cstate =
  if_local :: nat
  while_local :: nat

definition NUM_VARS :: nat where
  "NUM_VARS = 26"

definition sizeof_value :: nat where
  "sizeof_value = 8"

text \<open>\<^verbatim>\<open>(unsigned int) ((name - A_ASCII + 1) * sizeof(value_t))\<close>.\<close>

definition var_offset :: "char \<Rightarrow> nat" where
  "var_offset name =
     unat (ucast ((char_to_i64 name - 65 + 1) * of_nat sizeof_value) :: 32 word)"

text \<open>\<^verbatim>\<open>(int) log2(value)\<close>, used on powers of two only, where it is exact.\<close>

fun log2_int :: "nat \<Rightarrow> nat" where
  "log2_int n = (if n < 2 then 0 else Suc (log2_int (n div 2)))"

declare log2_int.simps [simp del]

definition is_power_two :: "i64 \<Rightarrow> bool" where
  "is_power_two v \<longleftrightarrow> slt 1 v \<and> v AND (v - 1) = 0"

definition binary_code :: "char \<Rightarrow> instr list" where
  "binary_code op =
     (if op = CHR ''<'' \<or> op = CHR ''>'' \<or> op = CHR ''='' then [Cmp_rcx_rdi]
      else if op = CHR ''+'' then [Addq_rcx_rdi]
      else if op = CHR ''-'' then [Subq_rcx_rdi]
      else if op = CHR ''*'' then [Imulq_rcx_rdi]
      else if op = CHR ''/'' then [Movq_rdi_rax, Cqto, Idiv_rcx, Movq_rax_rdi]
      else [])"

definition condition_op :: "node \<Rightarrow> char" where
  "condition_op c = (case c of BINARY_OP op _ _ \<Rightarrow> op | _ \<Rightarrow> nul)"

text \<open>The jumps an IF prints after its condition, and those of a WHILE.\<close>

definition if_jumps :: "char \<Rightarrow> nat \<Rightarrow> bool \<Rightarrow> instr list" where
  "if_jumps op n has_else =
     (let other = (if has_else then ELSE_label n else END_IF_label n) in
      if op = CHR ''<'' then [Jcc Jl (IF_label n), Jcc Jge other]
      else if op = CHR ''>'' then [Jcc Jg (IF_label n), Jcc Jle other]
      else if op = CHR ''='' then [Jcc Je (IF_label n), Jcc Jne other]
      else [])"

definition while_jumps :: "char \<Rightarrow> nat \<Rightarrow> instr list" where
  "while_jumps op n =
     (if op = CHR ''<'' then [Jcc Jl (WHILE_label n), Jcc Jge (WHILE_END_label n)]
      else if op = CHR ''>'' then [Jcc Jg (WHILE_label n), Jcc Jle (WHILE_END_label n)]
      else if op = CHR ''='' then [Jcc Je (WHILE_label n), Jcc Jne (WHILE_END_label n)]
      else [])"

text \<open>
  The pointer a statement compiles after \<^verbatim>\<open>if (e->type == BINARY_OP) compute_folds(&e)\<close>.
\<close>

definition folded :: "node \<Rightarrow> node option" where
  "folded e = (if is_binary e then map_option snd (compute_folds e) else Some e)"

lemma size_set_leftmost [simp]: "size (set_leftmost n v) = size n"
  by (induction n v rule: set_leftmost.induct) auto

lemma compute_folds_size:
  "compute_folds n = Some (t, p) \<Longrightarrow> size t = size n \<and> size p \<le> size n"
proof (induction n arbitrary: t p rule: compute_folds.induct)
  case (1 bi_op l r)
  then show ?case
    by (fastforce split: bind_splits if_splits node.splits)
qed auto

lemma folded_size: "folded e = Some p \<Longrightarrow> size p \<le> size e"
  by (auto simp: folded_def dest: compute_folds_size split: if_splits)

text \<open>
  \<^verbatim>\<open>compile_ast\<close> and \<^verbatim>\<open>check_power_two\<close>, mutually recursive as in the source;
  \<open>compile_statements\<close> is the loop over the statements of a sequence. The result of
  \<open>check_power_two\<close> is the code it printed, or \<^const>\<open>None\<close> inside when it returned false.
\<close>

function compile_ast :: "node \<Rightarrow> cstate \<Rightarrow> (instr list \<times> cstate) option"
  and compile_statements :: "node list \<Rightarrow> cstate \<Rightarrow> (instr list \<times> cstate) option"
  and check_power_two :: "node \<Rightarrow> node \<Rightarrow> cstate \<Rightarrow> (instr list option \<times> cstate) option" where
  "compile_ast (NUM value) st = Some ([Movq_imm_rdi value], st)"
| "compile_ast (PRINT expr) st = do {
     expression \<leftarrow> folded expr;
     (code, st1) \<leftarrow> compile_ast expression st;
     Some (code @ [Call_print_int], st1)
   }"
| "compile_ast (SEQUENCE statements) st = compile_statements statements st"
| "compile_ast (BINARY_OP op left right) st = do {
     (power, st0) \<leftarrow>
       (case right of
          NUM _ \<Rightarrow> (if op = CHR ''*'' then check_power_two left right st else Some (None, st))
        | _ \<Rightarrow> Some (None, st));
     (case power of
        Some code \<Rightarrow> Some (code, st0)
      | None \<Rightarrow> do {
          (code_l, st1) \<leftarrow> compile_ast left st0;
          (code_r, st2) \<leftarrow> compile_ast right st1;
          Some (code_l @ [Push_rdi] @ code_r @ [Push_rdi, Pop_rcx, Pop_rdi] @ binary_code op, st2)
        })
   }"
| "compile_ast (VAR name) st = Some ([Movq_var_rdi (var_offset name)], st)"
| "compile_ast (LET var value) st = do {
     (code, st1) \<leftarrow> compile_ast value st;
     Some (code @ [Movq_rdi_var (var_offset var)], st1)
   }"
| "compile_ast (IF condition if_branch else_branch) st = do {
     let n = if_local st + 1;
     if_condition \<leftarrow> folded condition;
     (code_c, st1) \<leftarrow> compile_ast if_condition (st\<lparr>if_local := n\<rparr>);
     (code_t, st2) \<leftarrow> compile_ast if_branch st1;
     (code_e, st3) \<leftarrow> (case else_branch of None \<Rightarrow> Some ([], st2) | Some b \<Rightarrow> compile_ast b st2);
     Some (code_c @ if_jumps (condition_op condition) n (else_branch \<noteq> None)
           @ [Label (IF_label n)] @ code_t @ [Jmp (END_IF_label n), Label (ELSE_label n)]
           @ code_e @ [Label (END_IF_label n)], st3)
   }"
| "compile_ast (WHILE condition body) st = do {
     let n = while_local st + 1;
     while_condition \<leftarrow> folded condition;
     (code_c, st1) \<leftarrow> compile_ast while_condition (st\<lparr>while_local := n\<rparr>);
     (code_b, st2) \<leftarrow> compile_ast body st1;
     Some ([Label (START_WHILE_label n)] @ code_c @ while_jumps (condition_op condition) n
           @ [Label (WHILE_label n)] @ code_b
           @ [Jmp (START_WHILE_label n), Label (WHILE_END_label n)], st2)
   }"
| "compile_statements [] st = Some ([], st)"
| "compile_statements (s # ss) st = do {
     (code, st1) \<leftarrow> compile_ast s st;
     (rest, st2) \<leftarrow> compile_statements ss st1;
     Some (code @ rest, st2)
   }"
| "check_power_two left right st =
     (case right of
        NUM v \<Rightarrow>
          (if is_power_two v then do {
             (code, st1) \<leftarrow> compile_ast left st;
             Some (Some (code @ [Shlq_rdi (log2_int (unat v))]), st1)
           }
           else Some (None, st))
      | _ \<Rightarrow> Some (None, st))"
  by pat_completeness auto
termination
  by (relation "measure (\<lambda>x. case x of
        Inl (n, _) \<Rightarrow> 2 * size n
      | Inr (Inl (ns, _)) \<Rightarrow> 2 * size_list size ns + 1
      | Inr (Inr (l, _, _)) \<Rightarrow> 2 * size l + 1)")
     (auto dest!: folded_size)

section \<open>The frame of the program\<close>

text \<open>
  \<^verbatim>\<open>header()\<close> prints a fixed preamble and the three instructions that open the frame;
  \<^verbatim>\<open>footer()\<close> closes it.
\<close>

definition header_text :: string where
  "header_text =
     ''# The code section of the assembly file'' @ newline @ ''.text'' @ newline
     @ ''.globl basic_main'' @ newline @ ''basic_main:'' @ newline
     @ ''    # The main() function'' @ newline"

definition header :: "instr list" where
  "header = [Push_rbp, Movq_rsp_rbp, Subq_imm_rsp (NUM_VARS * sizeof_value)]"

definition footer :: "instr list" where
  "footer = [Leave, Ret]"

text \<open>The whole of \<^verbatim>\<open>basic_main\<close>; the global label counters start at 0.\<close>

definition compile_program :: "node \<Rightarrow> instr list option" where
  "compile_program ast =
     map_option (\<lambda>(code, _). header @ code @ footer)
       (compile_ast ast \<lparr>if_local = 0, while_local = 0\<rparr>)"

definition program_text :: "instr list \<Rightarrow> string" where
  "program_text code = header_text @ concat (map asm_line code)"

end
