(* ===== verification/Basic_Correct.thy ===== *)
theory Basic_Correct
  imports Basic_Compile Basic_Semantics
begin

text \<open>
  Correctness of the TeenyBASIC compiler: the code that \<^const>\<open>compile_program\<close> produces for a
  well-formed program without partially constant expressions prints what the program
  prints, and returns with the caller's stack and frame pointer intact.
\<close>

section \<open>Constant folding\<close>

lemma is_arith_op_iff: "is_arith_op = arith_op"
  by (rule ext) (simp add: is_arith_op_def arith_op_def)

lemma arith_fold_value: "arith_op op \<Longrightarrow> fold_value op a b = arith op a b"
  by (auto simp: arith_op_def fold_value_def arith_def)

lemma compute_folds_no_const_op:
  "no_const_op n \<Longrightarrow> compute_folds n = Some (n, n)"
proof (induction n rule: compute_folds.induct)
  case (1 op l r)
  then have l: "is_binary l \<Longrightarrow> compute_folds l = Some (l, l)"
    and r: "is_binary r \<Longrightarrow> compute_folds r = Some (r, r)" by simp_all
  from 1(3) show ?case
    by (auto simp: l r is_arith_op_iff split: node.splits)
qed auto

lemma compute_folds_const:
  "is_const n \<Longrightarrow> is_binary n \<Longrightarrow>
   (case eval_expr n s of
      None \<Rightarrow> compute_folds n = None
    | Some v \<Rightarrow> \<exists>t. compute_folds n = Some (t, NUM v))"
proof (induction n rule: compute_folds.induct)
  case (1 op l r)
  then have op: "arith_op op" and cl: "is_const l" and cr: "is_const r" by simp_all
  have sub: "case eval_expr m s of
      None \<Rightarrow> is_binary m \<and> compute_folds m = None
    | Some v \<Rightarrow> \<exists>t. (if is_binary m then compute_folds m else Some (m, m)) = Some (t, NUM v)"
    if m: "is_const m" and IH: "is_binary m \<Longrightarrow> (case eval_expr m s of
      None \<Rightarrow> compute_folds m = None | Some v \<Rightarrow> \<exists>t. compute_folds m = Some (t, NUM v))" for m
    using m IH by (cases m) (auto simp: is_binary_def split: option.splits)
  note L = sub [OF cl "1.IH"(1) [OF _ cl]]
  show ?case
  proof (cases "eval_expr l s")
    case None
    with L show ?thesis by auto
  next
    case (Some a)
    with L obtain tl where tl: "(if is_binary l then compute_folds l else Some (l, l)) = Some (tl, NUM a)"
      by auto
    note R = sub [OF cr "1.IH"(2) [OF tl refl _ cr]]
    show ?thesis
    proof (cases "eval_expr r s")
      case None
      with R Some tl show ?thesis by auto
    next
      case (Some b)
      with R obtain tr where "(if is_binary r then compute_folds r else Some (r, r)) = Some (tr, NUM b)"
        by auto
      with tl Some \<open>eval_expr l s = Some a\<close> op show ?thesis
        by (auto simp: is_arith_op_iff arith_fold_value split: option.splits bind_splits)
    qed
  qed
qed (auto simp: is_binary_def)

lemma folded_no_const_op: "no_const_op e \<Longrightarrow> folded e = Some e"
  by (simp add: folded_def compute_folds_no_const_op)

lemma folded_const:
  assumes "is_const e" and "eval_expr e s = Some v"
  shows "folded e = Some (NUM v)"
  using assms compute_folds_const [of e s]
  by (cases e) (auto simp: folded_def is_binary_def)

section \<open>Powers of two\<close>

lemma and_pred_pow2:
  fixes n :: nat
  assumes "0 < n" and "n AND (n - 1) = 0"
  shows "n = 2 ^ log2_int n"
  using assms
proof (induction n rule: log2_int.induct)
  case (1 n)
  show ?case
  proof (cases "n < 2")
    case True
    with "1.prems" show ?thesis by (simp add: log2_int.simps)
  next
    case False
    have rec: "n AND (n - 1) = of_bool (odd n \<and> odd (n - 1)) + 2 * ((n div 2) AND ((n - 1) div 2))"
      by (rule and_rec)
    show ?thesis
    proof (cases "even n")
      case True
      then have "(n - 1) div 2 = n div 2 - 1" by presburger
      with rec "1.prems" True have "(n div 2) AND (n div 2 - 1) = 0" by simp
      moreover have "0 < n div 2" using False by simp
      ultimately have "n div 2 = 2 ^ log2_int (n div 2)" using "1.IH" False by simp
      with True False show ?thesis by (simp add: log2_int.simps [of n])
    next
      case odd: False
      then have "(n - 1) div 2 = n div 2" by presburger
      with rec "1.prems" odd have "n div 2 = 0" by simp
      with False show ?thesis by simp
    qed
  qed
qed

lemma is_power_two_shift:
  assumes "is_power_two v"
  shows "push_bit (log2_int (unat v) mod 64) a = a * (v :: i64)"
proof -
  from assms have pos: "0 < unat v" and sgn: "0 < sint v"
    by (auto simp: is_power_two_def slt_def unat_gt_0)
  then have "unat (v - 1) = unat v - 1" by (intro unat_minus_one) auto
  with assms have "unat v AND (unat v - 1) = 0"
    unfolding is_power_two_def by (metis unsigned_and_eq unsigned_0)
  from and_pred_pow2 [OF pos this] have pow: "unat v = 2 ^ log2_int (unat v)" .
  have "unat v < 2 ^ 64" using unsigned_less [of v] by simp
  with pow have "(2::nat) ^ log2_int (unat v) < 2 ^ 64" by metis
  then have "log2_int (unat v) < 64" by (simp only: power_strict_increasing_iff)
  moreover have "v = 2 ^ log2_int (unat v)"
  proof -
    have "v = of_nat (unat v)" by simp
    also have "\<dots> = of_nat (2 ^ log2_int (unat v))" using pow by metis
    finally show ?thesis by simp
  qed
  ultimately show ?thesis by (metis mod_less mult.commute push_bit_eq_mult)
qed

section \<open>The frame\<close>

lemma var_offset_upper:
  assumes "isupper x"
  shows "var_offset x = 8 * (of_char x - 64)"
proof -
  define n :: nat where "n = of_char x"
  have x: "x = char_of n" by (simp add: n_def)
  from assms have n: "65 \<le> n" "n \<le> 90" by (simp_all add: isupper_bounds n_def)
  then have "n \<in> set [65..<91]" by (simp only: set_upt atLeastLessThan_iff) simp
  moreover have "list_all (\<lambda>n. var_offset (char_of n) = 8 * (n - 64)) [65..<91]"
    by code_simp
  ultimately have "var_offset (char_of n) = 8 * (n - 64)" unfolding list_all_iff by blast
  then show ?thesis by (simp add: x [symmetric] n_def)
qed

lemma var_offset_bounds:
  assumes "isupper x"
  shows "8 \<le> var_offset x" "var_offset x \<le> 208" "var_offset x mod 8 = 0"
  using assms by (auto simp: var_offset_upper isupper_bounds)

lemma var_offset_inj:
  assumes "isupper x" and "isupper y" and "var_offset x = var_offset y"
  shows "x = y"
proof -
  from assms have "(of_char x :: nat) = of_char y"
    unfolding var_offset_upper [OF assms(1)] var_offset_upper [OF assms(2)] isupper_bounds
    by arith
  then show ?thesis by simp
qed

text \<open>
  The 26 variables live in the 208 bytes below the frame pointer; the stack pointer is
  never above them.
\<close>

definition frame_ok :: "machine \<Rightarrow> bool" where
  "frame_ok s \<longleftrightarrow> aligned (rsp s) \<and> aligned (rbp s) \<and> rsp s + 208 \<le> rbp s"

definition vars_in :: "machine \<Rightarrow> vars \<Rightarrow> bool" where
  "vars_in s vs \<longleftrightarrow> (\<forall>x. isupper x \<longrightarrow> mem s (rbp s - int (var_offset x)) = vs x)"

text \<open>What evaluating an expression leaves alone.\<close>

definition keeps :: "machine \<Rightarrow> machine \<Rightarrow> bool" where
  "keeps s t \<longleftrightarrow> rbp t = rbp s \<and> rsp t = rsp s \<and> outp t = outp s
     \<and> (\<forall>a. rsp s \<le> a \<longrightarrow> mem t a = mem s a)"

lemma keeps_trans: "keeps s t \<Longrightarrow> keeps t u \<Longrightarrow> keeps s u"
  by (auto simp: keeps_def)

lemma keeps_frame_ok: "keeps s t \<Longrightarrow> frame_ok s \<Longrightarrow> frame_ok t"
  by (auto simp: keeps_def frame_ok_def)

lemma keeps_vars_in:
  assumes "keeps s t" and "frame_ok s" and "vars_in s vs"
  shows "vars_in t vs"
  unfolding vars_in_def
proof (intro allI impI)
  fix x assume "isupper x"
  from var_offset_bounds(2) [OF this] assms(2) have "rsp s \<le> rbp s - int (var_offset x)"
    by (auto simp: frame_ok_def)
  with assms \<open>isupper x\<close> show "mem t (rbp t - int (var_offset x)) = vs x"
    by (auto simp: keeps_def vars_in_def)
qed

lemma aligned_var:
  assumes "frame_ok s" and "isupper x"
  shows "aligned (rbp s - int (var_offset x))"
proof -
  from var_offset_bounds(3) [OF assms(2)] obtain k where "var_offset x = 8 * k" by auto
  with assms(1) show ?thesis by (simp add: frame_ok_def aligned_def) presburger
qed

lemma aligned_shift [simp]: "aligned (a - 8) = aligned a" "aligned (a + 8) = aligned a"
  unfolding aligned_def by presburger+

section \<open>Running straight-line code\<close>

lemma steps_refl [simp, intro]: "steps_to P s s"
  by (simp add: steps_to_def)

lemma steps_trans: "steps_to P s t \<Longrightarrow> steps_to P t u \<Longrightarrow> steps_to P s u"
  unfolding steps_to_def by (rule rtranclp_trans)

lemma steps_Cons: "machine_step P s = Some t \<Longrightarrow> steps_to P t u \<Longrightarrow> steps_to P s u"
  unfolding steps_to_def by (rule converse_rtranclp_into_rtranclp)

lemma steps_one: "machine_step P s = Some t \<Longrightarrow> steps_to P s t"
  by (rule steps_Cons [OF _ steps_refl])

lemma step_at:
  assumes "frag P (rip s) (i # c)"
  shows "machine_step P s = instr_step P i s"
  using assms by (simp add: machine_step_def frag_simps)

text \<open>After \<^verbatim>\<open>cqto\<close>, the 128-bit dividend is the sign-extended \<^verbatim>\<open>%rax\<close>.\<close>

lemma uint_sint64: "uint (a :: i64) = (if sint a < 0 then sint a + 2 ^ 64 else sint a)"
proof -
  have eq: "uint a = sint a mod 2 ^ 64"
    using uint_sint [of a] by (simp add: take_bit_eq_mod)
  show ?thesis
  proof (cases "sint a < 0")
    case True
    have "sint a mod 2 ^ 64 = (sint a + 2 ^ 64) mod 2 ^ 64" by (rule mod_add_self2 [symmetric])
    also have "\<dots> = sint a + 2 ^ 64"
      using True sint_bounds64 [of a] by (intro mod_pos_pos_trivial) simp_all
    finally show ?thesis using eq True by simp
  next
    case False
    then have "sint a mod 2 ^ 64 = sint a"
      using sint_bounds64 [of a] by (intro mod_pos_pos_trivial) simp_all
    with eq False show ?thesis by simp
  qed
qed

lemma cqto_dividend:
  "sint (if bit a 63 then - 1 else 0 :: i64) * 2 ^ 64 + uint (a :: i64) = sint a"
  by (simp add: bit63_iff_neg uint_sint64)

text \<open>A quotient of 64-bit values is out of range exactly for \<^verbatim>\<open>INT64_MIN / -1\<close>.\<close>

lemma quot_range:
  assumes "b \<noteq> (0 :: i64)"
  shows "quot (sint (a :: i64)) (sint b) < - (2 ^ 63) \<or> 2 ^ 63 \<le> quot (sint a) (sint b)
     \<longleftrightarrow> sint a = - (2 ^ 63) \<and> sint b = - 1"
proof -
  define x y where "x = sint a" and "y = sint b"
  have y0: "y \<noteq> 0"
    using assms signed_word_eqI [of b 0] by (auto simp: y_def)
  have x: "- (2 ^ 63) \<le> x" "x < 2 ^ 63" using sint_bounds64 [of a] by (simp_all add: x_def)
  have nonneg: "0 \<le> \<bar>x\<bar> div \<bar>y\<bar>" by (simp add: pos_imp_zdiv_nonneg_iff y0)
  have small: "\<bar>x\<bar> div \<bar>y\<bar> < 2 ^ 63" if "\<bar>y\<bar> \<noteq> 1"
  proof -
    from that y0 have "2 \<le> \<bar>y\<bar>" by linarith
    then have "\<bar>x\<bar> div \<bar>y\<bar> \<le> \<bar>x\<bar> div 2" by (intro zdiv_mono2) simp_all
    also have "\<dots> < 2 ^ 63" using x by linarith
    finally show ?thesis .
  qed
  have "quot x y < - (2 ^ 63) \<or> 2 ^ 63 \<le> quot x y \<longleftrightarrow> x = - (2 ^ 63) \<and> y = - 1"
  proof (cases "\<bar>y\<bar> = 1")
    case True
    then consider "y = 1" | "y = - 1" by linarith
    then show ?thesis using x by cases (auto simp: quot_def sgn_if)
  next
    case False
    with small have "\<bar>quot x y\<bar> < 2 ^ 63" using nonneg by (auto simp: quot_def sgn_if)
    then show ?thesis using False by auto
  qed
  then show ?thesis by (simp add: x_def y_def)
qed

section \<open>Expressions\<close>

text \<open>The code of a well-formed expression, as a function of the expression alone.\<close>

fun expr_code :: "node \<Rightarrow> instr list" where
  "expr_code (NUM v) = [Movq_imm_rdi v]"
| "expr_code (VAR x) = [Movq_var_rdi (var_offset x)]"
| "expr_code (BINARY_OP op l r) =
     (if op = CHR ''*'' \<and> (\<exists>v. r = NUM v \<and> is_power_two v)
      then expr_code l @ [Shlq_rdi (log2_int (unat (case r of NUM v \<Rightarrow> v)))]
      else expr_code l @ [Push_rdi] @ expr_code r @ [Push_rdi, Pop_rcx, Pop_rdi] @ binary_code op)"
| "expr_code _ = []"

lemma compile_expr: "wf_expr e \<Longrightarrow> compile_ast e st = Some (expr_code e, st)"
proof (induction e arbitrary: st)
  case (BINARY_OP op l r)
  then have l: "\<And>st. compile_ast l st = Some (expr_code l, st)"
    and r: "\<And>st. compile_ast r st = Some (expr_code r, st)" by simp_all
  show ?case
  proof (cases r)
    case (NUM v)
    then show ?thesis using r by (simp add: l)
  qed (use r in \<open>simp_all add: l\<close>)
qed simp_all

lemma frag_append_rip:
  "frag P i (a @ b) \<Longrightarrow> frag P i a" "frag P i (a @ b) \<Longrightarrow> frag P (i + length a) b"
  by (simp_all add: frag_append)

lemma binary_code_correct:
  assumes "frag P (rip s) (binary_code op)" and "arith op (rdi s) (rcx s) = Some v"
  shows "\<exists>t. steps_to P s t \<and> rip t = rip s + length (binary_code op) \<and> rdi t = v \<and> keeps s t"
proof (cases "op = CHR ''/''")
  case False
  from assms(2) False consider "op = CHR ''+''" | "op = CHR ''-''" | "op = CHR ''*''"
    by (auto simp: arith_def split: if_splits)
  then have "\<exists>i t. binary_code op = [i] \<and> instr_step P i s = Some t \<and> rip t = Suc (rip s)
      \<and> rdi t = v \<and> keeps s t"
    using assms(2) by cases (auto simp: binary_code_def arith_def keeps_def)
  then obtain i t where i: "binary_code op = [i]" "instr_step P i s = Some t"
    and t: "rip t = Suc (rip s)" "rdi t = v" "keeps s t" by blast
  from i assms(1) have "machine_step P s = Some t" by (simp add: step_at)
  then show ?thesis using t i by (auto intro: steps_one)
next
  case True
  then have code: "binary_code op = [Movq_rdi_rax, Cqto, Idiv_rcx, Movq_rax_rdi]"
    by (simp add: binary_code_def)
  define s1 where "s1 = s\<lparr>rip := Suc (rip s), rax := rdi s\<rparr>"
  define s2 where "s2 = s1\<lparr>rip := Suc (rip s1), rdx := (if bit (rax s1) 63 then - 1 else 0)\<rparr>"
  from assms(2) True have dv: "signed_div64 (rdi s) (rcx s) = Some v" by (simp add: arith_def)
  then have nz: "rcx s \<noteq> 0" by (auto simp: signed_div64_def)
  have n: "sint (rdx s2) * 2 ^ 64 + uint (rax s2) = sint (rdi s)"
    using cqto_dividend [of "rdi s"] by (simp add: s2_def s1_def)
  have "\<exists>d. idiv_step s2 = Some (s2\<lparr>rip := Suc (rip s2), rax := v, rdx := d, rflags := None\<rparr>)"
  proof -
    have "rcx s2 = rcx s" by (simp add: s2_def s1_def)
    moreover have "sint (rcx s) \<noteq> 0" using nz signed_word_eqI [of "rcx s" 0] by auto
    moreover have "\<not> (quot (sint (rdi s)) (sint (rcx s)) < - (2 ^ 63) \<or> 2 ^ 63 \<le> quot (sint (rdi s)) (sint (rcx s)))"
      and "v = word_of_int (quot (sint (rdi s)) (sint (rcx s)))"
      using dv nz unfolding quot_range [OF nz, of "rdi s"]
      by (auto simp: signed_div64_def split: if_splits)
    ultimately show ?thesis
      unfolding idiv_step_def Let_def n by (simp, blast)
  qed
  then obtain d where
    dstep: "idiv_step s2 = Some (s2\<lparr>rip := Suc (rip s2), rax := v, rdx := d, rflags := None\<rparr>)"
      (is "_ = Some ?s3") by blast
  define s4 where "s4 = ?s3\<lparr>rip := Suc (rip ?s3), rdi := rax ?s3\<rparr>"
  have "machine_step P s = Some s1" "machine_step P s1 = Some s2"
    "machine_step P s2 = Some ?s3" "machine_step P ?s3 = Some s4"
  proof -
    from assms(1) have f: "frag P (rip s) [Movq_rdi_rax, Cqto, Idiv_rcx, Movq_rax_rdi]"
      by (simp only: code)
    then have f2: "frag P (rip s1) [Cqto, Idiv_rcx, Movq_rax_rdi]"
      by (simp add: frag_Cons s1_def)
    then have f3: "frag P (rip s2) [Idiv_rcx, Movq_rax_rdi]"
      by (simp add: frag_Cons s2_def)
    then have f4: "frag P (rip ?s3) [Movq_rax_rdi]"
      by (simp add: frag_Cons)
    show "machine_step P s = Some s1" by (simp add: step_at [OF f] s1_def)
    show "machine_step P s1 = Some s2" by (simp add: step_at [OF f2] s2_def)
    show "machine_step P s2 = Some ?s3" by (simp only: step_at [OF f3] instr_step.simps dstep)
    show "machine_step P ?s3 = Some s4" by (simp only: step_at [OF f4] instr_step.simps s4_def)
  qed
  then have "steps_to P s s4" by (blast intro: steps_Cons)
  moreover have "rip s4 = rip s + length (binary_code op)" "rdi s4 = v" "keeps s s4"
    by (simp_all add: s4_def s2_def s1_def code keeps_def)
  ultimately show ?thesis by blast
qed

text \<open>
  Both operands of a binary operation: the left value waits on the stack while the right
  one is computed, and the two pops bring them back.
\<close>

lemma pop_operands:
  assumes "frag P (rip s) [Push_rdi, Pop_rcx, Pop_rdi]" and "frame_ok s"
  shows "\<exists>t. steps_to P s t \<and> rip t = rip s + 3 \<and> rcx t = rdi s \<and> rdi t = mem s (rsp s)
    \<and> rsp t = rsp s + 8 \<and> rbp t = rbp s \<and> outp t = outp s
    \<and> (\<forall>a. rsp s \<le> a \<longrightarrow> mem t a = mem s a)"
proof -
  from assms(2) have al: "aligned (rsp s)" by (simp add: frame_ok_def)
  define s1 where "s1 = s\<lparr>rip := Suc (rip s), rsp := rsp s - 8, mem := (mem s)(rsp s - 8 := rdi s)\<rparr>"
  define s2 where "s2 = s1\<lparr>rip := Suc (rip s1), rcx := mem s1 (rsp s1), rsp := rsp s1 + 8\<rparr>"
  define s3 where "s3 = s2\<lparr>rip := Suc (rip s2), rdi := mem s2 (rsp s2), rsp := rsp s2 + 8\<rparr>"
  have f1: "frag P (rip s1) [Pop_rcx, Pop_rdi]" using assms(1) by (simp add: frag_Cons s1_def)
  then have f2: "frag P (rip s2) [Pop_rdi]" by (simp add: frag_Cons s2_def)
  have "machine_step P s = Some s1" by (simp add: step_at [OF assms(1)] push_step_def al s1_def)
  moreover have "machine_step P s1 = Some s2" by (subst step_at [OF f1]) (simp add: al s1_def s2_def)
  moreover have "machine_step P s2 = Some s3" by (subst step_at [OF f2]) (simp add: al s1_def s2_def s3_def)
  ultimately have "steps_to P s s3" by (blast intro: steps_Cons)
  moreover have "rip s3 = rip s + 3 \<and> rcx s3 = rdi s \<and> rdi s3 = mem s (rsp s) \<and> rsp s3 = rsp s + 8
    \<and> rbp s3 = rbp s \<and> outp s3 = outp s \<and> (\<forall>a. rsp s \<le> a \<longrightarrow> mem s3 a = mem s a)"
    by (simp add: s1_def s2_def s3_def)
  ultimately show ?thesis by blast
qed

definition computes :: "instr list \<Rightarrow> vars \<Rightarrow> instr list \<Rightarrow> i64 \<Rightarrow> bool" where
  "computes P vs c v \<longleftrightarrow>
     (\<forall>s. frag P (rip s) c \<longrightarrow> frame_ok s \<longrightarrow> vars_in s vs \<longrightarrow>
        (\<exists>t. steps_to P s t \<and> rip t = rip s + length c \<and> rdi t = v \<and> keeps s t))"

lemma computesE:
  assumes "computes P vs c v" and "frag P (rip s) c" and "frame_ok s" and "vars_in s vs"
  obtains t where "steps_to P s t" "rip t = rip s + length c" "rdi t = v" "keeps s t"
  using assms unfolding computes_def by blast

lemma computes_instr:
  assumes "\<And>s. frame_ok s \<Longrightarrow> vars_in s vs \<Longrightarrow>
    \<exists>t. instr_step P i s = Some t \<and> rip t = Suc (rip s) \<and> rdi t = v \<and> keeps s t"
  shows "computes P vs [i] v"
  unfolding computes_def
proof (intro allI impI)
  fix s :: machine assume s: "frag P (rip s) [i]" "frame_ok s" "vars_in s vs"
  from assms [OF s(2,3)] obtain t where
    "machine_step P s = Some t" "rip t = Suc (rip s)" "rdi t = v" "keeps s t"
    by (auto simp: step_at [OF s(1)])
  then show "\<exists>t. steps_to P s t \<and> rip t = rip s + length [i] \<and> rdi t = v \<and> keeps s t"
    by (intro exI [of _ t]) (simp add: steps_one)
qed

lemma operands_correct:
  assumes l: "computes P vs cl a" and r: "computes P vs cr b"
    and f: "frag P (rip s) (cl @ [Push_rdi] @ cr @ [Push_rdi, Pop_rcx, Pop_rdi])"
    and s: "frame_ok s" "vars_in s vs"
  shows "\<exists>t. steps_to P s t \<and> rip t = rip s + (length cl + length cr + 4)
    \<and> rdi t = a \<and> rcx t = b \<and> keeps s t"
proof -
  from f have fl: "frag P (rip s) cl"
    and fp: "frag P (rip s + length cl) [Push_rdi]"
    and fr: "frag P (rip s + length cl + 1) cr"
    and fo: "frag P (rip s + length cl + 1 + length cr) [Push_rdi, Pop_rcx, Pop_rdi]"
    by (simp_all add: frag_simps)
  obtain s1 where s1: "steps_to P s s1" "rip s1 = rip s + length cl" "rdi s1 = a" "keeps s s1"
    using computesE [OF l fl s] .
  have ok1: "frame_ok s1" "vars_in s1 vs"
    using keeps_frame_ok [OF s1(4) s(1)] keeps_vars_in [OF s1(4) s] .
  define s2 where
    "s2 = s1\<lparr>rip := Suc (rip s1), rsp := rsp s1 - 8, mem := (mem s1)(rsp s1 - 8 := rdi s1)\<rparr>"
  have st2: "machine_step P s1 = Some s2"
    using fp s1(2) ok1(1)
    by (simp add: frag_simps machine_step_def push_step_def frame_ok_def s2_def)
  have ok2: "frame_ok s2" using ok1(1) by (auto simp: frame_ok_def s2_def)
  have v2: "vars_in s2 vs"
    using ok1 by (force simp: vars_in_def s2_def frame_ok_def dest: var_offset_bounds(2))
  have "frag P (rip s2) cr" using fr s1(2) by (simp add: s2_def)
  then obtain s3 where s3: "steps_to P s2 s3" "rip s3 = rip s2 + length cr" "rdi s3 = b" "keeps s2 s3"
    using computesE [OF r _ ok2 v2] by blast
  have "frag P (rip s3) [Push_rdi, Pop_rcx, Pop_rdi]"
    using fo s3(2) s1(2) by (simp add: s2_def)
  then obtain t where t: "steps_to P s3 t" "rip t = rip s3 + 3" "rcx t = rdi s3"
    "rdi t = mem s3 (rsp s3)" "rsp t = rsp s3 + 8" "rbp t = rbp s3" "outp t = outp s3"
    "\<forall>a. rsp s3 \<le> a \<longrightarrow> mem t a = mem s3 a"
    using pop_operands [OF _ keeps_frame_ok [OF s3(4) ok2]] by blast
  have "steps_to P s t"
    by (rule steps_trans [OF s1(1) steps_Cons [OF st2 steps_trans [OF s3(1) t(1)]]])
  moreover have "rip t = rip s + (length cl + length cr + 4)"
    using t(2) s3(2) s1(2) by (simp add: s2_def)
  moreover have "rdi t = a"
    using t(4) s3(4) s1(3) by (simp add: keeps_def s2_def)
  moreover have "rcx t = b" using t(3) s3(3) by simp
  moreover have "keeps s t"
    using t(5-8) s3(4) s1(4) by (auto simp: keeps_def s2_def)
  ultimately show ?thesis by blast
qed

lemma expr_correct:
  "wf_expr e \<Longrightarrow> eval_expr e vs = Some v \<Longrightarrow> computes P vs (expr_code e) v"
proof (induction e arbitrary: v)
  case (NUM n)
  then show ?case by (auto intro!: computes_instr simp: keeps_def)
next
  case (VAR x)
  then show ?case
    by (auto intro!: computes_instr simp: keeps_def vars_in_def aligned_var)
next
  case (BINARY_OP op l r)
  from BINARY_OP.prems obtain a b where a: "eval_expr l vs = Some a" and b: "eval_expr r vs = Some b"
    and v: "arith op a b = Some v" by (auto split: bind_splits)
  have cl: "computes P vs (expr_code l) a" and cr: "computes P vs (expr_code r) b"
    using BINARY_OP a b by simp_all
  show ?case
  proof (cases "op = CHR ''*'' \<and> (\<exists>v. r = NUM v \<and> is_power_two v)")
    case True
    then obtain k where op: "op = CHR ''*''" and r: "r = NUM k" and k: "is_power_two k" by blast
    have val: "push_bit (log2_int (unat k) mod 64) a = v"
      using v b op r is_power_two_shift [OF k, of a] by (simp add: arith_def)
    show ?thesis unfolding computes_def
    proof (intro allI impI)
      fix s :: machine assume s: "frag P (rip s) (expr_code (BINARY_OP op l r))" "frame_ok s" "vars_in s vs"
      have code: "expr_code (BINARY_OP op l r) = expr_code l @ [Shlq_rdi (log2_int (unat k))]"
        using op r k by simp
      from s(1) have fl: "frag P (rip s) (expr_code l)"
        and fs: "frag P (rip s + length (expr_code l)) [Shlq_rdi (log2_int (unat k))]"
        unfolding code by (simp_all add: frag_append)
      obtain s1 where s1: "steps_to P s s1" "rip s1 = rip s + length (expr_code l)" "rdi s1 = a" "keeps s s1"
        using computesE [OF cl fl s(2,3)] .
      have "machine_step P s1 = Some (s1\<lparr>rip := Suc (rip s1), rdi := v, rflags := None\<rparr>)"
        using fs val s1(2,3) by (simp add: step_at)
      then have "steps_to P s (s1\<lparr>rip := Suc (rip s1), rdi := v, rflags := None\<rparr>)"
        using s1(1) by (blast intro: steps_trans steps_one)
      then show "\<exists>t. steps_to P s t \<and> rip t = rip s + length (expr_code (BINARY_OP op l r))
          \<and> rdi t = v \<and> keeps s t"
        unfolding code using s1(2,4) by (intro exI conjI) (assumption, auto simp: keeps_def)
    qed
  next
    case False
    then have code: "expr_code (BINARY_OP op l r) =
        (expr_code l @ [Push_rdi] @ expr_code r @ [Push_rdi, Pop_rcx, Pop_rdi]) @ binary_code op"
      by auto
    show ?thesis unfolding computes_def
    proof (intro allI impI)
      fix s :: machine assume s: "frag P (rip s) (expr_code (BINARY_OP op l r))" "frame_ok s" "vars_in s vs"
      note fs = frag_append_rip [OF s(1) [unfolded code]]
      obtain s1 where s1: "steps_to P s s1" "rip s1 = rip s + (length (expr_code l) + length (expr_code r) + 4)"
        "rdi s1 = a" "rcx s1 = b" "keeps s s1"
        using operands_correct [OF cl cr fs(1) s(2,3)] by blast
      have "rip s1 = rip s + length (expr_code l @ [Push_rdi] @ expr_code r @ [Push_rdi, Pop_rcx, Pop_rdi])"
        using s1(2) by simp
      with fs(2) have "frag P (rip s1) (binary_code op)" by (simp only:)
      then obtain t where t: "steps_to P s1 t" "rip t = rip s1 + length (binary_code op)" "rdi t = v" "keeps s1 t"
        using binary_code_correct [of P s1 op v] v s1(3,4) by auto
      show "\<exists>t. steps_to P s t \<and> rip t = rip s + length (expr_code (BINARY_OP op l r)) \<and> rdi t = v \<and> keeps s t"
        unfolding code
        using steps_trans [OF s1(1) t(1)] t(2,3) s1(2) keeps_trans [OF s1(5) t(4)]
        by (intro exI [of _ t]) simp
    qed
  qed
qed simp_all

text \<open>
  C36: where \<^verbatim>\<open>check_power_two\<close> accepts a factor, the shift it prints computes the 64-bit
  product: for every value of \<^verbatim>\<open>%rdi\<close> the machine's \<^verbatim>\<open>shlq\<close> by \<^verbatim>\<open>log2(v)\<close> leaves what \<^verbatim>\<open>imulq\<close>
  by \<open>v\<close> would have left there, wrap-around included.
\<close>

theorem power_two_shift_is_product:
  assumes "is_power_two v" and "rcx s = v"
  shows "map_option rdi (instr_step P (Shlq_rdi (log2_int (unat v))) s)
       = map_option rdi (instr_step P Imulq_rcx_rdi s)"
  using is_power_two_shift [OF assms(1)] assms(2) by simp

lemma log2_int_1024: "log2_int 1024 = 10"
  by (simp add: log2_int.simps)

theorem power_two_shift_is_product_witness:
  "map_option rdi (instr_step [] (Shlq_rdi 10)
     \<lparr>rip = 0, rdi = 3, rcx = 1024, rax = 0, rdx = 0, rbp = 0, rsp = 0, rflags = None,
      mem = (\<lambda>_. 0), dead = (\<lambda>_. 0), outp = []\<rparr>) = Some 3072"
proof -
  have "is_power_two 1024" by (simp add: is_power_two_def slt_def)
  from power_two_shift_is_product [OF this, of "\<lparr>rip = 0, rdi = 3, rcx = 1024, rax = 0, rdx = 0,
      rbp = 0, rsp = 0, rflags = None, mem = (\<lambda>_. 0), dead = (\<lambda>_. 0), outp = []\<rparr>" "[]"]
  show ?thesis by (simp add: log2_int_1024 del: instr_step.simps(16))
qed

end
