(* ===== verification/Basic_Labels.thy ===== *)
theory Basic_Labels
  imports Basic_Compile
begin

text \<open>
  The labels \<^verbatim>\<open>compile_ast\<close> prints. The two counters of \<^verbatim>\<open>src/assembly-compiler/src/compile.c\<close>
  only grow, every label is numbered by a value the counter passes during the call, and no
  label is printed twice: a jump has one target. The elimination rules say what a successful
  compilation of each construct consists of.
\<close>

section \<open>Labels\<close>

fun labels_of :: "instr list \<Rightarrow> label list" where
  "labels_of [] = []"
| "labels_of (Label l # is) = l # labels_of is"
| "labels_of (_ # is) = labels_of is"

lemma labels_of_append [simp]: "labels_of (a @ b) = labels_of a @ labels_of b"
  by (induction a rule: labels_of.induct) simp_all

lemma labels_of_mem: "l \<in> set (labels_of P) \<longleftrightarrow> Label l \<in> set P"
  by (induction P rule: labels_of.induct) auto

lemma labels_of_Cons: "labels_of (i # is) = (case i of Label l \<Rightarrow> [l] | _ \<Rightarrow> []) @ labels_of is"
  by (cases i) simp_all

lemma label_index_nth:
  assumes "distinct (labels_of P)" and "i < length P" and "P ! i = Label l"
  shows "label_index P l = Some i"
  using assms
proof (induction P arbitrary: i)
  case (Cons a P)
  show ?case
  proof (cases i)
    case 0
    with Cons.prems show ?thesis by simp
  next
    case (Suc j)
    with Cons.prems have j: "j < length P" "P ! j = Label l" by simp_all
    then have "l \<in> set (labels_of P)" by (metis labels_of_mem nth_mem)
    with Cons.prems(1) have "a \<noteq> Label l" by (auto simp: labels_of_Cons)
    moreover have "distinct (labels_of P)" using Cons.prems(1) by (simp add: labels_of_Cons)
    ultimately show ?thesis using Cons.IH [OF _ j] Suc by simp
  qed
qed simp

text \<open>The labels numbered between two states of the counters.\<close>

fun label_between :: "cstate \<Rightarrow> cstate \<Rightarrow> label \<Rightarrow> bool" where
  "label_between st st' (IF_label n) = (if_local st < n \<and> n \<le> if_local st')"
| "label_between st st' (ELSE_label n) = (if_local st < n \<and> n \<le> if_local st')"
| "label_between st st' (END_IF_label n) = (if_local st < n \<and> n \<le> if_local st')"
| "label_between st st' (START_WHILE_label n) = (while_local st < n \<and> n \<le> while_local st')"
| "label_between st st' (WHILE_label n) = (while_local st < n \<and> n \<le> while_local st')"
| "label_between st st' (WHILE_END_label n) = (while_local st < n \<and> n \<le> while_local st')"

definition counters_le :: "cstate \<Rightarrow> cstate \<Rightarrow> bool" where
  "counters_le st st' \<longleftrightarrow> if_local st \<le> if_local st' \<and> while_local st \<le> while_local st'"

definition fresh_labels :: "cstate \<Rightarrow> cstate \<Rightarrow> instr list \<Rightarrow> bool" where
  "fresh_labels st st' c \<longleftrightarrow> counters_le st st' \<and> distinct (labels_of c)
     \<and> (\<forall>l \<in> set (labels_of c). label_between st st' l)"

lemma label_between_mono:
  "counters_le st0 st \<Longrightarrow> counters_le st' st1 \<Longrightarrow> label_between st st' l \<Longrightarrow> label_between st0 st1 l"
  by (cases l) (auto simp: counters_le_def)

lemma label_between_disjoint:
  "label_between st st' l \<Longrightarrow> label_between st' st'' l \<Longrightarrow> False"
  by (cases l) auto

lemma fresh_labels_append:
  "fresh_labels st st1 a \<Longrightarrow> fresh_labels st1 st2 b \<Longrightarrow> fresh_labels st st2 (a @ b)"
  unfolding fresh_labels_def
  by (auto simp: counters_le_def dest: label_between_disjoint
      intro: label_between_mono [of st st st1 st2] label_between_mono [of st st1 st2 st2])

lemma fresh_labels_none: "labels_of c = [] \<Longrightarrow> fresh_labels st st c"
  by (simp add: fresh_labels_def counters_le_def)

lemma fresh_labels_snoc:
  "fresh_labels st st' c \<Longrightarrow> labels_of d = [] \<Longrightarrow> fresh_labels st st' (c @ d)"
  by (rule fresh_labels_append [OF _ fresh_labels_none])

lemma labels_of_code [simp]:
  "labels_of (binary_code op) = []" "labels_of (if_jumps op n b) = []"
  "labels_of (while_jumps op n) = []"
  by (simp_all add: binary_code_def if_jumps_def while_jumps_def Let_def)

lemma fresh_labels_if:
  assumes c: "fresh_labels (st\<lparr>if_local := n\<rparr>) st1 c" and t: "fresh_labels st1 st2 t"
    and e: "fresh_labels st2 st3 e" and n: "n = if_local st + 1"
  shows "fresh_labels st st3 (c @ if_jumps op n b @ [Label (IF_label n)] @ t
      @ [Jmp (END_IF_label n), Label (ELSE_label n)] @ e @ [Label (END_IF_label n)])"
proof -
  have all: "fresh_labels (st\<lparr>if_local := n\<rparr>) st3 (c @ t @ e)"
    by (intro fresh_labels_append [OF c] fresh_labels_append [OF t] e)
  have "\<not> label_between (st\<lparr>if_local := n\<rparr>) st3 (IF_label n)"
    "\<not> label_between (st\<lparr>if_local := n\<rparr>) st3 (ELSE_label n)"
    "\<not> label_between (st\<lparr>if_local := n\<rparr>) st3 (END_IF_label n)" by simp_all
  with all have "IF_label n \<notin> set (labels_of (c @ t @ e))" "ELSE_label n \<notin> set (labels_of (c @ t @ e))"
    "END_IF_label n \<notin> set (labels_of (c @ t @ e))" unfolding fresh_labels_def by blast+
  with all n show ?thesis
    unfolding fresh_labels_def
    by (auto simp: counters_le_def intro: label_between_mono [of st "st\<lparr>if_local := n\<rparr>" st3 st3])
qed

lemma fresh_labels_while:
  assumes c: "fresh_labels (st\<lparr>while_local := n\<rparr>) st1 c" and t: "fresh_labels st1 st2 t"
    and n: "n = while_local st + 1"
  shows "fresh_labels st st2 ([Label (START_WHILE_label n)] @ c @ while_jumps op n
      @ [Label (WHILE_label n)] @ t @ [Jmp (START_WHILE_label n), Label (WHILE_END_label n)])"
proof -
  have all: "fresh_labels (st\<lparr>while_local := n\<rparr>) st2 (c @ t)"
    by (rule fresh_labels_append [OF c t])
  have "\<not> label_between (st\<lparr>while_local := n\<rparr>) st2 (START_WHILE_label n)"
    "\<not> label_between (st\<lparr>while_local := n\<rparr>) st2 (WHILE_label n)"
    "\<not> label_between (st\<lparr>while_local := n\<rparr>) st2 (WHILE_END_label n)" by simp_all
  with all have "START_WHILE_label n \<notin> set (labels_of (c @ t))" "WHILE_label n \<notin> set (labels_of (c @ t))"
    "WHILE_END_label n \<notin> set (labels_of (c @ t))" unfolding fresh_labels_def by blast+
  with all n show ?thesis
    unfolding fresh_labels_def
    by (auto simp: counters_le_def intro: label_between_mono [of st "st\<lparr>while_local := n\<rparr>" st2 st2])
qed

text \<open>What a successful compilation of each construct consists of.\<close>

lemma compile_printE:
  assumes "compile_ast (PRINT e) st = Some (c, st')"
  obtains p code where "folded e = Some p" "compile_ast p st = Some (code, st')"
    "c = code @ [Call_print_int]"
  using assms by (auto split: bind_splits)

lemma compile_letE:
  assumes "compile_ast (LET x e) st = Some (c, st')"
  obtains code where "compile_ast e st = Some (code, st')" "c = code @ [Movq_rdi_var (var_offset x)]"
  using assms by (auto split: bind_splits)

lemma compile_consE:
  assumes "compile_statements (n # ns) st = Some (c, st')"
  obtains c1 st1 c2 where "compile_ast n st = Some (c1, st1)"
    "compile_statements ns st1 = Some (c2, st')" "c = c1 @ c2"
  using assms by (auto split: bind_splits)

lemma compile_ifE:
  assumes "compile_ast (IF cond t e) st = Some (c, st')"
  obtains n p cc st1 ct st2 ce where
    "n = if_local st + 1" "folded cond = Some p"
    "compile_ast p (st\<lparr>if_local := n\<rparr>) = Some (cc, st1)"
    "compile_ast t st1 = Some (ct, st2)"
    "(case e of None \<Rightarrow> Some ([], st2) | Some b \<Rightarrow> compile_ast b st2) = Some (ce, st')"
    "c = cc @ if_jumps (condition_op cond) n (e \<noteq> None) @ [Label (IF_label n)] @ ct
       @ [Jmp (END_IF_label n), Label (ELSE_label n)] @ ce @ [Label (END_IF_label n)]"
  using assms by (auto simp: Let_def split: bind_splits)

lemma compile_whileE:
  assumes "compile_ast (WHILE cond b) st = Some (c, st')"
  obtains n p cc st1 cb where
    "n = while_local st + 1" "folded cond = Some p"
    "compile_ast p (st\<lparr>while_local := n\<rparr>) = Some (cc, st1)"
    "compile_ast b st1 = Some (cb, st')"
    "c = [Label (START_WHILE_label n)] @ cc @ while_jumps (condition_op cond) n
       @ [Label (WHILE_label n)] @ cb @ [Jmp (START_WHILE_label n), Label (WHILE_END_label n)]"
  using assms by (auto simp: Let_def split: bind_splits)

lemma compile_binaryE:
  assumes "compile_ast (BINARY_OP op l r) st = Some (c, st')"
  obtains (power) v where "r = NUM v" "op = CHR ''*''" "check_power_two l r st = Some (Some c, st')"
  | (general) cl st1 cr where
      "(case r of NUM _ \<Rightarrow> (if op = CHR ''*'' then check_power_two l r st else Some (None, st))
        | _ \<Rightarrow> Some (None, st)) = Some (None, st)"
      "compile_ast l st = Some (cl, st1)" "compile_ast r st1 = Some (cr, st')"
      "c = cl @ [Push_rdi] @ cr @ [Push_rdi, Pop_rcx, Pop_rdi] @ binary_code op"
proof (cases "\<exists>v. r = NUM v \<and> op = CHR ''*'' \<and> is_power_two v")
  case True
  then obtain v where v: "r = NUM v" "op = CHR ''*''" "is_power_two v" by blast
  with assms show ?thesis by (intro power) (auto split: bind_splits)
next
  case False
  then have none: "(case r of NUM _ \<Rightarrow> (if op = CHR ''*'' then check_power_two l r st else Some (None, st))
      | _ \<Rightarrow> Some (None, st)) = Some (None, st)"
    by (cases r) auto
  with assms obtain cl st1 cr where "compile_ast l st = Some (cl, st1)" "compile_ast r st1 = Some (cr, st')"
      "c = cl @ [Push_rdi] @ cr @ [Push_rdi, Pop_rcx, Pop_rdi] @ binary_code op"
    by (subst (asm) compile_ast.simps(4), simp only:) (auto split: bind_splits)
  with none show ?thesis by (rule general)
qed

lemma compile_fresh_labels:
  "compile_ast n st = Some (c, st') \<Longrightarrow> fresh_labels st st' c"
  "compile_statements ns st = Some (c', st') \<Longrightarrow> fresh_labels st st' c'"
  "check_power_two l r st = Some (pc, st') \<Longrightarrow>
     fresh_labels st st' (case pc of None \<Rightarrow> [] | Some c \<Rightarrow> c)"
proof (induction n st and ns st and l r st arbitrary: c st' and c' st' and pc st'
    rule: compile_ast_compile_statements_check_power_two.induct)
  case (2 expr st)
  from "2.prems" show ?case
    by (rule compile_printE) (auto intro!: fresh_labels_snoc intro: "2.IH")
next
  case (4 op left right st)
  from "4.prems" show ?case
  proof (cases rule: compile_binaryE)
    case (power v)
    with "4.IH"(1) show ?thesis by fastforce
  next
    case (general cl st1 cr)
    have "fresh_labels st st1 cl"
      by (rule "4.IH"(2) [OF general(1) refl refl general(2)])
    moreover have "fresh_labels st1 st' cr"
      by (rule "4.IH"(3) [OF general(1) refl refl general(2) refl general(3)])
    ultimately show ?thesis
      unfolding general(4)
      by (intro fresh_labels_append [of st st1 cl] fresh_labels_append [OF fresh_labels_none]
          fresh_labels_snoc) simp_all
  qed
next
  case (6 x e st)
  from "6.prems" show ?case
    by (rule compile_letE) (auto intro!: fresh_labels_snoc intro: "6.IH")
next
  case (7 condition if_branch else_branch st)
  from "7.prems" show ?case
  proof (rule compile_ifE)
    fix n p cc st1 ct st2 ce
    assume n: "n = if_local st + 1" and p: "folded condition = Some p"
      and cc: "compile_ast p (st\<lparr>if_local := n\<rparr>) = Some (cc, st1)"
      and ct: "compile_ast if_branch st1 = Some (ct, st2)"
      and ce: "(case else_branch of None \<Rightarrow> Some ([], st2) | Some b \<Rightarrow> compile_ast b st2) = Some (ce, st')"
      and c: "c = cc @ if_jumps (condition_op condition) n (else_branch \<noteq> None)
        @ [Label (IF_label n)] @ ct @ [Jmp (END_IF_label n), Label (ELSE_label n)] @ ce
        @ [Label (END_IF_label n)]"
    have "fresh_labels st2 st' ce"
      using "7.IH"(3) [OF n p cc refl ct refl] ce by (cases else_branch) (auto intro: fresh_labels_none)
    then show ?thesis
      unfolding c by (intro fresh_labels_if [OF "7.IH"(1) [OF n p cc] "7.IH"(2) [OF n p cc refl ct]] n)
  qed
next
  case (8 condition body st)
  from "8.prems" show ?case
  proof (rule compile_whileE)
    fix n p cc st1 cb
    assume n: "n = while_local st + 1" and p: "folded condition = Some p"
      and cc: "compile_ast p (st\<lparr>while_local := n\<rparr>) = Some (cc, st1)"
      and cb: "compile_ast body st1 = Some (cb, st')"
      and c: "c = [Label (START_WHILE_label n)] @ cc @ while_jumps (condition_op condition) n
       @ [Label (WHILE_label n)] @ cb @ [Jmp (START_WHILE_label n), Label (WHILE_END_label n)]"
    show ?thesis
      unfolding c by (intro fresh_labels_while [OF "8.IH"(1) [OF n p cc] "8.IH"(2) [OF n p cc refl cb]] n)
  qed
next
  case (10 s ss st)
  from "10.prems" show ?case
    by (rule compile_consE) (auto intro: fresh_labels_append "10.IH")
next
  case (11 left right st)
  then show ?case
    by (cases right) (auto split: bind_splits if_splits intro!: fresh_labels_snoc intro: fresh_labels_none)
qed (auto intro: fresh_labels_none)

end
