(* ===== verification/Basic_Simulation.thy ===== *)
theory Basic_Simulation
  imports Basic_Correct Basic_Labels
begin

text \<open>
  Forward simulation for the TeenyBASIC compiler: whatever a program of the grammar does
  according to \<open>Basic_Semantics\<close>, the instructions \<^verbatim>\<open>compile_ast\<close> prints for it do on the
  machine of \<open>X86_Machine\<close>, and \<^verbatim>\<open>basic_main\<close> returns to its caller with the callee-saved
  \<^verbatim>\<open>%rbp\<close>, the stack pointer and the caller's stack as the calling convention asks.
\<close>

section \<open>Conditions and jumps\<close>

fun cond_code :: "node \<Rightarrow> instr list" where
  "cond_code (BINARY_OP op l r) =
     expr_code l @ [Push_rdi] @ expr_code r @ [Push_rdi, Pop_rcx, Pop_rdi, Cmp_rcx_rdi]"
| "cond_code _ = []"

lemma compile_cond:
  assumes "wf_cond c"
  shows "compile_ast c st = Some (cond_code c, st)"
proof (cases c)
  case (BINARY_OP op l r)
  with assms have op: "compare_char op" and l: "wf_expr l" and r: "wf_expr r" by simp_all
  from op have nm: "op \<noteq> CHR ''*''" and bc: "binary_code op = [Cmp_rcx_rdi]"
    by (auto simp: compare_char_def binary_code_def)
  have "(case r of NUM _ \<Rightarrow> (if op = CHR ''*'' then check_power_two l r st else Some (None, st))
      | _ \<Rightarrow> Some (None, st)) = Some (None, st)"
    using nm by (cases r) simp_all
  then show ?thesis
    unfolding BINARY_OP
    by (subst compile_ast.simps(4), simp only:)
      (simp add: compile_expr [OF l] compile_expr [OF r] bc)
qed (use assms in simp_all)

text \<open>A condition leaves the comparison of its two sides in the flags.\<close>

lemma cond_correct:
  assumes "wf_cond c" and "eval_cond c vs = Some b"
    and "frag P (rip s) (cond_code c)" and "frame_ok s" and "vars_in s vs"
  obtains t x y where "steps_to P s t" "rip t = rip s + length (cond_code c)" "keeps s t"
    "rflags t = Some (cmp_flags x y)" "compare_op (condition_op c) x y = Some b"
proof -
  from assms(1) obtain op l r where c: "c = BINARY_OP op l r" by (cases c) simp_all
  from assms(1) have wf: "wf_expr l" "wf_expr r" by (simp_all add: c)
  from assms(2) obtain x y where x: "eval_expr l vs = Some x" and y: "eval_expr r vs = Some y"
    and b: "compare_op op x y = Some b"
    by (auto simp: c split: bind_splits)
  from assms(3) have f: "frag P (rip s) (expr_code l @ [Push_rdi] @ expr_code r @ [Push_rdi, Pop_rcx, Pop_rdi])"
    and fc: "frag P (rip s + (length (expr_code l) + length (expr_code r) + 4)) [Cmp_rcx_rdi]"
    by (auto simp: c frag_simps algebra_simps numeral_eq_Suc)
  from operands_correct [OF expr_correct [OF wf(1) x] expr_correct [OF wf(2) y] f assms(4,5)]
  obtain s1 where s1: "steps_to P s s1" "rip s1 = rip s + (length (expr_code l) + length (expr_code r) + 4)"
    "rdi s1 = x" "rcx s1 = y" "keeps s s1" by auto
  define t where "t = s1\<lparr>rip := Suc (rip s1), rflags := Some (cmp_flags x y)\<rparr>"
  have "machine_step P s1 = Some t"
    using fc s1 by (subst step_at [of P s1 Cmp_rcx_rdi "[]"]) (simp_all add: t_def)
  with s1(1) have "steps_to P s t" by (blast intro: steps_trans steps_one)
  moreover have "keeps s t" using s1(5) by (simp add: t_def keeps_def)
  ultimately show thesis
    using that b s1(2) by (auto simp: t_def c condition_op_def)
qed

lemma jump_pair:
  assumes "frag P (rip s) [Jcc j1 l1, Jcc j2 l2]" and "rflags s = Some f"
    and "jcc_taken j2 f = (\<not> jcc_taken j1 f)"
    and "label_index P l1 = Some i1" and "label_index P l2 = Some i2"
  shows "steps_to P s (s\<lparr>rip := if jcc_taken j1 f then i1 else i2\<rparr>)"
proof (cases "jcc_taken j1 f")
  case True
  then show ?thesis using assms by (intro steps_one) (simp add: step_at)
next
  case False
  define s1 where "s1 = s\<lparr>rip := Suc (rip s)\<rparr>"
  have "machine_step P s = Some s1" using assms False by (simp add: step_at s1_def)
  moreover have f1: "frag P (rip s1) [Jcc j2 l2]" using assms(1) by (simp add: frag_Cons s1_def)
  have "machine_step P s1 = Some (s1\<lparr>rip := i2\<rparr>)"
    by (subst step_at [OF f1]) (use assms False in \<open>simp add: s1_def\<close>)
  ultimately have "steps_to P s (s1\<lparr>rip := i2\<rparr>)" by (blast intro: steps_Cons)
  then show ?thesis using False by (simp add: s1_def)
qed

lemma if_jumps_pair:
  assumes "compare_op op x y = Some b"
  obtains j1 j2 where
    "if_jumps op n e = [Jcc j1 (IF_label n), Jcc j2 (if e then ELSE_label n else END_IF_label n)]"
    "jcc_taken j1 (cmp_flags x y) = b" "jcc_taken j2 (cmp_flags x y) = (\<not> b)"
  using assms unfolding compare_op_def if_jumps_def
  by (auto simp: jcc_taken_cmp Let_def simp del: jcc_taken.simps split: if_splits)

lemma while_jumps_pair:
  assumes "compare_op op x y = Some b"
  obtains j1 j2 where
    "while_jumps op n = [Jcc j1 (WHILE_label n), Jcc j2 (WHILE_END_label n)]"
    "jcc_taken j1 (cmp_flags x y) = b" "jcc_taken j2 (cmp_flags x y) = (\<not> b)"
  using assms unfolding compare_op_def while_jumps_def
  by (auto simp: jcc_taken_cmp simp del: jcc_taken.simps split: if_splits)

lemma label_at:
  assumes "frag P i (Label l # c)" and "distinct (labels_of P)"
  shows "label_index P l = Some i"
  using assms by (intro label_index_nth) (auto simp: frag_simps)

lemma branch_correct:
  assumes "wf_cond c" and "eval_cond c vs = Some b"
    and f: "frag P (rip s) (cond_code c @ jumps)" and "frame_ok s" and "vars_in s vs"
    and jumps: "\<And>x y. compare_op (condition_op c) x y = Some b \<Longrightarrow>
      \<exists>j1 j2. jumps = [Jcc j1 l1, Jcc j2 l2] \<and> jcc_taken j1 (cmp_flags x y) = b
        \<and> jcc_taken j2 (cmp_flags x y) = (\<not> b)"
    and "label_index P l1 = Some i1" and "label_index P l2 = Some i2"
  obtains t where "steps_to P s t" "rip t = (if b then i1 else i2)" "keeps s t"
proof -
  obtain t x y where t: "steps_to P s t" "rip t = rip s + length (cond_code c)" "keeps s t"
    and fl: "rflags t = Some (cmp_flags x y)" and cmp: "compare_op (condition_op c) x y = Some b"
    using cond_correct [OF assms(1,2) frag_append_rip(1) [OF f] assms(4,5)] by metis
  from jumps [OF cmp] obtain j1 j2 where j: "jumps = [Jcc j1 l1, Jcc j2 l2]"
    "jcc_taken j1 (cmp_flags x y) = b" "jcc_taken j2 (cmp_flags x y) = (\<not> b)" by blast
  from frag_append_rip(2) [OF f] have "frag P (rip t) [Jcc j1 l1, Jcc j2 l2]" by (simp add: t j)
  from jump_pair [OF this fl _ assms(7,8)] j
  have "steps_to P t (t\<lparr>rip := if b then i1 else i2\<rparr>)" by simp
  with t(1) have "steps_to P s (t\<lparr>rip := if b then i1 else i2\<rparr>)" by (rule steps_trans)
  moreover have "keeps s (t\<lparr>rip := if b then i1 else i2\<rparr>)" using t(3) by (simp add: keeps_def)
  ultimately show thesis using that by simp
qed

lemma label_skip:
  assumes "frag P (rip s) (Label l # c)"
  shows "steps_to P s (s\<lparr>rip := Suc (rip s)\<rparr>)"
  by (rule steps_one, subst step_at [OF assms]) simp

lemma jmp_steps:
  assumes "frag P (rip s) (Jmp l # c)" and "label_index P l = Some i"
  shows "steps_to P s (s\<lparr>rip := i\<rparr>)"
  by (rule steps_one, subst step_at [OF assms(1)]) (simp add: assms(2))

section \<open>Statements\<close>

definition after :: "machine \<Rightarrow> machine \<Rightarrow> vars \<Rightarrow> i64 list \<Rightarrow> bool" where
  "after s t vs out \<longleftrightarrow> rbp t = rbp s \<and> rsp t = rsp s \<and> vars_in t vs \<and> outp t = outp s @ out
     \<and> (\<forall>a. rbp s \<le> a \<longrightarrow> mem t a = mem s a)"

lemma after_frame_ok: "after s t vs out \<Longrightarrow> frame_ok s \<Longrightarrow> frame_ok t"
  by (simp add: after_def frame_ok_def)

lemma after_trans: "after s t vs1 o1 \<Longrightarrow> after t u vs2 o2 \<Longrightarrow> after s u vs2 (o1 @ o2)"
  by (auto simp: after_def)

lemma after_rip [simp]: "after s (t\<lparr>rip := i\<rparr>) vs out = after s t vs out"
  by (simp add: after_def vars_in_def)

lemma after_from_rip [simp]: "after (s\<lparr>rip := i\<rparr>) t vs out = after s t vs out"
  by (simp add: after_def vars_in_def)

lemma keeps_after:
  assumes "keeps s t" and "frame_ok s" and "vars_in s vs"
  shows "after s t vs []"
  using keeps_vars_in [OF assms] assms(1,2) by (auto simp: after_def keeps_def frame_ok_def)

definition runs :: "instr list \<Rightarrow> vars \<Rightarrow> instr list \<Rightarrow> vars \<Rightarrow> i64 list \<Rightarrow> bool" where
  "runs P vs c vs' out \<longleftrightarrow>
     (\<forall>s. frag P (rip s) c \<longrightarrow> frame_ok s \<longrightarrow> vars_in s vs \<longrightarrow>
        (\<exists>t. steps_to P s t \<and> rip t = rip s + length c \<and> after s t vs' out))"

lemma runsE:
  assumes "runs P vs c vs' out" and "frag P (rip s) c" and "frame_ok s" and "vars_in s vs"
  obtains t where "steps_to P s t" "rip t = rip s + length c" "after s t vs' out"
  using assms unfolding runs_def by blast

lemma runs_nil: "runs P vs [] vs []"
  unfolding runs_def by (auto simp: after_def)

lemma runs_append:
  assumes "runs P vs c1 vs1 o1" and "runs P vs1 c2 vs2 o2"
  shows "runs P vs (c1 @ c2) vs2 (o1 @ o2)"
  unfolding runs_def
proof (intro allI impI)
  fix s :: machine
  assume f: "frag P (rip s) (c1 @ c2)" and s: "frame_ok s" "vars_in s vs"
  obtain t where t: "steps_to P s t" "rip t = rip s + length c1" "after s t vs1 o1"
    by (rule runsE [OF assms(1) frag_append_rip(1) [OF f] s])
  from frag_append_rip(2) [OF f] have "frag P (rip t) c2" by (simp add: t)
  moreover have "frame_ok t" "vars_in t vs1"
    using t s by (auto simp: after_frame_ok after_def)
  ultimately obtain u where "steps_to P t u" "rip u = rip t + length c2" "after t u vs2 o2"
    by (rule runsE [OF assms(2)])
  with t show "\<exists>u. steps_to P s u \<and> rip u = rip s + length (c1 @ c2) \<and> after s u vs2 (o1 @ o2)"
    by (auto intro: steps_trans after_trans)
qed

lemma computes_runs:
  assumes "computes P vs c v"
    and "\<And>s. frame_ok s \<Longrightarrow> vars_in s vs \<Longrightarrow> rdi s = v \<Longrightarrow>
      \<exists>t. instr_step P i s = Some t \<and> rip t = Suc (rip s) \<and> after s t vs' out"
  shows "runs P vs (c @ [i]) vs' out"
  unfolding runs_def
proof (intro allI impI)
  fix s :: machine
  assume f: "frag P (rip s) (c @ [i])" and s: "frame_ok s" "vars_in s vs"
  obtain t where t: "steps_to P s t" "rip t = rip s + length c" "rdi t = v" "keeps s t"
    by (rule computesE [OF assms(1) frag_append_rip(1) [OF f] s])
  from t s have "frame_ok t" "vars_in t vs" by (auto intro: keeps_frame_ok keeps_vars_in)
  from assms(2) [OF this t(3)] obtain u where u: "instr_step P i t = Some u" "rip u = Suc (rip t)"
    "after t u vs' out" by blast
  from frag_append_rip(2) [OF f] have "machine_step P t = Some u"
    by (simp add: t(2) [symmetric] step_at u)
  then have "steps_to P s u" using t(1) by (blast intro: steps_trans steps_one)
  moreover have "after s u vs' out"
    using after_trans [OF keeps_after [OF t(4) s] u(3)] by simp
  ultimately show "\<exists>u. steps_to P s u \<and> rip u = rip s + length (c @ [i]) \<and> after s u vs' out"
    using t(2) u(2) by auto
qed

lemma print_runs:
  assumes "computes P vs c v"
  shows "runs P vs (c @ [Call_print_int]) vs [v]"
proof (rule computes_runs [OF assms])
  fix s assume s: "frame_ok s" "vars_in s vs" "rdi s = v"
  have "vars_in (print_int_step s) vs"
    using s(1,2) var_offset_bounds(2) unfolding vars_in_def
    by (fastforce simp: print_int_step_def frame_ok_def)
  then have "after s (print_int_step s) vs [v]"
    using s by (auto simp: after_def frame_ok_def) (auto simp: print_int_step_def)
  then show "\<exists>t. instr_step P Call_print_int s = Some t \<and> rip t = Suc (rip s) \<and> after s t vs [v]"
    by (simp add: print_int_step_def)
qed

lemma let_runs:
  assumes "computes P vs c v" and "isupper x"
  shows "runs P vs (c @ [Movq_rdi_var (var_offset x)]) (vs(x := v)) []"
proof (rule computes_runs [OF assms(1)])
  fix s assume s: "frame_ok s" "vars_in s vs" "rdi s = v"
  let ?t = "s\<lparr>rip := Suc (rip s), mem := (mem s)(rbp s - int (var_offset x) := rdi s)\<rparr>"
  have "vars_in ?t (vs(x := v))"
    using s var_offset_inj [OF _ assms(2)] unfolding vars_in_def by auto
  moreover have "0 < var_offset x" using var_offset_bounds(1) [OF assms(2)] by simp
  ultimately have "after s ?t (vs(x := v)) []" by (auto simp: after_def)
  then show "\<exists>t. instr_step P (Movq_rdi_var (var_offset x)) s = Some t \<and> rip t = Suc (rip s)
      \<and> after s t (vs(x := v)) []"
    using aligned_var [OF s(1) assms(2)] by auto
qed

text \<open>Running a piece of code that starts further on in the same frame.\<close>

lemma runs_from:
  assumes "runs P vs c vs' out" and "frag P (rip t) c" and "after s t vs o1" and "frame_ok s"
  obtains u where "steps_to P t u" "rip u = rip t + length c" "after s u vs' (o1 @ out)"
proof -
  from assms(3,4) have "frame_ok t" "vars_in t vs" by (auto simp: after_frame_ok after_def)
  from runsE [OF assms(1,2) this] obtain u where
    "steps_to P t u" "rip u = rip t + length c" "after t u vs' out" by blast
  with that after_trans [OF assms(3)] show thesis by blast
qed

definition if_code :: "node \<Rightarrow> nat \<Rightarrow> bool \<Rightarrow> instr list \<Rightarrow> instr list \<Rightarrow> instr list" where
  "if_code c n e ct ce = cond_code c @ if_jumps (condition_op c) n e @ [Label (IF_label n)] @ ct
     @ [Jmp (END_IF_label n), Label (ELSE_label n)] @ ce @ [Label (END_IF_label n)]"

lemma if_runs_true:
  assumes c: "wf_cond c" "eval_cond c vs = Some True" and d: "distinct (labels_of P)"
    and t: "runs P vs ct vs' out"
  shows "runs P vs (if_code c n e ct ce) vs' out"
  unfolding runs_def
proof (intro allI impI)
  fix s :: machine
  assume f: "frag P (rip s) (if_code c n e ct ce)" and s: "frame_ok s" "vars_in s vs"
  define k where "k = rip s + length (cond_code c @ if_jumps (condition_op c) n e)"
  define m where "m = k + Suc (length ct)"
  define z where "z = m + 2 + length ce"
  from f have f1: "frag P (rip s) (cond_code c @ if_jumps (condition_op c) n e)"
    and fk: "frag P k (Label (IF_label n) # ct)" and fm: "frag P m (Jmp (END_IF_label n) # Label (ELSE_label n) # ce)"
    and fz: "frag P z [Label (END_IF_label n)]"
    by (auto simp: if_code_def frag_append k_def m_def z_def frag_Cons add.assoc)
  have i1: "label_index P (IF_label n) = Some k" by (rule label_at [OF fk d])
  have i2: "label_index P (END_IF_label n) = Some z" by (rule label_at [OF fz d])
  have i3: "label_index P (ELSE_label n) = Some (Suc m)"
    using fm by (intro label_at [OF _ d, where c = ce]) (simp add: frag_Cons)
  obtain t1 where t1: "steps_to P s t1" "rip t1 = k" "keeps s t1"
  proof (rule branch_correct [OF c f1 s])
    show "\<exists>j1 j2. if_jumps (condition_op c) n e =
        [Jcc j1 (IF_label n), Jcc j2 (if e then ELSE_label n else END_IF_label n)]
        \<and> jcc_taken j1 (cmp_flags x y) = True \<and> jcc_taken j2 (cmp_flags x y) = (\<not> True)"
      if "compare_op (condition_op c) x y = Some True" for x y
      by (rule if_jumps_pair [OF that, of n e]) blast
    show "label_index P (if e then ELSE_label n else END_IF_label n) = Some (if e then Suc m else z)"
      using i2 i3 by simp
  qed (use i1 that in simp_all)
  obtain t2 where t2: "steps_to P (t1\<lparr>rip := Suc k\<rparr>) t2" "rip t2 = m" "after s t2 vs' out"
  proof (rule runs_from [OF t])
    show "frag P (rip (t1\<lparr>rip := Suc k\<rparr>)) ct" using fk by (simp add: frag_Cons)
    show "after s (t1\<lparr>rip := Suc k\<rparr>) vs []" using keeps_after [OF t1(3) s] by simp
  qed (use s that in \<open>auto simp: m_def\<close>)
  have "steps_to P t1 (t1\<lparr>rip := Suc k\<rparr>)" using label_skip [of P t1] fk t1(2) by simp
  moreover have "steps_to P t2 (t2\<lparr>rip := z\<rparr>)" using fm t2(2) by (intro jmp_steps [OF _ i2]) simp
  moreover have "steps_to P (t2\<lparr>rip := z\<rparr>) (t2\<lparr>rip := Suc z\<rparr>)"
    using label_skip [of P "t2\<lparr>rip := z\<rparr>"] fz by simp
  ultimately have "steps_to P s (t2\<lparr>rip := Suc z\<rparr>)" using t1(1) t2(1) by (blast intro: steps_trans)
  moreover have "Suc z = rip s + length (if_code c n e ct ce)"
    by (simp add: if_code_def z_def m_def k_def)
  ultimately show "\<exists>t. steps_to P s t \<and> rip t = rip s + length (if_code c n e ct ce) \<and> after s t vs' out"
    using t2(3) by (intro exI [of _ "t2\<lparr>rip := Suc z\<rparr>"]) simp
qed

lemma if_runs_false:
  assumes c: "wf_cond c" "eval_cond c vs = Some False" and d: "distinct (labels_of P)"
    and t: "runs P vs ce vs' out" and e: "\<not> e \<Longrightarrow> vs' = vs \<and> out = []"
  shows "runs P vs (if_code c n e ct ce) vs' out"
  unfolding runs_def
proof (intro allI impI)
  fix s :: machine
  assume f: "frag P (rip s) (if_code c n e ct ce)" and s: "frame_ok s" "vars_in s vs"
  define k where "k = rip s + length (cond_code c @ if_jumps (condition_op c) n e)"
  define m where "m = k + length ct + 2"
  define z where "z = m + Suc (length ce)"
  from f have f1: "frag P (rip s) (cond_code c @ if_jumps (condition_op c) n e)"
    and fk: "frag P k (Label (IF_label n) # ct)" and fm: "frag P m (Label (ELSE_label n) # ce)"
    and fz: "frag P z [Label (END_IF_label n)]"
    by (auto simp: if_code_def frag_append k_def m_def z_def frag_Cons add.assoc)
  have i: "label_index P (IF_label n) = Some k" "label_index P (ELSE_label n) = Some m"
    "label_index P (END_IF_label n) = Some z"
    by (rule label_at [OF fk d] label_at [OF fm d] label_at [OF fz d])+
  obtain t1 where t1: "steps_to P s t1" "rip t1 = (if e then m else z)" "keeps s t1"
  proof (rule branch_correct [OF c f1 s])
    show "\<exists>j1 j2. if_jumps (condition_op c) n e =
        [Jcc j1 (IF_label n), Jcc j2 (if e then ELSE_label n else END_IF_label n)]
        \<and> jcc_taken j1 (cmp_flags x y) = False \<and> jcc_taken j2 (cmp_flags x y) = (\<not> False)"
      if "compare_op (condition_op c) x y = Some False" for x y
      by (rule if_jumps_pair [OF that, of n e]) blast
    show "label_index P (if e then ELSE_label n else END_IF_label n) = Some (if e then m else z)"
      using i by simp
  qed (use i that in simp_all)
  have k1: "after s t1 vs []" by (rule keeps_after [OF t1(3) s])
  have "\<exists>u. steps_to P t1 u \<and> rip u = z \<and> after s u vs' out"
  proof (cases e)
    case True
    with t1 fm have "steps_to P t1 (t1\<lparr>rip := Suc m\<rparr>)" using label_skip [of P t1] by simp
    moreover have "\<exists>u. steps_to P (t1\<lparr>rip := Suc m\<rparr>) u \<and> rip u = z \<and> after s u vs' out"
      by (rule runs_from [OF t, of "t1\<lparr>rip := Suc m\<rparr>" s "[]"])
        (use fm s k1 in \<open>auto simp: z_def frag_Cons\<close>)
    ultimately show ?thesis by (blast intro: steps_trans)
  qed (use t1 k1 e in auto)
  then obtain u where u: "steps_to P t1 u" "rip u = z" "after s u vs' out" by blast
  have "steps_to P u (u\<lparr>rip := Suc z\<rparr>)" using label_skip [of P u] fz u(2) by simp
  then have "steps_to P s (u\<lparr>rip := Suc z\<rparr>)" using t1(1) u(1) by (blast intro: steps_trans)
  moreover have "Suc z = rip s + length (if_code c n e ct ce)"
    by (simp add: if_code_def z_def m_def k_def)
  ultimately show "\<exists>t. steps_to P s t \<and> rip t = rip s + length (if_code c n e ct ce) \<and> after s t vs' out"
    using u(3) by (intro exI [of _ "u\<lparr>rip := Suc z\<rparr>"]) simp
qed

definition while_code :: "node \<Rightarrow> nat \<Rightarrow> instr list \<Rightarrow> instr list" where
  "while_code c n cb = [Label (START_WHILE_label n)] @ cond_code c @ while_jumps (condition_op c) n
     @ [Label (WHILE_label n)] @ cb @ [Jmp (START_WHILE_label n), Label (WHILE_END_label n)]"

text \<open>From the start of a loop, the test goes to the body or behind the loop.\<close>

lemma while_test:
  assumes c: "wf_cond c" "eval_cond c vs = Some b" and d: "distinct (labels_of P)"
    and f: "frag P (rip s) (while_code c n cb)" and s: "frame_ok s" "vars_in s vs"
  obtains t where "steps_to P s t" "after s t vs []"
    "rip t = rip s + (if b then length (cond_code c) + 4 else length (while_code c n cb))"
proof -
  define s0 where "s0 = s\<lparr>rip := Suc (rip s)\<rparr>"
  define k where "k = rip s0 + length (cond_code c @ while_jumps (condition_op c) n)"
  define z where "z = k + length cb + 2"
  from f have fs: "frag P (rip s) (Label (START_WHILE_label n) # cond_code c)"
    and f1: "frag P (rip s0) (cond_code c @ while_jumps (condition_op c) n)"
    and fk: "frag P k (Label (WHILE_label n) # cb)" and fz: "frag P z [Label (WHILE_END_label n)]"
    by (auto simp: while_code_def frag_append k_def s0_def z_def frag_Cons add.assoc)
  have i: "label_index P (WHILE_label n) = Some k" "label_index P (WHILE_END_label n) = Some z"
    by (rule label_at [OF fk d] label_at [OF fz d])+
  have s0: "frame_ok s0" "vars_in s0 vs" using s by (simp_all add: s0_def frame_ok_def vars_in_def)
  obtain t where t: "steps_to P s0 t" "rip t = (if b then k else z)" "keeps s0 t"
  proof (rule branch_correct [OF c f1 s0])
    show "\<exists>j1 j2. while_jumps (condition_op c) n = [Jcc j1 (WHILE_label n), Jcc j2 (WHILE_END_label n)]
        \<and> jcc_taken j1 (cmp_flags x y) = b \<and> jcc_taken j2 (cmp_flags x y) = (\<not> b)"
      if "compare_op (condition_op c) x y = Some b" for x y
      by (rule while_jumps_pair [OF that, of n]) blast
  qed (use i that in simp_all)
  have "steps_to P t (t\<lparr>rip := Suc (rip t)\<rparr>)"
    using label_skip [of P t "if b then WHILE_label n else WHILE_END_label n" "if b then cb else []"] fk fz t(2)
    by simp
  moreover have "steps_to P s s0" using label_skip [OF fs] by (simp add: s0_def)
  ultimately have "steps_to P s (t\<lparr>rip := Suc (rip t)\<rparr>)" using t(1) by (blast intro: steps_trans)
  moreover have "after s (t\<lparr>rip := Suc (rip t)\<rparr>) vs []"
    using keeps_after [OF t(3) s0] by (simp add: s0_def)
  moreover have "length (while_jumps (condition_op c) n) = 2"
    using c(2) by (cases c) (auto simp: condition_op_def while_jumps_def compare_op_def split: bind_splits if_splits)
  ultimately show thesis
    using that [of "t\<lparr>rip := Suc (rip t)\<rparr>"] t(2)
    by (simp add: k_def z_def s0_def while_code_def)
qed

lemma while_runs_end:
  assumes "wf_cond c" "eval_cond c vs = Some False" "distinct (labels_of P)"
  shows "runs P vs (while_code c n cb) vs []"
  unfolding runs_def using while_test [OF assms] by auto metis

lemma while_runs_loop:
  assumes c: "wf_cond c" "eval_cond c vs = Some True" and d: "distinct (labels_of P)"
    and b: "runs P vs cb vs1 o1" and w: "runs P vs1 (while_code c n cb) vs2 o2"
  shows "runs P vs (while_code c n cb) vs2 (o1 @ o2)"
  unfolding runs_def
proof (intro allI impI)
  fix s :: machine
  assume f: "frag P (rip s) (while_code c n cb)" and s: "frame_ok s" "vars_in s vs"
  obtain t where t: "steps_to P s t" "after s t vs []" "rip t = rip s + (length (cond_code c) + 4)"
    using while_test [OF c d f s] by auto
  have l2: "length (while_jumps (condition_op c) n) = 2"
    using c(2) by (cases c) (auto simp: condition_op_def while_jumps_def compare_op_def split: bind_splits if_splits)
  have fb: "frag P (rip t) cb" "frag P (rip t + length cb) [Jmp (START_WHILE_label n), Label (WHILE_END_label n)]"
    using f by (auto simp: while_code_def frag_append t(3) l2 frag_Cons add.assoc numeral_eq_Suc)
  obtain u where u: "steps_to P t u" "rip u = rip t + length cb" "after s u vs1 o1"
    using runs_from [OF b fb(1) t(2) s(1)] by auto
  have "label_index P (START_WHILE_label n) = Some (rip s)"
    by (rule label_at [OF _ d]) (use f in \<open>simp add: while_code_def\<close>)
  then have j: "steps_to P u (u\<lparr>rip := rip s\<rparr>)"
    using fb(2) u(2) by (intro jmp_steps) simp_all
  obtain v where v: "steps_to P (u\<lparr>rip := rip s\<rparr>) v" "rip v = rip s + length (while_code c n cb)"
    "after s v vs2 (o1 @ o2)"
    using runs_from [OF w, of "u\<lparr>rip := rip s\<rparr>" s o1] f u(3) s(1) by auto
  have "steps_to P s v" using t(1) u(1) j v(1) by (blast intro: steps_trans)
  with v show "\<exists>t. steps_to P s t \<and> rip t = rip s + length (while_code c n cb) \<and> after s t vs2 (o1 @ o2)"
    by blast
qed

lemma compile_print_runs:
  assumes "wf_expr e" and "is_const e \<or> no_const_op e" and "eval_expr e vs = Some v"
    and "compile_ast (PRINT e) st = Some (c, st')"
  shows "runs P vs c vs [v]"
  using assms(4)
proof (rule compile_printE)
  fix p code assume p: "folded e = Some p" and code: "compile_ast p st = Some (code, st')"
    and c: "c = code @ [Call_print_int]"
  from assms(2) have "wf_expr p \<and> eval_expr p vs = Some v"
    using p assms(1,3) folded_no_const_op [of e] folded_const [OF _ assms(3)] by auto
  with code show ?thesis
    unfolding c by (auto simp: compile_expr intro: print_runs expr_correct)
qed

lemma compile_if_code:
  assumes "compile_ast (IF c t e) st = Some (code, st')" and "wf_cond c" and "no_const_op c"
  obtains n st1 ct st2 ce where "compile_ast t st1 = Some (ct, st2)"
    "(case e of None \<Rightarrow> Some ([], st2) | Some b \<Rightarrow> compile_ast b st2) = Some (ce, st')"
    "code = if_code c n (e \<noteq> None) ct ce"
  using assms(1)
proof (rule compile_ifE)
  fix n p cc st1 ct st2 ce
  assume "folded c = Some p" "compile_ast p (st\<lparr>if_local := n\<rparr>) = Some (cc, st1)"
    and rest: "compile_ast t st1 = Some (ct, st2)"
    "(case e of None \<Rightarrow> Some ([], st2) | Some b \<Rightarrow> compile_ast b st2) = Some (ce, st')"
    and code: "code = cc @ if_jumps (condition_op c) n (e \<noteq> None) @ [Label (IF_label n)] @ ct
       @ [Jmp (END_IF_label n), Label (ELSE_label n)] @ ce @ [Label (END_IF_label n)]"
  then have "cc = cond_code c" using assms(2,3) by (simp add: folded_no_const_op compile_cond)
  with rest code that show thesis by (simp add: if_code_def)
qed

lemma compile_while_code:
  assumes "compile_ast (WHILE c b) st = Some (code, st')" and "wf_cond c" and "no_const_op c"
  obtains st1 cb where "compile_ast b st1 = Some (cb, st')"
    "code = while_code c (while_local st + 1) cb"
  using assms(1)
proof (rule compile_whileE)
  fix n p cc st1 cb
  assume "n = while_local st + 1" "folded c = Some p" "compile_ast p (st\<lparr>while_local := n\<rparr>) = Some (cc, st1)"
    and rest: "compile_ast b st1 = Some (cb, st')"
    and code: "code = [Label (START_WHILE_label n)] @ cc @ while_jumps (condition_op c) n
       @ [Label (WHILE_label n)] @ cb @ [Jmp (START_WHILE_label n), Label (WHILE_END_label n)]"
  then have "cc = cond_code c" "n = while_local st + 1"
    using assms(2,3) by (simp_all add: folded_no_const_op compile_cond)
  with rest code that show thesis by (simp add: while_code_def)
qed

theorem stmt_runs:
  "exec_stmt n vs vs' out \<Longrightarrow> wf_stmt n \<Longrightarrow> fold_safe n \<Longrightarrow> compile_ast n st = Some (c, st') \<Longrightarrow>
     distinct (labels_of P) \<Longrightarrow> runs P vs c vs' out"
  "exec_stmts ns vs vs' out \<Longrightarrow> list_all wf_stmt ns \<Longrightarrow> list_all fold_safe ns \<Longrightarrow>
     compile_statements ns st = Some (c, st') \<Longrightarrow> distinct (labels_of P) \<Longrightarrow> runs P vs c vs' out"
proof (induction arbitrary: st c st' and st c st' rule: exec_stmt_exec_stmts.inducts)
  case (ex_print e s v)
  then show ?case by (auto intro: compile_print_runs simp del: compile_ast.simps)
next
  case (ex_let e s v x)
  then have "runs P s (expr_code e @ [Movq_rdi_var (var_offset x)]) (s(x := v)) []"
    by (intro let_runs expr_correct) simp_all
  with ex_let show ?case by (simp add: compile_expr fun_upd_def)
next
  case (ex_seq ss s s' out)
  then show ?case by simp
next
  case (ex_if_true cnd s t s' out e)
  then have w: "wf_cond cnd" "no_const_op cnd" by simp_all
  from compile_if_code [OF ex_if_true.prems(3) w] show ?case
    by (rule) (use ex_if_true in \<open>auto intro: if_runs_true\<close>)
next
  case (ex_if_else cnd s b s' out t)
  then have w: "wf_cond cnd" "no_const_op cnd" by simp_all
  from compile_if_code [OF ex_if_else.prems(3) w] show ?case
    by (rule) (use ex_if_else in \<open>auto intro: if_runs_false\<close>)
next
  case (ex_if_skip cnd s t)
  then have w: "wf_cond cnd" "no_const_op cnd" by simp_all
  from compile_if_code [OF ex_if_skip.prems(3) w] show ?case
    by (rule) (use ex_if_skip in \<open>auto intro: if_runs_false runs_nil\<close>)
next
  case (ex_while_end cnd s b)
  then have w: "wf_cond cnd" "no_const_op cnd" by simp_all
  from compile_while_code [OF ex_while_end.prems(3) w] show ?case
    by (rule) (use ex_while_end in \<open>auto intro: while_runs_end\<close>)
next
  case (ex_while_loop cnd s b s1 out1 s2 out2)
  then have w: "wf_cond cnd" "no_const_op cnd" by simp_all
  have IH: "runs P s1 c s2 out2" by (rule ex_while_loop.IH(2) [OF ex_while_loop.prems])
  show ?case
  proof (rule compile_while_code [OF ex_while_loop.prems(3) w])
    fix st1 cb
    assume cb: "compile_ast b st1 = Some (cb, st')" and code: "c = while_code cnd (while_local st + 1) cb"
    have "runs P s cb s1 out1"
      by (rule ex_while_loop.IH(1) [OF _ _ cb]) (use ex_while_loop.prems in simp_all)
    with IH show ?thesis
      unfolding code using ex_while_loop.hyps ex_while_loop.prems(4) w by (intro while_runs_loop)
  qed
next
  case (ex_nil s)
  then show ?case by (simp add: runs_nil)
next
  case (ex_cons n s s1 out1 ns s2 out2)
  from ex_cons.prems(3) show ?case
    by (rule compile_consE) (use ex_cons in \<open>auto intro!: runs_append [of P s _ s1 out1]\<close>)
qed

section \<open>Whole programs\<close>

lemma compile_program_labels:
  "compile_program ast = Some P \<Longrightarrow> distinct (labels_of P)"
  by (auto simp: compile_program_def header_def footer_def fresh_labels_def
      dest!: compile_fresh_labels(1))

lemma header_runs:
  assumes "frag P 0 (header @ c)" and "rip s = 0" and "aligned (rsp s)"
  obtains t where "steps_to P s t" "rip t = length header" "frame_ok t" "rbp t = rsp s - 8"
    "rsp t = rsp s - 216" "mem t = (mem s)(rsp s - 8 := word_of_int (rbp s))" "outp t = outp s"
proof -
  define s1 where "s1 = s\<lparr>rip := 1, rsp := rsp s - 8, mem := (mem s)(rsp s - 8 := word_of_int (rbp s))\<rparr>"
  define s2 where "s2 = s1\<lparr>rip := 2, rbp := rsp s1\<rparr>"
  define s3 where "s3 = s2\<lparr>rip := 3, rsp := rsp s2 - 208, rflags := None\<rparr>"
  have P: "P ! 0 = Push_rbp" "P ! 1 = Movq_rsp_rbp" "P ! 2 = Subq_imm_rsp 208" "2 < length P"
    "P \<noteq> []"
    using assms(1) by (auto simp: header_def frag_simps NUM_VARS_def sizeof_value_def numeral_eq_Suc)
  have "machine_step P s = Some s1" "machine_step P s1 = Some s2" "machine_step P s2 = Some s3"
    using P assms by (simp_all add: machine_step_def push_step_def s1_def s2_def s3_def)
  then have "steps_to P s s3" by (blast intro: steps_Cons)
  moreover have "aligned (rsp s - 216)" using assms(3) unfolding aligned_def by presburger
  ultimately show thesis
    using that [of s3] assms(3)
    by (simp add: s1_def s2_def s3_def header_def frame_ok_def)
qed

lemma footer_runs:
  assumes "frag P (rip s) footer" and "aligned (rbp s)"
  shows "steps_to P s (s\<lparr>rip := length P, rsp := rbp s + 16, rbp := uint (mem s (rbp s))\<rparr>)"
proof -
  define s1 where "s1 = s\<lparr>rip := Suc (rip s), rsp := rbp s + 8, rbp := uint (mem s (rbp s))\<rparr>"
  have f1: "frag P (rip s1) [Ret]" using assms(1) by (simp add: footer_def frag_Cons s1_def)
  have "machine_step P s = Some s1"
    using assms by (simp add: footer_def step_at s1_def)
  moreover have "machine_step P s1 = Some (s1\<lparr>rip := length P, rsp := rsp s1 + 8\<rparr>)"
    by (subst step_at [OF f1]) simp
  ultimately have "steps_to P s (s1\<lparr>rip := length P, rsp := rsp s1 + 8\<rparr>)"
    by (blast intro: steps_Cons)
  moreover have "s1\<lparr>rip := length P, rsp := rsp s1 + 8\<rparr> =
      s\<lparr>rip := length P, rsp := rbp s + 16, rbp := uint (mem s (rbp s))\<rparr>"
    by (cases s) (simp add: s1_def)
  ultimately show ?thesis by simp
qed

lemma steps_run_machine:
  assumes "steps_to P s t" and "rip t = length P"
  shows "\<exists>n. run_machine n P s = Some t"
  using assms(1) unfolding steps_to_def
proof (induction rule: converse_rtranclp_induct)
  case base
  then show ?case using assms(2) by (intro exI [of _ 0]) simp
next
  case (step s u)
  then obtain n where "run_machine n P u = Some t" by blast
  moreover have "rip s < length P" using step.hyps(1) by (auto simp: machine_step_def split: if_splits)
  ultimately show ?case using step.hyps(1) by (intro exI [of _ "Suc n"]) simp
qed

text \<open>The 26 variables before they are assigned: whatever the stack slots hold.\<close>

definition initial_vars :: "machine \<Rightarrow> vars" where
  "initial_vars s x = mem s (rsp s - 8 - int (var_offset x))"

lemma program_runs:
  assumes P: "compile_program ast = Some P" and wf: "wf_stmt ast" "fold_safe ast"
    and ex: "exec_stmt ast (initial_vars s) vs' out"
    and s: "rip s = 0" "aligned (rsp s)" "0 \<le> rbp s" "rbp s < 2 ^ 64"
  obtains t n where "run_machine n P s = Some t" "outp t = outp s @ out" "rbp t = rbp s"
    "rsp t = rsp s + 8" "\<forall>a. rsp s \<le> a \<longrightarrow> mem t a = mem s a"
proof -
  from P obtain c st' where c: "compile_ast ast \<lparr>if_local = 0, while_local = 0\<rparr> = Some (c, st')"
    and code: "P = header @ c @ footer" by (auto simp: compile_program_def)
  have f: "frag P 0 (header @ c @ footer)" using frag_self [of "[]" "header @ c @ footer" "[]"] by (simp add: code)
  obtain t1 where t1: "steps_to P s t1" "rip t1 = length header" "frame_ok t1" "rbp t1 = rsp s - 8"
    "rsp t1 = rsp s - 216" "mem t1 = (mem s)(rsp s - 8 := word_of_int (rbp s))" "outp t1 = outp s"
    by (rule header_runs [OF f s(1,2)])
  have "vars_in t1 (initial_vars s)"
    using var_offset_bounds(1) by (fastforce simp: vars_in_def initial_vars_def t1)
  moreover have "frag P (rip t1) c" using f by (simp add: frag_append t1)
  ultimately obtain t2 where t2: "steps_to P t1 t2" "rip t2 = length header + length c" "after t1 t2 vs' out"
    using runsE [OF stmt_runs(1) [OF ex wf c compile_program_labels [OF P]] _ t1(3)] t1(2) by metis
  have f2: "frag P (rip t2) footer" using f by (simp add: frag_append t2)
  have r2: "rbp t2 = rsp s - 8" "aligned (rbp t2)" "outp t2 = outp s @ out"
    using t2(3) t1 s(2) by (simp_all add: after_def)
  have m2: "mem t2 a = mem t1 a" if "rsp s - 8 \<le> a" for a
    using t2(3) that by (simp add: after_def t1)
  define t where "t = t2\<lparr>rip := length P, rsp := rbp t2 + 16, rbp := uint (mem t2 (rbp t2))\<rparr>"
  have "steps_to P s t"
    using footer_runs [OF f2 r2(2)] t1(1) t2(1) unfolding t_def by (blast intro: steps_trans)
  then obtain n where "run_machine n P s = Some t"
    using steps_run_machine [of P s t] by (auto simp: t_def)
  moreover have "rbp t = rbp s"
    using s(3,4) by (simp add: t_def r2 m2 t1 uint_word_of_int)
  ultimately show thesis
    using that [of n t] m2 by (auto simp: t_def r2 t1)
qed

section \<open>The compiler's answer\<close>

text \<open>Compiling fails only where a constant division in a \<^verbatim>\<open>PRINT\<close> traps in the compiler itself.\<close>

fun prints_ok :: "node \<Rightarrow> bool" where
  "prints_ok (PRINT e) = (is_const e \<longrightarrow> eval_expr e (\<lambda>_. 0) \<noteq> None)"
| "prints_ok (SEQUENCE ss) = list_all prints_ok ss"
| "prints_ok (IF c t e) = (prints_ok t \<and> (case e of None \<Rightarrow> True | Some b \<Rightarrow> prints_ok b))"
| "prints_ok (WHILE c b) = prints_ok b"
| "prints_ok _ = True"

lemma folded_const_none:
  assumes "is_const e" and "eval_expr e s = None"
  shows "folded e = None"
  using assms compute_folds_const [of e s] by (cases e) (auto simp: folded_def is_binary_def)

lemma compile_print_some:
  assumes "wf_expr e" and "is_const e \<or> no_const_op e"
  shows "(\<exists>r. compile_ast (PRINT e) st = Some r) \<longleftrightarrow> prints_ok (PRINT e)"
proof (cases "is_const e")
  case True
  show ?thesis
  proof (cases "eval_expr e (\<lambda>_. 0)")
    case None
    with True show ?thesis by (simp add: folded_const_none [OF True None])
  next
    case (Some v)
    with True show ?thesis by (simp add: folded_const [OF True Some])
  qed
next
  case False
  with assms show ?thesis by (simp add: folded_no_const_op compile_expr)
qed

lemma compile_statements_some:
  assumes "\<And>n st. n \<in> set ns \<Longrightarrow> (\<exists>r. compile_ast n st = Some r) \<longleftrightarrow> Q n"
  shows "(\<exists>r. compile_statements ns st = Some r) \<longleftrightarrow> list_all Q ns"
  using assms
proof (induction ns arbitrary: st)
  case (Cons n ns)
  have hd: "(\<exists>r. compile_ast n st = Some r) \<longleftrightarrow> Q n" using Cons.prems by simp
  have tl: "(\<exists>r. compile_statements ns st1 = Some r) \<longleftrightarrow> list_all Q ns" for st1
    by (rule Cons.IH) (use Cons.prems in simp)
  show ?case
  proof (cases "compile_ast n st")
    case None
    with hd show ?thesis by simp
  next
    case (Some r)
    obtain c1 st1 where r: "r = (c1, st1)" by (cases r)
    from Some hd tl [of st1] show ?thesis
      by (cases "compile_statements ns st1") (auto simp: r)
  qed
qed simp

lemma compile_some:
  "wf_stmt n \<Longrightarrow> fold_safe n \<Longrightarrow> (\<exists>r. compile_ast n st = Some r) \<longleftrightarrow> prints_ok n"
proof (induction n arbitrary: st rule: wf_stmt.induct)
  case (1 e)
  then show ?case using compile_print_some by (simp del: compile_ast.simps)
next
  case (2 x e)
  then show ?case by (simp add: compile_expr)
next
  case (3 ss)
  have "(\<exists>r. compile_ast n st1 = Some r) \<longleftrightarrow> prints_ok n" if "n \<in> set ss" for n st1
    using "3.IH" that "3.prems" by (simp add: list_all_iff)
  then show ?case using compile_statements_some [of ss prints_ok st] by simp
next
  case (4 c t e)
  then have c: "wf_cond c" "no_const_op c" by simp_all
  define st0 where "st0 = st\<lparr>if_local := if_local st + 1\<rparr>"
  have t: "(\<exists>r. compile_ast t st0 = Some r) \<longleftrightarrow> prints_ok t" using "4.IH"(1) "4.prems" by simp
  have e: "(\<exists>r. (case e of None \<Rightarrow> Some ([], st1) | Some b \<Rightarrow> compile_ast b st1) = Some r)
      \<longleftrightarrow> (case e of None \<Rightarrow> True | Some b \<Rightarrow> prints_ok b)" for st1
    using "4.IH"(2) "4.prems" by (cases e) simp_all
  show ?case
  proof (cases "compile_ast t st0")
    case None
    with t c show ?thesis by (simp add: folded_no_const_op compile_cond st0_def Let_def)
  next
    case (Some r)
    obtain c1 st1 where r: "r = (c1, st1)" by (cases r)
    show ?thesis
      using Some t e [of st1] c
      by (cases "case e of None \<Rightarrow> Some ([], st1) | Some b \<Rightarrow> compile_ast b st1")
        (auto simp: folded_no_const_op compile_cond st0_def Let_def r)
  qed
next
  case (5 c b)
  then have c: "wf_cond c" "no_const_op c" by simp_all
  define st0 where "st0 = st\<lparr>while_local := while_local st + 1\<rparr>"
  have "(\<exists>r. compile_ast b st0 = Some r) \<longleftrightarrow> prints_ok b" using "5.IH" "5.prems" by simp
  then show ?case
    using c by (cases "compile_ast b st0") (auto simp: folded_no_const_op compile_cond st0_def Let_def)
qed simp_all

section \<open>Properties\<close>

text \<open>
  C2: a compiled program behaves as the source program. Let \<open>P\<close> be the code the compiler
  prints for a grammatical program in which no constant operation is left inside a larger
  expression. If the program, started with the variables as the stack slots hold them,
  terminates having printed \<open>out\<close>, then \<^verbatim>\<open>basic_main\<close>, entered with an aligned stack, runs to
  its \<^verbatim>\<open>ret\<close>, prints exactly \<open>out\<close>, gives \<^verbatim>\<open>%rbp\<close> back, pops its return address and leaves
  the caller's stack as it was.
\<close>

theorem compile_program_correct:
  assumes "compile_program ast = Some P" and "wf_stmt ast" and "fold_safe ast"
    and "exec_stmt ast (initial_vars s) vs' out"
    and "rip s = 0" and "aligned (rsp s)" and "0 \<le> rbp s" and "rbp s < 2 ^ 64"
  shows "\<exists>n t. run_machine n P s = Some t \<and> outp t = outp s @ out \<and> rbp t = rbp s
     \<and> rsp t = rsp s + 8 \<and> (\<forall>a. rsp s \<le> a \<longrightarrow> mem t a = mem s a)"
  using program_runs [OF assms] by metis

definition countdown :: node where
  "countdown = SEQUENCE [LET (CHR ''A'') (NUM 2),
     WHILE (BINARY_OP (CHR ''>'') (VAR (CHR ''A'')) (NUM 0))
       (SEQUENCE [PRINT (BINARY_OP (CHR ''*'') (VAR (CHR ''A'')) (NUM 8)),
                  LET (CHR ''A'') (BINARY_OP (CHR ''-'') (VAR (CHR ''A'')) (NUM 1))])]"

definition entry_state :: machine where
  "entry_state = \<lparr>rip = 0, rdi = 0, rcx = 0, rax = 0, rdx = 0, rbp = 4096, rsp = 2048,
     rflags = None, mem = (\<lambda>_. 7), dead = (\<lambda>_. 9), outp = []\<rparr>"

lemma countdown_exec: "exec_stmt countdown vs (vs(CHR ''A'' := 0)) [16, 8]"
proof -
  let ?c = "BINARY_OP (CHR ''>'') (VAR (CHR ''A'')) (NUM 0)"
  let ?b = "SEQUENCE [PRINT (BINARY_OP (CHR ''*'') (VAR (CHR ''A'')) (NUM 8)),
              LET (CHR ''A'') (BINARY_OP (CHR ''-'') (VAR (CHR ''A'')) (NUM 1))]"
  have body: "exec_stmt ?b (vs(CHR ''A'' := n)) (vs(CHR ''A'' := n - 1)) [n * 8]" for n
    using ex_seq [OF ex_cons [OF ex_print ex_cons [OF ex_let ex_nil]],
        of "BINARY_OP (CHR ''*'') (VAR (CHR ''A'')) (NUM 8)" "vs(CHR ''A'' := n)" "n * 8"
          "BINARY_OP (CHR ''-'') (VAR (CHR ''A'')) (NUM 1)" "n - 1" "CHR ''A''"]
    by (simp add: arith_def)
  have w0: "exec_stmt (WHILE ?c ?b) (vs(CHR ''A'' := 0)) (vs(CHR ''A'' := 0)) []"
    by (rule ex_while_end) (simp add: compare_op_def slt_def)
  have w1: "exec_stmt (WHILE ?c ?b) (vs(CHR ''A'' := 1)) (vs(CHR ''A'' := 0)) [8]"
    using ex_while_loop [OF _ body [of 1] , of ?c "vs(CHR ''A'' := 0)" "[]"] w0
    by (simp add: compare_op_def slt_def)
  have w2: "exec_stmt (WHILE ?c ?b) (vs(CHR ''A'' := 2)) (vs(CHR ''A'' := 0)) [16, 8]"
    using ex_while_loop [OF _ body [of 2] , of ?c "vs(CHR ''A'' := 0)" "[8]"] w1
    by (simp add: compare_op_def slt_def)
  have "exec_stmt (LET (CHR ''A'') (NUM 2)) vs (vs(CHR ''A'' := 2)) []" by (rule ex_let) simp
  from ex_seq [OF ex_cons [OF this ex_cons [OF w2 ex_nil]]] show ?thesis
    by (simp add: countdown_def)
qed

theorem compile_program_correct_witness:
  "\<exists>P n t. compile_program countdown = Some P \<and> run_machine n P entry_state = Some t
     \<and> outp t = [16, 8] \<and> rbp t = 4096 \<and> rsp t = 2056"
proof -
  have wf: "wf_stmt countdown" "fold_safe countdown"
    by (simp_all add: countdown_def arith_op_def compare_char_def isupper_def)
  have "prints_ok countdown" by (simp add: countdown_def)
  then obtain r where "compile_ast countdown \<lparr>if_local = 0, while_local = 0\<rparr> = Some r"
    using compile_some [OF wf] by blast
  then obtain P where P: "compile_program countdown = Some P" by (simp add: compile_program_def)
  show ?thesis
    using compile_program_correct [OF P wf countdown_exec, of entry_state] P
    by (auto simp: entry_state_def aligned_def)
qed



text \<open>
  C27: whatever tree is compiled, no label is defined twice in the printed assembly, and the
  counters that number them never decrease.
\<close>

theorem compile_labels_unique:
  assumes "compile_ast n st = Some (code, st')"
  shows "distinct (labels_of code) \<and> if_local st \<le> if_local st' \<and> while_local st \<le> while_local st'"
  using compile_fresh_labels(1) [OF assms] by (simp add: fresh_labels_def counters_le_def)

theorem compile_labels_unique_witness:
  "distinct (labels_of (the (map_option fst (compile_ast countdown \<lparr>if_local = 0, while_local = 0\<rparr>))))"
proof -
  have "wf_stmt countdown" "fold_safe countdown"
    by (simp_all add: countdown_def arith_op_def compare_char_def isupper_def)
  moreover have "prints_ok countdown" by (simp add: countdown_def)
  ultimately obtain r where "compile_ast countdown \<lparr>if_local = 0, while_local = 0\<rparr> = Some r"
    using compile_some by blast
  with compile_labels_unique [of countdown _ "fst r" "snd r"] show ?thesis by simp
qed

text \<open>
  C33: constant folding corrupts a constant sum inside a larger expression. For a variable
  \<open>x\<close> and constants \<open>a\<close>, \<open>b\<close>, the code compiled for \<^verbatim>\<open>PRINT x + (a + b)\<close> prints
  \<^verbatim>\<open>x + (a + b) + b\<close>: the folded value is written into the leaf \<open>a\<close>, while the operation that
  should disappear stays in the tree.
\<close>

theorem folding_inside_expression:
  assumes "isupper x"
  shows "\<exists>code. compile_ast (PRINT (BINARY_OP (CHR ''+'') (VAR x) (BINARY_OP (CHR ''+'') (NUM a) (NUM b)))) st
       = Some (code, st)
     \<and> (\<forall>P vs. runs P vs code vs [vs x + (a + b) + b])
     \<and> (\<forall>vs. exec_stmt (PRINT (BINARY_OP (CHR ''+'') (VAR x) (BINARY_OP (CHR ''+'') (NUM a) (NUM b))))
          vs vs [vs x + (a + b)])"
proof -
  let ?e = "\<lambda>a. BINARY_OP (CHR ''+'') (VAR x) (BINARY_OP (CHR ''+'') (NUM a) (NUM b))"
  have wf: "wf_expr (?e (a + b))" using assms by (simp add: arith_op_def)
  have "folded (?e a) = Some (?e (a + b))"
    by (simp add: folded_def is_binary_def is_arith_op_def fold_value_def)
  then have "compile_ast (PRINT (?e a)) st = Some (expr_code (?e (a + b)) @ [Call_print_int], st)"
    using compile_expr [OF wf] by simp
  moreover have "runs P vs (expr_code (?e (a + b)) @ [Call_print_int]) vs [vs x + (a + b) + b]" for P vs
    by (intro print_runs expr_correct [OF wf]) (simp add: arith_def)
  moreover have "exec_stmt (PRINT (?e a)) vs vs [vs x + (a + b)]" for vs
    by (intro ex_print) (simp add: arith_def)
  ultimately show ?thesis by blast
qed

theorem folding_inside_expression_witness:
  "\<exists>code. compile_ast (PRINT (BINARY_OP (CHR ''+'') (VAR (CHR ''A''))
        (BINARY_OP (CHR ''+'') (NUM 1) (NUM 2)))) \<lparr>if_local = 0, while_local = 0\<rparr>
      = Some (code, \<lparr>if_local = 0, while_local = 0\<rparr>)
    \<and> runs code (\<lambda>_. 0) code (\<lambda>_. 0) [5]"
proof -
  have "isupper (CHR ''A'')" by (simp add: isupper_def)
  from folding_inside_expression [OF this, of 1 2 "\<lparr>if_local = 0, while_local = 0\<rparr>"]
  show ?thesis
  proof (rule exE)
    fix code assume code: "compile_ast (PRINT (BINARY_OP (CHR ''+'') (VAR (CHR ''A''))
        (BINARY_OP (CHR ''+'') (NUM 1) (NUM 2)))) \<lparr>if_local = 0, while_local = 0\<rparr>
        = Some (code, \<lparr>if_local = 0, while_local = 0\<rparr>)
      \<and> (\<forall>P vs. runs P vs code vs [vs (CHR ''A'') + (1 + 2) + 2])
      \<and> (\<forall>vs. exec_stmt (PRINT (BINARY_OP (CHR ''+'') (VAR (CHR ''A''))
        (BINARY_OP (CHR ''+'') (NUM 1) (NUM 2)))) vs vs [vs (CHR ''A'') + (1 + 2)])"
    then have "runs code (\<lambda>_. 0) code (\<lambda>_. 0) [0 + (1 + 2) + 2]" by blast
    with code show ?thesis by (intro exI [of _ code] conjI) simp_all
  qed
qed

end
