(* ===== verification/Basic_Main.thy ===== *)
theory Basic_Main
  imports Basic_Parser Basic_Simulation
begin

text \<open>
  The compiler as a program (\<^verbatim>\<open>src/assembly-compiler/src/compiler.c\<close>): arguments, the file
  system as a function from names to contents, and the exit status with what went to
  standard output and standard error. A run that is killed by the trap of a constant
  division has no result.
\<close>

record outcome =
  status :: nat
  stdout :: string
  stderr :: string

definition usage :: "string \<Rightarrow> outcome" where
  "usage program =
     \<lparr>status = 1, stdout = [], stderr = ''USAGE: '' @ program @ '' <program file>'' @ newline\<rparr>"

text \<open>\<^verbatim>\<open>argv[0]\<close> is \<^verbatim>\<open>NULL\<close> when there are no arguments at all, and \<^verbatim>\<open>printf\<close> shows it as \<^verbatim>\<open>(null)\<close>.\<close>

definition program_name :: "string list \<Rightarrow> string" where
  "program_name argv = (case argv of [] \<Rightarrow> ''(null)'' | name # _ \<Rightarrow> name)"

definition main :: "(string \<Rightarrow> string option) \<Rightarrow> string list \<Rightarrow> outcome option" where
  "main fopen argv =
     (if length argv \<noteq> 2 then Some (usage (program_name argv))
      else case fopen (argv ! 1) of
        None \<Rightarrow> Some (usage (program_name argv))
      | Some program \<Rightarrow>
          (case parse program of
             None \<Rightarrow> Some \<lparr>status = 2, stdout = program_text header, stderr = ''Parse error'' @ newline\<rparr>
           | Some ast \<Rightarrow>
               (case compile_ast ast \<lparr>if_local = 0, while_local = 0\<rparr> of
                  None \<Rightarrow> None
                | Some (code, _) \<Rightarrow>
                    Some \<lparr>status = 0, stdout = program_text (header @ code @ footer),
                          stderr = print_ast ast\<rparr>)))"

section \<open>From the source text to the machine\<close>

text \<open>Every comparison has its operator.\<close>

fun ops_present :: "node \<Rightarrow> bool" where
  "ops_present (SEQUENCE ss) = list_all ops_present ss"
| "ops_present (IF c t e) =
     (condition_op c \<noteq> nul \<and> ops_present t \<and> (case e of None \<Rightarrow> True | Some b \<Rightarrow> ops_present b))"
| "ops_present (WHILE c b) = (condition_op c \<noteq> nul \<and> ops_present b)"
| "ops_present _ = True"

lemma parsed_cond_wf: "parsed_cond c \<Longrightarrow> condition_op c \<noteq> nul \<Longrightarrow> wf_cond c"
  by (cases c) (simp_all add: condition_op_def)

lemma parsed_tree_wf: "parsed_tree b n \<Longrightarrow> ops_present n \<Longrightarrow> wf_stmt n"
proof (induction b n rule: parsed_tree.induct)
  case (3 b ss)
  then show ?case by (auto simp: list_all_iff)
next
  case (4 b c t e)
  then show ?case by (auto simp: parsed_cond_wf split: option.splits)
next
  case (5 b c n)
  then show ?case by (auto simp: parsed_cond_wf)
qed simp_all



text \<open>
  A comparison without an operator is accepted and its branch is always taken:
  \<^verbatim>\<open>IF 1 2 PRINT 3 END IF\<close> parses to a condition with the operator \<^verbatim>\<open>'\0'\<close>, for which
  the compiler prints neither a comparison nor a jump.
\<close>

theorem missing_comparison_accepted:
  "parse ''IF 1 2 PRINT 3 END IF'' = Some (IF (BINARY_OP nul (NUM 1) (NUM 2)) (PRINT (NUM 3)) None)
   \<and> map_option fst (compile_ast (IF (BINARY_OP nul (NUM 1) (NUM 2)) (PRINT (NUM 3)) None)
        \<lparr>if_local = 0, while_local = 0\<rparr>)
     = Some [Movq_imm_rdi 1, Push_rdi, Movq_imm_rdi 2, Push_rdi, Pop_rcx, Pop_rdi,
             Label (IF_label 1), Movq_imm_rdi 3, Call_print_int, Jmp (END_IF_label 1),
             Label (ELSE_label 1), Label (END_IF_label 1)]"
proof
  show "parse ''IF 1 2 PRINT 3 END IF'' = Some (IF (BINARY_OP nul (NUM 1) (NUM 2)) (PRINT (NUM 3)) None)"
    by code_simp
  show "map_option fst (compile_ast (IF (BINARY_OP nul (NUM 1) (NUM 2)) (PRINT (NUM 3)) None)
        \<lparr>if_local = 0, while_local = 0\<rparr>)
     = Some [Movq_imm_rdi 1, Push_rdi, Movq_imm_rdi 2, Push_rdi, Pop_rcx, Pop_rdi,
             Label (IF_label 1), Movq_imm_rdi 3, Call_print_int, Jmp (END_IF_label 1),
             Label (ELSE_label 1), Label (END_IF_label 1)]"
    by code_simp
qed

end
