(* ===== verification/Fat16.thy ===== *)
theory Fat16
  imports Prelude
begin

text \<open>
  FAT16 structures on disk (\<^verbatim>\<open>src/file-directory-tree/include/fat16.h\<close> and \<^verbatim>\<open>src/fat16.c\<close>): the
  two packed structs as records with their byte layout, the positions computed from them in
  64-bit arithmetic, the attribute tests and the file name of a directory entry.
\<close>

section \<open>Packed structures\<close>

record bios_parameter_block =
  bytes_per_sector :: u16
  sectors_per_cluster :: byte
  reserved_sectors :: u16
  num_fats :: byte
  max_root_entries :: u16
  logical_sectors :: u16
  media_descriptor :: byte
  sectors_per_fat :: u16
  padding :: "byte list"
  volume_name :: "byte list"
  bpb_type :: "byte list"

record directory_entry =
  filename :: "byte list"
  extension :: "byte list"
  attribute :: byte
  reserved :: "byte list"
  high_size :: u16
  entry_time :: "byte list"
  entry_date :: "byte list"
  first_cluster :: u16
  file_size :: "32 word"

definition sizeof_bpb :: nat where
  "sizeof_bpb = 51"

definition sizeof_entry :: nat where
  "sizeof_entry = 32"

text \<open>The bytes of \<open>bs\<close> from offset \<open>i\<close>, \<open>n\<close> of them.\<close>

definition bytes_at :: "nat \<Rightarrow> nat \<Rightarrow> 'a list \<Rightarrow> 'a list" where
  "bytes_at i n bs = take n (drop i bs)"

definition decode_bpb :: "byte list \<Rightarrow> bios_parameter_block" where
  "decode_bpb bs =
     \<lparr>bytes_per_sector = of_nat (le_nat (bytes_at 0 2 bs)), sectors_per_cluster = bs ! 2,
      reserved_sectors = of_nat (le_nat (bytes_at 3 2 bs)), num_fats = bs ! 5,
      max_root_entries = of_nat (le_nat (bytes_at 6 2 bs)),
      logical_sectors = of_nat (le_nat (bytes_at 8 2 bs)), media_descriptor = bs ! 10,
      sectors_per_fat = of_nat (le_nat (bytes_at 11 2 bs)), padding = bytes_at 13 19 bs,
      volume_name = bytes_at 32 11 bs, bpb_type = bytes_at 43 8 bs\<rparr>"

definition decode_entry :: "byte list \<Rightarrow> directory_entry" where
  "decode_entry bs =
     \<lparr>filename = bytes_at 0 8 bs, extension = bytes_at 8 3 bs, attribute = bs ! 11,
      reserved = bytes_at 12 8 bs, high_size = of_nat (le_nat (bytes_at 20 2 bs)),
      entry_time = bytes_at 22 2 bs, entry_date = bytes_at 24 2 bs,
      first_cluster = of_nat (le_nat (bytes_at 26 2 bs)), file_size = of_nat (le_nat (bytes_at 28 4 bs))\<rparr>"

definition encode_entry :: "directory_entry \<Rightarrow> byte list" where
  "encode_entry e = filename e @ extension e @ [attribute e] @ reserved e
     @ le_bytes 2 (unat (high_size e)) @ entry_time e @ entry_date e
     @ le_bytes 2 (unat (first_cluster e)) @ le_bytes 4 (unat (file_size e))"

section \<open>Positions on the disk\<close>

definition get_root_directory_location :: "bios_parameter_block \<Rightarrow> 64 word" where
  "get_root_directory_location bpb =
     (let fat_sectors = ucast (num_fats bpb) * ucast (sectors_per_fat bpb) in
      (1 + ucast (reserved_sectors bpb) + fat_sectors) * ucast (bytes_per_sector bpb))"

definition get_offset_from_cluster :: "64 word \<Rightarrow> bios_parameter_block \<Rightarrow> 64 word" where
  "get_offset_from_cluster cluster bpb =
     get_root_directory_location bpb + ucast (max_root_entries bpb) * of_nat sizeof_entry
     + (cluster - 2) * ucast (sectors_per_cluster bpb) * ucast (bytes_per_sector bpb)"

section \<open>Attributes and names\<close>

definition is_directory :: "directory_entry \<Rightarrow> bool" where
  "is_directory entry \<longleftrightarrow> attribute entry AND 0x10 \<noteq> 0"

text \<open>The character codes of \<^verbatim>\<open>'.'\<close>, \<^verbatim>\<open>' '\<close> and \<^verbatim>\<open>'?'\<close>.\<close>

abbreviation dot_byte :: byte where
  "dot_byte \<equiv> 46"

abbreviation space_byte :: byte where
  "space_byte \<equiv> 32"

abbreviation question_byte :: byte where
  "question_byte \<equiv> 63"

definition is_hidden :: "directory_entry \<Rightarrow> bool" where
  "is_hidden entry \<longleftrightarrow> filename entry ! 0 = dot_byte \<or> filename entry ! 1 = dot_byte
     \<or> attribute entry = 0 \<or> attribute entry AND (0x2 OR 0x4 OR 0x8) \<noteq> 0"

definition DELETED :: byte where
  "DELETED = 0xE5"

text \<open>The two copying loops of \<^verbatim>\<open>get_file_name\<close>.\<close>

fun filename_loop :: "byte list \<Rightarrow> byte list" where
  "filename_loop [] = []"
| "filename_loop (filename_char # cs) =
     (if filename_char = space_byte then []
      else (if filename_char = DELETED then question_byte else filename_char) # filename_loop cs)"

fun extension_loop :: "byte list \<Rightarrow> byte list" where
  "extension_loop [] = []"
| "extension_loop (extension_char # cs) =
     (if extension_char = space_byte then [] else extension_char # extension_loop cs)"

text \<open>The bytes written to the buffer \<^verbatim>\<open>full\<close> before the terminator, and the string they are.\<close>

definition file_name_bytes :: "directory_entry \<Rightarrow> byte list" where
  "file_name_bytes entry =
     filename_loop (filename entry)
     @ (if extension entry ! 0 \<noteq> space_byte then dot_byte # extension_loop (extension entry) else [])"

definition byte_char :: "byte \<Rightarrow> char" where
  "byte_char b = char_of (unat b)"

definition get_file_name :: "directory_entry \<Rightarrow> string" where
  "get_file_name entry = c_string (map byte_char (file_name_bytes entry))"

section \<open>Facts\<close>

lemma length_filename_loop: "length (filename_loop cs) \<le> length cs"
  by (induction cs) auto

lemma length_extension_loop: "length (extension_loop cs) \<le> length cs"
  by (induction cs) auto

definition entry_ok :: "directory_entry \<Rightarrow> bool" where
  "entry_ok e \<longleftrightarrow> length (filename e) = 8 \<and> length (extension e) = 3 \<and> length (reserved e) = 8
     \<and> length (entry_time e) = 2 \<and> length (entry_date e) = 2"

lemma length_bytes_at [simp]: "length (bytes_at i n bs) = min n (length bs - i)"
  by (simp add: bytes_at_def)

lemma bytes_at_append_skip:
  "length a \<le> i \<Longrightarrow> bytes_at i n (a @ b) = bytes_at (i - length a) n b"
  by (simp add: bytes_at_def)

lemma bytes_at_Cons_skip: "0 < i \<Longrightarrow> bytes_at i n (x # b) = bytes_at (i - 1) n b"
  by (simp add: bytes_at_def drop_Cons')

lemma bytes_at_append_take: "length a = n \<Longrightarrow> bytes_at 0 n (a @ b) = a"
  by (simp add: bytes_at_def)

lemma bytes_at_all: "length a = n \<Longrightarrow> bytes_at 0 n a = a"
  by (simp add: bytes_at_def)

lemma bytes_at_join: "bytes_at i n bs @ bytes_at (i + n) m bs = bytes_at i (n + m) bs"
  unfolding bytes_at_def take_add by (simp add: add.commute)

lemma decode_entry_ok: "length bs = 32 \<Longrightarrow> entry_ok (decode_entry bs)"
  by (simp add: decode_entry_def entry_ok_def)

lemma decode_encode_entry:
  assumes "entry_ok e"
  shows "decode_entry (encode_entry e) = e"
proof -
  have w: "of_nat (le_nat (le_bytes 2 (unat (v :: u16)))) = v" for v
    using unsigned_less [of v, where ?'a = nat] by (simp add: le_nat_bytes)
  have d: "of_nat (le_nat (le_bytes 4 (unat (v :: 32 word)))) = v" for v
    using unsigned_less [of v, where ?'a = nat] by (simp add: le_nat_bytes)
  show ?thesis
    using assms
    by (cases e)
      (simp add: decode_entry_def encode_entry_def entry_ok_def bytes_at_append_skip bytes_at_Cons_skip bytes_at_append_take
        bytes_at_all w d nth_append)
qed

lemma encode_decode_entry:
  assumes "length bs = 32"
  shows "encode_entry (decode_entry bs) = bs"
proof -
  have w: "le_bytes 2 (unat (of_nat (le_nat (bytes_at i 2 bs)) :: u16)) = bytes_at i 2 bs" if "i + 2 \<le> 32" for i
  proof -
    have l: "length (bytes_at i 2 bs) = 2" using assms that by simp
    then have "unat (of_nat (le_nat (bytes_at i 2 bs)) :: u16) = le_nat (bytes_at i 2 bs)"
      using le_nat_bound [of "bytes_at i 2 bs"] by (simp add: unat_of_nat take_bit_eq_mod)
    with le_bytes_nat [OF l] show ?thesis by simp
  qed
  have d: "le_bytes 4 (unat (of_nat (le_nat (bytes_at i 4 bs)) :: 32 word)) = bytes_at i 4 bs" if "i + 4 \<le> 32" for i
  proof -
    have l: "length (bytes_at i 4 bs) = 4" using assms that by simp
    then have "unat (of_nat (le_nat (bytes_at i 4 bs)) :: 32 word) = le_nat (bytes_at i 4 bs)"
      using le_nat_bound [of "bytes_at i 4 bs"] by (simp add: unat_of_nat take_bit_eq_mod)
    with le_bytes_nat [OF l] show ?thesis by simp
  qed
  have "[bs ! 11] = bytes_at 11 1 bs"
    using assms by (simp add: bytes_at_def take_Suc_conv_app_nth hd_drop_conv_nth [symmetric] take_Suc)
  then have "encode_entry (decode_entry bs) =
      bytes_at 0 8 bs @ bytes_at 8 3 bs @ bytes_at 11 1 bs @ bytes_at 12 8 bs @ bytes_at 20 2 bs
      @ bytes_at 22 2 bs @ bytes_at 24 2 bs @ bytes_at 26 2 bs @ bytes_at 28 4 bs"
    by (simp add: encode_entry_def decode_entry_def w d)
  also have "\<dots> = bytes_at 0 32 bs"
    using bytes_at_join [of 26 2 bs 4] bytes_at_join [of 24 2 bs 6] bytes_at_join [of 22 2 bs 8]
      bytes_at_join [of 20 2 bs 10] bytes_at_join [of 12 8 bs 12] bytes_at_join [of 11 1 bs 20]
      bytes_at_join [of 8 3 bs 21] bytes_at_join [of 0 8 bs 24]
    by simp
  finally show ?thesis using assms by (simp add: bytes_at_all)
qed

section \<open>Properties\<close>

lemma unat_u16: "unat (v :: u16) < 65536"
  using unsigned_less [of v, where ?'a = nat] by simp

lemma unat_ucast_u16: "unat (ucast (v :: u16) :: 64 word) = unat v"
  using unat_u16 [of v] by (simp add: unsigned_ucast_eq take_bit_eq_mod)

lemma unat_ucast_byte: "unat (ucast (v :: byte) :: 64 word) = unat v"
  using unat_byte [of v] by (simp add: unsigned_ucast_eq take_bit_eq_mod)

text \<open>64-bit sums and products that do not wrap.\<close>

lemma unat_add_exact:
  assumes "unat (a :: 64 word) = x" and "unat b = y" and "x + y < 2 ^ 64"
  shows "unat (a + b) = x + y"
  using assms by (simp add: unat_word_ariths)

lemma unat_mult_exact:
  assumes "unat (a :: 64 word) = x" and "unat b = y" and "x * y < 2 ^ 64"
  shows "unat (a * b) = x * y"
  using assms by (simp add: unat_word_ariths)

lemma nat_prod_le: "(a :: nat) \<le> x \<Longrightarrow> b \<le> y \<Longrightarrow> a * b \<le> x * y"
  by (rule mult_le_mono)

lemma root_location:
  "unat (get_root_directory_location bpb) =
     (1 + unat (reserved_sectors bpb) + unat (num_fats bpb) * unat (sectors_per_fat bpb))
       * unat (bytes_per_sector bpb)
   \<and> unat (get_root_directory_location bpb) < 2 ^ 41"
proof -
  define r n s b where "r = unat (reserved_sectors bpb)" and "n = unat (num_fats bpb)"
    and "s = unat (sectors_per_fat bpb)" and "b = unat (bytes_per_sector bpb)"
  have bounds: "r \<le> 65535" "n \<le> 255" "s \<le> 65535" "b \<le> 65535"
    using unat_u16 [of "reserved_sectors bpb"] unat_byte [of "num_fats bpb"]
      unat_u16 [of "sectors_per_fat bpb"] unat_u16 [of "bytes_per_sector bpb"]
    by (simp_all add: r_def n_def s_def b_def)
  have ns: "n * s \<le> 255 * 65535" using bounds by (intro nat_prod_le)
  have tot: "(1 + r + n * s) * b \<le> (1 + 65535 + 255 * 65535) * 65535"
    using bounds ns by (intro nat_prod_le) simp_all
  have fat: "unat (ucast (num_fats bpb) * ucast (sectors_per_fat bpb) :: 64 word) = n * s"
    using ns by (intro unat_mult_exact) (simp_all add: unat_ucast_u16 unat_ucast_byte n_def s_def)
  have one: "unat (1 + ucast (reserved_sectors bpb) :: 64 word) = 1 + r"
    using bounds by (intro unat_add_exact) (simp_all add: unat_ucast_u16 r_def)
  have sum: "unat (1 + ucast (reserved_sectors bpb) + ucast (num_fats bpb) * ucast (sectors_per_fat bpb) :: 64 word)
      = 1 + r + n * s"
    using bounds ns by (intro unat_add_exact [OF one fat]) simp
  have "unat (get_root_directory_location bpb) = (1 + r + n * s) * b"
    unfolding get_root_directory_location_def Let_def
    using tot by (intro unat_mult_exact [OF sum]) (simp_all add: unat_ucast_u16 b_def)
  with tot show ?thesis by (simp add: r_def n_def s_def b_def)
qed

lemma cluster_offset:
  assumes "2 \<le> unat cluster" and "unat cluster < 65536"
  shows "unat (get_offset_from_cluster cluster bpb) =
     unat (get_root_directory_location bpb) + unat (max_root_entries bpb) * 32
     + (unat cluster - 2) * unat (sectors_per_cluster bpb) * unat (bytes_per_sector bpb)
   \<and> unat (get_offset_from_cluster cluster bpb) < 2 ^ 42"
proof -
  define m c s b where "m = unat (max_root_entries bpb)" and "c = unat cluster - 2"
    and "s = unat (sectors_per_cluster bpb)" and "b = unat (bytes_per_sector bpb)"
  have bounds: "m \<le> 65535" "c \<le> 65533" "s \<le> 255" "b \<le> 65535"
    using unat_u16 [of "max_root_entries bpb"] assms unat_byte [of "sectors_per_cluster bpb"]
      unat_u16 [of "bytes_per_sector bpb"]
    by (simp_all add: m_def c_def s_def b_def)
  have cs: "c * s \<le> 65533 * 255" using bounds by (intro nat_prod_le)
  have csb: "c * s * b \<le> 65533 * 255 * 65535" using bounds cs by (intro nat_prod_le)
  have cl: "unat (cluster - 2) = c"
    using assms(1) by (simp add: c_def unat_sub word_le_nat_alt)
  have m32: "unat (ucast (max_root_entries bpb) * of_nat sizeof_entry :: 64 word) = m * 32"
    using bounds by (intro unat_mult_exact) (simp_all add: unat_ucast_u16 m_def sizeof_entry_def)
  have p1: "unat ((cluster - 2) * ucast (sectors_per_cluster bpb)) = c * s"
    using cs by (intro unat_mult_exact [OF cl]) (simp_all add: unat_ucast_byte s_def)
  have p2: "unat ((cluster - 2) * ucast (sectors_per_cluster bpb) * ucast (bytes_per_sector bpb)) = c * s * b"
    using csb by (intro unat_mult_exact [OF p1]) (simp_all add: unat_ucast_u16 b_def)
  define root where "root = unat (get_root_directory_location bpb)"
  have root: "root < 2 ^ 41" unfolding root_def using root_location [of bpb] by blast
  have s1: "unat (get_root_directory_location bpb + ucast (max_root_entries bpb) * of_nat sizeof_entry) = root + m * 32"
    using root bounds by (intro unat_add_exact [OF _ m32]) (simp_all add: root_def)
  have "unat (get_offset_from_cluster cluster bpb) = root + m * 32 + c * s * b"
    unfolding get_offset_from_cluster_def using root bounds csb by (intro unat_add_exact [OF s1 p2]) simp
  with root bounds csb show ?thesis by (simp add: root_def m_def c_def s_def b_def)
qed

text \<open>
  C34: the positions computed from a BIOS parameter block are exact. For every parameter block
  the 64-bit arithmetic of \<^verbatim>\<open>get_root_directory_location\<close> does not wrap, and neither does that
  of \<^verbatim>\<open>get_offset_from_cluster\<close> for a data cluster (a 16-bit number that is at least 2); the
  results are positive as the \<^verbatim>\<open>long\<close> that \<^verbatim>\<open>fseek\<close> takes.
\<close>

theorem disk_positions_exact:
  assumes "2 \<le> unat cluster" and "unat cluster < 65536"
  shows "unat (get_root_directory_location bpb) =
       (1 + unat (reserved_sectors bpb) + unat (num_fats bpb) * unat (sectors_per_fat bpb))
         * unat (bytes_per_sector bpb)
     \<and> unat (get_offset_from_cluster cluster bpb) =
       unat (get_root_directory_location bpb) + unat (max_root_entries bpb) * 32
       + (unat cluster - 2) * unat (sectors_per_cluster bpb) * unat (bytes_per_sector bpb)
     \<and> unat (get_offset_from_cluster cluster bpb) < 2 ^ 63"
  using root_location [of bpb] cluster_offset [OF assms, of bpb] by auto

definition sample_bpb :: bios_parameter_block where
  "sample_bpb = \<lparr>bytes_per_sector = 512, sectors_per_cluster = 4, reserved_sectors = 1, num_fats = 2,
     max_root_entries = 512, logical_sectors = 20480, media_descriptor = 0xF8, sectors_per_fat = 20,
     padding = [], volume_name = [], bpb_type = []\<rparr>"

theorem disk_positions_exact_witness:
  "unat (get_offset_from_cluster 3 sample_bpb) = 42 * 512 + 512 * 32 + 2048"
  using disk_positions_exact [of 3 sample_bpb] by (simp add: sample_bpb_def)



text \<open>
  \<^verbatim>\<open>get_file_name\<close> stays inside its buffer of 13 bytes: at most 12 bytes are written before
  the terminator, and no space and no deletion mark comes from the name part.
\<close>

theorem file_name_fits_buffer:
  assumes "entry_ok e"
  shows "length (file_name_bytes e) + 1 \<le> 8 + 1 + 3 + 1
     \<and> space_byte \<notin> set (filename_loop (filename e)) \<and> DELETED \<notin> set (filename_loop (filename e))"
proof -
  have "space_byte \<notin> set (filename_loop cs) \<and> DELETED \<notin> set (filename_loop cs)" for cs
    by (induction cs) (auto simp: DELETED_def)
  then show ?thesis
    using assms length_filename_loop [of "filename e"] length_extension_loop [of "extension e"]
    by (auto simp: file_name_bytes_def entry_ok_def)
qed

theorem file_name_fits_buffer_witness:
  "length (file_name_bytes (decode_entry (replicate 32 65))) + 1 \<le> 13"
proof -
  have "entry_ok (decode_entry (replicate 32 65))" by (rule decode_entry_ok) simp
  from file_name_fits_buffer [OF this] show ?thesis by simp
qed

end
