(* ===== verification/Directory_Tree.thy ===== *)
theory Directory_Tree
  imports Prelude "HOL-Library.Multiset"
begin

text \<open>
  Directory trees (\<^verbatim>\<open>src/file-directory-tree/src/directory_tree.c\<close>): the selection sort that
  keeps the children of a directory ordered by \<^verbatim>\<open>strcmp\<close> on their names, the printed tree,
  the creation of the tree in a file system and the release of its memory. The order
  \<^verbatim>\<open>strcmp\<close> defines is an interpretation of the locale of linear orders, from which the sort
  inherits its reference definition.
\<close>

section \<open>Comparing names\<close>

text \<open>\<^verbatim>\<open>strcmp\<close> on two C strings, as the sign of the first difference of unsigned bytes.\<close>

fun strcmp :: "string \<Rightarrow> string \<Rightarrow> int" where
  "strcmp [] [] = 0"
| "strcmp [] (d # t) = - 1"
| "strcmp (c # s) [] = 1"
| "strcmp (c # s) (d # t) =
     (if (of_char c :: nat) < of_char d then - 1
      else if (of_char d :: nat) < of_char c then 1
      else strcmp s t)"

definition name_less :: "string \<Rightarrow> string \<Rightarrow> bool" where
  "name_less s t \<longleftrightarrow> strcmp s t < 0"

definition name_le :: "string \<Rightarrow> string \<Rightarrow> bool" where
  "name_le s t \<longleftrightarrow> strcmp s t \<le> 0"

lemma strcmp_range: "strcmp s t \<in> {- 1, 0, 1}"
  by (induction s t rule: strcmp.induct) auto

lemma strcmp_eq_0 [simp]: "strcmp s t = 0 \<longleftrightarrow> s = t"
proof (induction s t rule: strcmp.induct)
  case (4 c s d t)
  have "c = d" if "\<not> (of_char c :: nat) < of_char d" "\<not> (of_char d :: nat) < of_char c"
    using that by (metis linorder_neq_iff of_char_eq_iff)
  with 4 show ?case by auto
qed simp_all

lemma strcmp_refl [simp]: "strcmp s s = 0"
  by simp

lemma strcmp_antisym: "strcmp t s = - strcmp s t"
  by (induction s t rule: strcmp.induct) auto

lemma strcmp_trans: "strcmp s t \<le> 0 \<Longrightarrow> strcmp t u \<le> 0 \<Longrightarrow> strcmp s u \<le> 0"
proof (induction s t arbitrary: u rule: strcmp.induct)
  case (1 u)
  then show ?case by (cases u) simp_all
next
  case (2 d t)
  then show ?case by (cases u) simp_all
next
  case (4 c s d t)
  show ?case
  proof (cases u)
    case Nil
    with 4 show ?thesis by simp
  next
    case (Cons e v)
    define x y z :: nat where "x = of_char c" and "y = of_char d" and "z = of_char e"
    note xyz = x_def [symmetric] y_def [symmetric] z_def [symmetric]
    from 4 Cons have le: "x \<le> y" "y \<le> z" by (simp_all add: xyz split: if_splits)
    show ?thesis
    proof (cases "x < z")
      case True
      with Cons show ?thesis by (simp add: xyz)
    next
      case False
      with le have "x = y" "y = z" by simp_all
      with 4 Cons show ?thesis by (simp add: xyz)
    qed
  qed
qed simp

interpretation strcmp: linorder name_le name_less
proof
  fix s t u :: string
  show "name_less s t \<longleftrightarrow> name_le s t \<and> \<not> name_le t s"
    using strcmp_range [of s t] by (auto simp: name_less_def name_le_def strcmp_antisym [of s t])
  show "name_le s s" by (simp add: name_le_def)
  show "name_le s t \<Longrightarrow> name_le t u \<Longrightarrow> name_le s u" unfolding name_le_def by (rule strcmp_trans)
  show "name_le s t \<Longrightarrow> name_le t s \<Longrightarrow> s = t"
    using strcmp_eq_0 [of s t] by (simp add: name_le_def strcmp_antisym [of s t])
  show "name_le s t \<or> name_le t s" by (auto simp: name_le_def strcmp_antisym [of s t])
qed

section \<open>Nodes\<close>

text \<open>
  \<^verbatim>\<open>file_node_t\<close> and \<^verbatim>\<open>directory_node_t\<close>. A file's \<^verbatim>\<open>size\<close> is the length of its contents; a
  directory's \<^verbatim>\<open>num_children\<close> the length of its array.
\<close>

datatype tree =
    FILE_NODE string "byte list"
  | DIRECTORY_NODE string "tree list"

fun node_name :: "tree \<Rightarrow> string" where
  "node_name (FILE_NODE name contents) = name"
| "node_name (DIRECTORY_NODE name children) = name"

text \<open>The name given to \<^verbatim>\<open>init_node\<close>; \<^verbatim>\<open>NULL\<close> is \<^const>\<open>None\<close>.\<close>

definition init_node :: "string option \<Rightarrow> string" where
  "init_node name = (case name of None \<Rightarrow> ''ROOT'' | Some n \<Rightarrow> n)"

definition init_file_node :: "string option \<Rightarrow> byte list \<Rightarrow> tree" where
  "init_file_node name contents = FILE_NODE (init_node name) contents"

definition init_directory_node :: "string option \<Rightarrow> tree" where
  "init_directory_node name = DIRECTORY_NODE (init_node name) []"

section \<open>Sorting the children\<close>

text \<open>
  The inner loop of \<^verbatim>\<open>sorted_dir\<close> over \<open>j\<close>; \<^verbatim>\<open>min_string\<close> is the name at \<open>min_idx\<close>.
\<close>

function min_loop :: "tree list \<Rightarrow> nat \<Rightarrow> nat \<Rightarrow> nat" where
  "min_loop children j min_idx =
     (if j < length children
      then min_loop children (j + 1)
             (if strcmp (node_name (children ! j)) (node_name (children ! min_idx)) < 0
              then j else min_idx)
      else min_idx)"
  by pat_completeness auto
termination by (relation "measure (\<lambda>(children, j, _). length children - j)") auto

declare min_loop.simps [simp del]

definition swap :: "tree list \<Rightarrow> nat \<Rightarrow> nat \<Rightarrow> tree list" where
  "swap children i min_idx =
     (let temp_node = children ! i in children[i := children ! min_idx, min_idx := temp_node])"

function sort_loop :: "tree list \<Rightarrow> nat \<Rightarrow> tree list" where
  "sort_loop children i =
     (if i < length children
      then sort_loop (swap children i (min_loop children (i + 1) i)) (i + 1)
      else children)"
  by pat_completeness auto
termination
  by (relation "measure (\<lambda>(children, i). length children - i)") (auto simp: swap_def Let_def)

declare sort_loop.simps [simp del]

definition sorted_dir :: "tree list \<Rightarrow> tree list" where
  "sorted_dir children = sort_loop children 0"

text \<open>\<^verbatim>\<open>add_child_directory_tree\<close> on a directory node; a file node has no children to add to.\<close>

fun add_child_directory_tree :: "tree \<Rightarrow> tree \<Rightarrow> tree" where
  "add_child_directory_tree (DIRECTORY_NODE name children) child =
     DIRECTORY_NODE name (sorted_dir (children @ [child]))"
| "add_child_directory_tree (FILE_NODE name contents) child = FILE_NODE name contents"

section \<open>Printing\<close>

definition SPACES_PER_LEVEL :: nat where
  "SPACES_PER_LEVEL = 4"

fun print_directory_tree_helper :: "tree \<Rightarrow> nat \<Rightarrow> string" where
  "print_directory_tree_helper (FILE_NODE name contents) level =
     replicate (SPACES_PER_LEVEL * level) (CHR '' '') @ name @ [CHR 0x0A]"
| "print_directory_tree_helper (DIRECTORY_NODE name children) level =
     replicate (SPACES_PER_LEVEL * level) (CHR '' '') @ name @ [CHR 0x0A]
     @ concat (map (\<lambda>child. print_directory_tree_helper child (level + 1)) children)"

definition print_directory_tree :: "tree \<Rightarrow> string" where
  "print_directory_tree n = print_directory_tree_helper n 0"

section \<open>Creating the files\<close>

text \<open>
  The file system below the working directory: a map from relative path names to files and
  directories. \<^verbatim>\<open>mkdir\<close> fails where something exists or the parent is not a directory;
  \<^verbatim>\<open>fopen\<close> for writing fails on a directory and without a parent. A failed assertion is
  \<^const>\<open>None\<close>.
\<close>

datatype fs_entry = FsFile "byte list" | FsDir

type_synonym fs = "string \<rightharpoonup> fs_entry"

definition slash :: char where
  "slash = CHR ''/''"

definition parent_of :: "string \<Rightarrow> string" where
  "parent_of path = rev (tl (dropWhile (\<lambda>c. c \<noteq> slash) (rev path)))"

definition is_dir :: "fs \<Rightarrow> string \<Rightarrow> bool" where
  "is_dir fs path \<longleftrightarrow> path = [] \<or> fs path = Some FsDir"

definition mkdir :: "fs \<Rightarrow> string \<Rightarrow> fs option" where
  "mkdir fs path =
     (if path \<noteq> [] \<and> fs path = None \<and> is_dir fs (parent_of path)
      then Some (fs(path \<mapsto> FsDir)) else None)"

definition write_file :: "fs \<Rightarrow> string \<Rightarrow> byte list \<Rightarrow> fs option" where
  "write_file fs path contents =
     (if path \<noteq> [] \<and> fs path \<noteq> Some FsDir \<and> is_dir fs (parent_of path)
      then Some (fs(path \<mapsto> FsFile contents)) else None)"

definition new_path :: "string \<Rightarrow> string \<Rightarrow> string" where
  "new_path path name = (if length path \<noteq> 0 then path @ [slash] @ name else path @ name)"

fun create_directory_tree_helper :: "tree \<Rightarrow> string \<Rightarrow> fs \<Rightarrow> fs option"
  and create_children :: "tree list \<Rightarrow> string \<Rightarrow> fs \<Rightarrow> fs option" where
  "create_directory_tree_helper (FILE_NODE name contents) path fs =
     write_file fs (new_path path name) contents"
| "create_directory_tree_helper (DIRECTORY_NODE name children) path fs = do {
     fs1 \<leftarrow> mkdir fs (new_path path name);
     create_children children (new_path path name) fs1
   }"
| "create_children [] path fs = Some fs"
| "create_children (c # cs) path fs = do {
     fs1 \<leftarrow> create_directory_tree_helper c path fs;
     create_children cs path fs1
   }"

definition create_directory_tree :: "tree \<Rightarrow> fs \<Rightarrow> fs option" where
  "create_directory_tree n fs = create_directory_tree_helper n [] fs"

section \<open>Releasing the memory\<close>

text \<open>The blocks of a tree, each named by the path of its node, in the order they are released.\<close>

datatype tree_block =
    ContentsBlock "nat list" | ChildrenBlock "nat list" | NameBlock "nat list" | TreeBlock "nat list"

fun free_directory_tree :: "nat list \<Rightarrow> tree \<Rightarrow> tree_block list"
  and free_children :: "nat list \<Rightarrow> nat \<Rightarrow> tree list \<Rightarrow> tree_block list" where
  "free_directory_tree p (FILE_NODE name contents) = [ContentsBlock p, NameBlock p, TreeBlock p]"
| "free_directory_tree p (DIRECTORY_NODE name children) =
     free_children p 0 children @ [ChildrenBlock p, NameBlock p, TreeBlock p]"
| "free_children p i [] = []"
| "free_children p i (c # cs) = free_directory_tree (p @ [i]) c @ free_children p (Suc i) cs"

section \<open>The sort is correct\<close>

lemma min_loop_min:
  assumes "m < length cs"
  shows "min_loop cs j m < length cs \<and> (min_loop cs j m = m \<or> j \<le> min_loop cs j m)
    \<and> name_le (node_name (cs ! min_loop cs j m)) (node_name (cs ! m))
    \<and> (\<forall>k. j \<le> k \<and> k < length cs \<longrightarrow> name_le (node_name (cs ! min_loop cs j m)) (node_name (cs ! k)))"
  using assms
proof (induction cs j m rule: min_loop.induct)
  case (1 cs j m)
  show ?case
  proof (cases "j < length cs")
    case False
    with "1.prems" show ?thesis by (auto simp: min_loop.simps [of cs j m])
  next
    case True
    define m' where "m' = (if strcmp (node_name (cs ! j)) (node_name (cs ! m)) < 0 then j else m)"
    have eq: "min_loop cs j m = min_loop cs (j + 1) m'"
      using True by (simp add: min_loop.simps [of cs j m] m'_def)
    have m': "m' < length cs" using True "1.prems" by (simp add: m'_def)
    have le: "name_le (node_name (cs ! m')) (node_name (cs ! m))" "name_le (node_name (cs ! m')) (node_name (cs ! j))"
      using strcmp_antisym [of "node_name (cs ! j)" "node_name (cs ! m)"] by (auto simp: m'_def name_le_def)
    note IH = "1.IH" [OF True, folded m'_def, OF m']
    have leq: "name_le (node_name (cs ! min_loop cs (j + 1) m')) (node_name (cs ! k))"
      if "j \<le> k" "k < length cs" for k
    proof (cases "k = j")
      case True
      with IH le(2) show ?thesis by (metis strcmp.order_trans)
    next
      case False
      with IH that show ?thesis by simp
    qed
    have "name_le (node_name (cs ! min_loop cs (j + 1) m')) (node_name (cs ! m))"
      using IH le(1) by (metis strcmp.order_trans)
    moreover have "min_loop cs (j + 1) m' = m \<or> j \<le> min_loop cs (j + 1) m'"
      using IH by (auto simp: m'_def)
    ultimately show ?thesis unfolding eq using IH leq by blast
  qed
qed

lemma length_swap [simp]: "length (swap cs i m) = length cs"
  by (simp add: swap_def Let_def)

lemma swap_nth:
  "i < length cs \<Longrightarrow> m < length cs \<Longrightarrow> b < length cs \<Longrightarrow>
     swap cs i m ! b = (if b = m then cs ! i else if b = i then cs ! m else cs ! b)"
  by (auto simp: swap_def Let_def nth_list_update)

lemma mset_swap_nodes: "i < length cs \<Longrightarrow> m < length cs \<Longrightarrow> mset (swap cs i m) = mset cs"
  by (simp add: swap_def Let_def mset_swap)

text \<open>The elements before index \<open>i\<close> are in place.\<close>

definition placed :: "tree list \<Rightarrow> nat \<Rightarrow> bool" where
  "placed cs i \<longleftrightarrow> (\<forall>a b. a < i \<and> a < b \<and> b < length cs \<longrightarrow>
     name_le (node_name (cs ! a)) (node_name (cs ! b)))"

lemma placed_step:
  assumes p: "placed cs i" and i: "i < length cs"
  shows "placed (swap cs i (min_loop cs (i + 1) i)) (Suc i)"
proof -
  define m where "m = min_loop cs (i + 1) i"
  from min_loop_min [OF i, of "i + 1"] have m: "m < length cs" "i \<le> m"
    and le: "name_le (node_name (cs ! m)) (node_name (cs ! i))"
      "\<And>k. i < k \<Longrightarrow> k < length cs \<Longrightarrow> name_le (node_name (cs ! m)) (node_name (cs ! k))"
    by (auto simp: m_def)
  have "name_le (node_name (swap cs i m ! a)) (node_name (swap cs i m ! b))"
    if "a < Suc i" "a < b" "b < length cs" for a b
  proof (cases "a = i")
    case True
    with that i m le show ?thesis by (auto simp: swap_nth)
  next
    case False
    with that m have "swap cs i m ! a = cs ! a" using i by (simp add: swap_nth)
    moreover have "\<exists>k. a < k \<and> k < length cs \<and> swap cs i m ! b = cs ! k"
      by (rule exI [of _ "if b = m then i else if b = i then m else b"])
        (use that False i m in \<open>auto simp: swap_nth\<close>)
    ultimately show ?thesis using p that False by (auto simp: placed_def)
  qed
  then show ?thesis by (simp add: placed_def m_def)
qed

lemma sort_loop_correct:
  assumes "placed cs i"
  shows "mset (sort_loop cs i) = mset cs \<and> sorted_wrt name_le (map node_name (sort_loop cs i))"
  using assms
proof (induction cs i rule: sort_loop.induct)
  case (1 cs i)
  show ?case
  proof (cases "i < length cs")
    case True
    then have "min_loop cs (i + 1) i < length cs" using min_loop_min by blast
    with 1 True placed_step [OF "1.prems" True] show ?thesis
      by (simp add: sort_loop.simps [of cs i] mset_swap_nodes)
  next
    case False
    with "1.prems" show ?thesis
      by (simp add: sort_loop.simps [of cs i] placed_def sorted_wrt_iff_nth_less)
  qed
qed

lemma sorted_dir_mset [simp]: "mset (sorted_dir cs) = mset cs"
  using sort_loop_correct [of cs 0] by (simp add: sorted_dir_def placed_def)

lemma sorted_dir_sorted [simp]: "sorted_wrt name_le (map node_name (sorted_dir cs))"
  using sort_loop_correct [of cs 0] by (simp add: sorted_dir_def placed_def)

lemma sorted_dir_set [simp]: "set (sorted_dir cs) = set cs"
  using sorted_dir_mset by (metis set_mset_mset)

lemma sorted_dir_sort_key:
  assumes "distinct (map node_name cs)"
  shows "sorted_dir cs = strcmp.sort_key node_name cs"
proof (rule strcmp.map_sorted_distinct_set_unique)
  have d: "distinct (map node_name xs)" if "mset xs = mset cs" for xs
    using assms that by (metis mset_map mset_eq_imp_distinct_iff)
  show "distinct (map node_name (sorted_dir cs))" by (rule d) simp
  show "distinct (map node_name (strcmp.sort_key node_name cs))" by (rule d) simp
  show "inj_on node_name (set (sorted_dir cs) \<union> set (strcmp.sort_key node_name cs))"
    using assms by (simp add: distinct_map)
qed simp_all

section \<open>Trees stay ordered\<close>

fun ordered_tree :: "tree \<Rightarrow> bool" where
  "ordered_tree (FILE_NODE name contents) = True"
| "ordered_tree (DIRECTORY_NODE name children) =
     (sorted_wrt name_le (map node_name children) \<and> list_all ordered_tree children)"

lemma add_child_ordered:
  "ordered_tree d \<Longrightarrow> ordered_tree c \<Longrightarrow> ordered_tree (add_child_directory_tree d c)"
  by (cases d) (auto simp: list_all_iff)

section \<open>Creating a tree\<close>

fun valid_tree :: "tree \<Rightarrow> bool" where
  "valid_tree (FILE_NODE name contents) = (name \<noteq> [] \<and> slash \<notin> set name)"
| "valid_tree (DIRECTORY_NODE name children) =
     (name \<noteq> [] \<and> slash \<notin> set name \<and> distinct (map node_name children)
      \<and> list_all valid_tree children)"

text \<open>What a tree standing at \<open>path\<close> contributes to the file system.\<close>

fun tree_map :: "string \<Rightarrow> tree \<Rightarrow> fs"
  and children_map :: "string \<Rightarrow> tree list \<Rightarrow> fs" where
  "tree_map path (FILE_NODE name contents) = [new_path path name \<mapsto> FsFile contents]"
| "tree_map path (DIRECTORY_NODE name children) =
     [new_path path name \<mapsto> FsDir] ++ children_map (new_path path name) children"
| "children_map path [] = Map.empty"
| "children_map path (c # cs) = tree_map path c ++ children_map path cs"

text \<open>The paths at or below \<open>q\<close>.\<close>

definition under :: "string \<Rightarrow> string \<Rightarrow> bool" where
  "under q p \<longleftrightarrow> p = q \<or> (\<exists>r. p = q @ slash # r)"

lemma valid_name: "valid_tree n \<Longrightarrow> node_name n \<noteq> [] \<and> slash \<notin> set (node_name n)"
  by (cases n) simp_all

lemma new_path_nonempty: "name \<noteq> [] \<Longrightarrow> new_path path name \<noteq> []"
  by (simp add: new_path_def)

lemma parent_new_path: "slash \<notin> set name \<Longrightarrow> parent_of (new_path path name) = path"
proof -
  assume a: "slash \<notin> set name"
  then have "dropWhile (\<lambda>c. c \<noteq> slash) (rev name @ xs) = dropWhile (\<lambda>c. c \<noteq> slash) xs" for xs
    by (intro dropWhile_append2) auto
  from this [of "slash # rev path"] have "dropWhile (\<lambda>c. c \<noteq> slash) (rev name @ slash # rev path) = slash # rev path"
    by simp
  moreover have "dropWhile (\<lambda>c. c \<noteq> slash) (rev name) = []" using a by (auto simp: dropWhile_eq_Nil_conv)
  then have "tl (dropWhile (\<lambda>c. c \<noteq> slash) (rev name)) = []" by (simp only: list.sel)
  ultimately show ?thesis by (simp add: parent_of_def new_path_def)
qed

lemma under_trans: "under p q \<Longrightarrow> under q r \<Longrightarrow> under p r"
  unfolding under_def by auto

lemma under_new_path: "path \<noteq> [] \<Longrightarrow> under path (new_path path name)"
  by (simp add: under_def new_path_def)

lemma under_unique:
  assumes "slash \<notin> set a" "slash \<notin> set b" "under (new_path path a) p" "under (new_path path b) p"
  shows "a = b"
proof -
  have key: "takeWhile (\<lambda>c. c \<noteq> slash) (drop (length path + (if path = [] then 0 else 1)) p) = n"
    if "slash \<notin> set n" "under (new_path path n) p" for n
  proof -
    from that(2) obtain r where p: "p = new_path path n @ r" and r: "r = [] \<or> (\<exists>t. r = slash # t)"
      by (auto simp: under_def)
    have "drop (length path + (if path = [] then 0 else 1)) p = n @ r"
      by (auto simp: p new_path_def)
    moreover have "takeWhile (\<lambda>c. c \<noteq> slash) (n @ r) = n"
      using r that(1) by (auto simp: takeWhile_append takeWhile_eq_all_conv)
    ultimately show ?thesis by simp
  qed
  from key [OF assms(1,3)] key [OF assms(2,4)] show ?thesis by simp
qed

lemma tree_map_under:
  "p \<in> dom (tree_map path n) \<Longrightarrow> valid_tree n \<Longrightarrow> under (new_path path (node_name n)) p"
  "p \<in> dom (children_map path cs) \<Longrightarrow> list_all valid_tree cs \<Longrightarrow> path \<noteq> [] \<Longrightarrow>
     \<exists>c \<in> set cs. under (new_path path (node_name c)) p"
proof (induction path n and path cs rule: tree_map_children_map.induct)
  case (2 path name children)
  show ?case
  proof (cases "p = new_path path name")
    case True
    then show ?thesis by (simp add: under_def)
  next
    case False
    with 2 have "p \<in> dom (children_map (new_path path name) children)" by (auto simp: map_add_def split: option.splits)
    with 2 obtain c where "under (new_path (new_path path name) (node_name c)) p"
      using new_path_nonempty by fastforce
    then show ?thesis
      using under_trans [OF under_new_path] 2(3) by (simp add: new_path_nonempty)
  qed
qed (auto simp: under_def)

lemma map_upd_add: "fs(q \<mapsto> v) = fs ++ (\<lambda>a. if a = q then Some v else None)"
  by (auto simp: map_add_def)

text \<open>Nothing of the tree exists yet, and the place it goes to is a directory.\<close>

definition room_for :: "fs \<Rightarrow> string \<Rightarrow> tree \<Rightarrow> bool" where
  "room_for fs path n \<longleftrightarrow> is_dir fs path \<and> (\<forall>p. under (new_path path (node_name n)) p \<longrightarrow> fs p = None)"

lemma create_correct:
  "valid_tree n \<Longrightarrow> room_for fs path n \<Longrightarrow>
     create_directory_tree_helper n path fs = Some (fs ++ tree_map path n)"
  "list_all valid_tree cs \<Longrightarrow> distinct (map node_name cs) \<Longrightarrow> path \<noteq> [] \<Longrightarrow>
     (\<And>c. c \<in> set cs \<Longrightarrow> room_for fs path c) \<Longrightarrow>
     create_children cs path fs = Some (fs ++ children_map path cs)"
proof (induction n path fs and cs path fs rule: create_directory_tree_helper_create_children.induct)
  case (1 name contents path fs)
  then show ?case
    by (simp add: write_file_def room_for_def parent_new_path new_path_nonempty under_def map_upd_add)
next
  case (2 name children path fs)
  define q where "q = new_path path name"
  from "2.prems" have mk: "mkdir fs q = Some (fs(q \<mapsto> FsDir))"
    by (simp add: mkdir_def room_for_def parent_new_path new_path_nonempty under_def q_def)
  have room: "room_for (fs(q \<mapsto> FsDir)) q c" if "c \<in> set children" for c
  proof -
    have "fs p = None \<and> p \<noteq> q" if "under (new_path q (node_name c)) p" for p
    proof
      have "q \<noteq> []" using "2.prems" by (simp add: q_def new_path_nonempty)
      then have "under q p" using under_trans [OF under_new_path that] by simp
      then show "fs p = None" using "2.prems" by (simp add: room_for_def q_def)
      show "p \<noteq> q" using that \<open>q \<noteq> []\<close> by (auto simp: under_def new_path_def)
    qed
    then show ?thesis by (simp add: room_for_def is_dir_def)
  qed
  have "create_children children q (fs(q \<mapsto> FsDir)) = Some (fs(q \<mapsto> FsDir) ++ children_map q children)"
    using "2.prems" by (intro "2.IH" [folded q_def, OF mk] room) (simp_all add: q_def new_path_nonempty)
  then show ?case by (simp add: q_def [symmetric] mk map_upd_add)
next
  case (4 c cs path fs)
  have c: "create_directory_tree_helper c path fs = Some (fs ++ tree_map path c)"
    using 4 by simp
  have "room_for (fs ++ tree_map path c) path d" if d: "d \<in> set cs" for d
  proof -
    have "p \<notin> dom (tree_map path c)" if "under (new_path path (node_name d)) p" for p
    proof
      assume "p \<in> dom (tree_map path c)"
      then have "under (new_path path (node_name c)) p" using 4(3) by (intro tree_map_under(1)) simp_all
      moreover have "valid_tree c" "valid_tree d" using 4(3) d by (auto simp: list_all_iff)
      ultimately have "node_name c = node_name d"
        using under_unique that valid_name by blast
      with 4(4) d show False by auto
    qed
    moreover have "\<not> under (new_path path (node_name c)) path"
      using 4(5) by (auto simp: under_def new_path_def)
    then have "path \<notin> dom (tree_map path c)" using tree_map_under(1) 4(3) by fastforce
    moreover have "room_for fs path d" using 4(6) d by simp
    ultimately show ?thesis using 4(5)
      by (auto simp: room_for_def is_dir_def map_add_def domIff split: option.splits)
  qed
  then have "create_children cs path (fs ++ tree_map path c) = Some ((fs ++ tree_map path c) ++ children_map path cs)"
    using 4 c by (intro "4.IH"(2)) simp_all
  with c show ?case by simp
qed simp_all

section \<open>Every block is released exactly once\<close>

fun tree_blocks :: "nat list \<Rightarrow> tree \<Rightarrow> tree_block set"
  and children_blocks :: "nat list \<Rightarrow> nat \<Rightarrow> tree list \<Rightarrow> tree_block set" where
  "tree_blocks p (FILE_NODE name contents) = {ContentsBlock p, NameBlock p, TreeBlock p}"
| "tree_blocks p (DIRECTORY_NODE name children) =
     {ChildrenBlock p, NameBlock p, TreeBlock p} \<union> children_blocks p 0 children"
| "children_blocks p i [] = {}"
| "children_blocks p i (c # cs) = tree_blocks (p @ [i]) c \<union> children_blocks p (Suc i) cs"

fun tree_block_path :: "tree_block \<Rightarrow> nat list" where
  "tree_block_path (ContentsBlock p) = p"
| "tree_block_path (ChildrenBlock p) = p"
| "tree_block_path (NameBlock p) = p"
| "tree_block_path (TreeBlock p) = p"

lemma free_directory_tree_set:
  "set (free_directory_tree p n) = tree_blocks p n"
  "set (free_children p i cs) = children_blocks p i cs"
  by (induction p n and p i cs rule: free_directory_tree_free_children.induct) auto

lemma free_directory_tree_prefix:
  "b \<in> set (free_directory_tree p n) \<Longrightarrow> \<exists>q. tree_block_path b = p @ q"
  "b \<in> set (free_children p i cs) \<Longrightarrow> \<exists>j q. i \<le> j \<and> tree_block_path b = p @ j # q"
proof (induction p n and p i cs rule: free_directory_tree_free_children.induct)
  case (4 p i c cs)
  then show ?case by (auto dest: Suc_leD)
qed auto

lemma free_directory_tree_distinct:
  "distinct (free_directory_tree p n)"
  "distinct (free_children p i cs)"
proof (induction p n and p i cs rule: free_directory_tree_free_children.induct)
  case (2 p name children)
  have "b \<notin> set (free_children p 0 children)" if "tree_block_path b = p" for b
    using free_directory_tree_prefix(2) [of b p 0 children] that by auto
  with 2 show ?case by auto
next
  case (4 p i c cs)
  have "set (free_directory_tree (p @ [i]) c) \<inter> set (free_children p (Suc i) cs) = {}"
    by (fastforce dest: free_directory_tree_prefix)
  with 4 show ?case by simp
qed simp_all

section \<open>Properties\<close>

text \<open>
  C20: \<^verbatim>\<open>sorted_dir\<close> sorts. The children after the two loops are a permutation of the children
  before, ordered by \<^verbatim>\<open>strcmp\<close> on their names; and when the names differ the result is the
  one that the library's sort by key computes.
\<close>

theorem sorted_dir_correct:
  "mset (sorted_dir cs) = mset cs \<and> sorted_wrt name_le (map node_name (sorted_dir cs))
   \<and> (distinct (map node_name cs) \<longrightarrow> sorted_dir cs = strcmp.sort_key node_name cs)"
  by (simp add: sorted_dir_sort_key)

theorem sorted_dir_correct_witness:
  "sorted_dir [FILE_NODE ''b'' [], FILE_NODE ''B'' [1], FILE_NODE ''a'' []] =
     strcmp.sort_key node_name [FILE_NODE ''b'' [], FILE_NODE ''B'' [1], FILE_NODE ''a'' []]"
  using sorted_dir_correct [of "[FILE_NODE ''b'' [], FILE_NODE ''B'' [1], FILE_NODE ''a'' []]"] by simp

text \<open>
  C29: \<^verbatim>\<open>create_directory_tree\<close> creates exactly the tree. In a file system where the name of the
  root is not taken, for a tree whose sibling names are distinct, non-empty and free of
  slashes, every \<^verbatim>\<open>mkdir\<close> and \<^verbatim>\<open>fopen\<close> succeeds and afterwards each path of the tree holds its
  directory or the file's bytes, while every other path is as it was.
\<close>

theorem create_directory_tree_correct:
  assumes "valid_tree n" and "\<forall>p. under (node_name n) p \<longrightarrow> fs p = None"
  shows "create_directory_tree n fs = Some (fs ++ tree_map [] n)
    \<and> (\<forall>p. \<not> under (node_name n) p \<longrightarrow> (fs ++ tree_map [] n) p = fs p)"
proof -
  have r: "room_for fs [] n" using assms(2) by (simp add: room_for_def is_dir_def new_path_def)
  have "p \<notin> dom (tree_map [] n)" if "\<not> under (node_name n) p" for p
    using tree_map_under(1) [of p "[]" n] assms(1) that by (auto simp: new_path_def)
  then show ?thesis
    using create_correct(1) [OF assms(1) r]
    by (auto simp: create_directory_tree_def map_add_dom_app_simps)
qed

definition sample_tree :: tree where
  "sample_tree = DIRECTORY_NODE ''ROOT'' [FILE_NODE ''A'' [1, 2], DIRECTORY_NODE ''D'' [FILE_NODE ''A'' []]]"

theorem create_directory_tree_correct_witness:
  "\<exists>fs. create_directory_tree sample_tree Map.empty = Some fs \<and> fs ''ROOT/D/A'' = Some (FsFile [])"
proof -
  have "valid_tree sample_tree" by (simp add: sample_tree_def slash_def)
  from create_directory_tree_correct [OF this, of Map.empty] show ?thesis
    by (auto simp: sample_tree_def new_path_def slash_def map_add_def)
qed

text \<open>
  C38: \<^verbatim>\<open>free_directory_tree\<close> releases every block of a tree (node, name, contents, child array)
  exactly once.
\<close>

theorem free_directory_tree_exact:
  "distinct (free_directory_tree p n) \<and> set (free_directory_tree p n) = tree_blocks p n"
  by (simp add: free_directory_tree_distinct free_directory_tree_set)

end
