(* ===== verification/Recover.thy ===== *)
theory Recover
  imports Fat16 Directory_Tree
begin

text \<open>
  Recovering a directory tree from a FAT16 image (\<^verbatim>\<open>src/file-directory-tree/src/recover.c\<close>).
  The disk is a file: its bytes and the position. \<^verbatim>\<open>follow\<close> takes fuel, since directories of a
  damaged image may form a cycle; a failed assertion and exhausted fuel are the two errors.
  On an image whose directories form a tree, enough fuel gives that tree.

  A subdirectory is added to its parent before it is filled in the source, through the
  pointer that stays in the sorted array; sorting compares names only, so the model adds the
  filled directory instead.
\<close>

section \<open>The disk\<close>

record disk =
  image :: "byte list"
  dpos :: nat

datatype recover_error = AssertFailed | NoFuel

text \<open>\<^verbatim>\<open>fread(p, n, 1, disk)\<close>: one item of \<open>n\<close> bytes; no item is read when \<open>n\<close> is 0.\<close>

definition fread :: "nat \<Rightarrow> disk \<Rightarrow> (byte list \<times> disk) option" where
  "fread n d =
     (if 0 < n \<and> dpos d + n \<le> length (image d)
      then Some (bytes_at (dpos d) n (image d), d\<lparr>dpos := dpos d + n\<rparr>)
      else None)"

text \<open>\<^verbatim>\<open>fseek\<close> to an offset that is negative as a \<^verbatim>\<open>long\<close> fails and leaves the position alone.\<close>

definition fseek :: "64 word \<Rightarrow> disk \<Rightarrow> disk" where
  "fseek offset d = (if sint offset < 0 then d else d\<lparr>dpos := unat offset\<rparr>)"

section \<open>Following the entries\<close>

definition follow_file ::
    "disk \<Rightarrow> tree \<Rightarrow> bios_parameter_block \<Rightarrow> directory_entry \<Rightarrow> recover_error + (disk \<times> tree)" where
  "follow_file d node bpb entry =
     (let prev_offset = dpos d;
          d1 = fseek (get_offset_from_cluster (ucast (first_cluster entry)) bpb) d in
      case fread (unat (file_size entry)) d1 of
        None \<Rightarrow> Inl AssertFailed
      | Some (contents, d2) \<Rightarrow>
          Inr (d2\<lparr>dpos := prev_offset\<rparr>,
               add_child_directory_tree node (init_file_node (Some (get_file_name entry)) contents)))"

fun follow :: "nat \<Rightarrow> disk \<Rightarrow> tree \<Rightarrow> bios_parameter_block \<Rightarrow> recover_error + (disk \<times> tree)"
  and follow_loop ::
    "nat \<Rightarrow> directory_entry \<Rightarrow> disk \<Rightarrow> tree \<Rightarrow> bios_parameter_block \<Rightarrow> recover_error + (disk \<times> tree)"
  and follow_directory ::
    "nat \<Rightarrow> disk \<Rightarrow> tree \<Rightarrow> bios_parameter_block \<Rightarrow> directory_entry \<Rightarrow> recover_error + (disk \<times> tree)" where
  "follow 0 d node bpb = Inl NoFuel"
| "follow (Suc f) d node bpb =
     (case fread sizeof_entry d of
        None \<Rightarrow> Inl AssertFailed
      | Some (bs, d1) \<Rightarrow> follow_loop f (decode_entry bs) d1 node bpb)"
| "follow_loop 0 entry d node bpb = Inl NoFuel"
| "follow_loop (Suc f) entry d node bpb =
     (if get_file_name entry = [] then Inr (d, node)
      else
        case (if is_hidden entry then Inr (d, node)
              else if is_directory entry then follow_directory f d node bpb entry
              else follow_file d node bpb entry) of
          Inl e \<Rightarrow> Inl e
        | Inr (d1, node1) \<Rightarrow>
            (case fread sizeof_entry d1 of
               None \<Rightarrow> Inl AssertFailed
             | Some (bs, d2) \<Rightarrow> follow_loop f (decode_entry bs) d2 node1 bpb))"
| "follow_directory 0 d node bpb entry = Inl NoFuel"
| "follow_directory (Suc f) d node bpb entry =
     (let prev_offset = dpos d;
          d1 = fseek (get_offset_from_cluster (ucast (first_cluster entry)) bpb) d in
      case follow f d1 (init_directory_node (Some (get_file_name entry))) bpb of
        Inl e \<Rightarrow> Inl e
      | Inr (d2, dir_node) \<Rightarrow> Inr (d2\<lparr>dpos := prev_offset\<rparr>, add_child_directory_tree node dir_node))"

section \<open>The program\<close>

definition MASTER_BOOT_RECORD_SIZE :: nat where
  "MASTER_BOOT_RECORD_SIZE = 0x20B"

text \<open>The tree recovered from an image.\<close>

definition recover_tree :: "nat \<Rightarrow> byte list \<Rightarrow> recover_error + tree" where
  "recover_tree f img =
     (case fread sizeof_bpb \<lparr>image = img, dpos = MASTER_BOOT_RECORD_SIZE\<rparr> of
        None \<Rightarrow> Inl AssertFailed
      | Some (bs, d) \<Rightarrow>
          (let bpb = decode_bpb bs in
           case follow f (fseek (get_root_directory_location bpb) d) (init_directory_node None) bpb of
             Inl e \<Rightarrow> Inl e
           | Inr (_, root) \<Rightarrow> Inr root))"

record recovery =
  exit_status :: nat
  printed :: string
  complaint :: string
  files :: fs

text \<open>\<^verbatim>\<open>main\<close>: the exit status, the two output streams and the file system afterwards.\<close>

definition recover_main ::
    "nat \<Rightarrow> (string \<Rightarrow> byte list option) \<Rightarrow> fs \<Rightarrow> string list \<Rightarrow> recover_error + recovery" where
  "recover_main f fopen fs argv =
     (if length argv \<noteq> 2 then
        Inr \<lparr>exit_status = 1, printed = [], complaint = ''USAGE: '' @
              (case argv of [] \<Rightarrow> ''(null)'' | a # _ \<Rightarrow> a) @ '' <image filename>'' @ [CHR 0x0A], files = fs\<rparr>
      else case fopen (argv ! 1) of
        None \<Rightarrow> Inr \<lparr>exit_status = 1, printed = [],
                  complaint = ''No such image file: '' @ argv ! 1 @ [CHR 0x0A], files = fs\<rparr>
      | Some img \<Rightarrow>
          (case recover_tree f img of
             Inl e \<Rightarrow> Inl e
           | Inr root \<Rightarrow>
               (case create_directory_tree root fs of
                  None \<Rightarrow> Inl AssertFailed
                | Some fs' \<Rightarrow> Inr \<lparr>exit_status = 0, printed = print_directory_tree root,
                                   complaint = [], files = fs'\<rparr>)))"

section \<open>What an image describes\<close>

text \<open>The entry at a position, and the position a cluster number stands for.\<close>

definition entry_at :: "byte list \<Rightarrow> nat \<Rightarrow> directory_entry" where
  "entry_at img p = decode_entry (bytes_at p sizeof_entry img)"

definition cluster_position :: "bios_parameter_block \<Rightarrow> directory_entry \<Rightarrow> nat" where
  "cluster_position bpb e = unat (get_offset_from_cluster (ucast (first_cluster e)) bpb)"

text \<open>The children of a directory once they have been added one by one.\<close>

definition insert_child :: "tree list \<Rightarrow> tree \<Rightarrow> tree list" where
  "insert_child children c = sorted_dir (children @ [c])"

definition insert_children :: "tree list \<Rightarrow> tree list \<Rightarrow> tree list" where
  "insert_children = foldl insert_child"

text \<open>
  \<open>dir_at img bpb p n cs\<close>: from position \<open>p\<close> on, the image holds a terminated sequence of
  entries that describe the files and directories \<open>cs\<close>, in disk order; \<open>n\<close> bounds the
  number of entries and the nesting.
\<close>

inductive dir_at :: "byte list \<Rightarrow> bios_parameter_block \<Rightarrow> nat \<Rightarrow> nat \<Rightarrow> tree list \<Rightarrow> bool"
  for img bpb where
  dir_end: "p + sizeof_entry \<le> length img \<Longrightarrow> get_file_name (entry_at img p) = [] \<Longrightarrow>
    dir_at img bpb p n []"
| dir_hidden: "p + sizeof_entry \<le> length img \<Longrightarrow> get_file_name (entry_at img p) \<noteq> [] \<Longrightarrow>
    is_hidden (entry_at img p) \<Longrightarrow> dir_at img bpb (p + sizeof_entry) n cs \<Longrightarrow>
    dir_at img bpb p (Suc n) cs"
| dir_file: "p + sizeof_entry \<le> length img \<Longrightarrow> get_file_name (entry_at img p) \<noteq> [] \<Longrightarrow>
    \<not> is_hidden (entry_at img p) \<Longrightarrow> \<not> is_directory (entry_at img p) \<Longrightarrow>
    2 \<le> unat (first_cluster (entry_at img p)) \<Longrightarrow> 0 < unat (file_size (entry_at img p)) \<Longrightarrow>
    cluster_position bpb (entry_at img p) + unat (file_size (entry_at img p)) \<le> length img \<Longrightarrow>
    contents = bytes_at (cluster_position bpb (entry_at img p)) (unat (file_size (entry_at img p))) img \<Longrightarrow>
    dir_at img bpb (p + sizeof_entry) n cs \<Longrightarrow>
    dir_at img bpb p (Suc n) (FILE_NODE (get_file_name (entry_at img p)) contents # cs)"
| dir_sub: "p + sizeof_entry \<le> length img \<Longrightarrow> get_file_name (entry_at img p) \<noteq> [] \<Longrightarrow>
    \<not> is_hidden (entry_at img p) \<Longrightarrow> is_directory (entry_at img p) \<Longrightarrow>
    2 \<le> unat (first_cluster (entry_at img p)) \<Longrightarrow>
    dir_at img bpb (cluster_position bpb (entry_at img p)) n ds \<Longrightarrow>
    dir_at img bpb (p + sizeof_entry) n cs \<Longrightarrow>
    dir_at img bpb p (Suc n)
      (DIRECTORY_NODE (get_file_name (entry_at img p)) (insert_children [] ds) # cs)"

section \<open>Recovery is correct on well-formed images\<close>

lemma fread_entry:
  "dpos d + sizeof_entry \<le> length (image d) \<Longrightarrow>
     fread sizeof_entry d = Some (bytes_at (dpos d) sizeof_entry (image d), d\<lparr>dpos := dpos d + sizeof_entry\<rparr>)"
  by (simp add: fread_def sizeof_entry_def)

lemma sint_small:
  assumes "unat (w :: 64 word) < 2 ^ 63"
  shows "0 \<le> sint w"
proof -
  have "\<not> bit (unat w) 63" using assms by (simp add: bit_iff_odd)
  then have "\<not> bit w 63" by (simp add: bit_unsigned_iff)
  then show ?thesis using bit_last_iff [of w] by simp
qed

lemma fseek_cluster:
  assumes "2 \<le> unat (first_cluster e)"
  shows "fseek (get_offset_from_cluster (ucast (first_cluster e)) bpb) d = d\<lparr>dpos := cluster_position bpb e\<rparr>"
proof -
  have c: "unat (ucast (first_cluster e) :: 64 word) = unat (first_cluster e)" by (rule unat_ucast_u16)
  have "unat (get_offset_from_cluster (ucast (first_cluster e)) bpb) < 2 ^ 42"
    using cluster_offset [of "ucast (first_cluster e)" bpb] assms unat_u16 [of "first_cluster e"] c by simp
  then have "0 \<le> sint (get_offset_from_cluster (ucast (first_cluster e)) bpb)" by (intro sint_small) simp
  then show ?thesis by (simp add: fseek_def cluster_position_def)
qed

lemma follow_file_correct:
  assumes "2 \<le> unat (first_cluster e)" and "0 < unat (file_size e)"
    and "cluster_position bpb e + unat (file_size e) \<le> length (image d)"
  shows "follow_file d (DIRECTORY_NODE nm acc) bpb e =
    Inr (d, DIRECTORY_NODE nm (insert_child acc (FILE_NODE (get_file_name e)
      (bytes_at (cluster_position bpb e) (unat (file_size e)) (image d)))))"
  using assms
  by (simp add: follow_file_def fseek_cluster fread_def insert_child_def init_file_node_def init_node_def)

lemma follow_loop_correct:
  assumes "dir_at img bpb p n cs"
  shows "3 * n + 1 \<le> f \<Longrightarrow> image d = img \<Longrightarrow> dpos d = p + sizeof_entry \<Longrightarrow>
    \<exists>q. follow_loop f (entry_at img p) d (DIRECTORY_NODE nm acc) bpb =
      Inr (d\<lparr>dpos := q\<rparr>, DIRECTORY_NODE nm (insert_children acc cs))"
  using assms
proof (induction arbitrary: f d nm acc rule: dir_at.induct)
  case (dir_end p n)
  then obtain f' where "f = Suc f'" by (cases f) simp_all
  with dir_end show ?case by (auto simp: insert_children_def intro!: exI [of _ "dpos d"])
next
  case (dir_hidden p n cs)
  then obtain f' where f: "f = Suc f'" "3 * n + 1 \<le> f'" by (cases f) simp_all
  have "dpos d + sizeof_entry \<le> length (image d)"
    using dir_hidden.hyps(4) dir_hidden.prems by (auto elim: dir_at.cases)
  then have r: "fread sizeof_entry d =
      Some (bytes_at (p + sizeof_entry) sizeof_entry img, d\<lparr>dpos := p + sizeof_entry + sizeof_entry\<rparr>)"
    using dir_hidden.prems by (simp add: fread_entry)
  from dir_hidden.IH [OF f(2), of "d\<lparr>dpos := p + sizeof_entry + sizeof_entry\<rparr>" nm acc] dir_hidden.prems
  show ?case using dir_hidden.hyps by (simp add: f r entry_at_def)
next
  case (dir_file p contents n cs)
  then obtain f' where f: "f = Suc f'" "3 * n + 1 \<le> f'" by (cases f) simp_all
  have "dpos d + sizeof_entry \<le> length (image d)"
    using dir_file.hyps(9) dir_file.prems by (auto elim: dir_at.cases)
  then have r: "fread sizeof_entry d =
      Some (bytes_at (p + sizeof_entry) sizeof_entry img, d\<lparr>dpos := p + sizeof_entry + sizeof_entry\<rparr>)"
    using dir_file.prems by (simp add: fread_entry)
  have ff: "follow_file d (DIRECTORY_NODE nm acc) bpb (entry_at img p) =
      Inr (d, DIRECTORY_NODE nm (insert_child acc (FILE_NODE (get_file_name (entry_at img p)) contents)))"
    using dir_file by (subst follow_file_correct) simp_all
  from dir_file.IH [OF f(2), of "d\<lparr>dpos := p + sizeof_entry + sizeof_entry\<rparr>" nm
      "insert_child acc (FILE_NODE (get_file_name (entry_at img p)) contents)"] dir_file.prems
  show ?case
    using dir_file.hyps(2-4) by (simp add: f ff r entry_at_def [of img "p + sizeof_entry", symmetric] insert_children_def)
next
  case (dir_sub p n ds cs)
  then obtain f' where f: "f = Suc (Suc (Suc f'))" "3 * n + 1 \<le> f'"
    by (cases f; cases "f - 1"; cases "f - 2") auto
  have rd: "fread sizeof_entry d' =
      Some (bytes_at q sizeof_entry img, d'\<lparr>dpos := q + sizeof_entry\<rparr>)"
    if "dir_at img bpb q n xs" "image d' = img" "dpos d' = q" for d' q xs
  proof -
    have "q + sizeof_entry \<le> length img" using that(1) by (auto elim: dir_at.cases)
    with that show ?thesis by (simp add: fread_entry)
  qed
  let ?e = "entry_at img p"
  obtain q where sub: "follow (Suc f') (d\<lparr>dpos := cluster_position bpb ?e\<rparr>) (DIRECTORY_NODE (get_file_name ?e) []) bpb
      = Inr (d\<lparr>dpos := q\<rparr>, DIRECTORY_NODE (get_file_name ?e) (insert_children [] ds))"
    using dir_sub.IH(1) [OF f(2), of "d\<lparr>dpos := cluster_position bpb ?e + sizeof_entry\<rparr>" "get_file_name ?e" "[]"]
      rd [OF dir_sub.hyps(6), of "d\<lparr>dpos := cluster_position bpb ?e\<rparr>"] dir_sub.prems
    by (auto simp: entry_at_def)
  have fd: "follow_directory (Suc (Suc f')) d (DIRECTORY_NODE nm acc) bpb ?e =
      Inr (d, DIRECTORY_NODE nm (insert_child acc (DIRECTORY_NODE (get_file_name ?e) (insert_children [] ds))))"
    using sub by (simp add: fseek_cluster [OF dir_sub.hyps(5)] init_directory_node_def init_node_def
        insert_child_def del: follow.simps)
  have r: "fread sizeof_entry d =
      Some (bytes_at (p + sizeof_entry) sizeof_entry img, d\<lparr>dpos := p + sizeof_entry + sizeof_entry\<rparr>)"
    by (rule rd [OF dir_sub.hyps(7)]) (use dir_sub.prems in simp_all)
  have "3 * n + 1 \<le> Suc (Suc f')" using f(2) by simp
  from dir_sub.IH(2) [OF this, of "d\<lparr>dpos := p + sizeof_entry + sizeof_entry\<rparr>" nm
      "insert_child acc (DIRECTORY_NODE (get_file_name ?e) (insert_children [] ds))"] dir_sub.prems
  obtain q where "follow_loop (Suc (Suc f')) (entry_at img (p + sizeof_entry)) (d\<lparr>dpos := p + sizeof_entry + sizeof_entry\<rparr>)
       (DIRECTORY_NODE nm (insert_child acc (DIRECTORY_NODE (get_file_name ?e) (insert_children [] ds)))) bpb
     = Inr (d\<lparr>dpos := q\<rparr>, DIRECTORY_NODE nm (insert_children acc
          (DIRECTORY_NODE (get_file_name ?e) (insert_children [] ds) # cs)))"
    by (auto simp: insert_children_def simp del: follow_loop.simps)
  then have "follow_loop f ?e d (DIRECTORY_NODE nm acc) bpb = Inr (d\<lparr>dpos := q\<rparr>, DIRECTORY_NODE nm
      (insert_children acc (DIRECTORY_NODE (get_file_name ?e) (insert_children [] ds) # cs)))"
    unfolding f(1) using dir_sub.hyps(2-4)
    by (subst follow_loop.simps(2)) (simp add: fd r entry_at_def [of img "p + sizeof_entry", symmetric]
        del: follow_loop.simps follow_directory.simps)
  then show ?case by blast
qed

lemma follow_correct:
  assumes "dir_at img bpb p n cs" and "3 * n + 2 \<le> f" and "image d = img" and "dpos d = p"
  shows "\<exists>q. follow f d (DIRECTORY_NODE nm []) bpb =
    Inr (d\<lparr>dpos := q\<rparr>, DIRECTORY_NODE nm (insert_children [] cs))"
proof -
  obtain f' where f: "f = Suc f'" "3 * n + 1 \<le> f'" using assms(2) by (cases f) simp_all
  have "p + sizeof_entry \<le> length img" using assms(1) by (auto elim: dir_at.cases)
  then have "fread sizeof_entry d = Some (bytes_at p sizeof_entry img, d\<lparr>dpos := p + sizeof_entry\<rparr>)"
    using assms by (simp add: fread_entry)
  then show ?thesis
    using follow_loop_correct [OF assms(1) f(2), of "d\<lparr>dpos := p + sizeof_entry\<rparr>" nm "[]"] assms f
    by (auto simp: entry_at_def)
qed

lemma insert_children_props:
  "mset (insert_children acc cs) = mset acc + mset cs"
  "sorted_wrt name_le (map node_name acc) \<Longrightarrow> sorted_wrt name_le (map node_name (insert_children acc cs))"
  by (induction cs arbitrary: acc) (simp_all add: insert_children_def insert_child_def)

section \<open>Invariants of every run\<close>

definition run_keeps :: "disk \<Rightarrow> tree \<Rightarrow> recover_error + (disk \<times> tree) \<Rightarrow> bool" where
  "run_keeps d node r \<longleftrightarrow> (\<forall>d' node'. r = Inr (d', node') \<longrightarrow>
     image d' = image d \<and> node_name node' = node_name node \<and> (ordered_tree node \<longrightarrow> ordered_tree node'))"

lemma run_keepsI:
  "(\<And>d' node'. r = Inr (d', node') \<Longrightarrow> image d' = image d \<and> node_name node' = node_name node
      \<and> (ordered_tree node \<longrightarrow> ordered_tree node')) \<Longrightarrow> run_keeps d node r"
  unfolding run_keeps_def by blast

lemma run_keepsD:
  "run_keeps d node r \<Longrightarrow> r = Inr (d', node') \<Longrightarrow>
     image d' = image d \<and> node_name node' = node_name node \<and> (ordered_tree node \<longrightarrow> ordered_tree node')"
  unfolding run_keeps_def by blast

lemma run_keeps_Inl [simp]: "run_keeps d node (Inl e)"
  by (rule run_keepsI) simp

lemma run_keeps_refl [simp]: "run_keeps d node (Inr (d, node))"
  by (rule run_keepsI) simp

lemma run_keeps_trans:
  assumes "run_keeps d node (Inr (d1, n1))" and "run_keeps d2 n1 r" and "image d2 = image d1"
  shows "run_keeps d node r"
proof (rule run_keepsI)
  fix d' node' assume "r = Inr (d', node')"
  from run_keepsD [OF assms(2) this] run_keepsD [OF assms(1) refl] assms(3)
  show "image d' = image d \<and> node_name node' = node_name node \<and> (ordered_tree node \<longrightarrow> ordered_tree node')"
    by simp
qed

lemma add_child_name [simp]: "node_name (add_child_directory_tree n c) = node_name n"
  by (cases n) simp_all

lemma image_fseek [simp]: "image (fseek w d) = image d"
  by (simp add: fseek_def)

lemma fread_image: "fread n d = Some (bs, d') \<Longrightarrow> image d' = image d"
  by (auto simp: fread_def split: if_splits)

lemma follow_file_keeps: "run_keeps d node (follow_file d node bpb e)"
  by (auto intro!: run_keepsI simp: follow_file_def init_file_node_def add_child_ordered Let_def
      dest!: fread_image split: option.splits)

lemma follow_file_position:
  "follow_file d node bpb e = Inr (d', node') \<Longrightarrow> d' = d"
  by (cases d) (auto simp: follow_file_def Let_def fread_def fseek_def split: option.splits if_splits)

lemma follow_keeps:
  "run_keeps d node (follow f d node bpb)"
  "run_keeps d node (follow_loop f e d node bpb)"
  "run_keeps d node (follow_directory f d node bpb e)"
proof (induction f d node bpb and f e d node bpb and f d node bpb e
    rule: follow_follow_loop_follow_directory.induct)
  case (2 f d node bpb)
  show ?case
  proof (cases "fread sizeof_entry d")
    case None
    then show ?thesis by simp
  next
    case (Some x)
    obtain bs d1 where x: "x = (bs, d1)" by (cases x)
    have "image d1 = image d" using Some x by (simp add: fread_image)
    moreover have "run_keeps d1 node (follow_loop f (decode_entry bs) d1 node bpb)"
      by (rule "2.IH" [OF Some x [symmetric]])
    ultimately have "run_keeps d node (follow_loop f (decode_entry bs) d1 node bpb)"
      using run_keeps_trans [OF run_keeps_refl] by metis
    then show ?thesis using Some x by simp
  qed
next
  case (4 f e d node bpb)
  define r where "r = (if is_hidden e then Inr (d, node)
      else if is_directory e then follow_directory f d node bpb e else follow_file d node bpb e)"
  show ?case
  proof (cases "get_file_name e = []")
    case True
    then show ?thesis by simp
  next
    case name: False
    have rk: "run_keeps d node r"
      unfolding r_def using "4.IH"(1) [OF name] follow_file_keeps by simp
    show ?thesis
    proof (cases r)
      case (Inl err)
      with name show ?thesis by (simp add: r_def [symmetric])
    next
      case (Inr y)
      obtain d1 n1 where y: "y = (d1, n1)" by (cases y)
      show ?thesis
      proof (cases "fread sizeof_entry d1")
        case None
        with name Inr y show ?thesis by (simp add: r_def [symmetric])
      next
        case (Some x)
        obtain bs d2 where x: "x = (bs, d2)" by (cases x)
        have i: "image d2 = image d1" using Some x by (simp add: fread_image)
        have IH: "run_keeps d2 n1 (follow_loop f (decode_entry bs) d2 n1 bpb)"
          by (rule "4.IH"(2) [OF name Inr [unfolded r_def] y [symmetric] Some x [symmetric]])
        have "run_keeps d node (follow_loop f (decode_entry bs) d2 n1 bpb)"
          by (rule run_keeps_trans [OF _ IH i]) (use rk Inr y in simp)
        with Inr y name Some x show ?thesis by (simp add: r_def [symmetric])
      qed
    qed
  qed
next
  case (6 f d node bpb e)
  define d1 where "d1 = fseek (get_offset_from_cluster (ucast (first_cluster e)) bpb) d"
  have IH: "run_keeps d1 (init_directory_node (Some (get_file_name e)))
      (follow f d1 (init_directory_node (Some (get_file_name e))) bpb)"
    by (rule "6.IH" [OF refl d1_def])
  show ?case
  proof (cases "follow f d1 (init_directory_node (Some (get_file_name e))) bpb")
    case (Inl err)
    then show ?thesis by (simp add: d1_def)
  next
    case (Inr y)
    obtain d2 dn where y: "y = (d2, dn)" by (cases y)
    from run_keepsD [OF IH, of d2 dn] Inr y have "image d2 = image d" "ordered_tree dn"
      by (simp_all add: d1_def init_directory_node_def)
    then show ?thesis using Inr y
      by (auto intro!: run_keepsI simp: d1_def add_child_ordered)
  qed
qed simp_all

section \<open>Properties\<close>

text \<open>
  C3: recovering a FAT16 image, end to end. Let the parameter block of the image put the root
  directory at a position from where the directory entries form a tree with the contents
  \<open>cs\<close>, at most \<open>n\<close> entries long and deep. Then the program, given fuel \<open>3 n + 2\<close>, exits with
  status 0, prints the tree and creates it: the root \<^verbatim>\<open>ROOT\<close> holds exactly \<open>cs\<close>, sorted, and
  the file system gains exactly the paths of that tree, provided its names can be file names
  and \<^verbatim>\<open>ROOT\<close> is not taken.
\<close>

theorem recovery_correct:
  assumes "fopen name = Some img"
    and "MASTER_BOOT_RECORD_SIZE + sizeof_bpb \<le> length img"
    and "bpb = decode_bpb (bytes_at MASTER_BOOT_RECORD_SIZE sizeof_bpb img)"
    and "dir_at img bpb (unat (get_root_directory_location bpb)) n cs"
    and "root = DIRECTORY_NODE ''ROOT'' (insert_children [] cs)"
    and "valid_tree root" and "\<forall>p. under ''ROOT'' p \<longrightarrow> fs p = None"
    and "3 * n + 2 \<le> f"
  shows "recover_main f fopen fs [prog, name] =
      Inr \<lparr>exit_status = 0, printed = print_directory_tree root, complaint = [],
           files = fs ++ tree_map [] root\<rparr>
    \<and> mset (insert_children [] cs) = mset cs
    \<and> sorted_wrt name_le (map node_name (insert_children [] cs))"
proof -
  define d where "d = \<lparr>image = img, dpos = MASTER_BOOT_RECORD_SIZE + sizeof_bpb\<rparr>"
  have "fread sizeof_bpb \<lparr>image = img, dpos = MASTER_BOOT_RECORD_SIZE\<rparr> =
      Some (bytes_at MASTER_BOOT_RECORD_SIZE sizeof_bpb img, d)"
    using assms(2) by (simp add: fread_def d_def sizeof_bpb_def)
  moreover have "fseek (get_root_directory_location bpb) d =
      d\<lparr>dpos := unat (get_root_directory_location bpb)\<rparr>"
    using root_location [of bpb] sint_small [of "get_root_directory_location bpb"] by (auto simp: fseek_def)
  moreover have "\<exists>q. follow f (d\<lparr>dpos := unat (get_root_directory_location bpb)\<rparr>) (DIRECTORY_NODE ''ROOT'' []) bpb
      = Inr (d\<lparr>dpos := q\<rparr>, root)"
    using follow_correct [OF assms(4,8), of "d\<lparr>dpos := unat (get_root_directory_location bpb)\<rparr>" "''ROOT''"]
    by (simp add: d_def assms(5))
  ultimately have "recover_tree f img = Inr root"
    using assms(3) by (auto simp: recover_tree_def init_directory_node_def init_node_def)
  moreover have "room_for fs [] root"
    using assms(7) by (simp add: room_for_def is_dir_def new_path_def assms(5))
  then have "create_directory_tree root fs = Some (fs ++ tree_map [] root)"
    unfolding create_directory_tree_def by (rule create_correct(1) [OF assms(6)])
  ultimately show ?thesis
    using assms(1) insert_children_props by (simp add: recover_main_def)
qed

text \<open>
  An image with one file: parameter block with 600-byte sectors, no FATs and two root
  entries, the entry of the file \<^verbatim>\<open>A\<close>, the end mark, and three bytes of data.
\<close>

definition sample_image :: "byte list" where
  "sample_image = replicate 523 0 @ [88, 2, 1, 0, 0, 0, 2, 0, 0, 0, 0, 0, 0] @ replicate 38 0
     @ replicate 26 0
     @ [65, 32, 32, 32, 32, 32, 32, 32, 32, 32, 32, 0x20] @ replicate 14 0 @ [2, 0, 3, 0, 0, 0]
     @ replicate 32 0 @ [7, 8, 9]"

lemma sample_dir:
  "dir_at sample_image (decode_bpb (bytes_at 523 51 sample_image)) 600 1 [FILE_NODE ''A'' [7, 8, 9]]"
proof -
  define bpb where "bpb = decode_bpb (bytes_at 523 51 sample_image)"
  have l: "length sample_image = 667" by (simp add: sample_image_def)
  have e: "get_file_name (entry_at sample_image 600) = ''A''"
    "\<not> is_hidden (entry_at sample_image 600)" "\<not> is_directory (entry_at sample_image 600)"
    "unat (first_cluster (entry_at sample_image 600)) = 2" "unat (file_size (entry_at sample_image 600)) = 3"
    "get_file_name (entry_at sample_image 632) = []"
    by code_simp+
  have c: "cluster_position bpb (entry_at sample_image 600) = 664" unfolding bpb_def by code_simp
  have b: "bytes_at 664 3 sample_image = [7, 8, 9]" by code_simp
  have "dir_at sample_image bpb 632 0 []" by (rule dir_end) (simp_all add: l e sizeof_entry_def)
  then have "dir_at sample_image bpb 600 (Suc 0) (FILE_NODE (get_file_name (entry_at sample_image 600)) [7, 8, 9] # [])"
    by (intro dir_file) (simp_all add: l e c b sizeof_entry_def)
  then show ?thesis by (simp add: e bpb_def)
qed

theorem recovery_correct_witness:
  "recover_main 5 (\<lambda>_. Some sample_image) Map.empty [''recover'', ''disk'']
     = Inr \<lparr>exit_status = 0, printed = ''ROOT'' @ [CHR 0x0A] @ ''    A'' @ [CHR 0x0A], complaint = [],
            files = tree_map [] (DIRECTORY_NODE ''ROOT'' [FILE_NODE ''A'' [7, 8, 9]])\<rparr>"
proof -
  have l: "length sample_image = 667" by (simp add: sample_image_def)
  have r: "unat (get_root_directory_location (decode_bpb (bytes_at 523 51 sample_image))) = 600" by code_simp
  have i: "insert_children [] [FILE_NODE ''A'' [7, 8, 9]] = [FILE_NODE ''A'' [7, 8, 9]]"
    by (simp add: insert_children_def insert_child_def sorted_dir_def sort_loop.simps min_loop.simps swap_def)
  have p: "print_directory_tree (DIRECTORY_NODE ''ROOT'' [FILE_NODE ''A'' [7, 8, 9]])
      = ''ROOT'' @ [CHR 0x0A] @ ''    A'' @ [CHR 0x0A]" by code_simp
  have "recover_main 5 (\<lambda>_. Some sample_image) Map.empty [''recover'', ''disk''] =
      Inr \<lparr>exit_status = 0,
           printed = print_directory_tree (DIRECTORY_NODE ''ROOT'' (insert_children [] [FILE_NODE ''A'' [7, 8, 9]])),
           complaint = [],
           files = Map.empty ++ tree_map [] (DIRECTORY_NODE ''ROOT'' (insert_children [] [FILE_NODE ''A'' [7, 8, 9]]))\<rparr>"
    by (rule conjunct1 [OF recovery_correct [OF refl _ refl _ refl, where n = 1]])
      (simp_all add: l r i MASTER_BOOT_RECORD_SIZE_def sizeof_bpb_def slash_def sample_dir [simplified])
  then show ?thesis by (simp only: i p empty_map_add)
qed

text \<open>
  C28: whatever the image, a run of \<^verbatim>\<open>follow\<close> that returns leaves the image alone, keeps the name
  of the directory and leaves a tree in which the children of every directory are ordered
  by name, as \<^verbatim>\<open>directory_tree.h\<close> demands.
\<close>

theorem follow_keeps_order:
  assumes "follow f d node bpb = Inr (d', node')" and "ordered_tree node"
  shows "ordered_tree node' \<and> node_name node' = node_name node \<and> image d' = image d"
  using run_keepsD [OF follow_keeps(1) assms(1)] assms(2) by simp

theorem follow_keeps_order_witness:
  "ordered_tree (snd (projr (follow 5 \<lparr>image = sample_image, dpos = 600\<rparr> (DIRECTORY_NODE ''ROOT'' [])
     (decode_bpb (bytes_at 523 51 sample_image)))))"
proof -
  obtain q where "follow 5 \<lparr>image = sample_image, dpos = 600\<rparr> (DIRECTORY_NODE ''ROOT'' [])
      (decode_bpb (bytes_at 523 51 sample_image))
    = Inr (\<lparr>image = sample_image, dpos = q\<rparr>, DIRECTORY_NODE ''ROOT'' (insert_children [] [FILE_NODE ''A'' [7, 8, 9]]))"
    using follow_correct [OF sample_dir, of 5 "\<lparr>image = sample_image, dpos = 600\<rparr>" "''ROOT''"] by auto
  from follow_keeps_order [OF this] this show ?thesis by simp
qed

text \<open>
  An empty file stops the recovery. For an entry whose size is 0, \<^verbatim>\<open>fread\<close> of one item of
  0 bytes returns 0, and the assertion in \<^verbatim>\<open>follow_file\<close> that it returned 1 fails.
\<close>

theorem empty_file_aborts:
  assumes "file_size entry = 0"
  shows "follow_file d node bpb entry = Inl AssertFailed"
  using assms by (simp add: follow_file_def fread_def Let_def)

theorem empty_file_aborts_witness:
  "follow_file \<lparr>image = sample_image, dpos = 632\<rparr> (DIRECTORY_NODE ''ROOT'' []) sample_bpb
     (entry_at sample_image 632) = Inl AssertFailed"
proof -
  have "file_size (entry_at sample_image 632) = 0" by code_simp
  then show ?thesis by (rule empty_file_aborts)
qed

end
