(* ===== verification/Work_Queue.thy ===== *)
theory Work_Queue
  imports Prelude
begin

text \<open>
  The FIFO queue of \<^verbatim>\<open>src/threadpool/src/queue.c\<close>: a doubly linked list between two sentinel
  nodes in an explicit store of nodes, with every pointer assignment of the source in its
  order. Following an absent node or an uninitialised pointer is \<^const>\<open>None\<close>. Addresses that
  \<^verbatim>\<open>malloc\<close> returns are arguments. The locale \<open>fifo\<close> is what the clients of the queue rely on;
  the linked list is an interpretation of it.
\<close>

section \<open>The interface\<close>

text \<open>
  \<open>rep q xs\<close>: the queue \<open>q\<close> holds \<open>xs\<close>, oldest first. \<open>fresh a q\<close>: the address \<open>a\<close> may be
  used for a new node. \<open>ready\<close> is the test under which a dequeue does not wait.
\<close>

locale fifo =
  fixes rep :: "'q \<Rightarrow> 'v list \<Rightarrow> bool"
    and fresh :: "'a \<Rightarrow> 'q \<Rightarrow> bool"
    and enq :: "'a \<Rightarrow> 'v \<Rightarrow> 'q \<Rightarrow> 'q option"
    and ready :: "'q \<Rightarrow> bool"
    and deq :: "'q \<Rightarrow> ('v \<times> 'q) option"
  assumes rep_unique: "rep q xs \<Longrightarrow> rep q ys \<Longrightarrow> xs = ys"
    and enq_rep: "rep q xs \<Longrightarrow> fresh a q \<Longrightarrow> \<exists>q'. enq a v q = Some q' \<and> rep q' (xs @ [v])"
    and ready_iff: "rep q xs \<Longrightarrow> ready q \<longleftrightarrow> xs \<noteq> []"
    and deq_rep: "rep q (x # xs) \<Longrightarrow> \<exists>q'. deq q = Some (x, q') \<and> rep q' xs"
begin

lemma enqE:
  assumes "rep q xs" and "fresh a q" and "enq a v q = Some q'"
  shows "rep q' (xs @ [v])"
  using enq_rep [OF assms(1,2), of v] assms(3) by auto

lemma deqE:
  assumes "rep q xs" and "ready q" and "deq q = Some (x, q')"
  shows "\<exists>ys. xs = x # ys \<and> rep q' ys"
  using assms ready_iff [OF assms(1)] deq_rep [of q "hd xs" "tl xs"] by (cases xs) auto

text \<open>A sequence of operations: enqueue a list of values, then dequeue as many.\<close>

fun enqs :: "('a \<times> 'v) list \<Rightarrow> 'q \<Rightarrow> 'q option" where
  "enqs [] q = Some q"
| "enqs ((a, v) # avs) q = (case enq a v q of None \<Rightarrow> None | Some q' \<Rightarrow> enqs avs q')"

fun deqs :: "nat \<Rightarrow> 'q \<Rightarrow> ('v list \<times> 'q) option" where
  "deqs 0 q = Some ([], q)"
| "deqs (Suc n) q = (case deq q of None \<Rightarrow> None
     | Some (x, q') \<Rightarrow> (case deqs n q' of None \<Rightarrow> None | Some (xs, q'') \<Rightarrow> Some (x # xs, q'')))"

fun all_fresh :: "('a \<times> 'v) list \<Rightarrow> 'q \<Rightarrow> bool" where
  "all_fresh [] q = True"
| "all_fresh ((a, v) # avs) q = (fresh a q \<and> (\<forall>q'. enq a v q = Some q' \<longrightarrow> all_fresh avs q'))"

lemma enqs_rep:
  "rep q xs \<Longrightarrow> all_fresh avs q \<Longrightarrow> \<exists>q'. enqs avs q = Some q' \<and> rep q' (xs @ map snd avs)"
proof (induction avs arbitrary: q xs)
  case (Cons av avs)
  obtain a v where av: "av = (a, v)" by (cases av)
  with Cons.prems obtain q' where q': "enq a v q = Some q'" "rep q' (xs @ [v])"
    using enq_rep [of q xs a v] by auto
  with Cons.prems av Cons.IH [OF q'(2)] show ?case by auto
qed simp

lemma deqs_rep:
  "rep q (xs @ ys) \<Longrightarrow> \<exists>q'. deqs (length xs) q = Some (xs, q') \<and> rep q' ys"
proof (induction xs arbitrary: q)
  case (Cons x xs)
  then obtain q' where "deq q = Some (x, q')" "rep q' (xs @ ys)" using deq_rep by fastforce
  with Cons.IH show ?case by fastforce
qed simp

lemma fifo_order:
  assumes "rep q []" and "all_fresh avs q"
  shows "\<exists>q1 q2. enqs avs q = Some q1 \<and> deqs (length avs) q1 = Some (map snd avs, q2) \<and> rep q2 []"
  using enqs_rep [OF assms] deqs_rep [of _ "map snd avs" "[]"] by fastforce

end

section \<open>The linked list\<close>

text \<open>A node; \<^const>\<open>None\<close> in a field is memory that was never written.\<close>

record 'v qnode =
  qvalue :: "'v option"
  nnext :: "nat option"
  nprev :: "nat option"

record 'v queue =
  qhead :: nat
  qtail :: nat
  qsize :: nat
  nodes :: "nat \<rightharpoonup> 'v qnode"

type_synonym 'v store = "nat \<rightharpoonup> 'v qnode"

definition set_next :: "nat \<Rightarrow> nat option \<Rightarrow> 'v store \<Rightarrow> 'v store option" where
  "set_next a p h = map_option (\<lambda>n. h(a \<mapsto> n\<lparr>nnext := p\<rparr>)) (h a)"

definition set_prev :: "nat \<Rightarrow> nat option \<Rightarrow> 'v store \<Rightarrow> 'v store option" where
  "set_prev a p h = map_option (\<lambda>n. h(a \<mapsto> n\<lparr>nprev := p\<rparr>)) (h a)"

definition get_next :: "nat \<Rightarrow> 'v store \<Rightarrow> nat option" where
  "get_next a h = do { n \<leftarrow> h a; nnext n }"

definition get_prev :: "nat \<Rightarrow> 'v store \<Rightarrow> nat option" where
  "get_prev a h = do { n \<leftarrow> h a; nprev n }"

definition get_value :: "nat \<Rightarrow> 'v store \<Rightarrow> 'v option" where
  "get_value a h = do { n \<leftarrow> h a; qvalue n }"

text \<open>The two sentinels at the addresses \<open>hd\<close> and \<open>tl\<close>.\<close>

definition queue_init :: "nat \<Rightarrow> nat \<Rightarrow> 'v queue" where
  "queue_init h t =
     \<lparr>qhead = h, qtail = t, qsize = 0,
      nodes = [h \<mapsto> \<lparr>qvalue = None, nnext = Some t, nprev = None\<rparr>,
               t \<mapsto> \<lparr>qvalue = None, nnext = None, nprev = Some h\<rparr>]\<rparr>"

text \<open>The critical section of \<^verbatim>\<open>queue_enqueue\<close>, with the new node at address \<open>new_node\<close>.\<close>

definition queue_enqueue :: "nat \<Rightarrow> 'v \<Rightarrow> 'v queue \<Rightarrow> 'v queue option" where
  "queue_enqueue new_node value q = do {
     let h0 = (nodes q)(new_node \<mapsto> \<lparr>qvalue = Some value, nnext = None, nprev = None\<rparr>);
     last \<leftarrow> get_prev (qtail q) h0;
     h1 \<leftarrow> set_next last (Some new_node) h0;
     h2 \<leftarrow> set_prev (qtail q) (Some new_node) h1;
     h3 \<leftarrow> set_prev new_node (get_prev (qtail q) h2) h2;
     h4 \<leftarrow> set_next new_node (Some (qtail q)) h3;
     Some (q\<lparr>qsize := qsize q + 1, nodes := h4\<rparr>)
   }"

text \<open>The condition under which the loop of \<^verbatim>\<open>queue_dequeue\<close> ends, and what follows it.\<close>

definition queue_ready :: "'v queue \<Rightarrow> bool" where
  "queue_ready q \<longleftrightarrow> qsize q \<noteq> 0"

definition queue_dequeue :: "'v queue \<Rightarrow> ('v \<times> 'v queue) option" where
  "queue_dequeue q = do {
     node_to_dequeue \<leftarrow> get_next (qhead q) (nodes q);
     value \<leftarrow> get_value node_to_dequeue (nodes q);
     after \<leftarrow> get_next node_to_dequeue (nodes q);
     h1 \<leftarrow> set_prev after (Some (qhead q)) (nodes q);
     first \<leftarrow> get_next (qhead q) h1;
     h2 \<leftarrow> set_next (qhead q) (get_next first h1) h1;
     Some (value, q\<lparr>qsize := qsize q - 1, nodes := h2(node_to_dequeue := None)\<rparr>)
   }"

text \<open>\<^verbatim>\<open>queue_free\<close> releases the two sentinels.\<close>

definition queue_free :: "'v queue \<Rightarrow> 'v store" where
  "queue_free q = (nodes q)(qhead q := None, qtail q := None)"

section \<open>The list a queue represents\<close>

text \<open>
  \<open>chain h a as b\<close>: following the next pointers from \<open>a\<close> passes the nodes \<open>as\<close> and arrives
  at \<open>b\<close>.
\<close>

fun chain :: "'v store \<Rightarrow> nat \<Rightarrow> nat list \<Rightarrow> nat \<Rightarrow> bool" where
  "chain h a [] b \<longleftrightarrow> get_next a h = Some b"
| "chain h a (c # cs) b \<longleftrightarrow> get_next a h = Some c \<and> chain h c cs b"

definition queue_at :: "'v queue \<Rightarrow> nat list \<Rightarrow> 'v list \<Rightarrow> bool" where
  "queue_at q as xs \<longleftrightarrow>
     distinct (qhead q # qtail q # as)
     \<and> dom (nodes q) = insert (qhead q) (insert (qtail q) (set as))
     \<and> chain (nodes q) (qhead q) as (qtail q)
     \<and> get_prev (qtail q) (nodes q) = Some (last (qhead q # as))
     \<and> map (\<lambda>a. get_value a (nodes q)) as = map Some xs
     \<and> qsize q = length xs"

definition queue_rep :: "'v queue \<Rightarrow> 'v list \<Rightarrow> bool" where
  "queue_rep q xs \<longleftrightarrow> (\<exists>as. queue_at q as xs)"

definition queue_fresh :: "nat \<Rightarrow> 'v queue \<Rightarrow> bool" where
  "queue_fresh a q \<longleftrightarrow> nodes q a = None"


lemma get_next_simps [simp]:
  "get_next a (h(b \<mapsto> n)) = (if a = b then nnext n else get_next a h)"
  "get_prev a (h(b \<mapsto> n)) = (if a = b then nprev n else get_prev a h)"
  "get_value a (h(b \<mapsto> n)) = (if a = b then qvalue n else get_value a h)"
  "a \<noteq> b \<Longrightarrow> get_next a (h(b := None)) = get_next a h"
  "a \<noteq> b \<Longrightarrow> get_prev a (h(b := None)) = get_prev a h"
  "a \<noteq> b \<Longrightarrow> get_value a (h(b := None)) = get_value a h"
  by (simp_all add: get_next_def get_prev_def get_value_def)

lemma chain_cong:
  assumes "\<And>c. c \<in> set (a # as) \<Longrightarrow> get_next c h' = get_next c h"
  shows "chain h' a as b = chain h a as b"
  using assms by (induction as arbitrary: a) auto

lemma chain_snoc:
  "chain h a (as @ [c]) b \<longleftrightarrow> chain h a as c \<and> get_next c h = Some b"
  by (induction as arbitrary: a) auto

lemma chain_unique:
  assumes "chain h a as t" and "chain h a bs t" and "t \<notin> set as" and "t \<notin> set bs"
  shows "as = bs"
  using assms
proof (induction as arbitrary: a bs)
  case Nil
  then show ?case by (cases bs) auto
next
  case (Cons c cs)
  then show ?case by (cases bs) auto
qed

text \<open>Redirecting the last pointer of a chain.\<close>

lemma chain_redirect:
  assumes "chain h a as b" and "distinct (a # as)"
    and "get_next (last (a # as)) h' = Some c"
    and "\<And>d. d \<in> set (a # as) \<Longrightarrow> d \<noteq> last (a # as) \<Longrightarrow> get_next d h' = get_next d h"
  shows "chain h' a as c"
  using assms
proof (induction as arbitrary: a)
  case (Cons d ds)
  have "last (d # ds) \<in> set (d # ds)" by (rule last_in_set) simp
  then have "a \<noteq> last (d # ds)" using Cons.prems(2) by auto
  then have "get_next a h' = Some d" using Cons.prems(1,4) by auto
  moreover have "chain h' d ds c" using Cons.IH [of d] Cons.prems by (simp split: if_splits)
  ultimately show ?case by simp
qed simp

lemma queue_at_unique: "queue_at q as xs \<Longrightarrow> queue_at q bs ys \<Longrightarrow> as = bs \<and> xs = ys"
proof -
  assume 1: "queue_at q as xs" and 2: "queue_at q bs ys"
  then have eq: "as = bs"
    using chain_unique [of "nodes q" "qhead q" as "qtail q" bs] by (simp add: queue_at_def)
  moreover have "map Some xs = map Some ys" using 1 2 eq by (metis queue_at_def)
  then have "xs = ys" by (metis inj_Some list.inj_map injD)
  ultimately show ?thesis by simp
qed

lemma queue_init_at: "h \<noteq> t \<Longrightarrow> queue_at (queue_init h t) [] []"
  by (auto simp: queue_at_def queue_init_def get_next_def get_prev_def)

text \<open>
  The effect of an enqueue: the chain is extended. The previous pointer of the new node ends up
  pointing at the node itself, which no operation of the queue reads.
\<close>

lemma queue_enqueue_at:
  assumes q: "queue_at q as xs" and new: "queue_fresh a q"
  shows "\<exists>q'. queue_enqueue a v q = Some q' \<and> queue_at q' (as @ [a]) (xs @ [v])
           \<and> get_prev a (nodes q') = Some a \<and> qhead q' = qhead q \<and> qtail q' = qtail q"
proof -
  let ?l = "last (qhead q # as)"
  have dist: "distinct (qhead q # qtail q # as)" and dm: "dom (nodes q) = insert (qhead q) (insert (qtail q) (set as))"
    and ch: "chain (nodes q) (qhead q) as (qtail q)"
    and pv: "get_prev (qtail q) (nodes q) = Some ?l"
    and vals: "map (\<lambda>a. get_value a (nodes q)) as = map Some xs" and sz: "qsize q = length xs"
    using q by (auto simp: queue_at_def)
  have "a \<notin> dom (nodes q)" using new by (simp add: queue_fresh_def domIff)
  then have a: "a \<noteq> qhead q" "a \<noteq> qtail q" "a \<notin> set as" unfolding dm by auto
  have l: "?l \<in> set (qhead q # as)" by (rule last_in_set) simp
  then have lt: "?l \<noteq> qtail q" "?l \<noteq> a" using dist a by auto
  from l have "?l \<in> dom (nodes q)" "qtail q \<in> dom (nodes q)" unfolding dm by auto
  then obtain nl nt where nl: "nodes q ?l = Some nl" and nt: "nodes q (qtail q) = Some nt" by blast
  define h4 where "h4 = (nodes q)(a \<mapsto> \<lparr>qvalue = Some v, nnext = Some (qtail q), nprev = Some a\<rparr>,
     ?l \<mapsto> nl\<lparr>nnext := Some a\<rparr>, qtail q \<mapsto> nt\<lparr>nprev := Some a\<rparr>)"
  have eq: "queue_enqueue a v q = Some (q\<lparr>qsize := qsize q + 1, nodes := h4\<rparr>)"
    using pv nl nt lt a
    by (auto simp: queue_enqueue_def Let_def set_next_def set_prev_def h4_def fun_upd_twist)
  have nx: "get_next d h4 = get_next d (nodes q)" if "d \<noteq> a" "d \<noteq> ?l" for d
    using that nt by (auto simp: h4_def get_next_def)
  have vl: "get_value d h4 = get_value d (nodes q)" if "d \<noteq> a" for d
    using that nt nl by (auto simp: h4_def get_value_def)
  have "chain h4 (qhead q) as a"
    by (rule chain_redirect [OF ch]) (use dist lt a nx in \<open>auto simp: h4_def split: if_splits\<close>)
  moreover have "get_next a h4 = Some (qtail q)" using a lt by (auto simp: h4_def)
  ultimately have "chain h4 (qhead q) (as @ [a]) (qtail q)" by (simp add: chain_snoc)
  moreover have "dom h4 = insert (qhead q) (insert (qtail q) (set (as @ [a])))"
    using dm l by (auto simp: h4_def)
  moreover have "get_prev (qtail q) h4 = Some a" by (simp add: h4_def)
  moreover have "get_prev a h4 = Some a" using a lt by (auto simp: h4_def)
  moreover have "map (\<lambda>a. get_value a h4) (as @ [a]) = map Some (xs @ [v])"
  proof -
    have "map (\<lambda>a. get_value a h4) as = map (\<lambda>a. get_value a (nodes q)) as"
      by (rule map_cong [OF refl]) (metis vl a(3))
    moreover have "get_value a h4 = Some v" using a lt by (auto simp: h4_def)
    ultimately show ?thesis using vals by simp
  qed
  ultimately show ?thesis using eq dist a sz by (simp add: queue_at_def)
qed


lemma queue_dequeue_at:
  assumes q: "queue_at q (a # as) (x # xs)"
  shows "\<exists>q'. queue_dequeue q = Some (x, q') \<and> queue_at q' as xs
           \<and> nodes q' a = None \<and> qhead q' = qhead q \<and> qtail q' = qtail q"
proof -
  let ?h = "qhead q" and ?t = "qtail q"
  define c where "c = (case as of [] \<Rightarrow> ?t | b # _ \<Rightarrow> b)"
  have dist: "distinct (?h # ?t # a # as)" and dm: "dom (nodes q) = insert ?h (insert ?t (set (a # as)))"
    and ch: "get_next ?h (nodes q) = Some a" "chain (nodes q) a as ?t"
    and pv: "get_prev ?t (nodes q) = Some (last (a # as))"
    and vals: "get_value a (nodes q) = Some x" "map (\<lambda>a. get_value a (nodes q)) as = map Some xs"
    and sz: "qsize q = Suc (length xs)"
    using q by (auto simp: queue_at_def)
  have ac: "get_next a (nodes q) = Some c" using ch(2) by (cases as) (auto simp: c_def)
  have cs: "c \<noteq> ?h" "c \<noteq> a" "c \<in> insert ?t (set as)" using dist by (cases as; auto simp: c_def)+
  from cs(3) have "c \<in> dom (nodes q)" "?h \<in> dom (nodes q)" unfolding dm by auto
  then obtain nc nh where nc: "nodes q c = Some nc" and nh: "nodes q ?h = Some nh" by blast
  define h2 where "h2 = (nodes q)(c \<mapsto> nc\<lparr>nprev := Some ?h\<rparr>, ?h \<mapsto> nh\<lparr>nnext := Some c\<rparr>)"
  have eq: "queue_dequeue q = Some (x, q\<lparr>qsize := length xs, nodes := h2(a := None)\<rparr>)"
    using ch(1) vals(1) ac cs nc nh dist sz
    by (simp add: queue_dequeue_def set_prev_def set_next_def h2_def)
  have nx: "get_next d (h2(a := None)) = get_next d (nodes q)" if "d \<noteq> a" "d \<noteq> ?h" for d
    using that nc by (auto simp: h2_def get_next_def)
  have vl: "get_value d (h2(a := None)) = get_value d (nodes q)" if "d \<noteq> a" for d
    using that nc nh by (auto simp: h2_def get_value_def)
  have pr: "get_prev d (h2(a := None)) = get_prev d (nodes q)" if "d \<noteq> a" "d \<noteq> c" for d
    using that nh by (auto simp: h2_def get_prev_def)
  have hc: "get_next ?h (h2(a := None)) = Some c" using dist by (auto simp: h2_def)
  have "chain (h2(a := None)) ?h as ?t"
  proof (cases as)
    case (Cons b bs)
    have "chain (h2(a := None)) b bs ?t = chain (nodes q) b bs ?t"
      by (rule chain_cong, rule nx) (use dist Cons in auto)
    then show ?thesis using hc ch(2) Cons by (simp add: c_def)
  qed (use hc in \<open>simp add: c_def\<close>)
  moreover have "get_prev ?t (h2(a := None)) = Some (last (?h # as))"
  proof (cases as)
    case Nil
    then show ?thesis using dist by (auto simp: h2_def c_def)
  next
    case (Cons b bs)
    then have "?t \<noteq> c" using dist by (auto simp: c_def)
    then show ?thesis using pr [of ?t] pv dist Cons by simp
  qed
  moreover have "dom (h2(a := None)) = insert ?h (insert ?t (set as))"
    using dm dist cs by (auto simp: h2_def)
  moreover have "map (\<lambda>d. get_value d (h2(a := None))) as = map (\<lambda>d. get_value d (nodes q)) as"
    by (rule map_cong [OF refl], rule vl) (use dist in auto)
  ultimately show ?thesis using eq dist vals(2) by (simp add: queue_at_def)
qed

lemma queue_enqueue_rep:
  assumes "queue_rep q xs" and "queue_fresh a q"
  shows "\<exists>q'. queue_enqueue a v q = Some q' \<and> queue_rep q' (xs @ [v])"
proof -
  obtain as where "queue_at q as xs" using assms(1) by (auto simp: queue_rep_def)
  from queue_enqueue_at [OF this assms(2), of v] show ?thesis unfolding queue_rep_def by blast
qed

lemma queue_dequeue_rep:
  assumes "queue_rep q (x # xs)"
  shows "\<exists>q'. queue_dequeue q = Some (x, q') \<and> queue_rep q' xs"
proof -
  obtain as where as: "queue_at q as (x # xs)" using assms by (auto simp: queue_rep_def)
  then obtain b bs where "as = b # bs" by (cases as) (auto simp: queue_at_def)
  with as queue_dequeue_at [of q b bs x xs] show ?thesis unfolding queue_rep_def by blast
qed

lemma queue_rep_unique: "queue_rep q xs \<Longrightarrow> queue_rep q ys \<Longrightarrow> xs = ys"
  unfolding queue_rep_def using queue_at_unique by blast

lemma queue_ready_iff: "queue_rep q xs \<Longrightarrow> queue_ready q \<longleftrightarrow> xs \<noteq> []"
  by (auto simp: queue_rep_def queue_at_def queue_ready_def)

interpretation work: fifo queue_rep queue_fresh queue_enqueue queue_ready queue_dequeue
  by unfold_locales (fact queue_rep_unique queue_enqueue_rep queue_ready_iff queue_dequeue_rep)+

lemma queue_init_rep: "h \<noteq> t \<Longrightarrow> queue_rep (queue_init h t) []"
  unfolding queue_rep_def using queue_init_at by blast

lemma queue_init_fresh: "a \<noteq> h \<Longrightarrow> a \<noteq> t \<Longrightarrow> queue_fresh a (queue_init h t)"
  by (simp add: queue_fresh_def queue_init_def)

text \<open>A queue always has room for a new node: only finitely many addresses are in use.\<close>

lemma queue_fresh_exists: "queue_rep q xs \<Longrightarrow> \<exists>a. queue_fresh a q"
proof -
  assume "queue_rep q xs"
  then have "finite (dom (nodes q))" by (auto simp: queue_rep_def queue_at_def)
  then have "dom (nodes q) \<noteq> UNIV" by auto
  then show ?thesis unfolding queue_fresh_def by auto
qed

text \<open>Nothing is left behind when an empty queue is released.\<close>

lemma queue_free_empty: "queue_rep q [] \<Longrightarrow> queue_free q = Map.empty"
proof -
  assume "queue_rep q []"
  then have "dom (nodes q) = {qhead q, qtail q}" by (auto simp: queue_rep_def queue_at_def)
  then have "dom (queue_free q) = {}" by (auto simp: queue_free_def)
  then show ?thesis by simp
qed

lemma queue_free_leaks: "queue_at q as xs \<Longrightarrow> dom (queue_free q) = set as"
  by (auto simp: queue_free_def queue_at_def)

section \<open>Properties\<close>

text \<open>
  C23: the linked queue of the thread pool implements a first-in first-out list: starting from
  the two sentinels that \<^const>\<open>queue_init\<close> allocates, an enqueue with a fresh node
  succeeds and appends, a dequeue runs exactly when the list is not empty, returns the oldest
  value and leaves the others in order, no pointer that is followed is dangling or
  uninitialised, and the node that is freed is no longer part of the list.
\<close>

theorem queue_refines_list:
  assumes "h \<noteq> t" and "queue_rep q xs" and "queue_fresh a q"
  shows "queue_rep (queue_init h t :: 'v queue) ([] :: 'v list)
    \<and> (\<exists>q'. queue_enqueue a (v :: 'v) q = Some q' \<and> queue_rep q' (xs @ [v]))
    \<and> (queue_ready q \<longleftrightarrow> xs \<noteq> [])
    \<and> (queue_ready q \<longrightarrow> (\<exists>q'. queue_dequeue q = Some (hd xs, q') \<and> queue_rep q' (tl xs)))"
  using queue_init_rep [OF assms(1)] work.enq_rep [OF assms(2,3), of v] work.ready_iff [OF assms(2)]
    work.deq_rep [of q "hd xs" "tl xs"] assms(2)
  by (cases xs) simp_all

theorem queue_refines_list_witness:
  "\<exists>q'. queue_enqueue 2 (7 :: nat) (queue_init 0 1) = Some q' \<and> queue_rep q' [7]"
  using queue_refines_list [of 0 1, OF _ queue_init_rep queue_init_fresh, of 0 1 2 "7 :: nat"] by force

text \<open>
  The assignment \<^verbatim>\<open>new_node->prev = queue->tail->prev\<close> of an enqueue comes after the tail was
  redirected, so the previous pointer of every enqueued node is the node itself and not its
  predecessor; a queue that is released before it is empty leaks exactly the nodes of its values.
\<close>

theorem enqueue_links_node_to_itself:
  assumes "queue_at q as xs" and "queue_fresh a q"
  shows "\<exists>q'. queue_enqueue a v q = Some q' \<and> get_prev a (nodes q') = Some a
           \<and> dom (queue_free q') = insert a (set as)"
  using queue_enqueue_at [OF assms, of v] queue_free_leaks by fastforce

theorem enqueue_links_node_to_itself_witness:
  "\<exists>q'. queue_enqueue 2 (7 :: nat) (queue_init 0 1) = Some q' \<and> get_prev 2 (nodes q') = Some 2
     \<and> dom (queue_free q') = {2}"
  using enqueue_links_node_to_itself [OF queue_init_at queue_init_fresh, of 0 1 2 "7 :: nat"] by simp

end
