(* ===== verification/Thread_Pool.thy ===== *)
theory Thread_Pool
  imports Work_Queue "HOL-Library.Multiset"
begin

text \<open>
  The thread pool of \<^verbatim>\<open>src/threadpool/src/thread_pool.c\<close> as a step relation. The state holds
  the linked work queue of \<^verbatim>\<open>Work_Queue\<close>, the control state of every worker thread and of the
  thread that owns the pool. A critical section of the queue (between the lock and the unlock, or
  the wait on the condition variable) is one step; the steps of different threads interleave
  freely. Condition variables are modelled with their sleeping threads, so that a lost wakeup
  would show.
\<close>

section \<open>States\<close>

text \<open>
  A worker inside \<^verbatim>\<open>thread_execute\<close>: about to test the size of the queue, asleep on the
  condition variable, running the function of a work item, or returned.
\<close>

datatype 'j worker = Awake | Waiting | Running 'j | Exited

text \<open>
  The owner: work items it still adds, null pointers it still enqueues in
  \<^verbatim>\<open>thread_pool_finish\<close>, the next thread it joins, and after \<^verbatim>\<open>thread_pool_free\<close>.
\<close>

datatype 'j owner = Adding "'j list" | Finishing nat | Joining nat | Freed

text \<open>
  \<open>work\<close> and \<open>workers\<close> are the fields of the source's structure (the list's length is
  \<^verbatim>\<open>num_workers\<close>); a null work item is \<^const>\<open>None\<close>. \<open>started\<close> and \<open>executed\<close> record which items
  were dequeued and which have returned, \<open>leaked\<close> the nodes left when the queue is released.
\<close>

record 'j pool =
  work :: "'j option queue"
  workers :: "'j worker list"
  owner :: "'j owner"
  started :: "'j list"
  executed :: "'j list"
  leaked :: "'j option store"

definition thread_pool_init :: "nat \<Rightarrow> nat \<Rightarrow> nat \<Rightarrow> 'j list \<Rightarrow> 'j pool" where
  "thread_pool_init h t num_worker_threads jobs =
     \<lparr>work = queue_init h t, workers = replicate num_worker_threads Awake, owner = Adding jobs,
      started = [], executed = [], leaked = Map.empty\<rparr>"

section \<open>Steps\<close>

text \<open>\<^verbatim>\<open>pthread_cond_signal\<close>: some sleeping thread wakes, and nothing happens when there is none.\<close>

definition signals :: "'j worker list \<Rightarrow> 'j worker list \<Rightarrow> bool" where
  "signals ws ws' \<longleftrightarrow>
     (if Waiting \<in> set ws then \<exists>i<length ws. ws ! i = Waiting \<and> ws' = ws[i := Awake] else ws' = ws)"

text \<open>An enqueue by the owner with the signal at its end.\<close>

definition owner_enqueues :: "'j option \<Rightarrow> 'j pool \<Rightarrow> 'j pool \<Rightarrow> bool" where
  "owner_enqueues item s s' \<longleftrightarrow>
     (\<exists>a q ws. queue_fresh a (work s) \<and> queue_enqueue a item (work s) = Some q
        \<and> signals (workers s) ws \<and> s' = s\<lparr>work := q, workers := ws\<rparr>)"

text \<open>The loop of \<^verbatim>\<open>thread_execute\<close>, for a worker \<open>i\<close>.\<close>

inductive thread_execute :: "nat \<Rightarrow> 'j pool \<Rightarrow> 'j pool \<Rightarrow> bool" for i where
  sleep: "\<lbrakk>i < length (workers s); workers s ! i = Awake; \<not> queue_ready (work s)\<rbrakk>
    \<Longrightarrow> thread_execute i s (s\<lparr>workers := (workers s)[i := Waiting]\<rparr>)"
| take: "\<lbrakk>i < length (workers s); workers s ! i = Awake; queue_ready (work s);
     queue_dequeue (work s) = Some (Some j, q)\<rbrakk>
    \<Longrightarrow> thread_execute i s
          (s\<lparr>work := q, workers := (workers s)[i := Running j], started := started s @ [j]\<rparr>)"
| quit: "\<lbrakk>i < length (workers s); workers s ! i = Awake; queue_ready (work s);
     queue_dequeue (work s) = Some (None, q)\<rbrakk>
    \<Longrightarrow> thread_execute i s (s\<lparr>work := q, workers := (workers s)[i := Exited]\<rparr>)"
| run: "\<lbrakk>i < length (workers s); workers s ! i = Running j\<rbrakk>
    \<Longrightarrow> thread_execute i s
          (s\<lparr>workers := (workers s)[i := Awake], executed := executed s @ [j]\<rparr>)"

text \<open>The calls of \<^verbatim>\<open>thread_pool_add_work\<close>, and then \<^verbatim>\<open>thread_pool_finish\<close>.\<close>

inductive thread_pool_add_work :: "'j pool \<Rightarrow> 'j pool \<Rightarrow> bool" where
  add: "\<lbrakk>owner s = Adding (j # js); owner_enqueues (Some j) s s'\<rbrakk>
    \<Longrightarrow> thread_pool_add_work s (s'\<lparr>owner := Adding js\<rparr>)"

inductive thread_pool_finish :: "'j pool \<Rightarrow> 'j pool \<Rightarrow> bool" where
  call: "owner s = Adding [] \<Longrightarrow> thread_pool_finish s (s\<lparr>owner := Finishing (length (workers s))\<rparr>)"
| stop: "\<lbrakk>owner s = Finishing (Suc k); owner_enqueues None s s'\<rbrakk>
    \<Longrightarrow> thread_pool_finish s (s'\<lparr>owner := Finishing k\<rparr>)"
| stopped: "owner s = Finishing 0 \<Longrightarrow> thread_pool_finish s (s\<lparr>owner := Joining 0\<rparr>)"
| join: "\<lbrakk>owner s = Joining i; i < length (workers s); workers s ! i = Exited\<rbrakk>
    \<Longrightarrow> thread_pool_finish s (s\<lparr>owner := Joining (Suc i)\<rparr>)"
| free: "\<lbrakk>owner s = Joining i; i = length (workers s)\<rbrakk>
    \<Longrightarrow> thread_pool_finish s (s\<lparr>owner := Freed, leaked := queue_free (work s)\<rparr>)"

inductive_cases thread_executeE: "thread_execute i s t"
inductive_cases add_workE: "thread_pool_add_work s t"
inductive_cases finishE: "thread_pool_finish s t"

text \<open>
  A step of the program, and the wakeups without a signal that POSIX allows
  \<^verbatim>\<open>pthread_cond_wait\<close>.
\<close>

definition pool_step :: "'j pool \<Rightarrow> 'j pool \<Rightarrow> bool" where
  "pool_step s t \<longleftrightarrow> (\<exists>i. thread_execute i s t) \<or> thread_pool_add_work s t \<or> thread_pool_finish s t"

definition spurious_wakeup :: "'j pool \<Rightarrow> 'j pool \<Rightarrow> bool" where
  "spurious_wakeup s t \<longleftrightarrow>
     (\<exists>i<length (workers s). workers s ! i = Waiting \<and> t = s\<lparr>workers := (workers s)[i := Awake]\<rparr>)"

definition pool_reachable :: "'j pool \<Rightarrow> 'j pool \<Rightarrow> bool" where
  "pool_reachable = (\<lambda>s t. pool_step s t \<or> spurious_wakeup s t)\<^sup>*\<^sup>*"

section \<open>Counting over the workers\<close>

definition tally :: "('j worker \<Rightarrow> 'c) \<Rightarrow> 'j worker list \<Rightarrow> ('c :: comm_monoid_add)" where
  "tally f ws = sum_list (map f ws)"

lemma tally_update:
  "i < length ws \<Longrightarrow> tally f (ws[i := w]) + f (ws ! i) = tally f ws + f w"
proof (induction ws arbitrary: i)
  case (Cons x xs)
  then show ?case by (cases i) (auto simp: tally_def ac_simps)
qed (simp add: tally_def)

lemma tally_replicate_0: "f w = 0 \<Longrightarrow> tally f (replicate n w) = 0"
  by (induction n) (auto simp: tally_def)

lemma tally_all_0: "(\<And>w. w \<in> set ws \<Longrightarrow> f w = 0) \<Longrightarrow> tally f ws = 0"
  by (induction ws) (auto simp: tally_def)

fun awake :: "'j worker \<Rightarrow> nat" where
  "awake Awake = 1"
| "awake _ = 0"

fun exited :: "'j worker \<Rightarrow> nat" where
  "exited Exited = 1"
| "exited _ = 0"

fun running :: "'j worker \<Rightarrow> 'j multiset" where
  "running (Running j) = {#j#}"
| "running _ = {#}"

lemma tally_awake_pos: "0 < tally awake ws \<Longrightarrow> \<exists>i<length ws. ws ! i = Awake"
proof (rule ccontr)
  assume "0 < tally awake ws" and "\<not> (\<exists>i<length ws. ws ! i = Awake)"
  then have "\<And>w. w \<in> set ws \<Longrightarrow> awake w = 0" by (metis awake.simps(2-4) in_set_conv_nth worker.exhaust)
  with \<open>0 < tally awake ws\<close> show False by (metis tally_all_0 less_irrefl)
qed

lemma tally_exited_le: "tally exited ws \<le> length ws"
proof (induction ws)
  case (Cons w ws)
  then show ?case by (cases w) (auto simp: tally_def)
qed (simp add: tally_def)

lemma tally_exited_less: "w \<in> set ws \<Longrightarrow> w \<noteq> Exited \<Longrightarrow> tally exited ws < length ws"
proof (induction ws)
  case (Cons x xs)
  have "tally exited (x # xs) = exited x + tally exited xs" by (simp add: tally_def)
  moreover have "exited x \<le> 1" by (cases x) auto
  moreover have "exited w = 0" using Cons.prems(2) by (cases w) auto
  ultimately show ?case using Cons tally_exited_le [of xs] by auto
qed simp

lemma tally_exited_all: "set ws \<subseteq> {Exited} \<Longrightarrow> tally exited ws = length ws"
  by (induction ws) (auto simp: tally_def)

section \<open>The invariant\<close>

text \<open>What the owner has still to enqueue: work items, and null pointers out of \<open>n\<close>.\<close>

fun to_add :: "'j owner \<Rightarrow> 'j list" where
  "to_add (Adding js) = js"
| "to_add _ = []"

fun to_stop :: "nat \<Rightarrow> 'j owner \<Rightarrow> nat" where
  "to_stop n (Adding js) = n"
| "to_stop n (Finishing k) = k"
| "to_stop n _ = 0"

fun joined :: "'j worker list \<Rightarrow> 'j owner \<Rightarrow> bool" where
  "joined ws (Joining i) \<longleftrightarrow> i \<le> length ws \<and> set (take i ws) \<subseteq> {Exited}"
| "joined ws Freed \<longleftrightarrow> set ws \<subseteq> {Exited}"
| "joined ws _ \<longleftrightarrow> True"

text \<open>
  \<open>js\<close> are the work items and \<open>m\<close> the number of null pointers in the queue. The last clause of
  \<open>pool_at\<close> rules out lost wakeups: while some thread sleeps, every element of the queue has an
  awake thread that will take one.
\<close>

definition pool_at :: "'j list \<Rightarrow> nat \<Rightarrow> 'j list \<Rightarrow> nat \<Rightarrow> 'j pool \<Rightarrow> bool" where
  "pool_at jobs n js m s \<longleftrightarrow>
     queue_rep (work s) (map Some js @ replicate m None)
     \<and> length (workers s) = n
     \<and> jobs = started s @ js @ to_add (owner s)
     \<and> m + tally exited (workers s) + to_stop n (owner s) = n
     \<and> (0 < tally exited (workers s) \<longrightarrow> js = [])
     \<and> mset (started s) = mset (executed s) + tally running (workers s)
     \<and> joined (workers s) (owner s)
     \<and> (Waiting \<in> set (workers s) \<longrightarrow> length js + m \<le> tally awake (workers s))"

definition pool_inv :: "'j list \<Rightarrow> nat \<Rightarrow> 'j pool \<Rightarrow> bool" where
  "pool_inv jobs n s \<longleftrightarrow> (\<exists>js m. pool_at jobs n js m s)"

lemma pool_inv_init: "h \<noteq> t \<Longrightarrow> pool_inv jobs n (thread_pool_init h t n jobs)"
  unfolding pool_inv_def
  by (rule exI [of _ "[]"], rule exI [of _ 0])
    (auto simp: pool_at_def thread_pool_init_def queue_init_rep tally_replicate_0 split: if_splits)

text \<open>A signal only turns a sleeping thread into an awake one.\<close>

lemma signals_exist: "\<exists>ws'. signals ws ws'"
  by (auto simp: signals_def in_set_conv_nth)

lemma wake_tally:
  assumes "i < length ws" and "ws ! i = Waiting"
  shows "tally exited (ws[i := Awake]) = tally exited ws"
    and "tally running (ws[i := Awake]) = tally running ws"
    and "tally awake (ws[i := Awake]) = tally awake ws + 1"
  using tally_update [OF assms(1), of exited Awake] tally_update [OF assms(1), of running Awake]
    tally_update [OF assms(1), of awake Awake] assms(2)
  by simp_all

lemma signals_tally:
  assumes "signals ws ws'"
  shows "length ws' = length ws" and "tally exited ws' = tally exited ws"
    and "tally running ws' = tally running ws"
    and "Waiting \<in> set ws' \<Longrightarrow> Waiting \<in> set ws \<and> tally awake ws' = tally awake ws + 1"
  using assms wake_tally by (auto simp: signals_def split: if_splits dest: set_update_subset_insert [THEN subsetD])

lemma joined_not_done: "to_stop n m \<noteq> 0 \<Longrightarrow> joined ws m"
  by (cases m) auto

lemma joined_update:
  assumes "joined ws m" and "i < length ws" and "ws ! i \<noteq> Exited"
  shows "joined (ws[i := w]) m"
proof (cases m)
  case (Joining k)
  have "\<not> i < k" using assms Joining by (auto simp: set_conv_nth)
  then show ?thesis using assms Joining by (simp add: take_update_cancel)
qed (use assms in \<open>auto simp: set_conv_nth\<close>)

section \<open>Every step keeps the invariant\<close>

lemma pool_atD:
  assumes "pool_at jobs n js m s"
  shows "queue_rep (work s) (map Some js @ replicate m None)" and "length (workers s) = n"
    and "jobs = started s @ js @ to_add (owner s)"
    and "m + tally exited (workers s) + to_stop n (owner s) = n"
    and "0 < tally exited (workers s) \<Longrightarrow> js = []"
    and "mset (started s) = mset (executed s) + tally running (workers s)"
    and "joined (workers s) (owner s)"
    and "Waiting \<in> set (workers s) \<Longrightarrow> length js + m \<le> tally awake (workers s)"
  using assms by (simp_all add: pool_at_def)

lemma owner_enqueues_at:
  assumes s: "pool_at jobs n js m s" and e: "owner_enqueues item s s'"
  shows "queue_rep (work s') (map Some js @ replicate m None @ [item])"
    and "length (workers s') = n" and "owner s' = owner s" and "started s' = started s"
    and "executed s' = executed s"
    and "tally exited (workers s') = tally exited (workers s)"
    and "tally running (workers s') = tally running (workers s)"
    and "Waiting \<in> set (workers s') \<Longrightarrow> length js + m + 1 \<le> tally awake (workers s')"
proof -
  obtain a q ws where a: "queue_fresh a (work s)" "queue_enqueue a item (work s) = Some q"
    and sig: "signals (workers s) ws" and s': "s' = s\<lparr>work := q, workers := ws\<rparr>"
    using e by (auto simp: owner_enqueues_def)
  show "queue_rep (work s') (map Some js @ replicate m None @ [item])"
    using work.enqE [OF pool_atD(1) [OF s] a] s' by simp
  show "Waiting \<in> set (workers s') \<Longrightarrow> length js + m + 1 \<le> tally awake (workers s')"
    using signals_tally(4) [OF sig] pool_atD(8) [OF s] s' by simp
qed (use e signals_tally pool_atD(2) [OF s] in \<open>auto simp: owner_enqueues_def\<close>)

lemma add_work_inv:
  assumes "pool_inv jobs n s" and "thread_pool_add_work s t"
  shows "pool_inv jobs n t"
proof -
  obtain js m where s: "pool_at jobs n js m s" using assms(1) by (auto simp: pool_inv_def)
  from assms(2) obtain j rest s' where own: "owner s = Adding (j # rest)"
    and e: "owner_enqueues (Some j) s s'" and t: "t = s'\<lparr>owner := Adding rest\<rparr>"
    by (auto elim: add_workE)
  have m: "m = 0" "tally exited (workers s) = 0" using pool_atD(4) [OF s] own by auto
  have "pool_at jobs n (js @ [j]) 0 t"
    using owner_enqueues_at [OF s e] pool_atD [OF s] own m unfolding pool_at_def t by simp
  then show ?thesis by (auto simp: pool_inv_def)
qed

lemma finish_inv:
  assumes "pool_inv jobs n s" and "thread_pool_finish s t"
  shows "pool_inv jobs n t"
proof -
  obtain js m where s: "pool_at jobs n js m s" using assms(1) by (auto simp: pool_inv_def)
  note at = pool_atD [OF s]
  from assms(2) show ?thesis
  proof (cases rule: thread_pool_finish.cases)
    case (stop k s')
    have rep: "replicate (Suc m) None = replicate m None @ [None]" by (simp add: replicate_append_same)
    have "pool_at jobs n js (Suc m) t"
      using owner_enqueues_at [OF s stop(3)] at stop(2) unfolding pool_at_def stop(1) rep by simp
    then show ?thesis by (auto simp: pool_inv_def)
  next
    case (join i)
    have "set (take (Suc i) (workers s)) \<subseteq> {Exited}"
      using at(7) join by (simp add: take_Suc_conv_app_nth)
    then have "pool_at jobs n js m t" using at join by (simp add: pool_at_def)
    then show ?thesis by (auto simp: pool_inv_def)
  next
    case (free i)
    then have "pool_at jobs n js m t" using at by (simp add: pool_at_def)
    then show ?thesis by (auto simp: pool_inv_def)
  next
    case call
    then have "pool_at jobs n js m t" using at by (simp add: pool_at_def)
    then show ?thesis by (auto simp: pool_inv_def)
  next
    case stopped
    then have "pool_at jobs n js m t" using at by (simp add: pool_at_def)
    then show ?thesis by (auto simp: pool_inv_def)
  qed
qed

lemma waiting_update: "Waiting \<in> set (ws[i := w]) \<Longrightarrow> w \<noteq> Waiting \<Longrightarrow> Waiting \<in> set ws"
  using set_update_subset_insert [of ws i w] by auto

lemma thread_execute_inv:
  assumes "pool_inv jobs n s" and "thread_execute i s t"
  shows "pool_inv jobs n t"
proof -
  obtain js m where s: "pool_at jobs n js m s" using assms(1) by (auto simp: pool_inv_def)
  note at = pool_atD [OF s]
  note upd = tally_update [of i "workers s" exited] tally_update [of i "workers s" running]
    tally_update [of i "workers s" awake]
  from assms(2) show ?thesis
  proof (cases rule: thread_execute.cases)
    case sleep
    then have "js = [] \<and> m = 0" using work.ready_iff [OF at(1)] by simp
    then have "pool_at jobs n js m t"
      using at sleep upd(1,2) [of Waiting] joined_update [OF at(7) sleep(2)] by (simp add: pool_at_def)
    then show ?thesis by (auto simp: pool_inv_def)
  next
    case (take j q)
    obtain js' where js: "js = j # js'" and q: "queue_rep q (map Some js' @ replicate m None)"
      using work.deqE [OF at(1) take(4,5)] by (cases js; cases m) auto
    have "pool_at jobs n js' m t"
      using at take upd [of "Running j"] joined_update [OF at(7) take(2)] js q
        waiting_update [of "workers s" i "Running j"]
      unfolding pool_at_def by auto
    then show ?thesis by (auto simp: pool_inv_def)
  next
    case (quit q)
    obtain m' where m: "js = []" "m = Suc m'" and q: "queue_rep q (replicate m' None)"
      using work.deqE [OF at(1) quit(4,5)] by (cases js; cases m) auto
    have "pool_at jobs n [] m' t"
      using at quit upd [of Exited] joined_update [OF at(7) quit(2)] m q
        waiting_update [of "workers s" i Exited]
      unfolding pool_at_def by auto
    then show ?thesis by (auto simp: pool_inv_def)
  next
    case (run j)
    have "pool_at jobs n js m t"
      using at run upd [of Awake] joined_update [OF at(7) run(2)] waiting_update [of "workers s" i Awake]
      unfolding pool_at_def by auto
    then show ?thesis by (auto simp: pool_inv_def)
  qed
qed

lemma spurious_inv:
  assumes "pool_inv jobs n s" and "spurious_wakeup s t"
  shows "pool_inv jobs n t"
proof -
  obtain js m where s: "pool_at jobs n js m s" using assms(1) by (auto simp: pool_inv_def)
  note at = pool_atD [OF s]
  obtain i where i: "i < length (workers s)" "workers s ! i = Waiting"
    and t: "t = s\<lparr>workers := (workers s)[i := Awake]\<rparr>"
    using assms(2) by (auto simp: spurious_wakeup_def)
  have "pool_at jobs n js m t"
    using at t i wake_tally [OF i] joined_update [OF at(7) i(1)] waiting_update [of "workers s" i Awake]
    unfolding pool_at_def by auto
  then show ?thesis by (auto simp: pool_inv_def)
qed

lemma pool_step_inv: "pool_inv jobs n s \<Longrightarrow> pool_step s t \<Longrightarrow> pool_inv jobs n t"
  unfolding pool_step_def using thread_execute_inv add_work_inv finish_inv by blast

lemma pool_reachable_inv:
  assumes "pool_reachable s t" and "pool_inv jobs n s"
  shows "pool_inv jobs n t"
  using assms unfolding pool_reachable_def
  by (induction rule: rtranclp_induct) (auto dest: pool_step_inv spurious_inv)

section \<open>Progress and termination\<close>

text \<open>
  Every step of the program makes this measure smaller: an enqueue costs the owner more than the
  queue element and the thread it wakes, and an awake thread counts more than a sleeping one.
\<close>

fun owner_weight :: "nat \<Rightarrow> 'j owner \<Rightarrow> nat" where
  "owner_weight n (Adding js) = 4 * length js + 5 * n + 3"
| "owner_weight n (Finishing k) = 4 * k + n + 2"
| "owner_weight n (Joining i) = n - i + 1"
| "owner_weight n Freed = 0"

fun worker_weight :: "'j worker \<Rightarrow> nat" where
  "worker_weight Awake = 1"
| "worker_weight Waiting = 0"
| "worker_weight (Running j) = 2"
| "worker_weight Exited = 0"

definition pool_weight :: "'j pool \<Rightarrow> nat" where
  "pool_weight s = owner_weight (length (workers s)) (owner s) + 2 * qsize (work s)
     + tally worker_weight (workers s)"

lemma queue_rep_size: "queue_rep q xs \<Longrightarrow> qsize q = length xs"
  by (auto simp: queue_rep_def queue_at_def)

lemma signals_weight: "signals ws ws' \<Longrightarrow> tally worker_weight ws' \<le> tally worker_weight ws + 1"
  using tally_update [of _ ws worker_weight Awake] by (fastforce simp: signals_def split: if_splits)

lemma owner_enqueues_weight:
  assumes "pool_inv jobs n s" and "owner_enqueues item s s'"
  shows "2 * qsize (work s') + tally worker_weight (workers s')
       \<le> 2 * qsize (work s) + tally worker_weight (workers s) + 3"
    and "length (workers s') = length (workers s)"
proof -
  obtain js m where s: "pool_at jobs n js m s" using assms(1) by (auto simp: pool_inv_def)
  have "qsize (work s') = qsize (work s) + 1"
    using queue_rep_size [OF owner_enqueues_at(1) [OF s assms(2)]] queue_rep_size [OF pool_atD(1) [OF s]] by simp
  moreover have "tally worker_weight (workers s') \<le> tally worker_weight (workers s) + 1"
    using assms(2) signals_weight by (auto simp: owner_enqueues_def)
  ultimately show "2 * qsize (work s') + tally worker_weight (workers s')
       \<le> 2 * qsize (work s) + tally worker_weight (workers s) + 3" by simp
qed (use assms signals_tally in \<open>auto simp: owner_enqueues_def\<close>)

lemma dequeue_size:
  assumes "pool_inv jobs n s" and "queue_ready (work s)" and "queue_dequeue (work s) = Some (x, q)"
  shows "qsize (work s) = qsize q + 1"
proof -
  obtain js m where s: "pool_at jobs n js m s" using assms(1) by (auto simp: pool_inv_def)
  from work.deqE [OF pool_atD(1) [OF s] assms(2,3)] queue_rep_size [OF pool_atD(1) [OF s]]
  show ?thesis using queue_rep_size by fastforce
qed

lemma pool_step_weight:
  assumes inv: "pool_inv jobs n s" and step: "pool_step s t"
  shows "pool_weight t < pool_weight s"
proof -
  from step consider i where "thread_execute i s t" | "thread_pool_add_work s t" | "thread_pool_finish s t"
    by (auto simp: pool_step_def)
  then show ?thesis
  proof cases
    case 1
    note upd = tally_update [of i "workers s" worker_weight]
    from 1 show ?thesis
    proof (cases rule: thread_execute.cases)
      case sleep
      then show ?thesis using upd [of Waiting] by (simp add: pool_weight_def)
    next
      case (take j q)
      then show ?thesis using upd [of "Running j"] dequeue_size [OF inv take(4,5)] by (simp add: pool_weight_def)
    next
      case (quit q)
      then show ?thesis using upd [of Exited] dequeue_size [OF inv quit(4,5)] by (simp add: pool_weight_def)
    next
      case (run j)
      then show ?thesis using upd [of Awake] by (simp add: pool_weight_def)
    qed
  next
    case 2
    then show ?thesis
    proof (cases rule: thread_pool_add_work.cases)
      case (add j js s')
      then show ?thesis using owner_enqueues_weight [OF inv add(3)] by (simp add: pool_weight_def)
    qed
  next
    case 3
    then show ?thesis
    proof (cases rule: thread_pool_finish.cases)
      case (stop k s')
      then show ?thesis using owner_enqueues_weight [OF inv stop(3)] by (simp add: pool_weight_def)
    qed (auto simp: pool_weight_def)
  qed
qed

lemma owner_can_enqueue:
  assumes "pool_inv jobs n s"
  shows "\<exists>s'. owner_enqueues item s s'"
proof -
  obtain js m where s: "pool_at jobs n js m s" using assms by (auto simp: pool_inv_def)
  obtain a where a: "queue_fresh a (work s)" using queue_fresh_exists [OF pool_atD(1) [OF s]] by blast
  with work.enq_rep [OF pool_atD(1) [OF s] a, of item] signals_exist [of "workers s"]
  show ?thesis unfolding owner_enqueues_def by blast
qed

lemma awake_can_step:
  assumes inv: "pool_inv jobs n s" and i: "i < length (workers s)" "workers s ! i = Awake"
  shows "\<exists>t. thread_execute i s t"
proof (cases "queue_ready (work s)")
  case True
  obtain js m where s: "pool_at jobs n js m s" using inv by (auto simp: pool_inv_def)
  let ?xs = "map Some js @ replicate m None"
  from True have "?xs \<noteq> []" using work.ready_iff [OF pool_atD(1) [OF s]] by simp
  then obtain x xs where "?xs = x # xs" by (cases ?xs) auto
  then obtain q where q: "queue_dequeue (work s) = Some (x, q)"
    using work.deq_rep [of "work s" x xs] pool_atD(1) [OF s] by auto
  show ?thesis
  proof (cases x)
    case None
    show ?thesis by (rule exI, rule quit [OF i True q [unfolded None]])
  next
    case (Some j)
    show ?thesis by (rule exI, rule take [OF i True q [unfolded Some]])
  qed
next
  case False
  show ?thesis by (rule exI, rule sleep [OF i False])
qed

text \<open>
  While the owner waits for a thread that sleeps, a null pointer is left in the queue, and so a
  thread is awake to take it.
\<close>

lemma pool_progress:
  assumes inv: "pool_inv jobs n s" and "owner s \<noteq> Freed"
  shows "\<exists>t. pool_step s t"
proof (cases "owner s")
  case (Adding js)
  show ?thesis
  proof (cases js)
    case Nil
    then show ?thesis using call [of s] Adding by (auto simp: pool_step_def)
  next
    case (Cons j rest)
    obtain s' where e: "owner_enqueues (Some j) s s'" using owner_can_enqueue [OF inv] by blast
    then show ?thesis using add [OF _ e] Adding Cons by (auto simp: pool_step_def)
  qed
next
  case (Finishing k)
  show ?thesis
  proof (cases k)
    case 0
    then show ?thesis using stopped [of s] Finishing by (auto simp: pool_step_def)
  next
    case (Suc l)
    obtain s' where e: "owner_enqueues None s s'" using owner_can_enqueue [OF inv] by blast
    then show ?thesis using stop [OF _ e] Finishing Suc by (auto simp: pool_step_def)
  qed
next
  case (Joining i)
  obtain js m where s: "pool_at jobs n js m s" using inv by (auto simp: pool_inv_def)
  note at = pool_atD [OF s]
  consider "i = length (workers s)" | "i < length (workers s)"
    using at(7) Joining by fastforce
  then show ?thesis
  proof cases
    case 2
    then have in_ws: "workers s ! i \<in> set (workers s)" by simp
    show ?thesis
    proof (cases "workers s ! i")
      case Waiting
      then have "tally exited (workers s) < n" using tally_exited_less [OF in_ws] at(2) by simp
      then have "0 < m" using at(4) Joining by simp
      then have "0 < tally awake (workers s)" using at(8) in_ws Waiting by simp
      then show ?thesis using tally_awake_pos awake_can_step [OF inv] unfolding pool_step_def by blast
    next
      case Awake
      then show ?thesis using awake_can_step [OF inv 2] unfolding pool_step_def by blast
    next
      case (Running j)
      then show ?thesis using run [OF 2 Running] unfolding pool_step_def by blast
    next
      case Exited
      then show ?thesis using join [OF Joining 2 Exited] unfolding pool_step_def by blast
    qed
  qed (use free [OF Joining] in \<open>unfold pool_step_def, blast\<close>)
qed (use assms in simp)

lemma pool_finishes:
  "pool_inv jobs n s \<Longrightarrow> \<exists>t. pool_step\<^sup>*\<^sup>* s t \<and> owner t = Freed"
proof (induction "pool_weight s" arbitrary: s rule: less_induct)
  case less
  show ?case
  proof (cases "owner s = Freed")
    case False
    then obtain t where t: "pool_step s t" using pool_progress [OF less.prems] by blast
    from less.hyps [OF pool_step_weight [OF less.prems t] pool_step_inv [OF less.prems t]] t
    show ?thesis by (meson converse_rtranclp_into_rtranclp)
  qed blast
qed

lemma pool_freed:
  assumes inv: "pool_inv jobs n s" and "owner s = Freed" and n: "0 < n"
  shows "started s = jobs" and "mset (executed s) = mset jobs" and "queue_rep (work s) []"
proof -
  obtain js m where s: "pool_at jobs n js m s" using inv by (auto simp: pool_inv_def)
  note at = pool_atD [OF s]
  have ex: "tally exited (workers s) = n" using at(2,7) assms(2) tally_exited_all by fastforce
  then have js: "js = []" "m = 0" using at(4,5) assms(2) n by auto
  have "tally running (workers s) = {#}"
    by (rule tally_all_0) (use at(7) assms(2) in auto)
  then show "started s = jobs" "mset (executed s) = mset jobs" "queue_rep (work s) []"
    using at(1,3,6) js assms(2) by auto
qed

text \<open>What the owner released is the store of the queue at that moment; no later step touches it.\<close>

lemma freed_leaked_step:
  assumes inv: "pool_inv jobs n s" and n: "0 < n" and step: "pool_step s t \<or> spurious_wakeup s t"
    and ok: "owner s = Freed \<longrightarrow> leaked s = Map.empty"
  shows "owner t = Freed \<longrightarrow> leaked t = Map.empty"
proof
  assume freed: "owner t = Freed"
  have "pool_inv jobs n t" using step inv pool_step_inv spurious_inv by blast
  note empty = queue_free_empty [OF pool_freed(3) [OF this freed n]]
  have "leaked t = leaked s \<and> owner s = Freed \<or> leaked t = queue_free (work t)"
    using step freed
    by (auto simp: pool_step_def spurious_wakeup_def owner_enqueues_def queue_free_def
      elim!: thread_executeE add_workE finishE)
  then show "leaked t = Map.empty" using ok empty by auto
qed

lemma freed_leaked:
  assumes "pool_reachable s t" and "pool_inv jobs n s" and "0 < n" and "owner s \<noteq> Freed"
  shows "owner t = Freed \<longrightarrow> leaked t = Map.empty"
  using assms(1) unfolding pool_reachable_def
proof (induction rule: rtranclp_induct)
  case (step t u)
  have "pool_inv jobs n t" using pool_reachable_inv assms(2) step(1) unfolding pool_reachable_def by blast
  then show ?case using freed_leaked_step [OF _ assms(3) step(2)] step.IH by blast
qed (use assms in simp)

section \<open>Properties\<close>

text \<open>
  C7: a thread pool with at least one thread does all its work. In every state that any
  interleaving of the threads can reach, spurious wakeups included, the work items have been
  started in the order they were added; when \<^verbatim>\<open>thread_pool_finish\<close> returns, every item has been
  executed exactly once and the work queue has been released without a leaked node.
\<close>

theorem pool_executes_all_work:
  assumes "h \<noteq> t" and "0 < n" and "pool_reachable (thread_pool_init h t n jobs) s"
  shows "(\<exists>rest. jobs = started s @ rest) \<and> mset (executed s) \<subseteq># mset (started s)
    \<and> (owner s = Freed \<longrightarrow> started s = jobs \<and> mset (executed s) = mset jobs \<and> leaked s = Map.empty)"
proof -
  have inv: "pool_inv jobs n s" using pool_reachable_inv assms(3) pool_inv_init [OF assms(1)] by blast
  then obtain js m where s: "pool_at jobs n js m s" by (auto simp: pool_inv_def)
  have "owner s = Freed \<longrightarrow> leaked s = Map.empty"
    using freed_leaked [OF assms(3) pool_inv_init [OF assms(1)] assms(2)] by (simp add: thread_pool_init_def)
  then show ?thesis
    using pool_atD(3,6) [OF s] pool_freed [OF inv _ assms(2)] by auto
qed

theorem pool_executes_all_work_witness:
  "\<exists>u. pool_step\<^sup>*\<^sup>* (thread_pool_init 0 1 2 [5, 6 :: nat]) u \<and> owner u = Freed
     \<and> mset (executed u) = {#5, 6#} \<and> leaked u = Map.empty"
proof -
  let ?s = "thread_pool_init 0 1 2 [5, 6 :: nat]"
  obtain u where u: "pool_step\<^sup>*\<^sup>* ?s u" "owner u = Freed"
    using pool_finishes [OF pool_inv_init [of 0 1]] by auto
  then have "pool_reachable ?s u" unfolding pool_reachable_def by (simp add: rtranclp_mono [THEN predicate2D, rotated] predicate2I)
  then show ?thesis using pool_executes_all_work [of 0 1 2 "[5, 6]" u] u by auto
qed

text \<open>
  C11: the thread pool never deadlocks and always finishes. From every reachable state each step
  of the program makes \<^const>\<open>pool_weight\<close> smaller, so no run is infinite unless wakeups without
  a signal keep occurring; until the pool is freed some thread can take a step, so no wakeup is
  lost; and hence \<^verbatim>\<open>thread_pool_finish\<close> returns.
\<close>

theorem pool_always_finishes:
  assumes "h \<noteq> t" and "pool_reachable (thread_pool_init h t n jobs) s"
  shows "(\<forall>u. pool_step s u \<longrightarrow> pool_weight u < pool_weight s)
    \<and> (owner s \<noteq> Freed \<longrightarrow> (\<exists>u. pool_step s u))
    \<and> (\<exists>u. pool_step\<^sup>*\<^sup>* s u \<and> owner u = Freed)"
proof -
  have "pool_inv jobs n s" using pool_reachable_inv assms(2) pool_inv_init [OF assms(1)] by blast
  then show ?thesis using pool_step_weight pool_progress pool_finishes by blast
qed

theorem pool_always_finishes_witness:
  "\<exists>u. pool_step\<^sup>*\<^sup>* (thread_pool_init 0 1 3 [5, 6 :: nat]) u \<and> owner u = Freed"
  using pool_always_finishes [of 0 1 3 "[5, 6 :: nat]" "thread_pool_init 0 1 3 [5, 6]"]
  by (simp add: pool_reachable_def)

end
