(* ===== verification/Password_Cracker.thy ===== *)
theory Password_Cracker
  imports Thread_Pool
begin

text \<open>
  The password cracker of \<^verbatim>\<open>src/threadpool/src/password_cracker.c\<close>. The dictionary is an
  argument, as are \<^verbatim>\<open>crypt_r\<close> of the C library (password and salt to the hash, \<^const>\<open>None\<close> for
  its null result) and the contents \<open>m n\<close> of the block that \<^verbatim>\<open>malloc(n)\<close> returns. A read or
  write outside a block is \<^const>\<open>None\<close>.
\<close>

definition HASH_START :: string where
  "HASH_START = ''$6$''"

definition SALT_LENGTH :: nat where
  "SALT_LENGTH = 20"

definition HASH_LENGTH :: nat where
  "HASH_LENGTH = 106"

definition NUM_THREADS :: nat where
  "NUM_THREADS = 16"

record hashpass =
  password :: string
  hash :: string

text \<open>Whether the hash of the password agrees with the given one after the salt.\<close>

definition hashes_match :: "(string \<Rightarrow> string \<Rightarrow> string option) \<Rightarrow> hashpass \<Rightarrow> bool option" where
  "hashes_match crypt_r hp = do {
     let salt = take SALT_LENGTH (hash hp);
     hashed \<leftarrow> crypt_r (password hp) salt;
     if length hashed < HASH_LENGTH then None
     else Some (take (HASH_LENGTH - SALT_LENGTH) (drop SALT_LENGTH hashed)
              = take (HASH_LENGTH - SALT_LENGTH) (drop SALT_LENGTH (hash hp)))
   }"

text \<open>\<^verbatim>\<open>strcat\<close> on a block: find the terminator, append the string and a new terminator.\<close>

definition strcat :: "char list \<Rightarrow> string \<Rightarrow> char list option" where
  "strcat dest src =
     (let k = length (c_string dest); s = c_string src in
      if k + length s < length dest then Some (take k dest @ s @ [nul] @ drop (k + length s + 1) dest)
      else None)"

fun form_loop :: "int \<Rightarrow> string \<Rightarrow> string \<Rightarrow> nat \<Rightarrow> nat \<Rightarrow> char list \<times> bool \<Rightarrow> (char list \<times> bool) option" where
  "form_loop num_pos num word i 0 (pw, num_added) = Some (pw, num_added)"
| "form_loop num_pos num word i (Suc k) (pw, num_added) = do {
     (pw, num_added) \<leftarrow>
       (if num_pos < int i \<and> \<not> num_added then map_option (\<lambda>p. (p, True)) (strcat pw num)
        else Some (pw, num_added));
     letter \<leftarrow> (if i < length word then Some (word ! i) else None);
     pw \<leftarrow> strcat pw [letter];
     form_loop num_pos num word (i + 1) k (pw, num_added)
   }"

definition form_word :: "(nat \<Rightarrow> char list) \<Rightarrow> int \<Rightarrow> string \<Rightarrow> string \<Rightarrow> nat \<Rightarrow> char list option" where
  "form_word m num_pos num word word_length = do {
     let pw = m (word_length + 1);
     (pw, num_added) \<leftarrow>
       (if num_pos = -1 then map_option (\<lambda>p. (p, True)) (strcat pw num) else Some (pw, False));
     (pw, num_added) \<leftarrow> form_loop num_pos num word 0 word_length (pw, num_added);
     if num_added then Some pw else strcat pw num
   }"

text \<open>The hashes on the standard input, one per line; \<^const>\<open>None\<close> is a failed assertion.\<close>

fun read_hashes :: "string list \<Rightarrow> string list option" where
  "read_hashes [] = Some []"
| "read_hashes (line # lines) =
     (if line = [] \<or> hd line = CHR ''\<newline>'' then Some []
      else do {
        let line_length = length (c_string line);
        _ \<leftarrow> (if line_length = HASH_LENGTH
              \<or> line_length = HASH_LENGTH + 1 \<and> line ! HASH_LENGTH = CHR ''\<newline>'' then Some () else None);
        _ \<leftarrow> (if take (length HASH_START) line = HASH_START then Some () else None);
        rest \<leftarrow> read_hashes lines;
        Some (take HASH_LENGTH line # rest)
      })"

text \<open>The loops of \<^verbatim>\<open>main\<close>: the work items in the order in which they are added.\<close>

definition word_work :: "(nat \<Rightarrow> char list) \<Rightarrow> string list \<Rightarrow> string \<Rightarrow> nat \<Rightarrow> int \<Rightarrow> hashpass list option" where
  "word_work m hashes dict_word j num_pos = do {
     p \<leftarrow> form_word m num_pos [char_of j] dict_word (length dict_word);
     Some (map (\<lambda>h. \<lparr>password = c_string p, hash = h\<rparr>) hashes)
   }"

definition main_work :: "(nat \<Rightarrow> char list) \<Rightarrow> string list \<Rightarrow> string list \<Rightarrow> hashpass list option" where
  "main_work m hashes dictionary =
     map_option concat (those [word_work m hashes w j num_pos.
       w \<leftarrow> dictionary, j \<leftarrow> [48..<58], num_pos \<leftarrow> [-1..int (length w) - 1]])"

text \<open>The lines printed by the work items that have been executed.\<close>

definition printed :: "(string \<Rightarrow> string \<Rightarrow> string option) \<Rightarrow> hashpass pool \<Rightarrow> string list" where
  "printed crypt_r s = map password (filter (\<lambda>hp. hashes_match crypt_r hp = Some True) (executed s))"

section \<open>Building a word\<close>

lemma strcat_Some:
  assumes "strcat d s = Some d'"
  shows "c_string d' = c_string d @ c_string s" and "length d' = length d"
    and "length (c_string d') < length d'"
proof -
  from assms have room: "length (c_string d) + length (c_string s) < length d"
    and d': "d' = c_string d @ c_string s @ [nul] @ drop (length (c_string d) + length (c_string s) + 1) d"
    by (auto simp: strcat_def Let_def c_string_take split: if_splits)
  show "c_string d' = c_string d @ c_string s"
    unfolding d' by (simp add: c_string_append [OF c_string_no_nul])
  then show "length d' = length d" "length (c_string d') < length d'"
    using room by (auto simp: d')
qed

lemma strcat_room:
  "length (c_string d) + length (c_string s) < length d \<Longrightarrow> \<exists>d'. strcat d s = Some d'"
  by (simp add: strcat_def Let_def)

lemma letter_c_string: "nul \<notin> set w \<Longrightarrow> i < length w \<Longrightarrow> c_string [w ! i] = [w ! i]"
  using nth_mem by fastforce

text \<open>What a run of the loop that stays inside the block has appended.\<close>

lemma form_loop_length:
  assumes "form_loop num_pos num word i k (p, a) = Some (p', a')" and "nul \<notin> set word"
  shows "length p' = length p
    \<and> length (c_string p') = length (c_string p) + k + (if a' \<and> \<not> a then length (c_string num) else 0)
    \<and> (a \<longrightarrow> a') \<and> (0 < k \<or> length (c_string p) < length p \<longrightarrow> length (c_string p') < length p')"
  using assms(1)
proof (induction k arbitrary: i p a)
  case (Suc k)
  from Suc.prems obtain q b r where q: "(if num_pos < int i \<and> \<not> a then map_option (\<lambda>p. (p, True)) (strcat p num)
        else Some (p, a)) = Some (q, b)" and i: "i < length word"
    and r: "strcat q [word ! i] = Some r" and loop: "form_loop num_pos num word (i + 1) k (r, b) = Some (p', a')"
    by (auto split: bind_splits if_splits)
  have "length q = length p \<and> (a \<longrightarrow> b)
      \<and> length (c_string q) = length (c_string p) + (if b \<and> \<not> a then length (c_string num) else 0)"
    using q strcat_Some(1,2) [of p num q] by (auto split: if_splits)
  then show ?case
    using Suc.IH [OF loop] strcat_Some [OF r] letter_c_string [OF assms(2) i] by (cases a; cases b; cases a') simp_all
qed simp

text \<open>The loop stays inside a block that is large enough.\<close>

lemma form_loop_plain:
  assumes "nul \<notin> set word"
  shows "i + k \<le> length word \<Longrightarrow> a \<or> int (i + k) \<le> num_pos + 1
    \<Longrightarrow> length (c_string p) + k < length p
    \<Longrightarrow> \<exists>p'. form_loop num_pos num word i k (p, a) = Some (p', a)
       \<and> length p' = length p \<and> c_string p' = c_string p @ take k (drop i word)"
proof (induction k arbitrary: i p)
  case (Suc k)
  then have i: "i < length word" by simp
  note letter = letter_c_string [OF assms i]
  obtain r where r: "strcat p [word ! i] = Some r" using strcat_room [of p "[word ! i]"] letter Suc.prems by auto
  note r' = strcat_Some [OF r]
  from Suc.IH [of "i + 1" r] Suc.prems r' letter
  obtain p' where "form_loop num_pos num word (i + 1) k (r, a) = Some (p', a)" "length p' = length p"
    "c_string p' = c_string p @ [word ! i] @ take k (drop (i + 1) word)"
    by auto
  moreover have "take (Suc k) (drop i word) = [word ! i] @ take k (drop (i + 1) word)"
    using i by (simp add: Cons_nth_drop_Suc [symmetric])
  moreover have "\<not> (num_pos < int i \<and> \<not> a)" using Suc.prems by auto
  ultimately show ?case using r i by auto
qed simp

lemma form_loop_split:
  "form_loop num_pos num word i (k + l) st =
     Option.bind (form_loop num_pos num word i k st) (form_loop num_pos num word (i + k) l)"
proof (induction k arbitrary: i st)
  case 0
  then show ?case by (cases st) simp
next
  case (Suc k)
  obtain p a where "st = (p, a)" by (cases st)
  with Suc show ?case by (auto split: bind_splits)
qed

lemma form_loop_insert:
  assumes "num_pos < int i"
  shows "form_loop num_pos num word i (Suc k) (p, False) =
     Option.bind (strcat p num) (\<lambda>p. form_loop num_pos num word i (Suc k) (p, True))"
  using assms by (cases "strcat p num") auto

lemma form_word_content:
  assumes word: "nul \<notin> set word" and c: "c \<noteq> nul" and pos: "-1 \<le> num_pos" "num_pos < int (length word)"
    and zero: "c_string (m (length word + 1)) = []" and room: "length word + 1 < length (m (length word + 1))"
  shows "\<exists>p. form_word m num_pos [c] word (length word) = Some p
    \<and> c_string p = take (nat (num_pos + 1)) word @ [c] @ drop (nat (num_pos + 1)) word"
proof -
  let ?b = "m (length word + 1)" and ?n = "nat (num_pos + 1)"
  have num: "c_string [c] = [c]" using c by simp
  consider "num_pos = -1" | "0 \<le> num_pos" "?n < length word" | "0 \<le> num_pos" "?n = length word"
    using pos by linarith
  then show ?thesis
  proof cases
    case 1
    obtain p where p: "strcat ?b [c] = Some p" using strcat_room [of ?b "[c]"] num zero room by auto
    note p' = strcat_Some [OF p]
    obtain q where "form_loop num_pos [c] word 0 (length word) (p, True) = Some (q, True)"
      "c_string q = c_string p @ take (length word) (drop 0 word)"
      using form_loop_plain [OF word, of 0 "length word" True num_pos p "[c]"] p' num zero room by auto
    then show ?thesis using p p' num zero 1 by (auto simp: form_word_def Let_def)
  next
    case 2
    obtain p where p: "form_loop num_pos [c] word 0 ?n (?b, False) = Some (p, False)"
      "length p = length ?b" "c_string p = take ?n word"
      using form_loop_plain [OF word, of 0 ?n False num_pos ?b "[c]"] 2 zero room by auto
    obtain l where l: "length word = ?n + Suc l" using 2(2) less_imp_Suc_add by fastforce
    obtain q where q: "strcat p [c] = Some q" using strcat_room [of p "[c]"] num p room l by auto
    note q' = strcat_Some [OF q]
    obtain r where r: "form_loop num_pos [c] word ?n (Suc l) (q, True) = Some (r, True)"
      "c_string r = c_string q @ take (Suc l) (drop ?n word)"
      using form_loop_plain [OF word, of ?n "Suc l" True num_pos q "[c]"] q' p num room l by auto
    have "form_loop num_pos [c] word 0 (?n + Suc l) (?b, False) = Some (r, True)"
      unfolding form_loop_split using p q r 2 by (simp add: form_loop_insert del: form_loop.simps)
    then have "form_loop num_pos [c] word 0 (length word) (?b, False) = Some (r, True)"
      by (simp only: l [symmetric])
    moreover have "c_string r = take ?n word @ [c] @ drop ?n word" using r(2) q'(1) p(3) num l by simp
    ultimately show ?thesis using 2 by (simp add: form_word_def Let_def del: form_loop.simps)
  next
    case 3
    then have "int (length word) \<le> num_pos + 1" by linarith
    then obtain p where p: "form_loop num_pos [c] word 0 (length word) (?b, False) = Some (p, False)"
      "length p = length ?b" "c_string p = word"
      using form_loop_plain [OF word, of 0 "length word" False num_pos ?b "[c]"] 3 zero room by auto
    obtain q where q: "strcat p [c] = Some q" using strcat_room [of p "[c]"] num p room by auto
    then show ?thesis using strcat_Some [OF q] 3 p num by (auto simp: form_word_def Let_def)
  qed
qed

lemma form_word_overflows:
  assumes word: "nul \<notin> set word" and c: "c \<noteq> nul" and m: "length (m (length word + 1)) = length word + 1"
  shows "form_word m num_pos [c] word (length word) = None"
proof (rule ccontr)
  let ?b = "m (Suc (length word))"
  assume "\<not> ?thesis"
  then obtain p a q b r where p: "(if num_pos = -1 then map_option (\<lambda>p. (p, True)) (strcat ?b [c]) else Some (?b, False)) = Some (p, a)"
    and q: "form_loop num_pos [c] word 0 (length word) (p, a) = Some (q, b)"
    and r: "(if b then Some q else strcat q [c]) = Some r"
    by (auto simp: form_word_def Let_def split: bind_splits)
  note q' = form_loop_length [OF q word]
  have num: "c_string [c] = [c]" using c by simp
  have p': "length p = length ?b \<and> (a \<longrightarrow> 1 \<le> length (c_string p) \<and> length (c_string p) < length p)"
    using p strcat_Some [of ?b "[c]" p] num by (auto split: if_splits)
  have "length word + 1 \<le> length (c_string r) \<and> length r = length ?b \<and> length (c_string r) < length r"
  proof (cases b)
    case True
    then have "0 < length word \<or> a" using q by (cases "length word") auto
    then show ?thesis using True p' q' r num by (auto split: if_splits)
  next
    case False
    then show ?thesis using p' q' r strcat_Some [of q "[c]" r] num by (auto split: if_splits)
  qed
  then show False using m by simp
qed

section \<open>The candidates\<close>

text \<open>A block that holds one byte more than asked for and starts with a terminator.\<close>

definition roomy :: "(nat \<Rightarrow> char list) \<Rightarrow> bool" where
  "roomy m \<longleftrightarrow> (\<forall>n. n < length (m n) \<and> hd (m n) = nul)"

lemma roomyD: "roomy m \<Longrightarrow> c_string (m n) = [] \<and> n < length (m n)"
proof -
  assume "roomy m"
  then have "n < length (m n)" "hd (m n) = nul" by (auto simp: roomy_def)
  then show ?thesis by (cases "m n") auto
qed

lemma those_Some: "(\<forall>x \<in> set xs. f x \<noteq> None) \<Longrightarrow> those (map f xs) = Some (map (the \<circ> f) xs)"
  by (induction xs) auto

definition insert_at :: "nat \<Rightarrow> char \<Rightarrow> string \<Rightarrow> string" where
  "insert_at i c w = take i w @ [c] @ drop i w"

lemma digit_not_nul: "j \<in> {48..<58 :: nat} \<Longrightarrow> (char_of (j :: nat) :: char) \<noteq> nul"
proof
  assume "j \<in> {48..<58 :: nat}" and "(char_of j :: char) = nul"
  then have "of_char (char_of j :: char) = (of_char nul :: nat)" by simp
  then show False using \<open>j \<in> {48..<58 :: nat}\<close> by (simp add: nul_def)
qed

lemma word_work_content:
  assumes "roomy m" and "nul \<notin> set w" and "j \<in> {48..<58 :: nat}" and "-1 \<le> num_pos" "num_pos < int (length w)"
  shows "word_work m hashes w j num_pos =
    Some (map (\<lambda>h. \<lparr>password = insert_at (nat (num_pos + 1)) (char_of j) w, hash = h\<rparr>) hashes)"
  using form_word_content [OF assms(2) digit_not_nul [OF assms(3)] assms(4,5), of m] roomyD [OF assms(1)]
  by (auto simp: word_work_def insert_at_def)

lemma main_work_set:
  assumes "roomy m" and dict: "\<forall>w \<in> set dictionary. nul \<notin> set w"
  shows "\<exists>jobs. main_work m hashes dictionary = Some jobs
    \<and> set jobs = {\<lparr>password = insert_at i (char_of j) w, hash = h\<rparr> | w i j h.
         w \<in> set dictionary \<and> i \<le> length w \<and> j \<in> {48..<58 :: nat} \<and> h \<in> set hashes}"
proof -
  define cs where "cs = [(w, j, num_pos). w \<leftarrow> dictionary, j \<leftarrow> [48..<58], num_pos \<leftarrow> [-1..int (length w) - 1]]"
  let ?f = "\<lambda>(w, j, num_pos). word_work m hashes w j num_pos"
  let ?g = "\<lambda>(w, j, num_pos). map (\<lambda>h. \<lparr>password = insert_at (nat (num_pos + 1)) (char_of j) w, hash = h\<rparr>) hashes"
  have mem: "(w, j, p) \<in> set cs \<longleftrightarrow> w \<in> set dictionary \<and> j \<in> {48..<58 :: nat} \<and> -1 \<le> p \<and> p < int (length w)" for w j p
    by (auto simp: cs_def image_iff simp del: upt_rec_numeral)
  have f: "?f x = Some (?g x)" if "x \<in> set cs" for x
  proof -
    obtain w j p where x: "x = (w, j, p)" by (metis prod_cases3)
    then show ?thesis using that mem dict word_work_content [OF assms(1), of w j p] by simp
  qed
  have "[word_work m hashes w j num_pos. w \<leftarrow> dictionary, j \<leftarrow> [48..<58], num_pos \<leftarrow> [-1..int (length w) - 1]]
      = map ?f cs"
    by (simp add: cs_def map_concat comp_def del: upt_rec_numeral)
  then have "main_work m hashes dictionary = Some (concat (map (the \<circ> ?f) cs))"
    unfolding main_work_def using those_Some [of cs ?f] f by (simp del: upt_rec_numeral set_concat)
  moreover have "set (concat (map (the \<circ> ?f) cs)) = (\<Union>x \<in> set cs. set (?g x))"
    unfolding set_concat set_map image_image by (rule SUP_cong [OF refl]) (simp add: f)
  moreover have "(\<Union>x \<in> set cs. set (?g x)) = {\<lparr>password = insert_at i (char_of j) w, hash = h\<rparr> | w i j h.
         w \<in> set dictionary \<and> i \<le> length w \<and> j \<in> {48..<58 :: nat} \<and> h \<in> set hashes}" (is "?L = ?R")
  proof
    show "?L \<subseteq> ?R"
    proof
      fix hp assume "hp \<in> ?L"
      then obtain x where x: "x \<in> set cs" "hp \<in> set (?g x)" by blast
      obtain w j p where wjp: "x = (w, j, p)" by (metis prod_cases3)
      obtain h where h: "h \<in> set hashes" "hp = \<lparr>password = insert_at (nat (p + 1)) (char_of j) w, hash = h\<rparr>"
        using x(2) wjp by auto
      have "w \<in> set dictionary" "j \<in> {48..<58 :: nat}" "nat (p + 1) \<le> length w" using mem x(1) wjp by auto
      with h show "hp \<in> ?R" by blast
    qed
    show "?R \<subseteq> ?L"
    proof
      fix hp assume "hp \<in> ?R"
      then obtain w i j h where *: "w \<in> set dictionary" "i \<le> length w" "j \<in> {48..<58 :: nat}" "h \<in> set hashes"
        "hp = \<lparr>password = insert_at i (char_of j) w, hash = h\<rparr>" by blast
      then have "(w, j, int i - 1) \<in> set cs" using mem [of w j "int i - 1"] by simp
      moreover have "hp \<in> set (?g (w, j, int i - 1))" using * by simp
      ultimately show "hp \<in> ?L" by (rule UN_I)
    qed
  qed
  ultimately show ?thesis by metis
qed

lemma read_hashes_shape:
  "read_hashes lines = Some hs \<Longrightarrow> h \<in> set hs \<Longrightarrow> length h = HASH_LENGTH \<and> take (length HASH_START) h = HASH_START"
proof (induction lines arbitrary: hs)
  case (Cons line lines)
  have le: "length (c_string line) \<le> length line" by (simp add: c_string_def length_takeWhile_le)
  from Cons le show ?case
    by (auto simp: Let_def HASH_LENGTH_def HASH_START_def min_def split: if_splits bind_splits)
qed simp

section \<open>Properties\<close>



text \<open>
  \<^verbatim>\<open>form_word\<close> asks for \<^verbatim>\<open>word_length + 1\<close> bytes, but the word with a digit inserted and the
  terminator needs \<^verbatim>\<open>word_length + 2\<close>: in a block of exactly the size asked for, whatever it
  contains, every call runs over its end.
\<close>

theorem form_word_overruns_block:
  assumes "\<forall>n. length (m n) = n" and "nul \<notin> set word" and "c \<noteq> nul"
  shows "form_word m num_pos [c] word (length word) = None"
  by (rule form_word_overflows) (use assms in auto)

theorem form_word_overruns_block_witness:
  "form_word (\<lambda>n. replicate n nul) 1 ''7'' ''abc'' (length ''abc'') = None
   \<and> map_option c_string (form_word (\<lambda>n. replicate (n + 1) nul) 1 ''7'' ''abc'' (length ''abc'')) = Some ''ab7c''"
proof
  show "form_word (\<lambda>n. replicate n nul) 1 ''7'' ''abc'' (length ''abc'') = None"
    by (rule form_word_overruns_block) (simp_all add: nul_def)
  show "map_option c_string (form_word (\<lambda>n. replicate (n + 1) nul) 1 ''7'' ''abc'' (length ''abc'')) = Some ''ab7c''"
    by code_simp
qed

end
