(* ===== verification/Class_File.thy ===== *)
theory Class_File
  imports Prelude
begin

text \<open>
  The class file reader of the Java virtual machine: the structures of
  \<^verbatim>\<open>src/java-virtual-machine/class_file.h\<close> and the functions of \<^verbatim>\<open>read_class.c\<close>. A reader takes
  the open file and returns its result with the file behind it; \<^const>\<open>None\<close> is a failed
  assertion, the end of the file included. Allocation always succeeds.
\<close>

section \<open>Structures\<close>

type_synonym u1 = "8 word"
type_synonym u2 = "16 word"
type_synonym u4 = "32 word"

record class_header =
  magic :: u4
  minor_version :: u2
  major_version :: u2

record class_info =
  access_flags :: u2
  this_class :: u2
  super_class :: u2

record method_info =
  m_access_flags :: u2
  name_index :: u2
  descriptor_index :: u2
  attributes_count :: u2

record attribute_info =
  attribute_name_index :: u2
  attribute_length :: u4

record code =
  max_stack :: u2
  max_locals :: u2
  code_length :: u4
  code_bytes :: "u1 list"

record java_method =
  mname :: string
  descriptor :: string
  mcode :: code

text \<open>
  A constant: the tag is the constructor and its arguments are the structure the \<^verbatim>\<open>info\<close> pointer
  leads to. The null pointer that ends the array is the end of the list.
\<close>

datatype cp_info =
    CONSTANT_Utf8 string
  | CONSTANT_Integer u4
  | CONSTANT_Class u2
  | CONSTANT_Fieldref u2 u2
  | CONSTANT_Methodref u2 u2
  | CONSTANT_NameAndType u2 u2

record class_file =
  constant_pool :: "cp_info list"
  methods :: "java_method list"

section \<open>Reading integers\<close>

record cfile =
  contents :: "u1 list"
  fpos :: nat

definition CLASS_MAGIC :: u4 where
  "CLASS_MAGIC = 0xCAFEBABE"

definition IS_STATIC :: u2 where
  "IS_STATIC = 0x0008"

definition read_u1 :: "cfile \<Rightarrow> (u1 \<times> cfile) option" where
  "read_u1 f = (if fpos f < length (contents f) then Some (contents f ! fpos f, f\<lparr>fpos := fpos f + 1\<rparr>) else None)"

definition read_u2 :: "cfile \<Rightarrow> (u2 \<times> cfile) option" where
  "read_u2 f = do {
     (a, f) \<leftarrow> read_u1 f;
     (b, f) \<leftarrow> read_u1 f;
     Some (push_bit 8 (ucast a) OR ucast b, f)
   }"

definition read_u4 :: "cfile \<Rightarrow> (u4 \<times> cfile) option" where
  "read_u4 f = do {
     (a, f) \<leftarrow> read_u2 f;
     (b, f) \<leftarrow> read_u2 f;
     Some (push_bit 16 (ucast a) OR ucast b, f)
   }"

text \<open>\<^verbatim>\<open>fread\<close> of \<open>n\<close> bytes followed by the check that all of them were read.\<close>

definition read_bytes :: "nat \<Rightarrow> cfile \<Rightarrow> (u1 list \<times> cfile) option" where
  "read_bytes n f =
     (if n \<le> length (contents f) - fpos f then Some (take n (drop (fpos f) (contents f)), f\<lparr>fpos := fpos f + n\<rparr>)
      else None)"

definition char_of_u1 :: "u1 \<Rightarrow> char" where
  "char_of_u1 b = char_of (unat b)"

section \<open>Access to a class\<close>

definition constant_pool_size :: "cp_info list \<Rightarrow> nat" where
  "constant_pool_size pool = length pool"

definition get_constant :: "cp_info list \<Rightarrow> u2 \<Rightarrow> cp_info option" where
  "get_constant pool index =
     (if 0 < index \<and> unat index \<le> constant_pool_size pool then Some (pool ! (unat index - 1)) else None)"

text \<open>The assertion that a constant is a string.\<close>

fun utf8 :: "cp_info \<Rightarrow> string option" where
  "utf8 (CONSTANT_Utf8 s) = Some s"
| "utf8 _ = None"

definition const_string :: "cp_info list \<Rightarrow> u2 \<Rightarrow> string option" where
  "const_string pool i = Option.bind (get_constant pool i) utf8"

definition get_method_name_and_type :: "cp_info list \<Rightarrow> u2 \<Rightarrow> (u2 \<times> u2) option" where
  "get_method_name_and_type pool index = do {
     method_constant \<leftarrow> get_constant pool index;
     case method_constant of
       CONSTANT_Methodref class_index name_and_type_index \<Rightarrow> do {
         name_and_type_constant \<leftarrow> get_constant pool name_and_type_index;
         case name_and_type_constant of
           CONSTANT_NameAndType ni di \<Rightarrow> Some (ni, di)
         | _ \<Rightarrow> None
       }
     | _ \<Rightarrow> None
   }"

text \<open>
  The position of the first occurrence of a character, as \<^verbatim>\<open>strchr\<close> finds it, and the loop of
  \<^verbatim>\<open>get_number_of_parameters\<close> from \<open>start\<close> up to \<open>ed\<close>. The counter is a \<^typ>\<open>u2\<close>. Without a closing
  parenthesis the end is the null pointer and the loop does not run; without an opening one it
  reads from a pointer next to null.
\<close>

fun strchr :: "string \<Rightarrow> char \<Rightarrow> nat option" where
  "strchr [] c = None"
| "strchr (d # s) c = (if d = c then Some 0 else if d = nul then None else map_option Suc (strchr s c))"

function param_loop :: "string \<Rightarrow> nat \<Rightarrow> nat \<Rightarrow> u2 \<Rightarrow> u2" where
  "param_loop d start ed params =
     (if start < ed
      then param_loop d ((if d ! start = CHR ''['' then start + 1 else start) + 1) ed (params + 1)
      else params)"
  by auto
termination by (relation "measure (\<lambda>(d, start, ed, params). ed - start)") auto

definition get_number_of_parameters :: "java_method \<Rightarrow> u2 option" where
  "get_number_of_parameters method =
     (case strchr (descriptor method) CHR '')'' of
        None \<Rightarrow> Some 0
      | Some ed \<Rightarrow>
          (case strchr (descriptor method) CHR ''('' of
             None \<Rightarrow> None
           | Some start \<Rightarrow> Some (param_loop (descriptor method) (start + 1) ed 0)))"

definition find_method :: "string \<Rightarrow> string \<Rightarrow> class_file \<Rightarrow> java_method option" where
  "find_method name desc cls =
     find (\<lambda>m. c_string (mname m) = c_string name \<and> c_string (descriptor m) = c_string desc) (methods cls)"

text \<open>The outer \<^const>\<open>None\<close> is a failed assertion, the inner one the null pointer.\<close>

definition find_method_from_index :: "u2 \<Rightarrow> class_file \<Rightarrow> java_method option option" where
  "find_method_from_index index cls = do {
     (ni, di) \<leftarrow> get_method_name_and_type (constant_pool cls) index;
     name \<leftarrow> const_string (constant_pool cls) ni;
     desc \<leftarrow> const_string (constant_pool cls) di;
     Some (find_method name desc cls)
   }"

section \<open>Reading a class\<close>

definition get_class_header :: "cfile \<Rightarrow> (class_header \<times> cfile) option" where
  "get_class_header f = do {
     (mg, f) \<leftarrow> read_u4 f;
     (major, f) \<leftarrow> (if mg = CLASS_MAGIC then read_u2 f else None);
     (minor, f) \<leftarrow> read_u2 f;
     Some (\<lparr>magic = mg, minor_version = minor, major_version = major\<rparr>, f)
   }"

definition get_constant_info :: "cfile \<Rightarrow> (cp_info \<times> cfile) option" where
  "get_constant_info f = do {
     (tag, f) \<leftarrow> read_u1 f;
     if tag = 1 then do {
       (len, f) \<leftarrow> read_u2 f;
       (info, f) \<leftarrow> read_bytes (unat len) f;
       Some (CONSTANT_Utf8 (map char_of_u1 info), f)
     } else if tag = 3 then do {
       (v, f) \<leftarrow> read_u4 f;
       Some (CONSTANT_Integer v, f)
     } else if tag = 7 then do {
       (i, f) \<leftarrow> read_u2 f;
       Some (CONSTANT_Class i, f)
     } else if tag = 10 then do {
       (c, f) \<leftarrow> read_u2 f;
       (n, f) \<leftarrow> read_u2 f;
       Some (CONSTANT_Methodref c n, f)
     } else if tag = 9 then do {
       (c, f) \<leftarrow> read_u2 f;
       (n, f) \<leftarrow> read_u2 f;
       Some (CONSTANT_Fieldref c n, f)
     } else if tag = 12 then do {
       (n, f) \<leftarrow> read_u2 f;
       (d, f) \<leftarrow> read_u2 f;
       Some (CONSTANT_NameAndType n d, f)
     } else None
   }"

fun get_constants :: "nat \<Rightarrow> cfile \<Rightarrow> (cp_info list \<times> cfile) option" where
  "get_constants 0 f = Some ([], f)"
| "get_constants (Suc n) f = do {
     (c, f) \<leftarrow> get_constant_info f;
     (cs, f) \<leftarrow> get_constants n f;
     Some (c # cs, f)
   }"

definition get_constant_pool :: "cfile \<Rightarrow> (cp_info list \<times> cfile) option" where
  "get_constant_pool f = do {
     (count, f) \<leftarrow> read_u2 f;
     get_constants (unat (count - 1)) f
   }"

definition get_class_info :: "cfile \<Rightarrow> (class_info \<times> cfile) option" where
  "get_class_info f = do {
     (af, f) \<leftarrow> read_u2 f;
     (this, f) \<leftarrow> read_u2 f;
     (super, f) \<leftarrow> read_u2 f;
     (interfaces_count, f) \<leftarrow> read_u2 f;
     (fields_count, f) \<leftarrow> (if interfaces_count = 0 then read_u2 f else None);
     if fields_count = 0 then Some (\<lparr>access_flags = af, this_class = this, super_class = super\<rparr>, f) else None
   }"

definition read_code :: "cfile \<Rightarrow> (code \<times> cfile) option" where
  "read_code f = do {
     (ms, f) \<leftarrow> read_u2 f;
     (ml, f) \<leftarrow> read_u2 f;
     (cl, f) \<leftarrow> read_u4 f;
     (bs, f) \<leftarrow> read_bytes (unat cl) f;
     Some (\<lparr>max_stack = ms, max_locals = ml, code_length = cl, code_bytes = bs\<rparr>, f)
   }"

text \<open>The attributes of a method; the code found so far is \<open>found\<close>.\<close>

fun read_attributes :: "nat \<Rightarrow> code option \<Rightarrow> cp_info list \<Rightarrow> cfile \<Rightarrow> (code option \<times> cfile) option" where
  "read_attributes 0 found pool f = Some (found, f)"
| "read_attributes (Suc n) found pool f = do {
     (ni, f) \<leftarrow> read_u2 f;
     (len, f) \<leftarrow> read_u4 f;
     let attribute_end = fpos f + unat len;
     name \<leftarrow> const_string pool ni;
     (found, f) \<leftarrow>
       (if c_string name = ''Code'' then
          if found \<noteq> None then None
          else map_option (\<lambda>(c, f). (Some c, f)) (read_code f)
        else Some (found, f));
     read_attributes n found pool (f\<lparr>fpos := attribute_end\<rparr>)
   }"

definition read_method_attributes :: "cfile \<Rightarrow> method_info \<Rightarrow> cp_info list \<Rightarrow> (code \<times> cfile) option" where
  "read_method_attributes f info pool = do {
     (found, f) \<leftarrow> read_attributes (unat (attributes_count info)) None pool f;
     c \<leftarrow> found;
     Some (c, f)
   }"

fun get_method_list :: "nat \<Rightarrow> cp_info list \<Rightarrow> cfile \<Rightarrow> (java_method list \<times> cfile) option" where
  "get_method_list 0 pool f = Some ([], f)"
| "get_method_list (Suc n) pool f = do {
     (af, f) \<leftarrow> read_u2 f;
     (ni, f) \<leftarrow> read_u2 f;
     (di, f) \<leftarrow> read_u2 f;
     (ac, f) \<leftarrow> read_u2 f;
     let info = \<lparr>m_access_flags = af, name_index = ni, descriptor_index = di, attributes_count = ac\<rparr>;
     name \<leftarrow> const_string pool ni;
     desc \<leftarrow> const_string pool di;
     _ \<leftarrow> (if c_string name \<noteq> ''<init>'' \<and> af AND IS_STATIC = 0 then None else Some ());
     (c, f) \<leftarrow> read_method_attributes f info pool;
     (ms, f) \<leftarrow> get_method_list n pool f;
     Some (\<lparr>mname = name, descriptor = desc, mcode = c\<rparr> # ms, f)
   }"

definition get_methods :: "cfile \<Rightarrow> cp_info list \<Rightarrow> (java_method list \<times> cfile) option" where
  "get_methods f pool = do {
     (method_count, f) \<leftarrow> read_u2 f;
     get_method_list (unat method_count) pool f
   }"

definition get_class :: "cfile \<Rightarrow> class_file option" where
  "get_class f = do {
     (_, f) \<leftarrow> get_class_header f;
     (pool, f) \<leftarrow> get_constant_pool f;
     (_, f) \<leftarrow> get_class_info f;
     (ms, f) \<leftarrow> get_methods f pool;
     Some \<lparr>constant_pool = pool, methods = ms\<rparr>
   }"

text \<open>The blocks that a class occupies, and the order in which \<^verbatim>\<open>free_class\<close> releases them.\<close>

datatype class_block = Info nat | Pool | Code nat | Methods | Class

definition free_class :: "class_file \<Rightarrow> class_block list" where
  "free_class cls = map Info [0..<length (constant_pool cls)] @ [Pool]
     @ map Code [0..<length (methods cls)] @ [Methods, Class]"

section \<open>Writing what the reader reads\<close>

text \<open>The rest of the file, and a file advanced by \<open>n\<close> bytes.\<close>

definition ahead :: "cfile \<Rightarrow> u1 list" where
  "ahead f = drop (fpos f) (contents f)"

definition adv :: "nat \<Rightarrow> cfile \<Rightarrow> cfile" where
  "adv n f = f\<lparr>fpos := fpos f + n\<rparr>"

lemma adv_adv [simp]: "adv m (adv n f) = adv (n + m) f"
  by (simp add: adv_def ac_simps)

lemma adv_0 [simp]: "adv 0 f = f"
  by (simp add: adv_def)

lemma fpos_adv [simp]: "fpos (adv n f) = fpos f + n"
  by (simp add: adv_def)

lemma ahead_adv: "ahead (adv n f) = drop n (ahead f)"
  by (simp add: ahead_def adv_def ac_simps)

text \<open>\<open>reads p bs v\<close>: before the bytes \<open>bs\<close> the reader \<open>p\<close> consumes exactly them and returns \<open>v\<close>.\<close>

definition reads :: "(cfile \<Rightarrow> ('a \<times> cfile) option) \<Rightarrow> u1 list \<Rightarrow> 'a \<Rightarrow> bool" where
  "reads p bs v \<longleftrightarrow> (\<forall>f rest. ahead f = bs @ rest \<longrightarrow> p f = Some (v, adv (length bs) f))"

lemma readsD: "reads p bs v \<Longrightarrow> ahead f = bs @ rest \<Longrightarrow> p f = Some (v, adv (length bs) f)"
  by (auto simp: reads_def)

lemma reads_return [intro]: "reads (\<lambda>f. Some (v, f)) [] v"
  by (simp add: reads_def)

lemma reads_bind:
  assumes "reads p bs v" and "reads (q v) cs w" and "ds = bs @ cs"
  shows "reads (\<lambda>f. Option.bind (p f) (\<lambda>(x, f). q x f)) ds w"
  unfolding reads_def
proof (intro allI impI)
  fix f rest assume "ahead f = ds @ rest"
  then have f: "ahead f = bs @ (cs @ rest)" using assms(3) by simp
  then have "ahead (adv (length bs) f) = cs @ rest" by (simp add: ahead_adv)
  then show "Option.bind (p f) (\<lambda>(x, f). q x f) = Some (w, adv (length ds) f)"
    using readsD [OF assms(1) f] readsD [OF assms(2)] assms(3) by simp
qed

lemma reads_u1: "reads read_u1 [b] b"
proof -
  have "read_u1 f = Some (b, adv 1 f)" if "ahead f = b # rest" for f rest
  proof -
    from that have "fpos f < length (contents f)" by (auto simp: ahead_def intro: ccontr)
    moreover have "contents f ! fpos f = hd (ahead f)" using calculation by (simp add: ahead_def hd_drop_conv_nth)
    ultimately show ?thesis using that by (simp add: read_u1_def adv_def)
  qed
  then show ?thesis by (simp add: reads_def)
qed

lemma reads_bytes: "n = length bs \<Longrightarrow> reads (read_bytes n) bs bs"
proof -
  assume n: "n = length bs"
  have "read_bytes n f = Some (bs, adv n f)" if "ahead f = bs @ rest" for f rest
  proof -
    have "length (ahead f) = n + length rest" using that n by simp
    then show ?thesis using that n by (simp add: read_bytes_def adv_def ahead_def)
  qed
  then show ?thesis by (simp add: reads_def n)
qed

definition u2_bytes :: "u2 \<Rightarrow> u1 list" where
  "u2_bytes w = [ucast (drop_bit 8 w), ucast w]"

definition u4_bytes :: "u4 \<Rightarrow> u1 list" where
  "u4_bytes w = u2_bytes (ucast (drop_bit 16 w)) @ u2_bytes (ucast w)"

lemma length_u_bytes [simp]: "length (u2_bytes w) = 2" "length (u4_bytes v) = 4"
  by (simp_all add: u2_bytes_def u4_bytes_def)

lemma join_u2: "push_bit 8 (ucast (ucast (drop_bit 8 w) :: u1)) OR ucast (ucast w :: u1) = (w :: u2)"
  by (rule bit_eqI) (auto simp: bit_simps)

lemma join_u4: "push_bit 16 (ucast (ucast (drop_bit 16 w) :: u2)) OR ucast (ucast w :: u2) = (w :: u4)"
  by (rule bit_eqI) (auto simp: bit_simps)

lemma reads_u2: "reads read_u2 (u2_bytes w) w"
  unfolding read_u2_def
  by (rule reads_bind [OF reads_u1 reads_bind [OF reads_u1]]) (auto simp: u2_bytes_def join_u2)

lemma reads_u4: "reads read_u4 (u4_bytes w) w"
  unfolding read_u4_def
  by (rule reads_bind [OF reads_u2 reads_bind [OF reads_u2]]) (auto simp: u4_bytes_def join_u4)

fun constant_bytes :: "cp_info \<Rightarrow> u1 list" where
  "constant_bytes (CONSTANT_Utf8 s) = [1] @ u2_bytes (of_nat (length s)) @ map of_char s"
| "constant_bytes (CONSTANT_Integer v) = [3] @ u4_bytes v"
| "constant_bytes (CONSTANT_Class i) = [7] @ u2_bytes i"
| "constant_bytes (CONSTANT_Fieldref c n) = [9] @ u2_bytes c @ u2_bytes n"
| "constant_bytes (CONSTANT_Methodref c n) = [10] @ u2_bytes c @ u2_bytes n"
| "constant_bytes (CONSTANT_NameAndType n d) = [12] @ u2_bytes n @ u2_bytes d"

fun constant_fits :: "cp_info \<Rightarrow> bool" where
  "constant_fits (CONSTANT_Utf8 s) \<longleftrightarrow> length s < 65536"
| "constant_fits _ \<longleftrightarrow> True"

lemma char_of_u1_of_char: "char_of_u1 (of_char c) = c"
  using unat_of_nat_byte [OF nat_of_char_less_256, of c] by (simp add: char_of_u1_def of_nat_of_char)

lemma reads_constant_info:
  assumes "constant_fits c"
  shows "reads get_constant_info (constant_bytes c) c"
proof (cases c)
  case (CONSTANT_Utf8 s)
  have len: "unat (of_nat (length s) :: u2) = length s"
    using assms CONSTANT_Utf8 by (simp add: unat_of_nat take_bit_eq_mod)
  show ?thesis
    unfolding get_constant_info_def CONSTANT_Utf8 constant_bytes.simps
    by (rule reads_bind [OF reads_u1 _ refl], simp,
        rule reads_bind [OF reads_u2 _ refl],
        rule reads_bind [of _ "map of_char s" "map of_char s" _ "[]"], rule reads_bytes)
      (auto simp: len comp_def char_of_u1_of_char)
next
  case (CONSTANT_Integer v)
  show ?thesis
    unfolding get_constant_info_def CONSTANT_Integer constant_bytes.simps
    by (rule reads_bind [OF reads_u1 _ refl], simp, rule reads_bind [OF reads_u4]) auto
next
  case (CONSTANT_Class i)
  show ?thesis
    unfolding get_constant_info_def CONSTANT_Class constant_bytes.simps
    by (rule reads_bind [OF reads_u1 _ refl], simp, rule reads_bind [OF reads_u2]) auto
next
  case (CONSTANT_Fieldref x y)
  show ?thesis
    unfolding get_constant_info_def CONSTANT_Fieldref constant_bytes.simps
    by (rule reads_bind [OF reads_u1 _ refl], simp, rule reads_bind [OF reads_u2 reads_bind [OF reads_u2]]) auto
next
  case (CONSTANT_Methodref x y)
  show ?thesis
    unfolding get_constant_info_def CONSTANT_Methodref constant_bytes.simps
    by (rule reads_bind [OF reads_u1 _ refl], simp, rule reads_bind [OF reads_u2 reads_bind [OF reads_u2]]) auto
next
  case (CONSTANT_NameAndType x y)
  show ?thesis
    unfolding get_constant_info_def CONSTANT_NameAndType constant_bytes.simps
    by (rule reads_bind [OF reads_u1 _ refl], simp, rule reads_bind [OF reads_u2 reads_bind [OF reads_u2]]) auto
qed

lemma reads_constants:
  "\<forall>c \<in> set cs. constant_fits c \<Longrightarrow> reads (get_constants (length cs)) (concat (map constant_bytes cs)) cs"
proof (induction cs)
  case Nil
  then show ?case by (auto simp: reads_def)
next
  case (Cons c cs)
  have "reads (\<lambda>f. Option.bind (get_constant_info f) (\<lambda>(d, f). Option.bind (get_constants (length cs) f)
      (\<lambda>(ds, f). Some (d # ds, f)))) (constant_bytes c @ concat (map constant_bytes cs) @ []) (c # cs)"
    by (rule reads_bind [OF reads_constant_info reads_bind [OF Cons.IH]]) (use Cons.prems in auto)
  then show ?case by simp
qed

text \<open>
  A method as it stands in a file: its attributes are those before the code, the code with
  whatever follows the instructions, and those after it.
\<close>

record method_source =
  s_flags :: u2
  s_name :: u2
  s_descriptor :: u2
  s_before :: "(u2 \<times> u1 list) list"
  s_code_name :: u2
  s_code :: code
  s_extra :: "u1 list"
  s_after :: "(u2 \<times> u1 list) list"

definition code_body :: "code \<Rightarrow> u1 list \<Rightarrow> u1 list" where
  "code_body c extra =
     u2_bytes (max_stack c) @ u2_bytes (max_locals c) @ u4_bytes (code_length c) @ code_bytes c @ extra"

fun attribute_bytes :: "u2 \<times> u1 list \<Rightarrow> u1 list" where
  "attribute_bytes (i, body) = u2_bytes i @ u4_bytes (of_nat (length body)) @ body"

definition s_attributes :: "method_source \<Rightarrow> (u2 \<times> u1 list) list" where
  "s_attributes m = s_before m @ (s_code_name m, code_body (s_code m) (s_extra m)) # s_after m"

definition method_bytes :: "method_source \<Rightarrow> u1 list" where
  "method_bytes m = u2_bytes (s_flags m) @ u2_bytes (s_name m) @ u2_bytes (s_descriptor m)
     @ u2_bytes (of_nat (length (s_attributes m))) @ concat (map attribute_bytes (s_attributes m))"

fun plain_attribute :: "cp_info list \<Rightarrow> u2 \<times> u1 list \<Rightarrow> bool" where
  "plain_attribute pool (i, body) \<longleftrightarrow>
     (case const_string pool i of None \<Rightarrow> False | Some n \<Rightarrow> c_string n \<noteq> ''Code'') \<and> length body < 2 ^ 32"

definition method_fits :: "cp_info list \<Rightarrow> method_source \<Rightarrow> bool" where
  "method_fits pool m \<longleftrightarrow>
     (case const_string pool (s_name m) of None \<Rightarrow> False
      | Some n \<Rightarrow> c_string n = ''<init>'' \<or> s_flags m AND IS_STATIC \<noteq> 0)
     \<and> const_string pool (s_descriptor m) \<noteq> None
     \<and> length (s_attributes m) < 65536
     \<and> list_all (plain_attribute pool) (s_before m) \<and> list_all (plain_attribute pool) (s_after m)
     \<and> map_option c_string (const_string pool (s_code_name m)) = Some ''Code''
     \<and> length (code_body (s_code m) (s_extra m)) < 2 ^ 32
     \<and> unat (code_length (s_code m)) = length (code_bytes (s_code m))"

definition method_of :: "cp_info list \<Rightarrow> method_source \<Rightarrow> java_method" where
  "method_of pool m = \<lparr>mname = the (const_string pool (s_name m)),
     descriptor = the (const_string pool (s_descriptor m)), mcode = s_code m\<rparr>"

lemma unat_of_nat_u4: "n < 2 ^ 32 \<Longrightarrow> unat (of_nat n :: u4) = n"
  by (simp add: unat_of_nat take_bit_eq_mod)

lemma unat_of_nat_u2: "n < 65536 \<Longrightarrow> unat (of_nat n :: u2) = n"
  by (simp add: unat_of_nat take_bit_eq_mod)

text \<open>The name and the length of an attribute, and the jump behind its body.\<close>

lemma attribute_start:
  assumes "ahead f = attribute_bytes (i, body) @ rest" and "length body < 2 ^ 32"
  shows "read_u2 f = Some (i, adv 2 f)" and "read_u4 (adv 2 f) = Some (of_nat (length body), adv 6 f)"
    and "ahead (adv 6 f) = body @ rest"
    and "f\<lparr>fpos := fpos (adv 6 f) + unat (of_nat (length body) :: u4)\<rparr> = adv (6 + length body) f"
    and "ahead (adv (6 + length body) f) = rest"
proof -
  let ?l = "of_nat (length body) :: u4"
  have f: "ahead f = u2_bytes i @ (u4_bytes ?l @ body @ rest)" using assms(1) by simp
  then have f2: "ahead (adv 2 f) = u4_bytes ?l @ (body @ rest)" by (simp add: ahead_adv)
  then show f6: "ahead (adv 6 f) = body @ rest" using ahead_adv [of 4 "adv 2 f"] by simp
  show "read_u2 f = Some (i, adv 2 f)" using readsD [OF reads_u2 f] by simp
  show "read_u4 (adv 2 f) = Some (?l, adv 6 f)" using readsD [OF reads_u4 f2] by simp
  show "f\<lparr>fpos := fpos (adv 6 f) + unat ?l\<rparr> = adv (6 + length body) f"
    unfolding unat_of_nat_u4 [OF assms(2)] by (simp add: adv_def ac_simps)
  show "ahead (adv (6 + length body) f) = rest" using ahead_adv [of "length body" "adv 6 f"] f6 by simp
qed

lemma adv_seek: "(adv n f)\<lparr>fpos := k\<rparr> = f\<lparr>fpos := k\<rparr>"
  by (simp add: adv_def)

lemma read_plain_attribute:
  assumes f: "ahead f = attribute_bytes (i, body) @ rest" and plain: "plain_attribute pool (i, body)"
  shows "read_attributes (Suc n) found pool f = read_attributes n found pool (adv (6 + length body) f)"
proof -
  have len: "length body < 2 ^ 32" using plain by simp
  note st = attribute_start [OF f len]
  obtain nm where "const_string pool i = Some nm" "c_string nm \<noteq> ''Code''"
    using plain by (auto split: option.splits)
  then show ?thesis using st(1,2,4) by (simp add: Let_def adv_seek del: fpos_adv)
qed

lemma reads_code:
  assumes "unat (code_length c) = length (code_bytes c)"
  shows "reads read_code (u2_bytes (max_stack c) @ u2_bytes (max_locals c) @ u4_bytes (code_length c)
    @ code_bytes c @ []) c"
  unfolding read_code_def
  by (rule reads_bind [OF reads_u2 _ refl], rule reads_bind [OF reads_u2 _ refl],
      rule reads_bind [OF reads_u4 _ refl], rule reads_bind [OF reads_bytes _ refl])
    (use assms in \<open>auto simp: reads_def\<close>)

lemma read_code_attribute:
  assumes f: "ahead f = attribute_bytes (i, code_body c extra) @ rest"
    and name: "map_option c_string (const_string pool i) = Some ''Code''"
    and len: "length (code_body c extra) < 2 ^ 32" and cl: "unat (code_length c) = length (code_bytes c)"
  shows "read_attributes (Suc n) None pool f
       = read_attributes n (Some c) pool (adv (6 + length (code_body c extra)) f)"
proof -
  note st = attribute_start [OF f len]
  obtain nm where nm: "const_string pool i = Some nm" "c_string nm = ''Code''" using name by auto
  have "read_code (adv 6 f) = Some (c, adv (14 + length (code_bytes c)) f)"
    using readsD [OF reads_code [OF cl], of "adv 6 f" "extra @ rest"] st(3) by (simp add: code_body_def)
  then show ?thesis using st(1,2,4) nm by (simp add: Let_def adv_seek del: fpos_adv)
qed

lemma read_plain_attributes:
  "list_all (plain_attribute pool) as \<Longrightarrow> ahead f = concat (map attribute_bytes as) @ rest
   \<Longrightarrow> read_attributes (length as + n) found pool f
     = read_attributes n found pool (adv (length (concat (map attribute_bytes as))) f)"
proof (induction as arbitrary: f)
  case (Cons a as)
  obtain i body where a: "a = (i, body)" by (cases a)
  have f: "ahead f = attribute_bytes (i, body) @ (concat (map attribute_bytes as) @ rest)" using Cons.prems a by simp
  have p: "plain_attribute pool (i, body)" using Cons.prems a by simp
  then have "ahead (adv (6 + length body) f) = concat (map attribute_bytes as) @ rest"
    using attribute_start(5) [OF f] by simp
  from Cons.IH [OF _ this] show ?case
    using Cons.prems read_plain_attribute [OF f p, of "length as + n" found] a
    by (simp add: add.assoc del: read_attributes.simps)
qed simp

lemma reads_method_attributes:
  assumes fits: "method_fits pool m" and n: "unat (attributes_count info) = length (s_attributes m)"
  shows "reads (\<lambda>f. read_method_attributes f info pool) (concat (map attribute_bytes (s_attributes m))) (s_code m)"
  unfolding reads_def
proof (intro allI impI)
  fix f rest
  let ?b = "concat (map attribute_bytes (s_before m))" and ?a = "concat (map attribute_bytes (s_after m))"
  let ?body = "code_body (s_code m) (s_extra m)" and ?i = "s_code_name m"
  assume "ahead f = concat (map attribute_bytes (s_attributes m)) @ rest"
  then have f: "ahead f = ?b @ (attribute_bytes (?i, ?body) @ ?a @ rest)" by (simp add: s_attributes_def)
  define g where "g = adv (length ?b) f"
  have g: "ahead g = attribute_bytes (?i, ?body) @ (?a @ rest)" using f by (simp add: g_def ahead_adv)
  define h where "h = adv (6 + length ?body) g"
  have len: "length ?body < 2 ^ 32" using fits by (simp add: method_fits_def)
  have h: "ahead h = ?a @ rest" unfolding h_def by (rule attribute_start(5) [OF g len])
  have "read_attributes (length (s_attributes m)) None pool f = read_attributes (Suc (length (s_after m))) None pool g"
    unfolding g_def using read_plain_attributes [OF _ f, of pool "Suc (length (s_after m))" None] fits
    by (simp add: s_attributes_def method_fits_def del: read_attributes.simps)
  also have "\<dots> = read_attributes (length (s_after m)) (Some (s_code m)) pool h"
    unfolding h_def by (rule read_code_attribute [OF g]) (use fits in \<open>simp_all add: method_fits_def\<close>)
  also have "\<dots> = Some (Some (s_code m), adv (length ?a) h)"
    using read_plain_attributes [OF _ h, of pool 0 "Some (s_code m)"] fits by (simp add: method_fits_def)
  finally show "read_method_attributes f info pool
      = Some (s_code m, adv (length (concat (map attribute_bytes (s_attributes m)))) f)"
    by (simp add: read_method_attributes_def n h_def g_def s_attributes_def add.assoc)
qed

lemma reads_method_list:
  "list_all (method_fits pool) ms
   \<Longrightarrow> reads (get_method_list (length ms) pool) (concat (map method_bytes ms)) (map (method_of pool) ms)"
proof (induction ms)
  case Nil
  then show ?case by (auto simp: reads_def)
next
  case (Cons m ms)
  have fits: "method_fits pool m" using Cons.prems by simp
  obtain n d where n: "const_string pool (s_name m) = Some n"
    and st: "\<not> (c_string n \<noteq> ''<init>'' \<and> s_flags m AND IS_STATIC = 0)"
    and d: "const_string pool (s_descriptor m) = Some d"
    and l: "length (s_attributes m) < 65536"
    using fits by (auto simp: method_fits_def split: option.splits)
  have mo: "method_of pool m = \<lparr>mname = n, descriptor = d, mcode = s_code m\<rparr>" by (simp add: method_of_def n d)
  have eq: "concat (map method_bytes (m # ms)) = u2_bytes (s_flags m) @ u2_bytes (s_name m) @ u2_bytes (s_descriptor m)
     @ u2_bytes (of_nat (length (s_attributes m))) @ concat (map attribute_bytes (s_attributes m))
     @ concat (map method_bytes ms) @ []"
    by (simp add: method_bytes_def)
  show ?case
    unfolding eq list.size(4) add_Suc_right add_0_right get_method_list.simps Let_def
    by (rule reads_bind [OF reads_u2 _ refl], rule reads_bind [OF reads_u2 _ refl],
        rule reads_bind [OF reads_u2 _ refl], rule reads_bind [OF reads_u2 _ refl], simp add: n d st,
        rule reads_bind [OF reads_method_attributes [OF fits] reads_bind [OF Cons.IH]])
      (use Cons.prems l mo in \<open>auto simp: unat_of_nat_u2\<close>)
qed

text \<open>A whole class file.\<close>

definition class_bytes :: "u2 \<Rightarrow> u2 \<Rightarrow> cp_info list \<Rightarrow> class_info \<Rightarrow> method_source list \<Rightarrow> u1 list" where
  "class_bytes v w pool info ms = u4_bytes CLASS_MAGIC @ u2_bytes v @ u2_bytes w
     @ u2_bytes (of_nat (length pool + 1)) @ concat (map constant_bytes pool)
     @ u2_bytes (access_flags info) @ u2_bytes (this_class info) @ u2_bytes (super_class info)
     @ u2_bytes 0 @ u2_bytes 0
     @ u2_bytes (of_nat (length ms)) @ concat (map method_bytes ms)"

definition class_fits :: "cp_info list \<Rightarrow> method_source list \<Rightarrow> bool" where
  "class_fits pool ms \<longleftrightarrow> length pool < 65535 \<and> list_all constant_fits pool
     \<and> length ms < 65536 \<and> list_all (method_fits pool) ms"

lemma reads_class_header:
  "reads get_class_header (u4_bytes CLASS_MAGIC @ u2_bytes v @ u2_bytes w)
     \<lparr>magic = CLASS_MAGIC, minor_version = w, major_version = v\<rparr>"
  unfolding get_class_header_def
  by (rule reads_bind [OF reads_u4 _ refl], simp, rule reads_bind [OF reads_u2 _ refl],
      rule reads_bind [OF reads_u2, where cs = "[]"]) auto

lemma reads_constant_pool:
  assumes "length pool < 65535" and "list_all constant_fits pool"
  shows "reads get_constant_pool (u2_bytes (of_nat (length pool + 1)) @ concat (map constant_bytes pool)) pool"
proof -
  have "unat (of_nat (length pool + 1) - 1 :: u2) = length pool"
    using assms(1) unat_of_nat_u2 [of "length pool"] by simp
  then show ?thesis
    unfolding get_constant_pool_def using reads_constants [of pool] assms(2)
    by (intro reads_bind [OF reads_u2 _ refl]) (simp add: list_all_iff)
qed

lemma reads_class_info:
  "reads get_class_info (u2_bytes (access_flags info) @ u2_bytes (this_class info) @ u2_bytes (super_class info)
     @ u2_bytes 0 @ u2_bytes 0) info"
  unfolding get_class_info_def
  by (rule reads_bind [OF reads_u2 _ refl], rule reads_bind [OF reads_u2 _ refl],
      rule reads_bind [OF reads_u2 _ refl], rule reads_bind [OF reads_u2 _ refl], simp,
      rule reads_bind [OF reads_u2, where cs = "[]"]) (auto simp: reads_def)

lemma reads_methods:
  assumes "length ms < 65536" and "list_all (method_fits pool) ms"
  shows "reads (\<lambda>f. get_methods f pool) (u2_bytes (of_nat (length ms)) @ concat (map method_bytes ms))
     (map (method_of pool) ms)"
  unfolding get_methods_def
  by (rule reads_bind [OF reads_u2 _ refl])
    (use assms reads_method_list in \<open>simp add: unat_of_nat_u2\<close>)

lemma get_class_bytes:
  assumes "class_fits pool ms"
  shows "get_class \<lparr>contents = class_bytes v w pool info ms @ rest, fpos = 0\<rparr>
       = Some \<lparr>constant_pool = pool, methods = map (method_of pool) ms\<rparr>"
proof -
  let ?H = "u4_bytes CLASS_MAGIC @ u2_bytes v @ u2_bytes w"
  let ?P = "u2_bytes (of_nat (length pool + 1)) @ concat (map constant_bytes pool)"
  let ?I = "u2_bytes (access_flags info) @ u2_bytes (this_class info) @ u2_bytes (super_class info) @ u2_bytes 0 @ u2_bytes 0"
  let ?M = "u2_bytes (of_nat (length ms)) @ concat (map method_bytes ms)"
  let ?c = "\<lparr>constant_pool = pool, methods = map (method_of pool) ms\<rparr>"
  define f where "f = \<lparr>contents = class_bytes v w pool info ms @ rest, fpos = 0\<rparr>"
  have f: "ahead f = ?H @ (?P @ ?I @ ?M @ rest)" by (simp add: f_def ahead_def class_bytes_def)
  define f1 where "f1 = adv (length ?H) f"
  have f1: "ahead f1 = ?P @ (?I @ ?M @ rest)" unfolding f1_def ahead_adv f by simp
  define f2 where "f2 = adv (length ?P) f1"
  have f2: "ahead f2 = ?I @ (?M @ rest)" unfolding f2_def ahead_adv f1 by simp
  define f3 where "f3 = adv (length ?I) f2"
  have f3: "ahead f3 = ?M @ rest" unfolding f3_def ahead_adv f2 by simp
  have "get_constant_pool f1 = Some (pool, f2)"
    unfolding f2_def by (rule readsD [OF reads_constant_pool f1]) (use assms in \<open>simp_all add: class_fits_def\<close>)
  moreover have "\<exists>f4. get_methods f3 pool = Some (map (method_of pool) ms, f4)"
    using readsD [OF reads_methods f3, of pool] assms by (simp add: class_fits_def)
  ultimately show ?thesis
    using readsD [OF reads_class_header f] readsD [OF reads_class_info f2]
    unfolding f_def [symmetric] f1_def [symmetric] f3_def [symmetric] by (auto simp: get_class_def)
qed

text \<open>\<^verbatim>\<open>free_class\<close> releases every block of the class, each of them once.\<close>

lemma free_class_exact:
  "distinct (free_class cls)
   \<and> set (free_class cls) = {Pool, Methods, Class} \<union> Info ` {..<length (constant_pool cls)}
       \<union> Code ` {..<length (methods cls)}"
  by (auto simp: free_class_def distinct_map inj_on_def atLeast0LessThan)

section \<open>The number of parameters\<close>

text \<open>The descriptor of one parameter: an int or an array of ints.\<close>

definition param_string :: "bool \<Rightarrow> string" where
  "param_string is_array = (if is_array then ''[I'' else ''I'')"

lemma strchr_append:
  "c \<notin> set s \<Longrightarrow> nul \<notin> set s \<Longrightarrow> strchr (s @ t) c = map_option (\<lambda>k. length s + k) (strchr t c)"
  by (induction s) (cases "strchr t c"; auto)+

lemma param_loop_params:
  assumes "drop i d = concat (map param_string ps) @ CHR '')'' # rest"
  shows "param_loop d i (i + length (concat (map param_string ps))) n = n + of_nat (length ps)"
  using assms
proof (induction ps arbitrary: i n)
  case Nil
  then show ?case by simp
next
  case (Cons p ps)
  let ?k = "length (param_string p)"
  have "drop (i + ?k) d = drop ?k (drop i d)" by (simp add: add.commute)
  also have "\<dots> = concat (map param_string ps) @ CHR '')'' # rest" unfolding Cons.prems by simp
  finally have IH: "param_loop d (i + ?k) (i + ?k + length (concat (map param_string ps))) (n + 1)
      = n + 1 + of_nat (length ps)" by (rule Cons.IH)
  have "i < length d" using Cons.prems by (cases "i < length d") auto
  then have "d ! i = hd (drop i d)" by (simp add: hd_drop_conv_nth)
  then have "(if d ! i = CHR ''['' then i + 1 else i) + 1 = i + ?k" and "0 < ?k"
    using Cons.prems by (auto simp: param_string_def)
  then show ?case using IH by (subst param_loop.simps) (simp add: add.assoc del: param_loop.simps)
qed

lemma number_of_parameters:
  assumes "descriptor m = CHR ''('' # concat (map param_string ps) @ CHR '')'' # ret"
  shows "get_number_of_parameters m = Some (of_nat (length ps))"
proof -
  let ?s = "concat (map param_string ps)"
  have "CHR '')'' \<notin> set ?s" "nul \<notin> set ?s" by (auto simp: param_string_def nul_def split: if_splits)
  then have "strchr (descriptor m) CHR '')'' = Some (1 + length ?s)"
    by (simp add: assms strchr_append nul_def)
  moreover have "strchr (descriptor m) CHR ''('' = Some 0" by (simp add: assms)
  moreover have "param_loop (descriptor m) 1 (1 + length ?s) 0 = 0 + of_nat (length ps)"
    by (rule param_loop_params [of _ _ _ ret]) (simp add: assms)
  ultimately show ?thesis by (simp add: get_number_of_parameters_def del: param_loop.simps)
qed

section \<open>Properties\<close>

text \<open>
  C19: the reader inverts the class file format. For every constant pool and list of methods
  that fit the format's length fields, whatever other attributes a method has around its code and
  whatever bytes follow, reading the file returns exactly that pool and those methods with their
  names, descriptors and code.
\<close>

theorem get_class_roundtrip:
  assumes "class_fits pool ms"
  shows "get_class \<lparr>contents = class_bytes v w pool info ms @ rest, fpos = 0\<rparr>
       = Some \<lparr>constant_pool = pool, methods = map (method_of pool) ms\<rparr>"
  by (rule get_class_bytes [OF assms])

definition sample_pool :: "cp_info list" where
  "sample_pool = [CONSTANT_Utf8 ''main'', CONSTANT_Utf8 ''([Ljava/lang/String;)V'', CONSTANT_Utf8 ''Code'',
     CONSTANT_Integer 70000, CONSTANT_Utf8 ''Deprecated'']"

definition sample_method :: method_source where
  "sample_method = \<lparr>s_flags = 9, s_name = 1, s_descriptor = 2, s_before = [(5, [])], s_code_name = 3,
     s_code = \<lparr>max_stack = 2, max_locals = 1, code_length = 9,
       code_bytes = [0xb2, 0, 1, 0x12, 4, 0xb6, 0, 2, 0xb1]\<rparr>,
     s_extra = [0, 0, 0, 0], s_after = []\<rparr>"

theorem get_class_roundtrip_witness:
  "map_option (map mname \<circ> methods) (get_class \<lparr>contents = class_bytes 0 55 sample_pool
     \<lparr>access_flags = 33, this_class = 1, super_class = 1\<rparr> [sample_method], fpos = 0\<rparr>) = Some [''main'']"
proof -
  have "class_fits sample_pool [sample_method]"
    by (simp add: class_fits_def sample_pool_def sample_method_def method_fits_def s_attributes_def code_body_def
        const_string_def get_constant_def constant_pool_size_def nul_def IS_STATIC_def)
  from get_class_roundtrip [OF this, of 0 55 _ "[]"]
  have "get_class \<lparr>contents = class_bytes 0 55 sample_pool
     \<lparr>access_flags = 33, this_class = 1, super_class = 1\<rparr> [sample_method], fpos = 0\<rparr>
     = Some \<lparr>constant_pool = sample_pool, methods = map (method_of sample_pool) [sample_method]\<rparr>" by simp
  moreover have "mname (method_of sample_pool sample_method) = ''main''" by code_simp
  ultimately show ?thesis by simp
qed

text \<open>
  For a descriptor whose parameters are ints and arrays of ints, the number of parameters
  that \<^verbatim>\<open>get_number_of_parameters\<close> counts is their number, whatever the return type.
\<close>

theorem parameters_counted:
  assumes "descriptor m = CHR ''('' # concat (map param_string ps) @ CHR '')'' # ret"
  shows "get_number_of_parameters m = Some (of_nat (length ps))"
  by (rule number_of_parameters [OF assms])

theorem parameters_counted_witness:
  "get_number_of_parameters \<lparr>mname = ''f'', descriptor = ''(I[II)V'', mcode = s_code sample_method\<rparr> = Some 3"
  using parameters_counted [of "\<lparr>mname = ''f'', descriptor = ''(I[II)V'', mcode = s_code sample_method\<rparr>"
      "[False, True, False]" "''V''"]
  by (simp add: param_string_def)

end
