(* ===== verification/Jvm_Heap.thy ===== *)
theory Jvm_Heap
  imports Prelude
begin

text \<open>
  The heap of the Java virtual machine (\<^verbatim>\<open>src/java-virtual-machine/heap.c\<close>): a growing array of
  pointers to int arrays, where a reference is an index. The locale \<open>ref_heap\<close> is what the
  interpreter relies on.
\<close>

locale ref_heap =
  fixes valid :: "'h \<Rightarrow> bool"
    and add :: "'h \<Rightarrow> 'a \<Rightarrow> 'r \<times> 'h"
    and get :: "'h \<Rightarrow> 'r \<Rightarrow> 'a option"
    and set :: "'h \<Rightarrow> 'r \<Rightarrow> 'a \<Rightarrow> 'h"
  assumes get_new: "valid h \<Longrightarrow> add h a = (r, h') \<Longrightarrow> get h' r = Some a"
    and get_old: "valid h \<Longrightarrow> add h a = (r, h') \<Longrightarrow> get h s = Some b \<Longrightarrow> get h' s = Some b"
    and add_fresh: "valid h \<Longrightarrow> add h a = (r, h') \<Longrightarrow> get h r = None"
    and get_set: "valid h \<Longrightarrow> get h r = Some b \<Longrightarrow> get (set h r a) s = (if s = r then Some a else get h s)"
    and set_valid: "valid h \<Longrightarrow> get h r = Some b \<Longrightarrow> valid (set h r a)"
begin

text \<open>A new array is not reachable through any reference that was in use, and writing to it leaves those alone.\<close>

lemma no_alias:
  assumes "valid h" and "add h a = (r, h')" and "get h s = Some b" and "valid h'"
  shows "s \<noteq> r \<and> get (set h' r c) s = Some b"
proof -
  have "s \<noteq> r" using add_fresh [OF assms(1,2)] assms(3) by auto
  then show ?thesis using get_set [OF assms(4) get_new [OF assms(1,2)]] get_old [OF assms(1-3)] by simp
qed

end

record jheap =
  ptrs :: "i32 list list"
  count :: i32

definition heap_init :: jheap where
  "heap_init = \<lparr>ptrs = [], count = 0\<rparr>"

definition heap_add :: "jheap \<Rightarrow> i32 list \<Rightarrow> i32 \<times> jheap" where
  "heap_add h ptr = (count h, \<lparr>ptrs = take (unat (count h)) (ptrs h) @ [ptr], count = count h + 1\<rparr>)"

text \<open>An index outside the array of pointers is \<^const>\<open>None\<close>.\<close>

definition heap_get :: "jheap \<Rightarrow> i32 \<Rightarrow> i32 list option" where
  "heap_get h ref = (if 0 \<le> sint ref \<and> nat (sint ref) < length (ptrs h) then Some (ptrs h ! nat (sint ref)) else None)"

text \<open>A store through the pointer that \<^const>\<open>heap_get\<close> returns.\<close>

definition heap_put :: "jheap \<Rightarrow> i32 \<Rightarrow> i32 list \<Rightarrow> jheap" where
  "heap_put h ref arr = h\<lparr>ptrs := (ptrs h)[nat (sint ref) := arr]\<rparr>"

definition heap_free :: "jheap \<Rightarrow> i32 list list" where
  "heap_free h = take (unat (count h)) (ptrs h)"

definition heap_ok :: "jheap \<Rightarrow> bool" where
  "heap_ok h \<longleftrightarrow> length (ptrs h) = unat (count h) \<and> length (ptrs h) < 2 ^ 31 - 1"

lemma heap_init_ok: "heap_ok heap_init"
  by (simp add: heap_ok_def heap_init_def)

lemma sint_i32_small: "uint w < 2 ^ 31 \<Longrightarrow> sint (w :: i32) = uint w"
proof -
  assume "uint w < 2 ^ 31"
  moreover have "- (2 ^ 31) \<le> uint w" by (rule order_trans [OF _ uint_ge_0]) simp
  ultimately have "signed_take_bit 31 (uint w) = uint w" by (intro signed_take_bit_int_eq_self)
  moreover have "LENGTH(32) - Suc 0 = 31" by simp
  ultimately show ?thesis using sint_uint [of w] by (simp only:)
qed

lemma sint_count: "heap_ok h \<Longrightarrow> sint (count h) = int (length (ptrs h))"
proof -
  assume "heap_ok h"
  then have l: "length (ptrs h) = unat (count h)" "length (ptrs h) < 2 ^ 31" by (auto simp: heap_ok_def)
  then have "uint (count h) = int (length (ptrs h))" by simp
  moreover have "int (length (ptrs h)) < 2 ^ 31" using l(2) by simp
  ultimately show ?thesis using sint_i32_small [of "count h"] by (simp only:)
qed

lemma sint_inj: "sint (r :: i32) = sint s \<Longrightarrow> r = s"
  by (rule signed_word_eqI)

lemma nat_sint_inj: "0 \<le> sint r \<Longrightarrow> 0 \<le> sint s \<Longrightarrow> nat (sint r) = nat (sint s) \<longleftrightarrow> r = (s :: i32)"
  using sint_inj by (auto simp: eq_nat_nat_iff)

interpretation arrays: ref_heap heap_ok heap_add heap_get heap_put
proof
  fix h :: jheap and a b :: "i32 list" and r s :: i32 and h'
  assume ok: "heap_ok h"
  have full: "take (unat (count h)) (ptrs h) = ptrs h" using ok by (simp add: heap_ok_def)
  show "heap_add h a = (r, h') \<Longrightarrow> heap_get h' r = Some a"
    using sint_count [OF ok] full by (auto simp: heap_add_def heap_get_def)
  show "heap_add h a = (r, h') \<Longrightarrow> heap_get h s = Some b \<Longrightarrow> heap_get h' s = Some b"
    using full by (auto simp: heap_add_def heap_get_def nth_append split: if_splits)
  show "heap_add h a = (r, h') \<Longrightarrow> heap_get h r = None"
    using sint_count [OF ok] by (auto simp: heap_add_def heap_get_def)
  show "heap_get h r = Some b \<Longrightarrow> heap_get (heap_put h r a) s = (if s = r then Some a else heap_get h s)"
    by (simp add: heap_get_def heap_put_def nat_sint_inj nth_list_update split: if_splits)
  show "heap_get h r = Some b \<Longrightarrow> heap_ok (heap_put h r a)"
    using ok by (simp add: heap_ok_def heap_put_def)
qed

text \<open>While fewer than the greatest number of arrays exist, the heap stays well formed and all arrays are released.\<close>

lemma heap_add_ok: "heap_ok h \<Longrightarrow> length (ptrs h) < 2 ^ 31 - 2 \<Longrightarrow> heap_ok (snd (heap_add h a))"
  by (auto simp: heap_ok_def heap_add_def unat_word_ariths unat_of_nat)

lemma heap_free_all: "heap_ok h \<Longrightarrow> heap_free h = ptrs h"
  by (simp add: heap_free_def heap_ok_def)

end
