(* ===== verification/Jvm.thy ===== *)
theory Jvm
  imports Class_File Jvm_Heap
begin

text \<open>
  The interpreter of the Java virtual machine (\<^verbatim>\<open>src/java-virtual-machine/jvm.c\<close>): the handler
  of every instruction over a frame (operand stack, stack pointer, program counter, locals) and
  the loop \<^verbatim>\<open>execute\<close>. An access outside one of the arrays is an error of its own, as the build's
  address sanitizer reports it; signed arithmetic wraps around, shift counts are taken modulo 32
  as the processor does, and a division that traps is an error. The loop takes fuel, one unit per
  instruction.
\<close>

section \<open>Opcodes\<close>

definition i_nop :: u1 where "i_nop = 0x0"
definition i_iconst_m1 :: u1 where "i_iconst_m1 = 0x2"
definition i_iconst_0 :: u1 where "i_iconst_0 = 0x3"
definition i_iconst_1 :: u1 where "i_iconst_1 = 0x4"
definition i_iconst_2 :: u1 where "i_iconst_2 = 0x5"
definition i_iconst_3 :: u1 where "i_iconst_3 = 0x6"
definition i_iconst_4 :: u1 where "i_iconst_4 = 0x7"
definition i_iconst_5 :: u1 where "i_iconst_5 = 0x8"
definition i_bipush :: u1 where "i_bipush = 0x10"
definition i_sipush :: u1 where "i_sipush = 0x11"
definition i_ldc :: u1 where "i_ldc = 0x12"
definition i_iload :: u1 where "i_iload = 0x15"
definition i_aload :: u1 where "i_aload = 0x19"
definition i_iload_0 :: u1 where "i_iload_0 = 0x1a"
definition i_iload_1 :: u1 where "i_iload_1 = 0x1b"
definition i_iload_2 :: u1 where "i_iload_2 = 0x1c"
definition i_iload_3 :: u1 where "i_iload_3 = 0x1d"
definition i_aload_0 :: u1 where "i_aload_0 = 0x2a"
definition i_aload_1 :: u1 where "i_aload_1 = 0x2b"
definition i_aload_2 :: u1 where "i_aload_2 = 0x2c"
definition i_aload_3 :: u1 where "i_aload_3 = 0x2d"
definition i_iaload :: u1 where "i_iaload = 0x2e"
definition i_istore :: u1 where "i_istore = 0x36"
definition i_astore :: u1 where "i_astore = 0x3a"
definition i_istore_0 :: u1 where "i_istore_0 = 0x3b"
definition i_istore_1 :: u1 where "i_istore_1 = 0x3c"
definition i_istore_2 :: u1 where "i_istore_2 = 0x3d"
definition i_istore_3 :: u1 where "i_istore_3 = 0x3e"
definition i_astore_0 :: u1 where "i_astore_0 = 0x4b"
definition i_astore_1 :: u1 where "i_astore_1 = 0x4c"
definition i_astore_2 :: u1 where "i_astore_2 = 0x4d"
definition i_astore_3 :: u1 where "i_astore_3 = 0x4e"
definition i_iastore :: u1 where "i_iastore = 0x4f"
definition i_dup :: u1 where "i_dup = 0x59"
definition i_iadd :: u1 where "i_iadd = 0x60"
definition i_isub :: u1 where "i_isub = 0x64"
definition i_imul :: u1 where "i_imul = 0x68"
definition i_idiv :: u1 where "i_idiv = 0x6c"
definition i_irem :: u1 where "i_irem = 0x70"
definition i_ineg :: u1 where "i_ineg = 0x74"
definition i_ishl :: u1 where "i_ishl = 0x78"
definition i_ishr :: u1 where "i_ishr = 0x7a"
definition i_iushr :: u1 where "i_iushr = 0x7c"
definition i_iand :: u1 where "i_iand = 0x7e"
definition i_ior :: u1 where "i_ior = 0x80"
definition i_ixor :: u1 where "i_ixor = 0x82"
definition i_iinc :: u1 where "i_iinc = 0x84"
definition i_ifeq :: u1 where "i_ifeq = 0x99"
definition i_ifne :: u1 where "i_ifne = 0x9a"
definition i_iflt :: u1 where "i_iflt = 0x9b"
definition i_ifge :: u1 where "i_ifge = 0x9c"
definition i_ifgt :: u1 where "i_ifgt = 0x9d"
definition i_ifle :: u1 where "i_ifle = 0x9e"
definition i_if_icmpeq :: u1 where "i_if_icmpeq = 0x9f"
definition i_if_icmpne :: u1 where "i_if_icmpne = 0xa0"
definition i_if_icmplt :: u1 where "i_if_icmplt = 0xa1"
definition i_if_icmpge :: u1 where "i_if_icmpge = 0xa2"
definition i_if_icmpgt :: u1 where "i_if_icmpgt = 0xa3"
definition i_if_icmple :: u1 where "i_if_icmple = 0xa4"
definition i_goto :: u1 where "i_goto = 0xa7"
definition i_ireturn :: u1 where "i_ireturn = 0xac"
definition i_areturn :: u1 where "i_areturn = 0xb0"
definition i_return :: u1 where "i_return = 0xb1"
definition i_getstatic :: u1 where "i_getstatic = 0xb2"
definition i_invokevirtual :: u1 where "i_invokevirtual = 0xb6"
definition i_invokestatic :: u1 where "i_invokestatic = 0xb8"
definition i_newarray :: u1 where "i_newarray = 0xbc"
definition i_arraylength :: u1 where "i_arraylength = 0xbe"

lemmas opcode_defs =
  i_nop_def i_iconst_m1_def i_iconst_0_def i_iconst_1_def i_iconst_2_def i_iconst_3_def
  i_iconst_4_def i_iconst_5_def i_bipush_def i_sipush_def i_ldc_def i_iload_def i_aload_def
  i_iload_0_def i_iload_1_def i_iload_2_def i_iload_3_def i_aload_0_def i_aload_1_def
  i_aload_2_def i_aload_3_def i_iaload_def i_istore_def i_astore_def i_istore_0_def
  i_istore_1_def i_istore_2_def i_istore_3_def i_astore_0_def i_astore_1_def i_astore_2_def
  i_astore_3_def i_iastore_def i_dup_def i_iadd_def i_isub_def i_imul_def i_idiv_def i_irem_def
  i_ineg_def i_ishl_def i_ishr_def i_iushr_def i_iand_def i_ior_def i_ixor_def i_iinc_def
  i_ifeq_def i_ifne_def i_iflt_def i_ifge_def i_ifgt_def i_ifle_def i_if_icmpeq_def
  i_if_icmpne_def i_if_icmplt_def i_if_icmpge_def i_if_icmpgt_def i_if_icmple_def i_goto_def
  i_ireturn_def i_areturn_def i_return_def i_getstatic_def i_invokevirtual_def i_invokestatic_def
  i_newarray_def i_arraylength_def

section \<open>Frames\<close>

datatype jvm_error =
    StackFault | LocalsFault | CodeFault | PoolFault | HeapFault | DivideFault
  | AssertionFailed | UnhandledInstruction u1 | OutOfFuel

type_synonym 'a res = "jvm_error + 'a"

definition andthen :: "'a res \<Rightarrow> ('a \<Rightarrow> 'b res) \<Rightarrow> 'b res" where
  "andthen r f = (case r of Inl e \<Rightarrow> Inl e | Inr x \<Rightarrow> f x)"

lemma andthen_simps [simp]: "andthen (Inl e) f = Inl e" "andthen (Inr x) f = f x"
  by (simp_all add: andthen_def)

record frame =
  stack :: "i32 list"
  stack_p :: nat
  pc :: nat
  locals :: "i32 list"

text \<open>The heap and what has been printed.\<close>

record world =
  wheap :: jheap
  wout :: string

text \<open>\<^verbatim>\<open>stack[*stack_p - k]\<close>, read and written, and the write to \<^verbatim>\<open>stack[*stack_p]\<close>.\<close>

definition top :: "nat \<Rightarrow> frame \<Rightarrow> i32 res" where
  "top k fr = (if k \<le> stack_p fr \<and> stack_p fr - k < length (stack fr)
     then Inr (stack fr ! (stack_p fr - k)) else Inl StackFault)"

definition set_top :: "nat \<Rightarrow> i32 \<Rightarrow> frame \<Rightarrow> frame res" where
  "set_top k v fr = (if k \<le> stack_p fr \<and> stack_p fr - k < length (stack fr)
     then Inr (fr\<lparr>stack := (stack fr)[stack_p fr - k := v]\<rparr>) else Inl StackFault)"

definition push :: "i32 \<Rightarrow> frame \<Rightarrow> frame res" where
  "push v fr = andthen (set_top 0 v fr) (\<lambda>fr. Inr (fr\<lparr>stack_p := stack_p fr + 1\<rparr>))"

text \<open>Clear the element on top and remove it.\<close>

definition pop :: "frame \<Rightarrow> frame res" where
  "pop fr = andthen (set_top 1 0 fr) (\<lambda>fr. Inr (fr\<lparr>stack_p := stack_p fr - 1\<rparr>))"

definition get_local :: "nat \<Rightarrow> frame \<Rightarrow> i32 res" where
  "get_local i fr = (if i < length (locals fr) then Inr (locals fr ! i) else Inl LocalsFault)"

definition set_local :: "nat \<Rightarrow> i32 \<Rightarrow> frame \<Rightarrow> frame res" where
  "set_local i v fr = (if i < length (locals fr) then Inr (fr\<lparr>locals := (locals fr)[i := v]\<rparr>) else Inl LocalsFault)"

definition code_at :: "java_method \<Rightarrow> nat \<Rightarrow> u1 res" where
  "code_at m i = (if i < length (code_bytes (mcode m)) then Inr (code_bytes (mcode m) ! i) else Inl CodeFault)"

definition skip :: "nat \<Rightarrow> frame \<Rightarrow> frame" where
  "skip n fr = fr\<lparr>pc := pc fr + n\<rparr>"

text \<open>\<^verbatim>\<open>*pc += offset - 1\<close> on a \<^verbatim>\<open>size_t\<close>.\<close>

definition branch :: "int \<Rightarrow> frame \<Rightarrow> frame" where
  "branch offset fr = fr\<lparr>pc := nat ((int (pc fr) + (offset - 1)) mod 2 ^ 64)\<rparr>"

text \<open>The signed 16-bit operand \<^verbatim>\<open>(b1 << 8) | b2\<close>.\<close>

definition short :: "u1 \<Rightarrow> u1 \<Rightarrow> u2" where
  "short b1 b2 = push_bit 8 (ucast b1) OR ucast b2"

section \<open>Instruction handlers\<close>

definition div_traps :: "i32 \<Rightarrow> i32 \<Rightarrow> bool" where
  "div_traps a b \<longleftrightarrow> sint a = - (2 ^ 31) \<and> sint b = -1"

definition sdiv :: "i32 \<Rightarrow> i32 \<Rightarrow> i32" where
  "sdiv a b = word_of_int (quot (sint a) (sint b))"

text \<open>The \<^verbatim>\<open>switch\<close> of \<^verbatim>\<open>add_to_xor\<close>; a zero divisor in \<^verbatim>\<open>i_irem\<close> falls through to \<^verbatim>\<open>i_ineg\<close>.\<close>

definition arith :: "u1 \<Rightarrow> i32 \<Rightarrow> i32 \<Rightarrow> i32 res" where
  "arith cur_method a b =
     (if cur_method = i_iadd then Inr (a + b)
      else if cur_method = i_isub then Inr (a - b)
      else if cur_method = i_imul then Inr (a * b)
      else if cur_method = i_idiv then
        (if b \<noteq> 0 then if div_traps a b then Inl DivideFault else Inr (sdiv a b) else Inr 0)
      else if cur_method = i_irem \<and> b \<noteq> 0 then
        (if div_traps a b then Inl DivideFault else Inr (a - b * sdiv a b))
      else if cur_method = i_irem \<or> cur_method = i_ineg then Inr (- a)
      else if cur_method = i_ishl then Inr (push_bit (unat (b AND 31)) a)
      else if cur_method = i_ishr then Inr (signed_drop_bit (unat (b AND 31)) a)
      else if cur_method = i_iushr then Inr (drop_bit (unat (b AND 31)) a)
      else if cur_method = i_iand then Inr (a AND b)
      else if cur_method = i_ior then Inr (a OR b)
      else if cur_method = i_ixor then Inr (a XOR b)
      else Inr 0)"

definition add_to_xor :: "u1 \<Rightarrow> frame \<Rightarrow> frame res" where
  "add_to_xor cur_method fr =
     (if cur_method = i_ineg then andthen (top 1 fr) (\<lambda>a. set_top 1 (- a) fr)
      else andthen (top 2 fr) (\<lambda>a. andthen (top 1 fr) (\<lambda>b. andthen (arith cur_method a b) (\<lambda>result.
             andthen (set_top 2 result fr) pop))))"

definition bi_push :: "java_method \<Rightarrow> frame \<Rightarrow> frame res" where
  "bi_push m fr = andthen (code_at m (pc fr + 1)) (\<lambda>b. andthen (push (scast b) fr) (\<lambda>fr. Inr (skip 1 fr)))"

definition invoke_virtual :: "frame \<Rightarrow> world \<Rightarrow> (frame \<times> world) res" where
  "invoke_virtual fr w =
     andthen (set_top 0 0 fr) (\<lambda>fr. andthen (top 1 fr) (\<lambda>v.
       Inr (skip 2 (fr\<lparr>stack_p := stack_p fr - 1\<rparr>), w\<lparr>wout := wout w @ print_ld (scast v) @ [CHR ''\<newline>'']\<rparr>)))"

definition get_static :: "frame \<Rightarrow> frame res" where
  "get_static fr = Inr (skip 2 fr)"

definition i_const :: "java_method \<Rightarrow> frame \<Rightarrow> frame res" where
  "i_const m fr = andthen (code_at m (pc fr)) (\<lambda>b. push (ucast b - ucast i_iconst_0) fr)"

definition si_push :: "java_method \<Rightarrow> frame \<Rightarrow> frame res" where
  "si_push m fr =
     andthen (code_at m (pc fr + 1)) (\<lambda>num1. andthen (code_at m (pc fr + 2)) (\<lambda>num2.
       andthen (push (scast (short num1 num2)) fr) (\<lambda>fr. Inr (skip 2 fr))))"

definition i_load :: "java_method \<Rightarrow> frame \<Rightarrow> frame res" where
  "i_load m fr = andthen (code_at m (pc fr + 1)) (\<lambda>i. andthen (get_local (unat i) fr) (\<lambda>v.
     andthen (push v fr) (\<lambda>fr. Inr (skip 1 fr))))"

definition i_store :: "java_method \<Rightarrow> frame \<Rightarrow> frame res" where
  "i_store m fr = andthen (code_at m (pc fr + 1)) (\<lambda>i. andthen (top 1 fr) (\<lambda>a.
     andthen (set_local (unat i) a fr) (\<lambda>fr. andthen (pop fr) (\<lambda>fr. Inr (skip 1 fr)))))"

definition i_inc :: "java_method \<Rightarrow> frame \<Rightarrow> frame res" where
  "i_inc m fr = andthen (code_at m (pc fr + 1)) (\<lambda>i. andthen (code_at m (pc fr + 2)) (\<lambda>b.
     andthen (get_local (unat i) fr) (\<lambda>v. andthen (set_local (unat i) (v + scast b) fr) (\<lambda>fr. Inr (skip 2 fr)))))"

definition i_iload_nums :: "java_method \<Rightarrow> frame \<Rightarrow> frame res" where
  "i_iload_nums m fr = andthen (code_at m (pc fr)) (\<lambda>op. andthen (get_local (unat (op - i_iload_0)) fr) (\<lambda>v. push v fr))"

definition i_istore_nums :: "java_method \<Rightarrow> frame \<Rightarrow> frame res" where
  "i_istore_nums m fr = andthen (code_at m (pc fr)) (\<lambda>op. andthen (top 1 fr) (\<lambda>a.
     andthen (set_local (unat (op - i_istore_0)) a fr) pop))"

text \<open>The structure a constant points to, read as a 32-bit integer.\<close>

fun constant_int :: "cp_info \<Rightarrow> i32 res" where
  "constant_int (CONSTANT_Integer v) = Inr v"
| "constant_int (CONSTANT_Utf8 s) =
     (if 4 \<le> length s + 1 then Inr (of_nat (le_nat (take 4 (map of_char s @ [0])))) else Inl PoolFault)"
| "constant_int (CONSTANT_Class i) = Inl PoolFault"
| "constant_int (CONSTANT_Fieldref a b) = Inr (push_bit 16 (ucast b) OR ucast a)"
| "constant_int (CONSTANT_Methodref a b) = Inr (push_bit 16 (ucast b) OR ucast a)"
| "constant_int (CONSTANT_NameAndType a b) = Inr (push_bit 16 (ucast b) OR ucast a)"

definition ldc :: "java_method \<Rightarrow> class_file \<Rightarrow> frame \<Rightarrow> frame res" where
  "ldc m cls fr = andthen (code_at m (pc fr + 1)) (\<lambda>i.
     andthen (if 0 < i \<and> unat i \<le> length (constant_pool cls) then constant_int (constant_pool cls ! (unat i - 1))
              else Inl PoolFault) (\<lambda>num.
       andthen (push num fr) (\<lambda>fr. Inr (skip 1 fr))))"

definition jump_condition :: "u1 \<Rightarrow> i32 \<Rightarrow> i32 \<Rightarrow> bool res" where
  "jump_condition cur_method a b =
     (if cur_method = i_ifeq then Inr (a = 0)
      else if cur_method = i_ifne then Inr (a \<noteq> 0)
      else if cur_method = i_iflt then Inr (sint a < 0)
      else if cur_method = i_ifge then Inr (sint a \<ge> 0)
      else if cur_method = i_ifgt then Inr (sint a > 0)
      else if cur_method = i_ifle then Inr (sint a \<le> 0)
      else if cur_method = i_if_icmpeq then Inr (a = b)
      else if cur_method = i_if_icmpne then Inr (a \<noteq> b)
      else if cur_method = i_if_icmplt then Inr (sint a < sint b)
      else if cur_method = i_if_icmpge then Inr (sint a \<ge> sint b)
      else if cur_method = i_if_icmpgt then Inr (sint a > sint b)
      else if cur_method = i_if_icmple then Inr (sint a \<le> sint b)
      else Inl AssertionFailed)"

definition jump :: "u1 \<Rightarrow> java_method \<Rightarrow> frame \<Rightarrow> frame res" where
  "jump cur_method m fr =
     andthen (code_at m (pc fr + 1)) (\<lambda>b1. andthen (code_at m (pc fr + 2)) (\<lambda>b2. andthen (top 1 fr) (\<lambda>a.
     andthen (if i_if_icmpeq \<le> cur_method
              then andthen (top 2 fr) (\<lambda>a. andthen (top 1 fr) (\<lambda>b.
                     andthen (pop fr) (\<lambda>fr. andthen (pop fr) (\<lambda>fr. Inr (a, b, fr)))))
              else andthen (pop fr) (\<lambda>fr. Inr (a, 0, fr))) (\<lambda>(a, b, fr).
     andthen (jump_condition cur_method a b) (\<lambda>add_offset.
       Inr (if add_offset then branch (sint (short b1 b2)) fr else skip 2 fr))))))"

definition go_to :: "java_method \<Rightarrow> frame \<Rightarrow> frame res" where
  "go_to m fr = andthen (code_at m (pc fr + 1)) (\<lambda>b1. andthen (code_at m (pc fr + 2)) (\<lambda>b2.
     Inr (branch (sint (short b1 b2)) fr)))"

definition dup :: "frame \<Rightarrow> frame res" where
  "dup fr = andthen (top 1 fr) (\<lambda>v. push v fr)"

text \<open>
  The new array holds its length and then the elements. A negative length asks \<^verbatim>\<open>malloc\<close> for no
  bytes or for more than the address space has; so does the greatest int, to which 1 is added.
\<close>

definition newarray :: "frame \<Rightarrow> world \<Rightarrow> (frame \<times> world) res" where
  "newarray fr w = andthen (top 1 fr) (\<lambda>n.
     if 0 \<le> sint n \<and> sint n < 2 ^ 31 - 1 then
       let (ref, h) = heap_add (wheap w) (n # replicate (nat (sint n)) 0) in
       andthen (set_top 1 ref fr) (\<lambda>fr. Inr (skip 1 fr, w\<lparr>wheap := h\<rparr>))
     else Inl HeapFault)"

text \<open>\<^verbatim>\<open>arr[i]\<close> for an int index.\<close>

definition arr_get :: "i32 list \<Rightarrow> i32 \<Rightarrow> i32 res" where
  "arr_get arr i = (if 0 \<le> sint i \<and> nat (sint i) < length arr then Inr (arr ! nat (sint i)) else Inl HeapFault)"

definition get_array :: "world \<Rightarrow> i32 \<Rightarrow> i32 list res" where
  "get_array w ref = (case heap_get (wheap w) ref of None \<Rightarrow> Inl HeapFault | Some arr \<Rightarrow> Inr arr)"

definition arraylength :: "frame \<Rightarrow> world \<Rightarrow> (frame \<times> world) res" where
  "arraylength fr w = andthen (top 1 fr) (\<lambda>ref. andthen (get_array w ref) (\<lambda>arr. andthen (arr_get arr 0) (\<lambda>count.
     andthen (set_top 1 count fr) (\<lambda>fr. Inr (fr, w)))))"

definition iastore :: "frame \<Rightarrow> world \<Rightarrow> (frame \<times> world) res" where
  "iastore fr w =
     andthen (top 3 fr) (\<lambda>ref. andthen (get_array w ref) (\<lambda>arr. andthen (top 2 fr) (\<lambda>i. andthen (top 1 fr) (\<lambda>v.
     andthen (arr_get arr (i + 1)) (\<lambda>_.
     andthen (pop fr) (\<lambda>fr. andthen (pop fr) (\<lambda>fr. andthen (pop fr) (\<lambda>fr.
       Inr (fr, w\<lparr>wheap := heap_put (wheap w) ref (arr[nat (sint (i + 1)) := v])\<rparr>)))))))))"

definition iaload :: "frame \<Rightarrow> world \<Rightarrow> (frame \<times> world) res" where
  "iaload fr w =
     andthen (top 2 fr) (\<lambda>ref. andthen (get_array w ref) (\<lambda>arr. andthen (top 1 fr) (\<lambda>i.
     andthen (arr_get arr (i + 1)) (\<lambda>value.
     andthen (pop fr) (\<lambda>fr. andthen (pop fr) (\<lambda>fr. andthen (push value fr) (\<lambda>fr. Inr (fr, w))))))))"

definition aload :: "java_method \<Rightarrow> frame \<Rightarrow> frame res" where
  "aload m fr = andthen (code_at m (pc fr + 1)) (\<lambda>idx. andthen (get_local (unat idx) fr) (\<lambda>v.
     andthen (push v fr) (\<lambda>fr. Inr (skip 1 fr))))"

definition astore :: "java_method \<Rightarrow> frame \<Rightarrow> frame res" where
  "astore m fr = andthen (code_at m (pc fr + 1)) (\<lambda>idx. andthen (top 1 fr) (\<lambda>v.
     andthen (set_local (unat idx) v fr) (\<lambda>fr. andthen (pop fr) (\<lambda>fr. Inr (skip 1 fr)))))"

definition astore_nums :: "java_method \<Rightarrow> frame \<Rightarrow> frame res" where
  "astore_nums m fr = andthen (code_at m (pc fr)) (\<lambda>op. andthen (top 1 fr) (\<lambda>v.
     andthen (set_local (unat (op - i_astore_0)) v fr) pop))"

definition aload_nums :: "java_method \<Rightarrow> frame \<Rightarrow> frame res" where
  "aload_nums m fr = andthen (code_at m (pc fr)) (\<lambda>op. andthen (get_local (unat (op - i_aload_0)) fr) (\<lambda>v. push v fr))"

section \<open>The interpreter\<close>

definition lift_frame :: "world \<Rightarrow> frame res \<Rightarrow> (frame \<times> world) res" where
  "lift_frame w r = andthen r (\<lambda>fr. Inr (fr, w))"

text \<open>The cases of the \<^verbatim>\<open>switch\<close> in \<^verbatim>\<open>execute\<close> that neither call nor return.\<close>

definition exec_op :: "u1 \<Rightarrow> java_method \<Rightarrow> class_file \<Rightarrow> frame \<Rightarrow> world \<Rightarrow> (frame \<times> world) res" where
  "exec_op op m cls fr w =
     (if i_iadd \<le> op \<and> op \<le> i_ixor then lift_frame w (add_to_xor op fr)
      else if op = i_bipush then lift_frame w (bi_push m fr)
      else if op = i_getstatic then lift_frame w (get_static fr)
      else if op = i_invokevirtual then invoke_virtual fr w
      else if i_iconst_m1 \<le> op \<and> op \<le> i_iconst_5 then lift_frame w (i_const m fr)
      else if op = i_sipush then lift_frame w (si_push m fr)
      else if op = i_iload then lift_frame w (i_load m fr)
      else if op = i_istore then lift_frame w (i_store m fr)
      else if op = i_iinc then lift_frame w (i_inc m fr)
      else if i_iload_0 \<le> op \<and> op \<le> i_iload_3 then lift_frame w (i_iload_nums m fr)
      else if i_istore_0 \<le> op \<and> op \<le> i_istore_3 then lift_frame w (i_istore_nums m fr)
      else if op = i_ldc then lift_frame w (ldc m cls fr)
      else if i_ifeq \<le> op \<and> op \<le> i_if_icmple then lift_frame w (jump op m fr)
      else if op = i_goto then lift_frame w (go_to m fr)
      else if op = i_nop then Inr (fr, w)
      else if op = i_dup then lift_frame w (dup fr)
      else if op = i_newarray then newarray fr w
      else if op = i_arraylength then arraylength fr w
      else if op = i_iastore then iastore fr w
      else if op = i_iaload then iaload fr w
      else if op = i_aload then lift_frame w (aload m fr)
      else if op = i_astore then lift_frame w (astore m fr)
      else if i_aload_0 \<le> op \<and> op \<le> i_aload_3 then lift_frame w (aload_nums m fr)
      else if i_astore_0 \<le> op \<and> op \<le> i_astore_3 then lift_frame w (astore_nums m fr)
      else Inl (UnhandledInstruction op))"

text \<open>The loop's \<^verbatim>\<open>pc++\<close>.\<close>

definition next_pc :: "frame \<Rightarrow> frame" where
  "next_pc fr = fr\<lparr>pc := nat ((int (pc fr) + 1) mod 2 ^ 64)\<rparr>"

definition init_frame :: "java_method \<Rightarrow> i32 list \<Rightarrow> frame" where
  "init_frame m ls = \<lparr>stack = replicate (unat (max_stack (mcode m))) 0, stack_p = 0, pc = 0, locals = ls\<rparr>"

text \<open>
  The start of \<^verbatim>\<open>i_invokestatic\<close>: the method, its locals with the arguments moved from the stack,
  and the caller's frame without them.
\<close>

fun move_args :: "nat \<Rightarrow> frame \<Rightarrow> i32 list \<Rightarrow> nat \<Rightarrow> (i32 list \<times> frame) res" where
  "move_args 0 fr new_locals idx = Inr (new_locals, fr)"
| "move_args (Suc k) fr new_locals idx =
     andthen (top (Suc k) fr) (\<lambda>v.
       if idx < length new_locals
       then andthen (set_top (Suc k) 0 fr) (\<lambda>fr. move_args k fr (new_locals[idx := v]) (idx + 1))
       else Inl LocalsFault)"

definition prepare_call :: "java_method \<Rightarrow> class_file \<Rightarrow> frame \<Rightarrow> (java_method \<times> i32 list \<times> frame) res" where
  "prepare_call m cls fr =
     andthen (code_at m (pc fr + 1)) (\<lambda>b1. andthen (code_at m (pc fr + 2)) (\<lambda>b2.
     case find_method_from_index (short b1 b2) cls of
       None \<Rightarrow> Inl AssertionFailed
     | Some None \<Rightarrow> Inl AssertionFailed
     | Some (Some new_method) \<Rightarrow>
         (case get_number_of_parameters new_method of
            None \<Rightarrow> Inl PoolFault
          | Some num_params \<Rightarrow>
              andthen (move_args (unat num_params) fr (replicate (unat (max_locals (mcode new_method))) 0) 0)
                (\<lambda>(new_locals, fr). Inr (new_method, new_locals, fr\<lparr>stack_p := stack_p fr - unat num_params\<rparr>)))))"

fun execute :: "nat \<Rightarrow> class_file \<Rightarrow> java_method \<Rightarrow> frame \<Rightarrow> world \<Rightarrow> (i32 option \<times> world) res" where
  "execute 0 cls m fr w = Inl OutOfFuel"
| "execute (Suc n) cls m fr w =
     (if pc fr < unat (code_length (mcode m)) then
        andthen (code_at m (pc fr)) (\<lambda>op.
          if op = i_invokestatic then
            andthen (prepare_call m cls fr) (\<lambda>(new_method, new_locals, fr).
            andthen (execute n cls new_method (init_frame new_method new_locals) w) (\<lambda>(new_result, w).
            andthen (case new_result of None \<Rightarrow> Inr fr | Some v \<Rightarrow> push v fr) (\<lambda>fr.
              execute n cls m (next_pc (skip 2 fr)) w)))
          else if op = i_areturn \<or> op = i_ireturn then andthen (top 1 fr) (\<lambda>v. Inr (Some v, w))
          else if op = i_return then Inr (None, w)
          else andthen (exec_op op m cls fr w) (\<lambda>(fr, w). execute n cls m (next_pc fr) w))
      else Inr (None, w))"

definition MAIN_METHOD :: string where
  "MAIN_METHOD = ''main''"

definition MAIN_DESCRIPTOR :: string where
  "MAIN_DESCRIPTOR = ''([Ljava/lang/String;)V''"

text \<open>\<^verbatim>\<open>main\<close>, on the contents of the class file: the output, and the arrays that are freed at the end.\<close>

definition jvm_main :: "nat \<Rightarrow> u1 list \<Rightarrow> (string \<times> i32 list list) res" where
  "jvm_main fuel bytes =
     (case get_class \<lparr>contents = bytes, fpos = 0\<rparr> of
        None \<Rightarrow> Inl AssertionFailed
      | Some cls \<Rightarrow>
          (case find_method MAIN_METHOD MAIN_DESCRIPTOR cls of
             None \<Rightarrow> Inl AssertionFailed
           | Some main_method \<Rightarrow>
               andthen (execute fuel cls main_method
                   (init_frame main_method (replicate (unat (max_locals (mcode main_method))) 0))
                   \<lparr>wheap = heap_init, wout = []\<rparr>) (\<lambda>(result, w).
                 if result = None then Inr (wout w, heap_free (wheap w)) else Inl AssertionFailed)))"

end
