(* ===== verification/Jvm_Typing.thy ===== *)
theory Jvm_Typing
  imports Jvm
begin

text \<open>
  A stack discipline for the bytecode that the interpreter runs, in the manner of the stack maps of
  the Java class file format: every reachable position of a method has a stack depth that all
  paths agree on, the operands are inside the code, and the indices of locals and constants are in
  range. Methods that follow it never make the interpreter leave one of its arrays.
\<close>

section \<open>Effects of instructions\<close>

definition byte_at :: "java_method \<Rightarrow> nat \<Rightarrow> u1" where
  "byte_at m p = code_bytes (mcode m) ! p"

definition code_size :: "java_method \<Rightarrow> nat" where
  "code_size m = length (code_bytes (mcode m))"

definition depth_limit :: "java_method \<Rightarrow> nat" where
  "depth_limit m = unat (max_stack (mcode m))"

definition locals_size :: "java_method \<Rightarrow> nat" where
  "locals_size m = unat (max_locals (mcode m))"

definition is_void :: "java_method \<Rightarrow> bool" where
  "is_void m \<longleftrightarrow> last (c_string (descriptor m)) = CHR ''V''"

definition jump_target :: "java_method \<Rightarrow> nat \<Rightarrow> int" where
  "jump_target m p = int p + sint (short (byte_at m (p + 1)) (byte_at m (p + 2)))"

definition integer_constant :: "class_file \<Rightarrow> u1 \<Rightarrow> bool" where
  "integer_constant cls i \<longleftrightarrow> 0 < i \<and> unat i \<le> length (constant_pool cls)
     \<and> (case constant_pool cls ! (unat i - 1) of CONSTANT_Integer v \<Rightarrow> True | _ \<Rightarrow> False)"

text \<open>
  What an instruction pops and pushes, how much room above the stack it writes to, and where it
  continues; \<^const>\<open>None\<close> when the instruction or its operands are not accepted.
\<close>

type_synonym stack_effect = "nat \<times> nat \<times> nat \<times> nat list"

definition guarded :: "bool \<Rightarrow> stack_effect \<Rightarrow> stack_effect option" where
  "guarded b e = (if b then Some e else None)"

definition call_effect :: "class_file \<Rightarrow> java_method \<Rightarrow> nat \<Rightarrow> stack_effect option" where
  "call_effect cls m p =
     (case find_method_from_index (short (byte_at m (p + 1)) (byte_at m (p + 2))) cls of
        Some (Some callee) \<Rightarrow>
          (case get_number_of_parameters callee of
             Some n \<Rightarrow> guarded (p + 2 < code_size m \<and> unat n \<le> locals_size callee)
               (unat n, if is_void callee then 0 else 1, 0, [p + 3])
           | None \<Rightarrow> None)
      | _ \<Rightarrow> None)"

definition local_effect :: "class_file \<Rightarrow> java_method \<Rightarrow> nat \<Rightarrow> stack_effect option" where
  "local_effect cls m p =
     (let op = byte_at m p; n = code_size m; local = (\<lambda>i. i < locals_size m) in
      if i_iadd \<le> op \<and> op \<le> i_ixor then (if op = i_ineg then Some (1, 1, 0, [p + 1]) else Some (2, 1, 0, [p + 1]))
      else if op = i_bipush then guarded (p + 1 < n) (0, 1, 1, [p + 2])
      else if op = i_getstatic then Some (0, 0, 0, [p + 3])
      else if op = i_invokevirtual then Some (1, 0, 1, [p + 3])
      else if i_iconst_m1 \<le> op \<and> op \<le> i_iconst_5 then Some (0, 1, 1, [p + 1])
      else if op = i_sipush then guarded (p + 2 < n) (0, 1, 1, [p + 3])
      else if op = i_iload then guarded (p + 1 < n \<and> local (unat (byte_at m (p + 1)))) (0, 1, 1, [p + 2])
      else if op = i_istore then guarded (p + 1 < n \<and> local (unat (byte_at m (p + 1)))) (1, 0, 0, [p + 2])
      else if op = i_iinc then guarded (p + 2 < n \<and> local (unat (byte_at m (p + 1)))) (0, 0, 0, [p + 3])
      else if i_iload_0 \<le> op \<and> op \<le> i_iload_3 then guarded (local (unat (op - i_iload_0))) (0, 1, 1, [p + 1])
      else if i_istore_0 \<le> op \<and> op \<le> i_istore_3 then guarded (local (unat (op - i_istore_0))) (1, 0, 0, [p + 1])
      else if op = i_ldc then guarded (p + 1 < n \<and> integer_constant cls (byte_at m (p + 1))) (0, 1, 1, [p + 2])
      else if i_ifeq \<le> op \<and> op \<le> i_if_icmple then
        guarded (p + 2 < n \<and> 0 \<le> jump_target m p)
          (if i_if_icmpeq \<le> op then 2 else 1, 0, 0, [p + 3, nat (jump_target m p)])
      else if op = i_goto then guarded (p + 2 < n \<and> 0 \<le> jump_target m p) (0, 0, 0, [nat (jump_target m p)])
      else if op = i_nop then Some (0, 0, 0, [p + 1])
      else if op = i_dup then Some (1, 2, 1, [p + 1])
      else if op = i_newarray then Some (1, 1, 0, [p + 2])
      else if op = i_arraylength then Some (1, 1, 0, [p + 1])
      else if op = i_iastore then Some (3, 0, 0, [p + 1])
      else if op = i_iaload then Some (2, 1, 0, [p + 1])
      else if op = i_aload then guarded (p + 1 < n \<and> local (unat (byte_at m (p + 1)))) (0, 1, 1, [p + 2])
      else if op = i_astore then guarded (p + 1 < n \<and> local (unat (byte_at m (p + 1)))) (1, 0, 0, [p + 2])
      else if i_aload_0 \<le> op \<and> op \<le> i_aload_3 then guarded (local (unat (op - i_aload_0))) (0, 1, 1, [p + 1])
      else if i_astore_0 \<le> op \<and> op \<le> i_astore_3 then guarded (local (unat (op - i_astore_0))) (1, 0, 0, [p + 1])
      else None)"

definition effect :: "class_file \<Rightarrow> java_method \<Rightarrow> nat \<Rightarrow> stack_effect option" where
  "effect cls m p =
     (let op = byte_at m p in
      if op = i_invokestatic then call_effect cls m p
      else if op = i_areturn \<or> op = i_ireturn then guarded (\<not> is_void m) (1, 0, 0, [])
      else if op = i_return then guarded (is_void m) (0, 0, 0, [])
      else local_effect cls m p)"

text \<open>A method with the stack depth at each of its positions (\<^const>\<open>None\<close> where no path leads).\<close>

definition position_ok :: "class_file \<Rightarrow> java_method \<Rightarrow> nat option list \<Rightarrow> nat \<Rightarrow> nat \<Rightarrow> bool" where
  "position_ok cls m D p d \<longleftrightarrow>
     (case effect cls m p of
        None \<Rightarrow> False
      | Some (pops, pushes, room, succs) \<Rightarrow>
          pops \<le> d \<and> d + room \<le> depth_limit m \<and> d - pops + pushes \<le> depth_limit m
          \<and> list_all (\<lambda>q. q < code_size m \<and> D ! q = Some (d - pops + pushes)) succs)"

definition method_ok :: "class_file \<Rightarrow> java_method \<Rightarrow> nat option list \<Rightarrow> bool" where
  "method_ok cls m D \<longleftrightarrow>
     unat (code_length (mcode m)) = code_size m \<and> length D = code_size m \<and> 0 < code_size m \<and> D ! 0 = Some 0
     \<and> list_all (\<lambda>p. case D ! p of None \<Rightarrow> True | Some d \<Rightarrow> position_ok cls m D p d) [0..<code_size m]"

text \<open>A class, with the depths of its methods in order.\<close>

definition class_ok :: "class_file \<Rightarrow> nat option list list \<Rightarrow> bool" where
  "class_ok cls Ds \<longleftrightarrow> list_all2 (method_ok cls) (methods cls) Ds"

section \<open>Frames that follow the discipline\<close>

definition frame_at :: "java_method \<Rightarrow> nat \<Rightarrow> nat \<Rightarrow> frame \<Rightarrow> bool" where
  "frame_at m d p fr \<longleftrightarrow> length (stack fr) = depth_limit m \<and> stack_p fr = d \<and> d \<le> depth_limit m
     \<and> length (locals fr) = locals_size m \<and> pc fr = p"

text \<open>Results that are either an error of the program's data or satisfy \<open>P\<close>.\<close>

definition ok_res :: "('a \<Rightarrow> bool) \<Rightarrow> 'a res \<Rightarrow> bool" where
  "ok_res P r \<longleftrightarrow> (case r of Inl e \<Rightarrow> e \<in> {HeapFault, DivideFault, OutOfFuel} | Inr x \<Rightarrow> P x)"

lemma ok_res_simps [simp]:
  "ok_res P (Inr x) \<longleftrightarrow> P x"
  "ok_res P (Inl e) \<longleftrightarrow> e \<in> {HeapFault, DivideFault, OutOfFuel}"
  by (simp_all add: ok_res_def)

lemma ok_andthen: "ok_res P r \<Longrightarrow> (\<And>x. P x \<Longrightarrow> ok_res Q (f x)) \<Longrightarrow> ok_res Q (andthen r f)"
  by (cases r) auto

lemma ok_andthen_frame:
  "ok_res (frame_at m d p) r \<Longrightarrow> (\<And>fr. frame_at m d p fr \<Longrightarrow> ok_res Q (f fr)) \<Longrightarrow> ok_res Q (andthen r f)"
  by (rule ok_andthen)

lemma ok_top: "frame_at m d p fr \<Longrightarrow> 1 \<le> k \<Longrightarrow> k \<le> d \<Longrightarrow> (\<And>v. ok_res Q (f v)) \<Longrightarrow> ok_res Q (andthen (top k fr) f)"
  by (auto simp: top_def frame_at_def)

lemma ok_code: "p < code_size m \<Longrightarrow> ok_res Q (f (byte_at m p)) \<Longrightarrow> ok_res Q (andthen (code_at m p) f)"
  by (simp add: code_at_def code_size_def byte_at_def)

lemma ok_get_local: "frame_at m d p fr \<Longrightarrow> i < locals_size m \<Longrightarrow> (\<And>v. ok_res Q (f v)) \<Longrightarrow> ok_res Q (andthen (get_local i fr) f)"
  by (simp add: get_local_def frame_at_def)

lemma set_local_ok: "frame_at m d p fr \<Longrightarrow> i < locals_size m \<Longrightarrow> ok_res (frame_at m d p) (set_local i v fr)"
  by (simp add: set_local_def frame_at_def)

lemma set_top_ok: "frame_at m d p fr \<Longrightarrow> 1 \<le> k \<Longrightarrow> k \<le> d \<Longrightarrow> ok_res (frame_at m d p) (set_top k v fr)"
  by (auto simp: set_top_def frame_at_def)

lemma push_ok: "frame_at m d p fr \<Longrightarrow> d + 1 \<le> depth_limit m \<Longrightarrow> ok_res (frame_at m (d + 1) p) (push v fr)"
  by (simp add: push_def set_top_def frame_at_def)

lemma pop_ok: "frame_at m d p fr \<Longrightarrow> 1 \<le> d \<Longrightarrow> ok_res (frame_at m (d - 1) p) (pop fr)"
  by (auto simp: pop_def set_top_def frame_at_def)

lemma skip_ok: "frame_at m d p fr \<Longrightarrow> frame_at m d (p + n) (skip n fr)"
  by (simp add: skip_def frame_at_def)

lemma next_pc_ok: "frame_at m d p fr \<Longrightarrow> p + 1 < 2 ^ 64 \<Longrightarrow> frame_at m d (p + 1) (next_pc fr)"
proof -
  assume "frame_at m d p fr" and p: "p + 1 < 2 ^ 64"
  moreover have "nat ((int p + 1) mod 2 ^ 64) = p + 1" using p by (simp add: nat_add_distrib)
  ultimately show ?thesis by (auto simp: next_pc_def frame_at_def)
qed

lemma branch_ok:
  assumes "frame_at m d p fr" and "0 \<le> int p + off" and "int p + off < 2 ^ 64"
  shows "frame_at m d (nat (int p + off)) (next_pc (branch off fr))"
proof -
  have "(int (nat ((int p + (off - 1)) mod 2 ^ 64)) + 1) mod 2 ^ 64 = ((int p + (off - 1)) mod 2 ^ 64 + 1) mod 2 ^ 64"
    by simp
  also have "\<dots> = (int p + (off - 1) + 1) mod 2 ^ 64" by (rule mod_add_left_eq)
  also have "\<dots> = int p + off" using assms(2,3) by simp
  finally show ?thesis using assms(1) by (simp add: frame_at_def next_pc_def branch_def)
qed

lemma frame_pc: "frame_at m d p fr \<Longrightarrow> pc fr = p"
  by (simp add: frame_at_def)

section \<open>Every handler keeps the discipline\<close>

lemma arith_ok: "ok_res (\<lambda>_. True) (arith op a b)"
  by (simp add: arith_def)

lemma add_to_xor_ok:
  assumes "frame_at m d p fr" and "(if op = i_ineg then 1 else 2) \<le> d"
  shows "ok_res (frame_at m (if op = i_ineg then d else d - 1) p) (add_to_xor op fr)"
proof (cases "op = i_ineg")
  case True
  then show ?thesis unfolding add_to_xor_def using assms by (auto intro!: ok_top set_top_ok)
next
  case False
  have "ok_res (frame_at m (d - 1) p) (andthen (arith op a b) (\<lambda>r. andthen (set_top 2 r fr) pop))" for a b
    by (rule ok_andthen [OF arith_ok], rule ok_andthen_frame [OF set_top_ok [OF assms(1)]])
      (use assms False in \<open>auto simp del: One_nat_def intro: pop_ok\<close>)
  then show ?thesis unfolding add_to_xor_def using assms False by (auto intro!: ok_top)
qed

lemma push_skip_ok:
  assumes "frame_at m d p fr" and "d + 1 \<le> depth_limit m"
  shows "ok_res (frame_at m (d + 1) (p + n)) (andthen (push v fr) (\<lambda>fr. Inr (skip n fr)))"
  by (rule ok_andthen_frame [OF push_ok [OF assms]]) (simp add: skip_ok)

lemma bi_push_ok:
  assumes "frame_at m d p fr" and "d + 1 \<le> depth_limit m" and "p + 1 < code_size m"
  shows "ok_res (frame_at m (d + 1) (p + 1)) (bi_push m fr)"
  unfolding bi_push_def frame_pc [OF assms(1)] by (rule ok_code [OF assms(3) push_skip_ok [OF assms(1,2)]])

lemma i_const_ok:
  assumes "frame_at m d p fr" and "d + 1 \<le> depth_limit m" and "p < code_size m"
  shows "ok_res (frame_at m (d + 1) p) (i_const m fr)"
  unfolding i_const_def frame_pc [OF assms(1)] by (rule ok_code [OF assms(3) push_ok [OF assms(1,2)]])

lemma si_push_ok:
  assumes "frame_at m d p fr" and "d + 1 \<le> depth_limit m" and "p + 2 < code_size m"
  shows "ok_res (frame_at m (d + 1) (p + 2)) (si_push m fr)"
  unfolding si_push_def frame_pc [OF assms(1)]
  by (rule ok_code, use assms in simp, rule ok_code [OF assms(3) push_skip_ok [OF assms(1,2)]])

lemma load_ok:
  assumes "frame_at m d p fr" and "d + 1 \<le> depth_limit m" and "p + 1 < code_size m"
    and "unat (byte_at m (p + 1)) < locals_size m"
  shows "ok_res (frame_at m (d + 1) (p + 1)) (i_load m fr)" and "ok_res (frame_at m (d + 1) (p + 1)) (aload m fr)"
  unfolding i_load_def aload_def frame_pc [OF assms(1)]
  by (rule ok_code [OF assms(3)], rule ok_get_local [OF assms(1,4)], rule push_skip_ok [OF assms(1,2)])+

lemma store_ok:
  assumes "frame_at m d p fr" and "1 \<le> d" and "p + 1 < code_size m" and "unat (byte_at m (p + 1)) < locals_size m"
  shows "ok_res (frame_at m (d - 1) (p + 1)) (i_store m fr)" and "ok_res (frame_at m (d - 1) (p + 1)) (astore m fr)"
proof -
  have *: "ok_res (frame_at m (d - 1) (p + 1)) (andthen (set_local (unat (byte_at m (p + 1))) a fr)
      (\<lambda>fr. andthen (pop fr) (\<lambda>fr. Inr (skip 1 fr))))" for a
    by (rule ok_andthen_frame [OF set_local_ok [OF assms(1,4)]], rule ok_andthen_frame [OF pop_ok])
      (use assms(2) in \<open>auto simp del: One_nat_def intro: skip_ok\<close>)
  show "ok_res (frame_at m (d - 1) (p + 1)) (i_store m fr)" "ok_res (frame_at m (d - 1) (p + 1)) (astore m fr)"
    unfolding i_store_def astore_def frame_pc [OF assms(1)]
    by (rule ok_code [OF assms(3)], rule ok_top [OF assms(1) order_refl assms(2)], rule *)+
qed

lemma i_inc_ok:
  assumes "frame_at m d p fr" and "p + 2 < code_size m" and "unat (byte_at m (p + 1)) < locals_size m"
  shows "ok_res (frame_at m d (p + 2)) (i_inc m fr)"
  unfolding i_inc_def frame_pc [OF assms(1)]
  by (rule ok_code, use assms in simp, rule ok_code [OF assms(2)], rule ok_get_local [OF assms(1,3)],
      rule ok_andthen_frame [OF set_local_ok [OF assms(1,3)]], simp only: ok_res_simps skip_ok)

lemma load_nums_ok:
  assumes "frame_at m d p fr" and "d + 1 \<le> depth_limit m" and "p < code_size m"
  shows "unat (byte_at m p - i_iload_0) < locals_size m \<Longrightarrow> ok_res (frame_at m (d + 1) p) (i_iload_nums m fr)"
    and "unat (byte_at m p - i_aload_0) < locals_size m \<Longrightarrow> ok_res (frame_at m (d + 1) p) (aload_nums m fr)"
  unfolding i_iload_nums_def aload_nums_def frame_pc [OF assms(1)]
  by (rule ok_code [OF assms(3)], rule ok_get_local [OF assms(1)], assumption, rule push_ok [OF assms(1,2)])+

lemma store_nums_ok:
  assumes "frame_at m d p fr" and "1 \<le> d" and "p < code_size m"
  shows "unat (byte_at m p - i_istore_0) < locals_size m \<Longrightarrow> ok_res (frame_at m (d - 1) p) (i_istore_nums m fr)"
    and "unat (byte_at m p - i_astore_0) < locals_size m \<Longrightarrow> ok_res (frame_at m (d - 1) p) (astore_nums m fr)"
proof -
  have *: "ok_res (frame_at m (d - 1) p) (andthen (set_local i a fr) pop)" if "i < locals_size m" for i a
    by (rule ok_andthen_frame [OF set_local_ok [OF assms(1) that]], rule pop_ok) (use assms in auto)
  show "unat (byte_at m p - i_istore_0) < locals_size m \<Longrightarrow> ok_res (frame_at m (d - 1) p) (i_istore_nums m fr)"
    "unat (byte_at m p - i_astore_0) < locals_size m \<Longrightarrow> ok_res (frame_at m (d - 1) p) (astore_nums m fr)"
    unfolding i_istore_nums_def astore_nums_def frame_pc [OF assms(1)]
    by (rule ok_code [OF assms(3)], rule ok_top [OF assms(1) order_refl assms(2)], rule *, assumption)+
qed

lemma ldc_ok:
  assumes "frame_at m d p fr" and "d + 1 \<le> depth_limit m" and "p + 1 < code_size m"
    and "integer_constant cls (byte_at m (p + 1))"
  shows "ok_res (frame_at m (d + 1) (p + 1)) (ldc m cls fr)"
  unfolding ldc_def frame_pc [OF assms(1)]
  by (rule ok_code [OF assms(3)])
    (use assms(4) push_skip_ok [OF assms(1,2), of 1] in \<open>auto simp: integer_constant_def split: cp_info.splits\<close>)

lemma jump_condition_ok: "i_ifeq \<le> op \<Longrightarrow> op \<le> i_if_icmple \<Longrightarrow> \<exists>b. jump_condition op x y = Inr b"
proof -
  assume "i_ifeq \<le> op" and "op \<le> i_if_icmple"
  then have "153 \<le> unat op" "unat op \<le> 164" by (simp_all add: opcode_defs word_le_nat_alt)
  then have "unat op \<in> set [153..<165]" unfolding set_upt by simp
  then have "of_nat (unat op) \<in> (of_nat :: nat \<Rightarrow> u1) ` set [153..<165]" by (rule imageI)
  then have "op \<in> {153, 154, 155, 156, 157, 158, 159, 160, 161, 162, 163, 164}" by (simp add: upt_rec_numeral)
  then show ?thesis by (auto simp: jump_condition_def opcode_defs)
qed

text \<open>Where a frame continues: at a position of \<open>succs\<close>, after the loop has advanced the counter.\<close>

definition continues :: "java_method \<Rightarrow> nat \<Rightarrow> nat list \<Rightarrow> frame \<Rightarrow> bool" where
  "continues m d succs fr \<longleftrightarrow> (\<exists>q \<in> set succs. frame_at m d q (next_pc fr))"

lemma continues_next: "frame_at m d p fr \<Longrightarrow> p + 1 \<in> set succs \<Longrightarrow> p + 1 < 2 ^ 64 \<Longrightarrow> continues m d succs fr"
  unfolding continues_def using next_pc_ok by blast

lemma continues_branch:
  "frame_at m d p fr \<Longrightarrow> 0 \<le> int p + off \<Longrightarrow> nat (int p + off) < 2 ^ 64 \<Longrightarrow> nat (int p + off) \<in> set succs
   \<Longrightarrow> continues m d succs (branch off fr)"
  unfolding continues_def using branch_ok [of m d p fr off] by fastforce

lemma ok_continues:
  assumes "ok_res (frame_at m d p) r" and "p + 1 \<in> set succs" and "p + 1 < 2 ^ 64"
  shows "ok_res (continues m d succs) r"
  using assms by (cases r) (auto intro: continues_next simp del: One_nat_def)

lemma jump_ok:
  assumes fr: "frame_at m d p fr" and d: "(if i_if_icmpeq \<le> op then 2 else 1) \<le> d" and p: "p + 2 < code_size m"
    and op: "i_ifeq \<le> op" "op \<le> i_if_icmple" and t: "0 \<le> jump_target m p" "nat (jump_target m p) < 2 ^ 64"
    and p3: "p + 3 < 2 ^ 64"
  shows "ok_res (continues m (d - (if i_if_icmpeq \<le> op then 2 else 1)) [p + 3, nat (jump_target m p)]) (jump op m fr)"
proof -
  let ?d = "d - (if i_if_icmpeq \<le> op then 2 else 1)"
  have goes: "ok_res (continues m ?d [p + 3, nat (jump_target m p)])
      (andthen (jump_condition op x y) (\<lambda>c. Inr (if c
         then branch (sint (short (byte_at m (p + 1)) (byte_at m (p + 2)))) f else skip 2 f)))"
    if f: "frame_at m ?d p f" for x y f
  proof -
    have "continues m ?d [p + 3, nat (jump_target m p)] (skip 2 f)"
      using continues_next [OF skip_ok [OF f, of 2]] p3 by (simp add: ac_simps)
    moreover have "continues m ?d [p + 3, nat (jump_target m p)]
        (branch (sint (short (byte_at m (p + 1)) (byte_at m (p + 2)))) f)"
      by (rule continues_branch [OF f]) (use t in \<open>simp_all add: jump_target_def\<close>)
    ultimately show ?thesis using jump_condition_ok [OF op, of x y] by auto
  qed
  have two: "ok_res (\<lambda>(a, b, f). frame_at m ?d p f)
      (if i_if_icmpeq \<le> op
       then andthen (top 2 fr) (\<lambda>a. andthen (top 1 fr) (\<lambda>b. andthen (pop fr) (\<lambda>fr. andthen (pop fr) (\<lambda>fr. Inr (a, b, fr)))))
       else andthen (pop fr) (\<lambda>fr. Inr (a, 0, fr)))" for a
  proof (cases "i_if_icmpeq \<le> op")
    case True
    have "ok_res (\<lambda>(a, b, f). frame_at m (d - 2) p f) (andthen (pop fr) (\<lambda>fr. andthen (pop fr) (\<lambda>fr. Inr (a, b, fr))))" for a b
      by (rule ok_andthen_frame [OF pop_ok [OF fr]], use True d in simp, rule ok_andthen_frame, erule pop_ok)
        (use True d in \<open>auto simp: numeral_2_eq_2\<close>)
    then show ?thesis using True d by (auto intro!: ok_top [OF fr])
  next
    case False
    show ?thesis using False d pop_ok [OF fr] by (auto intro: ok_andthen_frame)
  qed
  show ?thesis
    unfolding jump_def frame_pc [OF fr]
    by (rule ok_code, use p in simp, rule ok_code [OF p], rule ok_top [OF fr order_refl], use d in \<open>simp split: if_splits\<close>,
        rule ok_andthen [OF two]) (use goes in auto)
qed

lemma go_to_ok:
  assumes fr: "frame_at m d p fr" and p: "p + 2 < code_size m"
    and t: "0 \<le> jump_target m p" "nat (jump_target m p) < 2 ^ 64"
  shows "ok_res (continues m d [nat (jump_target m p)]) (go_to m fr)"
  unfolding go_to_def frame_pc [OF fr]
  by (rule ok_code, use p in simp, rule ok_code [OF p], simp only: ok_res_simps, rule continues_branch [OF fr])
    (use t in \<open>simp_all add: jump_target_def\<close>)

lemma dup_ok:
  assumes "frame_at m d p fr" and "1 \<le> d" and "d + 1 \<le> depth_limit m"
  shows "ok_res (frame_at m (d + 1) p) (dup fr)"
  unfolding dup_def by (rule ok_top [OF assms(1) order_refl assms(2)], rule push_ok [OF assms(1,3)])

text \<open>Handlers that also change the world.\<close>

definition with_world :: "(frame \<Rightarrow> bool) \<Rightarrow> frame \<times> world \<Rightarrow> bool" where
  "with_world P x \<longleftrightarrow> P (fst x)"

lemma with_world_pair [simp]: "with_world P (fr, w) = P fr"
  by (simp add: with_world_def)

lemma lift_frame_ok: "ok_res P r \<Longrightarrow> ok_res (with_world P) (lift_frame w r)"
  unfolding lift_frame_def by (cases r) auto

lemma invoke_virtual_ok:
  assumes "frame_at m d p fr" and "1 \<le> d" and "d + 1 \<le> depth_limit m"
  shows "ok_res (with_world (frame_at m (d - 1) (p + 2))) (invoke_virtual fr w)"
  using assms by (auto simp: invoke_virtual_def set_top_def top_def frame_at_def skip_def)

lemma newarray_ok:
  assumes "frame_at m d p fr" and "1 \<le> d"
  shows "ok_res (with_world (frame_at m d (p + 1))) (newarray fr w)"
  unfolding newarray_def
  by (rule ok_top [OF assms(1) order_refl assms(2)])
    (use assms in \<open>auto simp: set_top_def frame_at_def skip_def split: prod.splits\<close>)

lemma ok_get_array: "(\<And>arr. ok_res Q (f arr)) \<Longrightarrow> ok_res Q (andthen (get_array w ref) f)"
  by (auto simp: get_array_def split: option.splits)

lemma ok_arr_get: "(\<And>v. ok_res Q (f v)) \<Longrightarrow> ok_res Q (andthen (arr_get arr i) f)"
  by (auto simp: arr_get_def)

lemma arraylength_ok:
  assumes "frame_at m d p fr" and "1 \<le> d"
  shows "ok_res (with_world (frame_at m d p)) (arraylength fr w)"
  unfolding arraylength_def
  by (rule ok_top [OF assms(1) order_refl assms(2)], rule ok_get_array, rule ok_arr_get,
      rule ok_andthen_frame [OF set_top_ok [OF assms(1) order_refl assms(2)]]) simp

lemma iastore_ok:
  assumes "frame_at m d p fr" and "3 \<le> d"
  shows "ok_res (with_world (frame_at m (d - 3) p)) (iastore fr w)"
proof -
  have *: "ok_res (with_world (frame_at m (d - 3) p))
      (andthen (pop fr) (\<lambda>fr. andthen (pop fr) (\<lambda>fr. andthen (pop fr) (\<lambda>fr. Inr (fr, w')))))" for w'
    using assms by (auto simp: pop_def set_top_def frame_at_def)
  show ?thesis
    unfolding iastore_def
    by (rule ok_top [OF assms(1)], simp, use assms in simp, rule ok_get_array,
        rule ok_top [OF assms(1)], simp, use assms in simp, rule ok_top [OF assms(1)], simp, use assms in simp,
        rule ok_arr_get, rule *)
qed

lemma iaload_ok:
  assumes "frame_at m d p fr" and "2 \<le> d"
  shows "ok_res (with_world (frame_at m (d - 1) p)) (iaload fr w)"
proof -
  have *: "ok_res (with_world (frame_at m (d - 1) p))
      (andthen (pop fr) (\<lambda>fr. andthen (pop fr) (\<lambda>fr. andthen (push v fr) (\<lambda>fr. Inr (fr, w)))))" for v
    using assms by (auto simp: pop_def push_def set_top_def frame_at_def)
  show ?thesis
    unfolding iaload_def
    by (rule ok_top [OF assms(1)], simp, use assms in simp, rule ok_get_array,
        rule ok_top [OF assms(1)], simp, use assms in simp, rule ok_arr_get, rule *)
qed

lemma ok_world_continues:
  assumes "ok_res (with_world (frame_at m d p)) r" and "p + 1 \<in> set succs" and "p + 1 < 2 ^ 64"
  shows "ok_res (with_world (continues m d succs)) r"
  using assms continues_next [of m d p _ succs] by (cases r) auto

text \<open>The result of an instruction agrees with its effect.\<close>

definition agrees :: "java_method \<Rightarrow> nat \<Rightarrow> stack_effect option \<Rightarrow> (frame \<times> world) res \<Rightarrow> bool" where
  "agrees m d e r \<longleftrightarrow> (\<forall>pops pushes room succs. e = Some (pops, pushes, room, succs) \<longrightarrow> pops \<le> d
     \<longrightarrow> d + room \<le> depth_limit m \<longrightarrow> d - pops + pushes \<le> depth_limit m \<longrightarrow> (\<forall>q \<in> set succs. q < 2 ^ 32)
     \<longrightarrow> ok_res (with_world (continues m (d - pops + pushes) succs)) r)"

lemma agrees_if:
  "(c \<Longrightarrow> agrees m d a x) \<Longrightarrow> (\<not> c \<Longrightarrow> agrees m d b y) \<Longrightarrow> agrees m d (if c then a else b) (if c then x else y)"
  by simp

lemma agrees_guarded: "(b \<Longrightarrow> agrees m d (Some e) r) \<Longrightarrow> agrees m d (guarded b e) r"
  by (simp add: agrees_def guarded_def)

lemma agrees_None: "agrees m d None r"
  by (simp add: agrees_def)

lemma agrees_frame:
  assumes "\<lbrakk>pops \<le> d; d + room \<le> depth_limit m; d - pops + pushes \<le> depth_limit m\<rbrakk>
      \<Longrightarrow> ok_res (frame_at m (d - pops + pushes) (p + k)) r" and "q = p + k + 1"
  shows "agrees m d (Some (pops, pushes, room, [q])) (lift_frame w r)"
  unfolding agrees_def using assms by (auto intro!: lift_frame_ok ok_continues [where p = "p + k"])

lemma agrees_world:
  assumes "\<lbrakk>pops \<le> d; d + room \<le> depth_limit m; d - pops + pushes \<le> depth_limit m\<rbrakk>
      \<Longrightarrow> ok_res (with_world (frame_at m (d - pops + pushes) (p + k))) r" and "q = p + k + 1"
  shows "agrees m d (Some (pops, pushes, room, [q])) r"
  unfolding agrees_def using assms by (auto intro!: ok_world_continues [where p = "p + k"])

lemma arith_agrees:
  assumes "frame_at m d p fr"
  shows "agrees m d (if op = i_ineg then Some (1, 1, 0, [p + 1]) else Some (2, 1, 0, [p + 1]))
    (lift_frame w (add_to_xor op fr))"
proof (cases "op = i_ineg")
  case True
  then show ?thesis using add_to_xor_ok [OF assms, of op] by (auto intro!: agrees_frame [where k = 0])
next
  case False
  have "d - 2 + 1 = d - 1" if "2 \<le> d" using that by simp
  then show ?thesis
    using False add_to_xor_ok [OF assms, of op] by (auto intro!: agrees_frame [where k = 0] simp del: One_nat_def)
qed

lemma jump_agrees:
  assumes "frame_at m d p fr" and "i_ifeq \<le> op \<and> op \<le> i_if_icmple"
  shows "agrees m d (guarded (p + 2 < code_size m \<and> 0 \<le> jump_target m p)
      (if i_if_icmpeq \<le> op then 2 else 1, 0, 0, [p + 3, nat (jump_target m p)])) (lift_frame w (jump op m fr))"
  unfolding agrees_def guarded_def
  using assms jump_ok [OF assms(1), of op] by (auto intro!: lift_frame_ok)

lemma goto_agrees:
  assumes "frame_at m d p fr"
  shows "agrees m d (guarded (p + 2 < code_size m \<and> 0 \<le> jump_target m p) (0, 0, 0, [nat (jump_target m p)]))
      (lift_frame w (go_to m fr))"
  unfolding agrees_def guarded_def using go_to_ok [OF assms] by (auto intro!: lift_frame_ok)

lemma handler_agrees:
  assumes fr: "frame_at m d p fr" and p: "p < code_size m"
  shows "agrees m d (guarded (p + 1 < code_size m) (0, 1, 1, [p + 2])) (lift_frame w (bi_push m fr))"
    and "agrees m d (Some (0, 0, 0, [p + 3])) (lift_frame w (get_static fr))"
    and "agrees m d (Some (1, 0, 1, [p + 3])) (invoke_virtual fr w)"
    and "agrees m d (Some (0, 1, 1, [p + 1])) (lift_frame w (i_const m fr))"
    and "agrees m d (guarded (p + 2 < code_size m) (0, 1, 1, [p + 3])) (lift_frame w (si_push m fr))"
    and "agrees m d (guarded (p + 1 < code_size m \<and> unat (byte_at m (p + 1)) < locals_size m) (0, 1, 1, [p + 2])) (lift_frame w (i_load m fr))"
    and "agrees m d (guarded (p + 1 < code_size m \<and> unat (byte_at m (p + 1)) < locals_size m) (1, 0, 0, [p + 2])) (lift_frame w (i_store m fr))"
    and "agrees m d (guarded (p + 2 < code_size m \<and> unat (byte_at m (p + 1)) < locals_size m) (0, 0, 0, [p + 3])) (lift_frame w (i_inc m fr))"
    and "agrees m d (guarded (unat (byte_at m p - i_iload_0) < locals_size m) (0, 1, 1, [p + 1])) (lift_frame w (i_iload_nums m fr))"
    and "agrees m d (guarded (unat (byte_at m p - i_istore_0) < locals_size m) (1, 0, 0, [p + 1])) (lift_frame w (i_istore_nums m fr))"
    and "agrees m d (guarded (p + 1 < code_size m \<and> integer_constant cls (byte_at m (p + 1))) (0, 1, 1, [p + 2])) (lift_frame w (ldc m cls fr))"
    and "agrees m d (Some (0, 0, 0, [p + 1])) (Inr (fr, w))"
    and "agrees m d (Some (1, 2, 1, [p + 1])) (lift_frame w (dup fr))"
    and "agrees m d (Some (1, 1, 0, [p + 2])) (newarray fr w)"
    and "agrees m d (Some (1, 1, 0, [p + 1])) (arraylength fr w)"
    and "agrees m d (Some (3, 0, 0, [p + 1])) (iastore fr w)"
    and "agrees m d (Some (2, 1, 0, [p + 1])) (iaload fr w)"
    and "agrees m d (guarded (p + 1 < code_size m \<and> unat (byte_at m (p + 1)) < locals_size m) (0, 1, 1, [p + 2])) (lift_frame w (aload m fr))"
    and "agrees m d (guarded (p + 1 < code_size m \<and> unat (byte_at m (p + 1)) < locals_size m) (1, 0, 0, [p + 2])) (lift_frame w (astore m fr))"
    and "agrees m d (guarded (unat (byte_at m p - i_aload_0) < locals_size m) (0, 1, 1, [p + 1])) (lift_frame w (aload_nums m fr))"
    and "agrees m d (guarded (unat (byte_at m p - i_astore_0) < locals_size m) (1, 0, 0, [p + 1])) (lift_frame w (astore_nums m fr))"
proof -
  have two: "d - 2 + 1 = d - 1" if "2 \<le> d" using that by simp
  show "agrees m d (guarded (p + 1 < code_size m) (0, 1, 1, [p + 2])) (lift_frame w (bi_push m fr))"
    by (rule agrees_guarded, rule agrees_frame [where k = 1 and p = p]) (use bi_push_ok [OF fr] in simp_all)
  show "agrees m d (Some (0, 0, 0, [p + 3])) (lift_frame w (get_static fr))"
    by (rule agrees_frame [where k = 2 and p = p]) (use skip_ok [OF fr, of 2] in \<open>simp_all add: get_static_def\<close>)
  show "agrees m d (Some (1, 0, 1, [p + 3])) (invoke_virtual fr w)"
    by (rule agrees_world [where k = 2 and p = p]) (use invoke_virtual_ok [OF fr] in simp_all)
  show "agrees m d (Some (0, 1, 1, [p + 1])) (lift_frame w (i_const m fr))"
    by (rule agrees_frame [where k = 0 and p = p]) (use i_const_ok [OF fr] p in simp_all)
  show "agrees m d (guarded (p + 2 < code_size m) (0, 1, 1, [p + 3])) (lift_frame w (si_push m fr))"
    by (rule agrees_guarded, rule agrees_frame [where k = 2 and p = p]) (use si_push_ok [OF fr] in simp_all)
  show "agrees m d (guarded (p + 1 < code_size m \<and> unat (byte_at m (p + 1)) < locals_size m) (0, 1, 1, [p + 2])) (lift_frame w (i_load m fr))"
    by (rule agrees_guarded, rule agrees_frame [where k = 1 and p = p]) (use load_ok [OF fr] in simp_all)
  show "agrees m d (guarded (p + 1 < code_size m \<and> unat (byte_at m (p + 1)) < locals_size m) (1, 0, 0, [p + 2])) (lift_frame w (i_store m fr))"
    by (rule agrees_guarded, rule agrees_frame [where k = 1 and p = p]) (use store_ok [OF fr] in simp_all)
  show "agrees m d (guarded (p + 2 < code_size m \<and> unat (byte_at m (p + 1)) < locals_size m) (0, 0, 0, [p + 3])) (lift_frame w (i_inc m fr))"
    by (rule agrees_guarded, rule agrees_frame [where k = 2 and p = p]) (use i_inc_ok [OF fr] in simp_all)
  show "agrees m d (guarded (unat (byte_at m p - i_iload_0) < locals_size m) (0, 1, 1, [p + 1])) (lift_frame w (i_iload_nums m fr))"
    by (rule agrees_guarded, rule agrees_frame [where k = 0 and p = p]) (use load_nums_ok [OF fr] p in simp_all)
  show "agrees m d (guarded (unat (byte_at m p - i_istore_0) < locals_size m) (1, 0, 0, [p + 1])) (lift_frame w (i_istore_nums m fr))"
    by (rule agrees_guarded, rule agrees_frame [where k = 0 and p = p]) (use store_nums_ok [OF fr] p in simp_all)
  show "agrees m d (guarded (p + 1 < code_size m \<and> integer_constant cls (byte_at m (p + 1))) (0, 1, 1, [p + 2])) (lift_frame w (ldc m cls fr))"
    by (rule agrees_guarded, rule agrees_frame [where k = 1 and p = p]) (use ldc_ok [OF fr] in simp_all)
  show "agrees m d (Some (0, 0, 0, [p + 1])) (Inr (fr, w))"
    by (rule agrees_world [where k = 0 and p = p]) (use fr in simp_all)
  show "agrees m d (Some (1, 2, 1, [p + 1])) (lift_frame w (dup fr))"
    by (rule agrees_frame [where k = 0 and p = p]) (use dup_ok [OF fr] in simp_all)
  show "agrees m d (Some (1, 1, 0, [p + 2])) (newarray fr w)"
    by (rule agrees_world [where k = 1 and p = p]) (use newarray_ok [OF fr] in simp_all)
  show "agrees m d (Some (1, 1, 0, [p + 1])) (arraylength fr w)"
    by (rule agrees_world [where k = 0 and p = p]) (use arraylength_ok [OF fr] in simp_all)
  show "agrees m d (Some (3, 0, 0, [p + 1])) (iastore fr w)"
    by (rule agrees_world [where k = 0 and p = p]) (use iastore_ok [OF fr] in simp_all)
  show "agrees m d (Some (2, 1, 0, [p + 1])) (iaload fr w)"
    by (rule agrees_world [where k = 0 and p = p]) (use iaload_ok [OF fr] two in simp_all)
  show "agrees m d (guarded (p + 1 < code_size m \<and> unat (byte_at m (p + 1)) < locals_size m) (0, 1, 1, [p + 2])) (lift_frame w (aload m fr))"
    by (rule agrees_guarded, rule agrees_frame [where k = 1 and p = p]) (use load_ok [OF fr] in simp_all)
  show "agrees m d (guarded (p + 1 < code_size m \<and> unat (byte_at m (p + 1)) < locals_size m) (1, 0, 0, [p + 2])) (lift_frame w (astore m fr))"
    by (rule agrees_guarded, rule agrees_frame [where k = 1 and p = p]) (use store_ok [OF fr] in simp_all)
  show "agrees m d (guarded (unat (byte_at m p - i_aload_0) < locals_size m) (0, 1, 1, [p + 1])) (lift_frame w (aload_nums m fr))"
    by (rule agrees_guarded, rule agrees_frame [where k = 0 and p = p]) (use load_nums_ok [OF fr] p in simp_all)
  show "agrees m d (guarded (unat (byte_at m p - i_astore_0) < locals_size m) (1, 0, 0, [p + 1])) (lift_frame w (astore_nums m fr))"
    by (rule agrees_guarded, rule agrees_frame [where k = 0 and p = p]) (use store_nums_ok [OF fr] p in simp_all)
qed

lemma exec_op_agrees:
  assumes fr: "frame_at m d p fr" and p: "p < code_size m"
  shows "agrees m d (local_effect cls m p) (exec_op (byte_at m p) m cls fr w)"
  unfolding local_effect_def exec_op_def Let_def
  by (intro agrees_if arith_agrees [OF fr] handler_agrees [OF fr p] jump_agrees [OF fr] goto_agrees [OF fr] agrees_None)

section \<open>Calls and whole runs\<close>

lemma move_args_ok:
  "frame_at m d p fr \<Longrightarrow> k \<le> d \<Longrightarrow> idx + k \<le> length ls
   \<Longrightarrow> \<exists>ls' fr'. move_args k fr ls idx = Inr (ls', fr') \<and> length ls' = length ls \<and> frame_at m d p fr'"
proof (induction k arbitrary: fr ls idx)
  case (Suc k)
  have k: "Suc k \<le> stack_p fr \<and> stack_p fr - Suc k < length (stack fr)"
    using Suc.prems(1,2) by (auto simp: frame_at_def)
  then obtain v where v: "top (Suc k) fr = Inr v" by (simp add: top_def)
  obtain fr1 where fr1: "set_top (Suc k) 0 fr = Inr fr1" "frame_at m d p fr1"
    using k Suc.prems(1) by (simp add: set_top_def frame_at_def)
  from Suc.IH [OF fr1(2), of "idx + 1" "ls[idx := v]"] Suc.prems v fr1(1) show ?case by auto
qed simp

lemma find_method_from_index_in: "find_method_from_index i cls = Some (Some c) \<Longrightarrow> c \<in> set (methods cls)"
  by (auto simp: find_method_from_index_def find_method_def find_Some_iff split: bind_splits)

lemma prepare_call_ok:
  assumes fr: "frame_at m d p fr" and eff: "call_effect cls m p = Some (pops, pushes, room, succs)" and d: "pops \<le> d"
  shows "\<exists>c ls fr'. prepare_call m cls fr = Inr (c, ls, fr') \<and> c \<in> set (methods cls) \<and> length ls = locals_size c
     \<and> frame_at m (d - pops) p fr' \<and> pushes = (if is_void c then 0 else 1) \<and> succs = [p + 3]"
proof -
  obtain c n where c: "find_method_from_index (short (byte_at m (p + 1)) (byte_at m (p + 2))) cls = Some (Some c)"
    and n: "get_number_of_parameters c = Some n" "p + 2 < code_size m" "unat n \<le> locals_size c"
    and e: "pops = unat n" "pushes = (if is_void c then 0 else 1)" "succs = [p + 3]"
    using eff by (auto simp: call_effect_def guarded_def split: option.splits if_splits)
  obtain ls fr' where mv: "move_args (unat n) fr (replicate (unat (max_locals (mcode c))) 0) 0 = Inr (ls, fr')"
    and ls: "length ls = locals_size c" and fr': "frame_at m d p fr'"
    using move_args_ok [OF fr, of "unat n" 0 "replicate (locals_size c) 0"] d e n by (auto simp: locals_size_def)
  have "prepare_call m cls fr = Inr (c, ls, fr'\<lparr>stack_p := stack_p fr' - unat n\<rparr>)"
    using c n mv frame_pc [OF fr] by (simp add: prepare_call_def code_at_def code_size_def byte_at_def)
  moreover have "frame_at m (d - pops) p (fr'\<lparr>stack_p := stack_p fr' - unat n\<rparr>)"
    using fr' e by (auto simp: frame_at_def)
  ultimately show ?thesis using find_method_from_index_in [OF c] ls e by blast
qed

lemma init_frame_ok: "length ls = locals_size m \<Longrightarrow> frame_at m 0 0 (init_frame m ls)"
  by (simp add: init_frame_def frame_at_def depth_limit_def)

lemma method_okD:
  assumes "method_ok cls m D" and "p < code_size m" and "D ! p = Some d"
  shows "position_ok cls m D p d"
proof -
  have "\<forall>p \<in> set [0..<code_size m]. case D ! p of None \<Rightarrow> True | Some d \<Rightarrow> position_ok cls m D p d"
    using assms(1) by (simp add: method_ok_def list_all_iff)
  then have "case D ! p of None \<Rightarrow> True | Some d \<Rightarrow> position_ok cls m D p d" by (rule bspec) (use assms(2) in simp)
  then show ?thesis using assms(3) by simp
qed

lemma class_okD: "class_ok cls Ds \<Longrightarrow> m \<in> set (methods cls) \<Longrightarrow> \<exists>D. method_ok cls m D"
  by (metis class_ok_def list_all2_conv_all_nth in_set_conv_nth)

lemma position_okE:
  assumes "position_ok cls m D p d"
  obtains pops pushes room succs where "effect cls m p = Some (pops, pushes, room, succs)"
    and "pops \<le> d" and "d + room \<le> depth_limit m" and "d - pops + pushes \<le> depth_limit m"
    and "\<forall>q \<in> set succs. q < code_size m \<and> D ! q = Some (d - pops + pushes)"
  using assms by (auto simp: position_ok_def list_all_iff split: option.splits)

lemma code_size_bound: "unat (code_length (mcode m)) = code_size m \<Longrightarrow> code_size m < 2 ^ 32"
  using unsigned_less [of "code_length (mcode m)", where ?'a = nat] by simp

lemma execute_ok:
  assumes cls: "class_ok cls Ds"
  shows "m \<in> set (methods cls) \<Longrightarrow> method_ok cls m D \<Longrightarrow> frame_at m d p fr \<Longrightarrow> p < code_size m \<Longrightarrow> D ! p = Some d
    \<Longrightarrow> ok_res (\<lambda>(r, w'). (r = None) = is_void m) (execute n cls m fr w)"
proof (induction n arbitrary: m D d p fr w)
  case (Suc n)
  note m = Suc.prems(2)
  let ?op = "byte_at m p"
  have len: "unat (code_length (mcode m)) = code_size m" using m by (simp add: method_ok_def)
  then have small: "code_size m < 2 ^ 32" by (rule code_size_bound)
  obtain pops pushes room succs where eff: "effect cls m p = Some (pops, pushes, room, succs)"
    and pops: "pops \<le> d" and lims: "d + room \<le> depth_limit m" "d - pops + pushes \<le> depth_limit m"
    and succs: "\<forall>q \<in> set succs. q < code_size m \<and> D ! q = Some (d - pops + pushes)"
    using position_okE [OF method_okD [OF m Suc.prems(4,5)]] by blast
  have code: "code_at m p = Inr ?op" using Suc.prems(4) by (simp add: code_at_def code_size_def byte_at_def)
  consider (call) "?op = i_invokestatic" | (ret) "?op = i_areturn \<or> ?op = i_ireturn" "?op \<noteq> i_invokestatic"
    | (void) "?op = i_return" "\<not> (?op = i_areturn \<or> ?op = i_ireturn)" "?op \<noteq> i_invokestatic"
    | (local) "?op \<noteq> i_return" "\<not> (?op = i_areturn \<or> ?op = i_ireturn)" "?op \<noteq> i_invokestatic"
    by blast
  then show ?case
  proof cases
    case call
    then have "call_effect cls m p = Some (pops, pushes, room, succs)" using eff by (simp add: effect_def)
    from prepare_call_ok [OF Suc.prems(3) this pops] obtain c ls fr' where
      pc: "prepare_call m cls fr = Inr (c, ls, fr')" and c: "c \<in> set (methods cls)" "length ls = locals_size c"
      and fr': "frame_at m (d - pops) p fr'" and pu: "pushes = (if is_void c then 0 else 1)" and sc: "succs = [p + 3]" by blast
    obtain D' where D': "method_ok cls c D'" using class_okD [OF cls c(1)] by blast
    then have "0 < code_size c" "D' ! 0 = Some 0" by (simp_all add: method_ok_def)
    from Suc.IH [OF c(1) D' init_frame_ok [OF c(2)] this, of w]
    have callee: "ok_res (\<lambda>(r, w'). (r = None) = is_void c) (execute n cls c (init_frame c ls) w)" .
    have "ok_res (\<lambda>(r, w'). (r = None) = is_void m)
        (andthen (case r of None \<Rightarrow> Inr fr' | Some v \<Rightarrow> push v fr') (\<lambda>fr. execute n cls m (next_pc (skip 2 fr)) w'))"
      if "(r = None) = is_void c" for r w'
    proof (rule ok_andthen)
      show "ok_res (frame_at m (d - pops + pushes) p) (case r of None \<Rightarrow> Inr fr' | Some v \<Rightarrow> push v fr')"
        using that fr' pu lims push_ok [OF fr'] by (cases r) auto
      fix f assume f: "frame_at m (d - pops + pushes) p f"
      have "frame_at m (d - pops + pushes) (p + 3) (next_pc (skip 2 f))"
        using next_pc_ok [OF skip_ok [OF f, of 2]] small Suc.prems(4) by (simp add: numeral_3_eq_3)
      then show "ok_res (\<lambda>(r, w'). (r = None) = is_void m) (execute n cls m (next_pc (skip 2 f)) w')"
        using Suc.IH [OF Suc.prems(1,2)] succs sc by simp
    qed
    then have "ok_res (\<lambda>(r, w'). (r = None) = is_void m)
        (andthen (execute n cls c (init_frame c ls) w) (\<lambda>(r, w).
           andthen (case r of None \<Rightarrow> Inr fr' | Some v \<Rightarrow> push v fr') (\<lambda>fr. execute n cls m (next_pc (skip 2 fr)) w)))"
      by (intro ok_andthen [OF callee]) auto
    then show ?thesis using frame_pc [OF Suc.prems(3)] Suc.prems(4) len code call pc by simp
  next
    case ret
    then have "\<not> is_void m \<and> pops = 1" using eff by (auto simp: effect_def guarded_def split: if_splits)
    then show ?thesis
      using frame_pc [OF Suc.prems(3)] Suc.prems(4) len code ret pops by (auto intro!: ok_top [OF Suc.prems(3)])
  next
    case void
    then have "is_void m" using eff by (auto simp: effect_def guarded_def split: if_splits)
    then show ?thesis using frame_pc [OF Suc.prems(3)] Suc.prems(4) len code void by simp
  next
    case local
    then have "local_effect cls m p = Some (pops, pushes, room, succs)" using eff by (simp add: effect_def)
    then have "ok_res (with_world (continues m (d - pops + pushes) succs)) (exec_op ?op m cls fr w)"
      using exec_op_agrees [OF Suc.prems(3,4), of cls w] pops lims succs small by (fastforce simp: agrees_def)
    then have "ok_res (\<lambda>(r, w'). (r = None) = is_void m)
        (andthen (exec_op ?op m cls fr w) (\<lambda>(fr, w). execute n cls m (next_pc fr) w))"
    proof (rule ok_andthen)
      fix x assume "with_world (continues m (d - pops + pushes) succs) x"
      then obtain f v q where x: "x = (f, v)" and q: "q \<in> set succs" "frame_at m (d - pops + pushes) q (next_pc f)"
        by (cases x) (auto simp: continues_def)
      show "ok_res (\<lambda>(r, w'). (r = None) = is_void m) (case x of (fr, w) \<Rightarrow> execute n cls m (next_pc fr) w)"
        unfolding x using Suc.IH [OF Suc.prems(1,2) q(2)] succs q(1) by simp
    qed
    then show ?thesis using frame_pc [OF Suc.prems(3)] Suc.prems(4) len code local by simp
  qed
qed simp

end
