(* ===== verification/Jvm_Main.thy ===== *)
theory Jvm_Main
  imports Jvm_Typing
begin

text \<open>
  The whole Java virtual machine: running a class file from its bytes, the amount of fuel, the
  arithmetic of the instructions against the Java virtual machine specification, and where the
  interpreter departs from it.
\<close>

section \<open>Fuel\<close>

text \<open>A result that is kept: once it is there, more fuel does not change it.\<close>

definition kept :: "'a res \<Rightarrow> 'a res \<Rightarrow> bool" where
  "kept r r' \<longleftrightarrow> (\<forall>x. r = Inr x \<longrightarrow> r' = Inr x)"

lemma kept_refl: "kept r r"
  by (simp add: kept_def)

lemma kept_andthen: "kept r r' \<Longrightarrow> (\<And>x. kept (f x) (f' x)) \<Longrightarrow> kept (andthen r f) (andthen r' f')"
  by (cases r) (auto simp: kept_def)

lemma kept_if: "kept a a' \<Longrightarrow> kept b b' \<Longrightarrow> kept (if c then a else b) (if c then a' else b')"
  by simp

lemma kept_prod: "(\<And>x y. kept (f x y) (f' x y)) \<Longrightarrow> kept (case p of (x, y) \<Rightarrow> f x y) (case p of (x, y) \<Rightarrow> f' x y)"
  by (cases p) simp

lemma execute_kept: "kept (execute n cls m fr w) (execute (Suc n) cls m fr w)"
proof (induction n arbitrary: m fr w)
  case 0
  show ?case by (simp add: kept_def)
next
  case (Suc n)
  show ?case
    unfolding execute.simps(2) [of "Suc n"] execute.simps(2) [of n cls m fr w]
    by (intro kept_if kept_andthen kept_prod kept_refl Suc.IH)
qed

lemma execute_more_fuel: "execute n cls m fr w = Inr x \<Longrightarrow> execute (n + k) cls m fr w = Inr x"
proof (induction k)
  case (Suc k)
  then show ?case using execute_kept [of "n + k" cls m fr w] unfolding kept_def by simp
qed simp

section \<open>Arithmetic\<close>

lemma sint_of_int_range: "- (2 ^ 31) \<le> k \<Longrightarrow> k < 2 ^ 31 \<Longrightarrow> sint (word_of_int k :: i32) = k"
  using signed_take_bit_int_eq_self [of 31 k] by (simp add: signed_of_int)

lemma sint_range: "- (2 ^ 31) \<le> sint (a :: i32)" "sint a < 2 ^ 31"
  using sint_greater_eq [of a] sint_less [of a] by simp_all

lemma quot_bounds:
  assumes "b \<noteq> 0" and "- (2 ^ 31) \<le> a" "a < 2 ^ 31" and "\<not> (a = - (2 ^ 31) \<and> b = -1)"
  shows "- (2 ^ 31) \<le> quot a b" and "quot a b < 2 ^ 31"
    and "\<bar>a - b * quot a b\<bar> < \<bar>b\<bar>" and "\<bar>a - b * quot a b\<bar> \<le> \<bar>a\<bar>"
proof -
  let ?q = "\<bar>a\<bar> div \<bar>b\<bar>"
  have q: "0 \<le> ?q" "?q \<le> \<bar>a\<bar>" using assms(1) by (auto simp: pos_imp_zdiv_nonneg_iff zdiv_mono2 [of "\<bar>a\<bar>" 1, simplified])
  have big: "?q < 2 ^ 31 \<or> (\<bar>b\<bar> = 1 \<and> a = - (2 ^ 31))"
  proof (cases "\<bar>b\<bar> = 1")
    case True
    then show ?thesis using assms(2,3) by auto
  next
    case False
    then have "2 \<le> \<bar>b\<bar>" using assms(1) by linarith
    then have "?q \<le> \<bar>a\<bar> div 2" by (intro zdiv_mono2) auto
    moreover have "\<bar>a\<bar> \<le> 2 ^ 31" using assms(2,3) by auto
    ultimately show ?thesis by auto
  qed
  show "- (2 ^ 31) \<le> quot a b" "quot a b < 2 ^ 31"
    using q big assms by (auto simp: quot_def sgn_if abs_if split: if_splits)
  have "b * quot a b = sgn a * (\<bar>b\<bar> * ?q)"
    by (simp add: quot_def abs_sgn [of b] mult.assoc mult.left_commute)
  moreover have "a = sgn a * \<bar>a\<bar>" by (simp add: mult_sgn_abs)
  ultimately have "a - b * quot a b = sgn a * (\<bar>a\<bar> - \<bar>b\<bar> * ?q)" by (simp add: right_diff_distrib)
  also have "\<bar>a\<bar> - \<bar>b\<bar> * ?q = \<bar>a\<bar> mod \<bar>b\<bar>" by (simp add: minus_mult_div_eq_mod)
  finally have r: "\<bar>a - b * quot a b\<bar> = \<bar>sgn a\<bar> * (\<bar>a\<bar> mod \<bar>b\<bar>)" using assms(1) by (simp add: abs_mult)
  have "0 \<le> \<bar>a\<bar> mod \<bar>b\<bar>" "\<bar>a\<bar> mod \<bar>b\<bar> < \<bar>b\<bar>" "\<bar>a\<bar> mod \<bar>b\<bar> \<le> \<bar>a\<bar>"
    using assms(1) zmod_le_nonneg_dividend [of "\<bar>a\<bar>" "\<bar>b\<bar>"] by auto
  then show "\<bar>a - b * quot a b\<bar> < \<bar>b\<bar>" "\<bar>a - b * quot a b\<bar> \<le> \<bar>a\<bar>"
    unfolding r by (auto simp: sgn_if)
qed

lemma sint_nonzero: "(b :: i32) \<noteq> 0 \<Longrightarrow> sint b \<noteq> 0"
  using sint_inj [of b 0] by auto

lemma division_exact:
  assumes "b \<noteq> 0" and "\<not> div_traps a b"
  shows "sint (sdiv a b) = quot (sint a) (sint b)"
    and "sint (a - b * sdiv a b) = sint a - sint b * quot (sint a) (sint b)"
    and "\<bar>sint a - sint b * quot (sint a) (sint b)\<bar> < \<bar>sint b\<bar>"
proof -
  have nt: "\<not> (sint a = - (2 ^ 31) \<and> sint b = -1)" using assms(2) by (simp add: div_traps_def)
  note q = quot_bounds [OF sint_nonzero [OF assms(1)] sint_range [of a] nt]
  show "sint (sdiv a b) = quot (sint a) (sint b)" unfolding sdiv_def by (rule sint_of_int_range [OF q(1,2)])
  show "\<bar>sint a - sint b * quot (sint a) (sint b)\<bar> < \<bar>sint b\<bar>" by (rule q(3))
  let ?r = "sint a - sint b * quot (sint a) (sint b)"
  have "a - b * sdiv a b = word_of_int ?r" by (simp add: sdiv_def)
  moreover have "- (2 ^ 31) \<le> ?r" "?r < 2 ^ 31"
    using q(3,4) sint_range [of a] sint_range [of b] by linarith+
  ultimately show "sint (a - b * sdiv a b) = ?r" using sint_of_int_range [of ?r] by (simp only:)
qed

lemma shift_count: "unat ((b :: i32) AND 31) = unat b mod 32"
proof -
  have "b AND 31 = take_bit 5 b" by (simp add: take_bit_eq_mask mask_eq_exp_minus_1)
  then have "unat (b AND 31) = take_bit 5 (unat b)" by (simp only: unsigned_take_bit_eq)
  then show ?thesis by (simp add: take_bit_eq_mod)
qed

lemma shifts_exact:
  fixes a b :: i32
  shows "sint (signed_drop_bit (unat (b AND 31)) a) = sint a div 2 ^ (unat b mod 32)"
    and "uint (drop_bit (unat (b AND 31)) a) = uint a div 2 ^ (unat b mod 32)"
    and "uint (push_bit (unat (b AND 31)) a) = (uint a * 2 ^ (unat b mod 32)) mod 2 ^ 32"
  unfolding shift_count sint_signed_drop_bit_eq unsigned_drop_bit_eq unsigned_push_bit_eq
  using uint_bounded [of a] by (simp_all add: drop_bit_eq_div push_bit_eq_mult take_bit_eq_mod)

section \<open>Properties\<close>


text \<open>A class with \<^verbatim>\<open>main\<close> and a static method that sums the numbers up to its argument in a loop.\<close>

definition sum_pool :: "cp_info list" where
  "sum_pool = [CONSTANT_Utf8 ''main'', CONSTANT_Utf8 ''([Ljava/lang/String;)V'', CONSTANT_Utf8 ''Code'',
     CONSTANT_Utf8 ''sum'', CONSTANT_Utf8 ''(I)I'', CONSTANT_NameAndType 4 5, CONSTANT_Class 1, CONSTANT_Methodref 7 6]"

definition sum_methods :: "method_source list" where
  "sum_methods =
     [\<lparr>s_flags = 9, s_name = 1, s_descriptor = 2, s_before = [], s_code_name = 3,
       s_code = \<lparr>max_stack = 2, max_locals = 1, code_length = 12,
         code_bytes = [0xb2, 0, 0, 0x10, 10, 0xb8, 0, 8, 0xb6, 0, 0, 0xb1]\<rparr>, s_extra = [0, 0, 0, 0], s_after = []\<rparr>,
      \<lparr>s_flags = 9, s_name = 4, s_descriptor = 5, s_before = [], s_code_name = 3,
       s_code = \<lparr>max_stack = 2, max_locals = 2, code_length = 18,
         code_bytes = [0x03, 0x3c, 0x1a, 0x9e, 0, 13, 0x1b, 0x1a, 0x60, 0x3c, 0x84, 0, 0xff, 0xa7, 0xff, 0xf5, 0x1b, 0xac]\<rparr>,
       s_extra = [0, 0, 0, 0], s_after = []\<rparr>]"

definition sum_depths :: "nat option list list" where
  "sum_depths =
     [[Some 0, None, None, Some 0, None, Some 1, None, None, Some 1, None, None, Some 0],
      [Some 0, Some 1, Some 0, Some 1, None, None, Some 0, Some 1, Some 2, Some 1, Some 0, None, None, Some 0, None, None,
       Some 0, Some 1]]"




text \<open>
  A zero divisor is not an error of the interpreter: division by zero gives zero, and a
  remainder by zero falls through to the negation case and gives the negated dividend.
\<close>

theorem zero_divisor_results:
  "arith i_idiv a 0 = Inr 0 \<and> arith i_irem a 0 = Inr (- a)"
  by (simp add: arith_def opcode_defs)

text \<open>
  The element index -1 of an array is not rejected: it reaches the word in front of the
  elements that holds the length, so loading it yields the length and storing to it changes the
  length that \<^verbatim>\<open>arraylength\<close> reports afterwards.
\<close>

theorem index_minus_one_reaches_length:
  assumes "heap_ok (wheap w)" and "heap_get (wheap w) ref = Some (n # elements)"
  shows "iaload \<lparr>stack = [ref, -1], stack_p = 2, pc = p, locals = ls\<rparr> w
       = Inr (\<lparr>stack = [n, 0], stack_p = 1, pc = p, locals = ls\<rparr>, w)
    \<and> (\<exists>w'. iastore \<lparr>stack = [ref, -1, v], stack_p = 3, pc = p, locals = ls\<rparr> w
         = Inr (\<lparr>stack = [0, 0, 0], stack_p = 0, pc = p, locals = ls\<rparr>, w')
       \<and> arraylength \<lparr>stack = [ref], stack_p = 1, pc = p, locals = ls\<rparr> w'
         = Inr (\<lparr>stack = [v], stack_p = 1, pc = p, locals = ls\<rparr>, w'))"
  using assms arrays.get_set [OF assms, of "v # elements" ref]
  by (simp add: iaload_def iastore_def arraylength_def top_def set_top_def pop_def push_def get_array_def arr_get_def
      numeral_2_eq_2 numeral_3_eq_3)

theorem index_minus_one_reaches_length_witness:
  "iaload \<lparr>stack = [0, -1], stack_p = 2, pc = 5, locals = []\<rparr> \<lparr>wheap = \<lparr>ptrs = [[3, 7, 8, 9]], count = 1\<rparr>, wout = []\<rparr>
     = Inr (\<lparr>stack = [3, 0], stack_p = 1, pc = 5, locals = []\<rparr>, \<lparr>wheap = \<lparr>ptrs = [[3, 7, 8, 9]], count = 1\<rparr>, wout = []\<rparr>)"
proof -
  let ?w = "\<lparr>wheap = \<lparr>ptrs = [[3, 7, 8, 9]], count = 1\<rparr>, wout = []\<rparr>"
  have "heap_ok (wheap ?w)" by (simp add: heap_ok_def)
  moreover have "heap_get (wheap ?w) 0 = Some (3 # [7, 8, 9])" by (simp add: heap_get_def)
  ultimately show ?thesis using index_minus_one_reaches_length [of ?w 0 3 "[7, 8, 9]" 5 "[]"] by simp
qed

end
