(* ===== verification/Memlib.thy ===== *)
theory Memlib
  imports Prelude
begin

text \<open>
  The simulated memory of the allocators (\<^verbatim>\<open>src/malloc/src/memlib.c\<close>): a mapped region of
  \<^verbatim>\<open>MAX_HEAP\<close> bytes with a break that only grows. Addresses and \<^verbatim>\<open>size_t\<close> values are integers, with
  the arithmetic modulo \<^verbatim>\<open>2^64\<close> written out where a value can leave that range; the null pointer is 0.
  Loads and stores outside the region are \<^const>\<open>None\<close>.
\<close>

section \<open>Little-endian words in a byte memory\<close>

fun get_le :: "(int \<Rightarrow> byte) \<Rightarrow> int \<Rightarrow> nat \<Rightarrow> int" where
  "get_le f a 0 = 0"
| "get_le f a (Suc n) = uint (f a) + 256 * get_le f (a + 1) n"

fun put_le :: "(int \<Rightarrow> byte) \<Rightarrow> int \<Rightarrow> nat \<Rightarrow> int \<Rightarrow> int \<Rightarrow> byte" where
  "put_le f a 0 v = f"
| "put_le f a (Suc n) v = put_le (f(a := word_of_int v)) (a + 1) n (v div 256)"

lemma put_le_other: "x < a \<or> a + int n \<le> x \<Longrightarrow> put_le f a n v x = f x"
  by (induction n arbitrary: f a v) auto

lemma get_le_cong: "(\<And>x. a \<le> x \<Longrightarrow> x < a + int n \<Longrightarrow> f x = g x) \<Longrightarrow> get_le f a n = get_le g a n"
proof (induction n arbitrary: a)
  case (Suc n)
  have "f a = g a" using Suc.prems by simp
  moreover have "get_le f (a + 1) n = get_le g (a + 1) n" by (rule Suc.IH) (use Suc.prems in auto)
  ultimately show ?case by simp
qed simp

lemma get_put_le: "0 \<le> v \<Longrightarrow> get_le (put_le f a n v) a n = v mod 256 ^ n"
proof (induction n arbitrary: f a v)
  case (Suc n)
  let ?g = "f(a := word_of_int v)"
  have "put_le ?g (a + 1) n (v div 256) a = word_of_int v" by (simp add: put_le_other)
  moreover have "get_le (put_le ?g (a + 1) n (v div 256)) (a + 1) n = (v div 256) mod 256 ^ n"
    by (rule Suc.IH) (use Suc.prems in \<open>simp add: pos_imp_zdiv_nonneg_iff\<close>)
  ultimately have "get_le (put_le f a (Suc n) v) a (Suc n) = v mod 256 + 256 * (v div 256 mod 256 ^ n)"
    by (simp add: uint_word_of_int)
  also have "\<dots> = v mod (256 * 256 ^ n)"
    using zmod_zmult2_eq [of "256 ^ n" v 256] by simp
  finally show ?case by simp
qed simp

lemma get_put_disjoint: "a + int n \<le> b \<or> b + int m \<le> a \<Longrightarrow> get_le (put_le f a n v) b m = get_le f b m"
  by (rule get_le_cong) (auto intro: put_le_other)

section \<open>The memory system\<close>

definition MAX_HEAP :: int where
  "MAX_HEAP = 100 * 2 ^ 20"

record memsys =
  heap :: int
  mem_brk :: int
  cells :: "int \<Rightarrow> byte"

definition mem_reset_brk :: "bool \<Rightarrow> memsys \<Rightarrow> memsys" where
  "mem_reset_brk clear s =
     (let s = s\<lparr>mem_brk := heap s\<rparr> in
      if clear then s\<lparr>cells := (\<lambda>x. if heap s \<le> x \<and> x < heap s + MAX_HEAP then 0xCC else cells s x)\<rparr> else s)"

text \<open>The region that \<^verbatim>\<open>mmap\<close> returns starts at \<open>base\<close> and holds zeros.\<close>

definition mem_init :: "int \<Rightarrow> memsys" where
  "mem_init base = mem_reset_brk True \<lparr>heap = base, mem_brk = 0, cells = (\<lambda>_. 0)\<rparr>"

text \<open>
  \<^verbatim>\<open>mem_sbrk\<close> of an \<^verbatim>\<open>ssize_t\<close>; -1 is the error value. The \<^verbatim>\<open>size_t\<close> that the allocators pass is
  converted by \<open>ssize\<close>.
\<close>

definition ssize :: "int \<Rightarrow> int" where
  "ssize v = (if v < 2 ^ 63 then v else v - 2 ^ 64)"

definition mem_sbrk :: "int \<Rightarrow> memsys \<Rightarrow> int \<times> memsys" where
  "mem_sbrk incr s =
     (let old_brk = mem_brk s in
      if incr < 0 \<or> mem_brk s + incr > heap s + MAX_HEAP then (-1, s)
      else (old_brk, s\<lparr>mem_brk := mem_brk s + incr\<rparr>))"

definition mem_heap_lo :: "memsys \<Rightarrow> int" where
  "mem_heap_lo s = heap s"

definition mem_heap_hi :: "memsys \<Rightarrow> int" where
  "mem_heap_hi s = mem_brk s - 1"

definition mem_heapsize :: "memsys \<Rightarrow> int" where
  "mem_heapsize s = mem_brk s - heap s"

text \<open>The break stays inside the region and new areas follow each other.\<close>

lemma mem_sbrk_cases:
  assumes "mem_sbrk incr s = (p, t)"
  shows "p = -1 \<and> t = s \<or> p = mem_brk s \<and> t = s\<lparr>mem_brk := mem_brk s + incr\<rparr> \<and> 0 \<le> incr
     \<and> mem_brk s + incr \<le> heap s + MAX_HEAP"
  using assms by (auto simp: mem_sbrk_def Let_def split: if_splits)

section \<open>Loads, stores and copies\<close>

definition mapped :: "memsys \<Rightarrow> int \<Rightarrow> int \<Rightarrow> bool" where
  "mapped s a n \<longleftrightarrow> n = 0 \<or> heap s \<le> a \<and> a + n \<le> heap s + MAX_HEAP"

definition load :: "memsys \<Rightarrow> int \<Rightarrow> int option" where
  "load s a = (if mapped s a 8 then Some (get_le (cells s) a 8) else None)"

definition store :: "int \<Rightarrow> int \<Rightarrow> memsys \<Rightarrow> memsys option" where
  "store a v s = (if mapped s a 8 then Some (s\<lparr>cells := put_le (cells s) a 8 v\<rparr>) else None)"

definition memcpy :: "int \<Rightarrow> int \<Rightarrow> int \<Rightarrow> memsys \<Rightarrow> memsys option" where
  "memcpy dst src n s =
     (if mapped s dst n \<and> mapped s src n
      then Some (s\<lparr>cells := (\<lambda>x. if dst \<le> x \<and> x < dst + n then cells s (src + (x - dst)) else cells s x)\<rparr>)
      else None)"

definition memset :: "int \<Rightarrow> byte \<Rightarrow> int \<Rightarrow> memsys \<Rightarrow> memsys option" where
  "memset dst c n s =
     (if mapped s dst n then Some (s\<lparr>cells := (\<lambda>x. if dst \<le> x \<and> x < dst + n then c else cells s x)\<rparr>) else None)"

lemma store_mapped:
  assumes "mapped s a 8" and "0 \<le> v" "v < 2 ^ 64"
  shows "\<exists>t. store a v s = Some t \<and> load t a = Some v \<and> heap t = heap s \<and> mem_brk t = mem_brk s
    \<and> (\<forall>x. x < a \<or> a + 8 \<le> x \<longrightarrow> cells t x = cells s x)
    \<and> (\<forall>b. a + 8 \<le> b \<or> b + 8 \<le> a \<longrightarrow> load t b = load s b)"
  using assms get_put_le [of v "cells s" a 8] put_le_other [of _ a 8 "cells s" v] get_put_disjoint [of a 8 _ 8 "cells s" v]
  by (auto simp: store_def load_def mapped_def)

lemma memcpy_mapped:
  assumes "mapped s dst n" and "mapped s src n"
  shows "\<exists>t. memcpy dst src n s = Some t \<and> heap t = heap s \<and> mem_brk t = mem_brk s
    \<and> (\<forall>x. cells t x = (if dst \<le> x \<and> x < dst + n then cells s (src + (x - dst)) else cells s x))"
  using assms by (simp add: memcpy_def)

section \<open>Headers\<close>

text \<open>\<^verbatim>\<open>size | is_allocated\<close>, and the two parts of a header.\<close>

definition make_header :: "int \<Rightarrow> bool \<Rightarrow> int" where
  "make_header sz is_alloc = sz OR of_bool is_alloc"

definition header_size :: "int \<Rightarrow> int" where
  "header_size h = h AND NOT 1"

definition header_allocated :: "int \<Rightarrow> bool" where
  "header_allocated h \<longleftrightarrow> h AND 1 \<noteq> 0"

lemma header_parts:
  assumes "even sz"
  shows "make_header sz b = sz + of_bool b" "header_size (make_header sz b) = sz"
    and "header_allocated (make_header sz b) = b"
proof -
  have or: "sz OR of_bool b = sz + of_bool b"
    using assms by (cases b) (simp_all add: or_one_eq)
  show "make_header sz b = sz + of_bool b" by (simp add: make_header_def or)
  show "header_allocated (make_header sz b) = b"
    using assms by (simp add: make_header_def or header_allocated_def and_one_eq mod_2_eq_odd)
  show "header_size (make_header sz b) = sz"
    by (rule bit_eqI) (use assms in \<open>auto simp: header_size_def make_header_def bit_simps bit_0 elim: oddE\<close>)
qed

end
