(* ===== verification/Heap_Blocks.thy ===== *)
theory Heap_Blocks
  imports Memlib
begin

text \<open>
  The abstract heap of the allocators: the list of the sizes and allocation bits of the blocks that
  tile it, with the addresses that follow from the sizes.
\<close>

type_synonym blocks = "(int \<times> bool) list"

fun last_addr :: "int \<Rightarrow> blocks \<Rightarrow> int" where
  "last_addr a ((n, al) # b # bs) = last_addr (a + n) (b # bs)"
| "last_addr a _ = a"

fun free_cells :: "int \<Rightarrow> blocks \<Rightarrow> int set" where
  "free_cells a [] = {}"
| "free_cells a ((n, al) # bs) = (if al then {} else {a..<a + n}) \<union> free_cells (a + n) bs"

text \<open>The allocated blocks with their addresses.\<close>

fun allocs :: "int \<Rightarrow> blocks \<Rightarrow> (int \<times> int) set" where
  "allocs a [] = {}"
| "allocs a ((n, al) # bs) = (if al then {(a, n)} else {}) \<union> allocs (a + n) bs"

definition extent :: "blocks \<Rightarrow> int" where
  "extent bs = sum_list (map fst bs)"

lemma extent_simps [simp]: "extent [] = 0" "extent ((n, al) # bs) = n + extent bs" "extent (xs @ ys) = extent xs + extent ys"
  by (simp_all add: extent_def)

definition sizes_ok :: "blocks \<Rightarrow> bool" where
  "sizes_ok bs \<longleftrightarrow> (\<forall>(n, al) \<in> set bs. 16 \<le> n \<and> 16 dvd n)"

lemma extent_nonneg: "sizes_ok bs \<Longrightarrow> 0 \<le> extent bs"
  by (induction bs) (auto simp: sizes_ok_def)

lemma last_addr_cons: "bs \<noteq> [] \<Longrightarrow> last_addr a ((n, al) # bs) = last_addr (a + n) bs"
  by (cases bs) auto

lemma last_addr_append: "ys \<noteq> [] \<Longrightarrow> last_addr a (xs @ ys) = last_addr (a + extent xs) ys"
proof (induction xs arbitrary: a)
  case (Cons x xs)
  obtain n al where "x = (n, al)" by (cases x)
  then show ?case using Cons by (simp add: last_addr_cons add.assoc)
qed simp

lemma last_addr_ge: "sizes_ok bs \<Longrightarrow> a \<le> last_addr a bs"
  by (induction a bs rule: last_addr.induct) (auto simp: sizes_ok_def intro: order_trans [rotated])

lemma last_addr_end: "sizes_ok bs \<Longrightarrow> bs \<noteq> [] \<Longrightarrow> last_addr a bs < a + extent bs"
proof (induction a bs rule: last_addr.induct)
  case (1 a n al b bs)
  then show ?case by (auto simp: sizes_ok_def add.assoc)
qed (auto simp: sizes_ok_def)

lemma free_cells_bounds: "sizes_ok bs \<Longrightarrow> x \<in> free_cells a bs \<Longrightarrow> a \<le> x \<and> x < a + extent bs"
proof (induction bs arbitrary: a)
  case (Cons b bs)
  obtain n al where b: "b = (n, al)" by (cases b)
  have "sizes_ok bs" "16 \<le> n" "0 \<le> extent bs" using Cons.prems(1) b extent_nonneg [of bs] by (auto simp: sizes_ok_def)
  then show ?case using Cons b by (fastforce split: if_splits)
qed simp

lemma allocs_append: "allocs a (xs @ ys) = allocs a xs \<union> allocs (a + extent xs) ys"
  by (induction a xs rule: allocs.induct) (auto simp: add.assoc)

lemma free_cells_append: "free_cells a (xs @ ys) = free_cells a xs \<union> free_cells (a + extent xs) ys"
  by (induction a xs rule: free_cells.induct) (auto simp: add.assoc)

lemma allocs_bounds: "sizes_ok bs \<Longrightarrow> (b, n) \<in> allocs a bs \<Longrightarrow> a \<le> b \<and> b + n \<le> a + extent bs \<and> 16 \<le> n \<and> 16 dvd n \<and> 16 dvd b - a"
proof (induction bs arbitrary: a)
  case (Cons c bs)
  obtain k al where c: "c = (k, al)" by (cases c)
  have k: "sizes_ok bs" "16 \<le> k" "16 dvd k" "0 \<le> extent bs" using Cons.prems(1) c extent_nonneg [of bs] by (auto simp: sizes_ok_def)
  show ?case
  proof (cases "(b, n) \<in> allocs (a + k) bs")
    case True
    from Cons.IH [OF k(1) True] have "16 dvd b - (a + k) + k" using k(3) by (intro dvd_add) auto
    then show ?thesis using Cons.IH [OF k(1) True] k c by auto
  qed (use Cons.prems c k in \<open>auto split: if_splits\<close>)
qed simp

lemma allocs_disjoint:
  "sizes_ok bs \<Longrightarrow> (b, n) \<in> allocs a bs \<Longrightarrow> (c, k) \<in> allocs a bs \<Longrightarrow> (b, n) \<noteq> (c, k) \<Longrightarrow> b + n \<le> c \<or> c + k \<le> b"
proof (induction bs arbitrary: a)
  case (Cons d bs)
  obtain l al where d: "d = (l, al)" by (cases d)
  have l: "sizes_ok bs" using Cons.prems(1) by (auto simp: sizes_ok_def)
  consider "(b, n) \<in> allocs (a + l) bs" "(c, k) \<in> allocs (a + l) bs"
    | "b = a" "n = l" "(c, k) \<in> allocs (a + l) bs" | "c = a" "k = l" "(b, n) \<in> allocs (a + l) bs"
    using Cons.prems d by (auto split: if_splits)
  then show ?case
  proof cases
    case 1
    then show ?thesis using Cons.IH [OF l] Cons.prems(4) by blast
  qed (use allocs_bounds [OF l] in fastforce)+
qed simp

lemma allocs_not_free: "sizes_ok bs \<Longrightarrow> (b, n) \<in> allocs a bs \<Longrightarrow> b \<le> x \<Longrightarrow> x < b + n \<Longrightarrow> x \<notin> free_cells a bs"
proof (induction bs arbitrary: a)
  case (Cons d bs)
  obtain l al where d: "d = (l, al)" by (cases d)
  have l: "sizes_ok bs" "16 \<le> l" using Cons.prems(1) d by (auto simp: sizes_ok_def)
  show ?case
  proof (cases "(b, n) \<in> allocs (a + l) bs")
    case True
    then show ?thesis using Cons.IH [OF l(1) True] Cons.prems allocs_bounds [OF l(1) True] d by auto
  next
    case False
    then have "b = a" "n = l" "al" using Cons.prems(2) d by (auto split: if_splits)
    then show ?thesis using free_cells_bounds [OF l(1), of x "a + l"] Cons.prems d by auto
  qed
qed simp

lemma allocs_split:
  "(b, n) \<in> allocs a bs \<Longrightarrow> \<exists>pre post. bs = pre @ (n, True) # post \<and> b = a + extent pre"
proof (induction bs arbitrary: a)
  case (Cons c bs)
  obtain k al where c: "c = (k, al)" by (cases c)
  show ?case
  proof (cases "(b, n) \<in> allocs (a + k) bs")
    case True
    from Cons.IH [OF this] obtain pre post where "bs = pre @ (n, True) # post" "b = a + k + extent pre" by blast
    then have "c # bs = ((k, al) # pre) @ (n, True) # post \<and> b = a + extent ((k, al) # pre)" using c by simp
    then show ?thesis by blast
  next
    case False
    then have "c # bs = [] @ (n, True) # bs \<and> b = a + extent []" using Cons.prems c by (auto split: if_splits)
    then show ?thesis by blast
  qed
qed simp

end
