(* ===== verification/Allocator.thy ===== *)
theory Allocator
  imports Memlib
begin

text \<open>
  What the users of the two \<^verbatim>\<open>malloc\<close> packages (\<^verbatim>\<open>src/malloc/include/mm.h\<close>) rely on, as a
  locale, and what follows for reallocation, which both packages build from an allocation, a copy
  and a release.
\<close>

text \<open>The bytes that the break can still grow by.\<close>

definition room :: "memsys \<Rightarrow> int" where
  "room m = heap m + MAX_HEAP - mem_brk m"

text \<open>The region stays, the break does not shrink and the payloads in \<open>L\<close> keep their contents.\<close>

definition kept :: "(int \<times> int) set \<Rightarrow> memsys \<Rightarrow> memsys \<Rightarrow> bool" where
  "kept L m m' \<longleftrightarrow> heap m' = heap m \<and> mem_brk m \<le> mem_brk m'
     \<and> (\<forall>p n x. (p, n) \<in> L \<longrightarrow> p \<le> x \<longrightarrow> x < p + n \<longrightarrow> cells m' x = cells m x)"

lemma kept_same: "kept L m m"
  by (simp add: kept_def)

lemma kept_trans: "kept L m m' \<Longrightarrow> kept K m' m'' \<Longrightarrow> J \<subseteq> L \<Longrightarrow> J \<subseteq> K \<Longrightarrow> kept J m m''"
  by (force simp: kept_def)

lemma kept_mono: "kept L m m' \<Longrightarrow> K \<subseteq> L \<Longrightarrow> kept K m m'"
  by (auto simp: kept_def)

lemma kept_cell: "kept L m m' \<Longrightarrow> (p, n) \<in> L \<Longrightarrow> 0 \<le> i \<Longrightarrow> i < n \<Longrightarrow> cells m' (p + i) = cells m (p + i)"
  by (simp add: kept_def)

text \<open>
  \<open>live s L\<close>: the state \<open>s\<close> is well formed and \<open>L\<close> are the payloads in use, as address and
  length.
\<close>

locale allocator =
  fixes live :: "'s \<Rightarrow> (int \<times> int) set \<Rightarrow> bool"
    and memory :: "'s \<Rightarrow> memsys"
    and set_memory :: "memsys \<Rightarrow> 's \<Rightarrow> 's"
    and malloc :: "int \<Rightarrow> 's \<Rightarrow> (int \<times> 's) option"
    and free :: "int \<Rightarrow> 's \<Rightarrow> 's option"
    and realloc :: "int \<Rightarrow> int \<Rightarrow> 's \<Rightarrow> (int \<times> 's) option"
  assumes malloc_live: "live s L \<Longrightarrow> 0 < sz \<Longrightarrow> sz < 2 ^ 62 \<Longrightarrow> \<exists>p t. malloc sz s = Some (p, t)
      \<and> kept L (memory s) (memory t)
      \<and> (p = 0 \<and> room (memory s) < sz + 32 \<and> live t L
         \<or> p \<noteq> 0 \<and> p \<notin> fst ` L \<and> room (memory s) \<le> room (memory t) + sz + 32 \<and> (\<exists>n \<ge> sz. live t (insert (p, n) L)))"
    and free_live: "live s L \<Longrightarrow> (p, n) \<in> L \<Longrightarrow> \<exists>t. free p s = Some t \<and> live t (L - {(p, n)})
      \<and> kept (L - {(p, n)}) (memory s) (memory t) \<and> mem_brk (memory t) = mem_brk (memory s)"
    and free_null: "free 0 s = Some s"
    and realloc_null: "realloc 0 sz s = malloc sz s"
    and realloc_zero: "p \<noteq> 0 \<Longrightarrow> realloc p 0 s = map_option (Pair 0) (free p s)"
    and realloc_copy: "live s L \<Longrightarrow> (p, n) \<in> L \<Longrightarrow> 0 < sz \<Longrightarrow> malloc sz s = Some (q, t)
      \<Longrightarrow> memcpy q p (min n sz) (memory t) = Some m \<Longrightarrow> realloc p sz s = map_option (Pair q) (free p (set_memory m t))"
    and set_memory_live: "live s L \<Longrightarrow> (p, n) \<in> L \<Longrightarrow> heap m = heap (memory s) \<Longrightarrow> mem_brk m = mem_brk (memory s)
      \<Longrightarrow> (\<And>x. x < p \<or> p + n \<le> x \<Longrightarrow> cells m x = cells (memory s) x) \<Longrightarrow> live (set_memory m s) L"
    and memory_set_memory: "memory (set_memory m s) = m" "set_memory (memory s) s = s"
    and live_payload: "live s L \<Longrightarrow> (p, n) \<in> L \<Longrightarrow> 16 dvd p \<and> 0 < heap (memory s) \<and> heap (memory s) \<le> p \<and> 0 \<le> n
      \<and> p + n \<le> mem_brk (memory s)"
    and live_region: "live s L \<Longrightarrow> mem_brk (memory s) \<le> heap (memory s) + MAX_HEAP"
    and live_base: "live s L \<Longrightarrow> heap (memory s) \<le> mem_brk (memory s)"
    and live_disjoint: "live s L \<Longrightarrow> (p, n) \<in> L \<Longrightarrow> (q, k) \<in> L \<Longrightarrow> (p, n) \<noteq> (q, k) \<Longrightarrow> p + n < q \<or> q + k < p"
begin

lemma live_pointer: "live s L \<Longrightarrow> (p, n) \<in> L \<Longrightarrow> (p, k) \<in> L \<Longrightarrow> n = k"
  using live_disjoint [of s L p n p k] live_payload [of s L p] by fastforce

lemma live_nonnull: "live s L \<Longrightarrow> (p, n) \<in> L \<Longrightarrow> 0 < p"
  using live_payload [of s L p n] by linarith

text \<open>A reallocation moves the payload, with its contents up to the smaller length.\<close>

lemma realloc_live:
  assumes s: "live s L" and p: "(p, n) \<in> L" and sz: "0 < sz" "sz < 2 ^ 62" and m: "malloc sz s = Some (q, t)" "q \<noteq> 0"
  shows "\<exists>u k. realloc p sz s = Some (q, u) \<and> sz \<le> k \<and> q \<notin> fst ` L \<and> live u (insert (q, k) (L - {(p, n)}))
    \<and> kept (L - {(p, n)}) (memory s) (memory u) \<and> room (memory s) \<le> room (memory u) + sz + 32
    \<and> (\<forall>i. 0 \<le> i \<longrightarrow> i < n \<longrightarrow> i < sz \<longrightarrow> cells (memory u) (q + i) = cells (memory s) (p + i))"
proof -
  obtain k where k: "sz \<le> k" "live t (insert (q, k) L)" and new: "q \<notin> fst ` L"
    and r: "room (memory s) \<le> room (memory t) + sz + 32" and kp: "kept L (memory s) (memory t)"
    using malloc_live [OF s sz] m by auto
  let ?l = "min n sz"
  note bp = live_payload [OF k(2) insertI2 [OF p]] and bq = live_payload [OF k(2) insertI1] and reg = live_region [OF k(2)]
  have ne: "(q, k) \<noteq> (p, n)" using new p by force
  have "mapped (memory t) q ?l" "mapped (memory t) p ?l"
    using bp bq reg k(1) sz(1) min.cobounded1 [of n sz] min.cobounded2 [of n sz] unfolding mapped_def by linarith+
  then obtain m where c: "memcpy q p ?l (memory t) = Some m" and mc: "heap m = heap (memory t)" "mem_brk m = mem_brk (memory t)"
    "\<And>x. cells m x = (if q \<le> x \<and> x < q + ?l then cells (memory t) (p + (x - q)) else cells (memory t) x)"
    using memcpy_mapped by blast
  have "live (set_memory m t) (insert (q, k) L)"
    by (rule set_memory_live [OF k(2) insertI1 mc(1,2)]) (use mc(3) k(1) in auto)
  then obtain u where u: "free p (set_memory m t) = Some u" "live u (insert (q, k) L - {(p, n)})"
    "kept (insert (q, k) L - {(p, n)}) m (memory u)" "mem_brk (memory u) = mem_brk m"
    using free_live [OF _ insertI2 [OF p]] memory_set_memory by metis
  have diff: "insert (q, k) L - {(p, n)} = insert (q, k) (L - {(p, n)})" using ne by auto
  have "kept L (memory t) m"
  proof -
    have "cells m x = cells (memory t) x" if "(a, l) \<in> L" "a \<le> x" "x < a + l" for a l x
    proof -
      have "\<not> (q \<le> x \<and> x < q + ?l)"
        using live_disjoint [OF k(2) insertI1 insertI2 [OF that(1)]] that new k(1) by force
      then show ?thesis using mc(3) by presburger
    qed
    then show ?thesis using mc(1,2) by (simp add: kept_def)
  qed
  then have "kept (L - {(p, n)}) (memory s) m" by (rule kept_trans [OF kp]) auto
  then have "kept (L - {(p, n)}) (memory s) (memory u)" by (rule kept_trans [OF _ u(3)]) auto
  moreover have "cells (memory u) (q + i) = cells (memory s) (p + i)" if "0 \<le> i" "i < n" "i < sz" for i
    using kept_cell [OF u(3) _ that(1), of q k] kept_cell [OF kp p that(1,2)] that k(1) mc(3) [of "q + i"] ne by auto
  moreover have "realloc p sz s = Some (q, u)" using realloc_copy [OF s p sz(1) m(1) c] u(1) by simp
  moreover have "room (memory s) \<le> room (memory u) + sz + 32" using r u(3,4) mc(1,2) by (simp add: room_def kept_def)
  ultimately show ?thesis using k(1) new u(2) diff by auto
qed

end

end
