(* ===== verification/Mdriver.thy ===== *)
theory Mdriver
  imports Allocator
begin

text \<open>
  The test driver of the allocators (\<^verbatim>\<open>src/malloc/driver/mdriver.c\<close>): it replays a trace of
  requests, keeps the extents of the payloads in a list, fills every payload with random data and
  checks the data later. The allocator package that the driver is linked with, the results of
  \<^verbatim>\<open>random()\<close> and the debug level are the fields of \<open>env\<close>. \<^const>\<open>None\<close> stands for the end of the
  process: a fault, a failed assertion or \<^verbatim>\<open>app_error\<close>. The messages are not modelled.
\<close>

section \<open>Data\<close>

datatype debug_level = DBG_NONE | DBG_CHEAP | DBG_EXPENSIVE

datatype op_kind = ALLOC | FREE | REALLOC

record range =
  lo :: int
  hi :: int
  range_index :: int

record traceop =
  op_type :: op_kind
  op_index :: int
  op_size :: int

record trace =
  ignore_ranges :: bool
  num_ids :: int
  weight :: int
  ops :: "traceop list"
  blocks :: "int list"
  block_sizes :: "int list"
  block_rand_base :: "int list"

record 's env =
  pk_memory :: "'s \<Rightarrow> memsys"
  pk_set_memory :: "memsys \<Rightarrow> 's \<Rightarrow> 's"
  pk_init :: "'s \<Rightarrow> bool \<times> 's"
  pk_malloc :: "int \<Rightarrow> 's \<Rightarrow> (int \<times> 's) option"
  pk_free :: "int \<Rightarrow> 's \<Rightarrow> 's option"
  pk_realloc :: "int \<Rightarrow> int \<Rightarrow> 's \<Rightarrow> (int \<times> 's) option"
  random :: "nat \<Rightarrow> int"
  debug_mode :: debug_level

record 's driver =
  package :: 's
  the_trace :: trace
  ranges :: "range list"
  errors :: int
  randoms :: nat
  random_data :: "byte list"

definition RANDOM_DATA_LEN :: int where
  "RANDOM_DATA_LEN = 2 ^ 16"

definition DRIVER_ALIGNMENT :: int where
  "DRIVER_ALIGNMENT = 16"

definition IS_ALIGNED :: "int \<Rightarrow> bool" where
  "IS_ALIGNED p \<longleftrightarrow> p mod DRIVER_ALIGNMENT = 0"

text \<open>Accesses to the arrays of the trace and to single bytes of the memory.\<close>

definition at :: "'a list \<Rightarrow> int \<Rightarrow> 'a option" where
  "at xs i = (if 0 \<le> i \<and> i < int (length xs) then Some (xs ! nat i) else None)"

definition put_at :: "'a list \<Rightarrow> int \<Rightarrow> 'a \<Rightarrow> 'a list option" where
  "put_at xs i v = (if 0 \<le> i \<and> i < int (length xs) then Some (xs[nat i := v]) else None)"

definition peek :: "memsys \<Rightarrow> int \<Rightarrow> byte option" where
  "peek m a = (if mapped m a 1 then Some (cells m a) else None)"

definition poke :: "int \<Rightarrow> byte \<Rightarrow> memsys \<Rightarrow> memsys option" where
  "poke a v m = (if mapped m a 1 then Some (m\<lparr>cells := (cells m)(a := v)\<rparr>) else None)"

text \<open>The conversions of a \<^verbatim>\<open>size_t\<close> to an \<^verbatim>\<open>int\<close> and back.\<close>

definition to_int :: "int \<Rightarrow> int" where
  "to_int v = sint (word_of_int v :: i32)"

definition to_size :: "int \<Rightarrow> int" where
  "to_size v = v mod 2 ^ 64"

lemma to_int_small: "0 \<le> v \<Longrightarrow> v < 2 ^ 31 \<Longrightarrow> to_int v = v"
  by (simp add: to_int_def sint_sbintrunc' signed_take_bit_int_eq_self)

lemma to_size_small: "0 \<le> v \<Longrightarrow> v < 2 ^ 31 \<Longrightarrow> to_size v = v"
  by (simp add: to_size_def)

lemma at_put_at: "put_at xs i v = Some ys \<Longrightarrow> at ys j = (if j = i then Some v else at xs j)"
  by (auto simp: put_at_def at_def nth_list_update nat_eq_iff split: if_splits)

lemma put_at_some: "0 \<le> i \<Longrightarrow> i < int (length xs) \<Longrightarrow> put_at xs i v = Some (xs[nat i := v])"
  by (simp add: put_at_def)

section \<open>The range list\<close>

definition malloc_error :: "'s driver \<Rightarrow> 's driver" where
  "malloc_error d = d\<lparr>errors := errors d + 1\<rparr>"

fun overlaps :: "int \<Rightarrow> int \<Rightarrow> range list \<Rightarrow> bool" where
  "overlaps l h [] = False"
| "overlaps l h (p # ps) =
     (if l \<ge> lo p \<and> l \<le> hi p \<or> h \<ge> lo p \<and> h \<le> hi p then True else overlaps l h ps)"

definition add_range :: "'s env \<Rightarrow> int \<Rightarrow> int \<Rightarrow> int \<Rightarrow> 's driver \<Rightarrow> (bool \<times> 's driver) option" where
  "add_range E l sz index d =
     (let h = l + sz - 1; m = pk_memory E (package d) in
      if \<not> sz > 0 then None
      else if \<not> IS_ALIGNED l then Some (False, malloc_error d)
      else if l < mem_heap_lo m \<or> l > mem_heap_hi m \<or> h < mem_heap_lo m \<or> h > mem_heap_hi m
      then Some (False, malloc_error d)
      else if ignore_ranges (the_trace d) \<or> debug_mode E = DBG_NONE then Some (True, d)
      else if overlaps l h (ranges d) then Some (False, malloc_error d)
      else Some (True, d\<lparr>ranges := \<lparr>lo = l, hi = h, range_index = index\<rparr> # ranges d\<rparr>))"

fun remove_range :: "range list \<Rightarrow> int \<Rightarrow> range list" where
  "remove_range [] l = []"
| "remove_range (p # ps) l = (if lo p = l then ps else p # remove_range ps l)"

definition clear_ranges :: "'s driver \<Rightarrow> 's driver" where
  "clear_ranges d = d\<lparr>ranges := []\<rparr>"

section \<open>Random data\<close>

definition init_random_data :: "'s env \<Rightarrow> 's driver \<Rightarrow> 's driver" where
  "init_random_data E d =
     (if debug_mode E = DBG_NONE then d
      else d\<lparr>random_data := map (\<lambda>i. word_of_int (random E (randoms d + i))) [0..<nat RANDOM_DATA_LEN],
             randoms := randoms d + nat RANDOM_DATA_LEN\<rparr>)"

fun fill :: "byte list \<Rightarrow> int \<Rightarrow> int \<Rightarrow> int \<Rightarrow> nat \<Rightarrow> memsys \<Rightarrow> memsys option" where
  "fill rd block base i 0 m = Some m"
| "fill rd block base i (Suc n) m = do {
     v \<leftarrow> at rd ((base + i) mod RANDOM_DATA_LEN);
     m \<leftarrow> poke (block + i) v m;
     fill rd block base (i + 1) n m
   }"

definition randomize_block :: "'s env \<Rightarrow> int \<Rightarrow> 's driver \<Rightarrow> 's driver option" where
  "randomize_block E index d =
     (if debug_mode E = DBG_NONE then Some d
      else do {
        let base = random E (randoms d);
        bases \<leftarrow> put_at (block_rand_base (the_trace d)) index base;
        block \<leftarrow> at (blocks (the_trace d)) index;
        sz \<leftarrow> at (block_sizes (the_trace d)) index;
        m \<leftarrow> fill (random_data d) block base 0 (nat sz) (pk_memory E (package d));
        Some (d\<lparr>the_trace := (the_trace d)\<lparr>block_rand_base := bases\<rparr>, randoms := randoms d + 1,
               package := pk_set_memory E m (package d)\<rparr>)
      })"

fun garbled :: "byte list \<Rightarrow> memsys \<Rightarrow> int \<Rightarrow> int \<Rightarrow> int \<Rightarrow> nat \<Rightarrow> nat option" where
  "garbled rd m block base i 0 = Some 0"
| "garbled rd m block base i (Suc n) = do {
     b \<leftarrow> peek m (block + i);
     v \<leftarrow> at rd ((base + i) mod RANDOM_DATA_LEN);
     k \<leftarrow> garbled rd m block base (i + 1) n;
     Some (if b \<noteq> v then k + 1 else k)
   }"

definition check_index :: "'s env \<Rightarrow> int \<Rightarrow> 's driver \<Rightarrow> 's driver option" where
  "check_index E index d =
     (if index < 0 then Some d
      else if debug_mode E = DBG_NONE then Some d
      else do {
        block \<leftarrow> at (blocks (the_trace d)) index;
        sz \<leftarrow> at (block_sizes (the_trace d)) index;
        base \<leftarrow> at (block_rand_base (the_trace d)) index;
        ngarbled \<leftarrow> garbled (random_data d) (pk_memory E (package d)) block base 0 (nat sz);
        Some (if ngarbled \<noteq> 0 then malloc_error d else d)
      })"

section \<open>Correctness runs\<close>

definition reinit_trace :: "trace \<Rightarrow> trace" where
  "reinit_trace t = t\<lparr>blocks := replicate (nat (num_ids t)) 0, block_sizes := replicate (nat (num_ids t)) 0\<rparr>"

definition set_block :: "int \<Rightarrow> int \<Rightarrow> 's driver \<Rightarrow> 's driver option" where
  "set_block index p d = do {
     bl \<leftarrow> put_at (blocks (the_trace d)) index p;
     Some (d\<lparr>the_trace := (the_trace d)\<lparr>blocks := bl\<rparr>\<rparr>)
   }"

definition set_block_size :: "int \<Rightarrow> int \<Rightarrow> 's driver \<Rightarrow> 's driver option" where
  "set_block_size index sz d = do {
     szs \<leftarrow> put_at (block_sizes (the_trace d)) index sz;
     Some (d\<lparr>the_trace := (the_trace d)\<lparr>block_sizes := szs\<rparr>\<rparr>)
   }"

definition valid_alloc :: "'s env \<Rightarrow> int \<Rightarrow> int \<Rightarrow> 's driver \<Rightarrow> (bool \<times> 's driver) option" where
  "valid_alloc E index sz d = do {
     (p, s) \<leftarrow> pk_malloc E sz (package d);
     let d = d\<lparr>package := s\<rparr>;
     if p = 0 then Some (False, malloc_error d)
     else do {
       (ok, d) \<leftarrow> add_range E p (to_int sz) index d;
       if \<not> ok then Some (False, d)
       else do {
         d \<leftarrow> set_block index p d;
         d \<leftarrow> set_block_size index sz d;
         d \<leftarrow> randomize_block E index d;
         Some (True, d)
       }
     }
   }"

definition valid_realloc :: "'s env \<Rightarrow> int \<Rightarrow> int \<Rightarrow> 's driver \<Rightarrow> (bool \<times> 's driver) option" where
  "valid_realloc E index sz d = do {
     d \<leftarrow> check_index E index d;
     oldp \<leftarrow> at (blocks (the_trace d)) index;
     (newp, s) \<leftarrow> pk_realloc E oldp sz (package d);
     let d = d\<lparr>package := s\<rparr>;
     if newp = 0 \<and> sz \<noteq> 0 then Some (False, malloc_error d)
     else if newp \<noteq> 0 \<and> sz = 0 then Some (False, malloc_error d)
     else do {
       let d = d\<lparr>ranges := remove_range (ranges d) oldp\<rparr>;
       (ok, d) \<leftarrow> (if sz > 0 then add_range E newp (to_int sz) index d else Some (True, d));
       if \<not> ok then Some (False, d)
       else do {
         d \<leftarrow> set_block index newp d;
         oldsize \<leftarrow> at (block_sizes (the_trace d)) index;
         d \<leftarrow> (if sz < oldsize then set_block_size index sz d else Some d);
         d \<leftarrow> check_index E index d;
         d \<leftarrow> set_block_size index sz d;
         d \<leftarrow> randomize_block E index d;
         Some (True, d)
       }
     }
   }"

definition valid_free :: "'s env \<Rightarrow> int \<Rightarrow> 's driver \<Rightarrow> (bool \<times> 's driver) option" where
  "valid_free E index d = do {
     d \<leftarrow> check_index E index d;
     (p, d) \<leftarrow> (if index = -1 then Some (0, d)
                else do {
                  p \<leftarrow> at (blocks (the_trace d)) index;
                  Some (p, d\<lparr>ranges := remove_range (ranges d) p\<rparr>)
                });
     s \<leftarrow> pk_free E p (package d);
     Some (True, d\<lparr>package := s\<rparr>)
   }"

fun check_all :: "'s env \<Rightarrow> range list \<Rightarrow> 's driver \<Rightarrow> 's driver option" where
  "check_all E [] d = Some d"
| "check_all E (r # rs) d = do { d \<leftarrow> check_index E (range_index r) d; check_all E rs d }"

fun valid_ops :: "'s env \<Rightarrow> traceop list \<Rightarrow> 's driver \<Rightarrow> (bool \<times> 's driver) option" where
  "valid_ops E [] d = Some (True, d)"
| "valid_ops E (oper # os) d = do {
     d \<leftarrow> (if debug_mode E = DBG_EXPENSIVE then check_all E (ranges d) d else Some d);
     (ok, d) \<leftarrow> (case op_type oper of
         ALLOC \<Rightarrow> valid_alloc E (op_index oper) (op_size oper) d
       | REALLOC \<Rightarrow> valid_realloc E (op_index oper) (op_size oper) d
       | FREE \<Rightarrow> valid_free E (op_index oper) d);
     if ok then valid_ops E os d else Some (False, d)
   }"

definition reset_memory :: "'s env \<Rightarrow> bool \<Rightarrow> 's \<Rightarrow> 's" where
  "reset_memory E clear s = pk_set_memory E (mem_reset_brk clear (pk_memory E s)) s"

definition eval_mm_valid :: "'s env \<Rightarrow> 's driver \<Rightarrow> (bool \<times> 's driver) option" where
  "eval_mm_valid E d =
     (let (ok, s) = pk_init E (reset_memory E True (package d));
          d = d\<lparr>package := s, the_trace := reinit_trace (the_trace d)\<rparr> in
      if \<not> ok then Some (False, malloc_error d) else valid_ops E (ops (the_trace d)) d)"

section \<open>Utilization and speed runs\<close>

definition util_op :: "'s env \<Rightarrow> traceop \<Rightarrow> int \<Rightarrow> 's driver \<Rightarrow> (int \<times> 's driver) option" where
  "util_op E oper total_size d =
     (let index = op_index oper; sz = to_int (op_size oper) in case op_type oper of
       ALLOC \<Rightarrow> do {
         (p, s) \<leftarrow> pk_malloc E (to_size sz) (package d);
         if p = 0 then None
         else do {
           d \<leftarrow> set_block index p (d\<lparr>package := s\<rparr>);
           d \<leftarrow> set_block_size index (to_size sz) d;
           Some (total_size + sz, d)
         }
       }
     | REALLOC \<Rightarrow> do {
         oldsize \<leftarrow> at (block_sizes (the_trace d)) index;
         oldp \<leftarrow> at (blocks (the_trace d)) index;
         (newp, s) \<leftarrow> pk_realloc E oldp (to_size sz) (package d);
         if newp = 0 \<and> sz \<noteq> 0 then None
         else do {
           d \<leftarrow> set_block index newp (d\<lparr>package := s\<rparr>);
           d \<leftarrow> set_block_size index (to_size sz) d;
           Some (total_size + (sz - to_int oldsize), d)
         }
       }
     | FREE \<Rightarrow> do {
         (sz, p) \<leftarrow> (if index < 0 then Some (0, 0)
                    else do {
                      sz \<leftarrow> at (block_sizes (the_trace d)) index;
                      p \<leftarrow> at (blocks (the_trace d)) index;
                      Some (to_int sz, p)
                    });
         s \<leftarrow> pk_free E p (package d);
         Some (total_size - sz, d\<lparr>package := s\<rparr>)
       })"

fun util_ops :: "'s env \<Rightarrow> traceop list \<Rightarrow> int \<Rightarrow> int \<Rightarrow> 's driver \<Rightarrow> (int \<times> 's driver) option" where
  "util_ops E [] total_size max_total_size d = Some (max_total_size, d)"
| "util_ops E (oper # os) total_size max_total_size d = do {
     (total_size, d) \<leftarrow> util_op E oper total_size d;
     util_ops E os total_size (if total_size > max_total_size then total_size else max_total_size) d
   }"

text \<open>The result is the quotient that the driver prints, as its numerator and its denominator.\<close>

definition eval_mm_util :: "'s env \<Rightarrow> 's driver \<Rightarrow> ((int \<times> int) \<times> 's driver) option" where
  "eval_mm_util E d =
     (let (ok, s) = pk_init E (reset_memory E False (package d));
          d = d\<lparr>package := s, the_trace := reinit_trace (the_trace d)\<rparr> in
      if \<not> ok then None
      else do {
        (max_total_size, d) \<leftarrow> util_ops E (ops (the_trace d)) 0 0 d;
        Some ((max_total_size, mem_heapsize (pk_memory E (package d))), d)
      })"

definition speed_op :: "'s env \<Rightarrow> traceop \<Rightarrow> 's driver \<Rightarrow> 's driver option" where
  "speed_op E oper d =
     (let index = op_index oper; sz = to_int (op_size oper) in case op_type oper of
       ALLOC \<Rightarrow> do {
         (p, s) \<leftarrow> pk_malloc E (to_size sz) (package d);
         if p = 0 then None else set_block index p (d\<lparr>package := s\<rparr>)
       }
     | REALLOC \<Rightarrow> do {
         oldp \<leftarrow> at (blocks (the_trace d)) index;
         (newp, s) \<leftarrow> pk_realloc E oldp (to_size sz) (package d);
         if newp = 0 \<and> sz \<noteq> 0 then None else set_block index newp (d\<lparr>package := s\<rparr>)
       }
     | FREE \<Rightarrow> do {
         p \<leftarrow> (if index < 0 then Some 0 else at (blocks (the_trace d)) index);
         s \<leftarrow> pk_free E p (package d);
         Some (d\<lparr>package := s\<rparr>)
       })"

fun speed_ops :: "'s env \<Rightarrow> traceop list \<Rightarrow> 's driver \<Rightarrow> 's driver option" where
  "speed_ops E [] d = Some d"
| "speed_ops E (oper # os) d = do { d \<leftarrow> speed_op E oper d; speed_ops E os d }"

definition eval_mm_speed :: "'s env \<Rightarrow> 's driver \<Rightarrow> 's driver option" where
  "eval_mm_speed E d =
     (let (ok, s) = pk_init E (reset_memory E False (package d));
          d = d\<lparr>package := s, the_trace := reinit_trace (the_trace d)\<rparr> in
      if \<not> ok then None else speed_ops E (ops (the_trace d)) d)"

section \<open>Traces that an allocator must serve\<close>

text \<open>
  \<open>H\<close> are the indices in use. A block that is allocated is new, a block that is resized or released
  is in use, and the lengths are positive \<^verbatim>\<open>int\<close>s (zero for a reallocation that releases).
\<close>

fun trace_ok :: "int \<Rightarrow> int set \<Rightarrow> traceop list \<Rightarrow> bool" where
  "trace_ok n H [] = True"
| "trace_ok n H (oper # os) = (case op_type oper of
     ALLOC \<Rightarrow> op_index oper \<notin> H \<and> 0 \<le> op_index oper \<and> op_index oper < n
       \<and> 0 < op_size oper \<and> op_size oper < 2 ^ 31 \<and> trace_ok n (insert (op_index oper) H) os
   | REALLOC \<Rightarrow> op_index oper \<in> H \<and> 0 \<le> op_size oper \<and> op_size oper < 2 ^ 31
       \<and> trace_ok n (if op_size oper = 0 then H - {op_index oper} else H) os
   | FREE \<Rightarrow> op_index oper = -1 \<and> trace_ok n H os \<or> op_index oper \<in> H \<and> trace_ok n (H - {op_index oper}) os)"

text \<open>The memory that a trace can need when no block is ever reused.\<close>

definition demand :: "traceop list \<Rightarrow> int" where
  "demand os = (\<Sum>oper \<leftarrow> os. if op_type oper = FREE then 0 else op_size oper + 32)"

lemma demand_nonneg: "trace_ok n H os \<Longrightarrow> 0 \<le> demand os"
  by (induction n H os rule: trace_ok.induct) (auto simp: demand_def split: op_kind.splits if_splits)

section \<open>Random contents\<close>

definition holds_random :: "byte list \<Rightarrow> (int \<Rightarrow> byte) \<Rightarrow> int \<Rightarrow> int \<Rightarrow> int \<Rightarrow> bool" where
  "holds_random rd c block base sz \<longleftrightarrow> (\<forall>j. 0 \<le> j \<longrightarrow> j < sz \<longrightarrow> at rd ((base + j) mod RANDOM_DATA_LEN) = Some (c (block + j)))"

lemma holds_random_cong:
  "holds_random rd c block base sz \<Longrightarrow> (\<And>j. 0 \<le> j \<Longrightarrow> j < sz \<Longrightarrow> c' (block' + j) = c (block + j))
    \<Longrightarrow> holds_random rd c' block' base sz"
  by (simp add: holds_random_def)

lemma holds_random_less: "holds_random rd c block base sz \<Longrightarrow> sz' \<le> sz \<Longrightarrow> holds_random rd c block base sz'"
  by (simp add: holds_random_def)

lemma at_random: "length rd = nat RANDOM_DATA_LEN \<Longrightarrow> \<exists>v. at rd (x mod RANDOM_DATA_LEN) = Some v"
  by (simp add: at_def RANDOM_DATA_LEN_def)

lemma garbled_zero:
  assumes "\<forall>j. i \<le> j \<longrightarrow> j < i + int n \<longrightarrow> at rd ((base + j) mod RANDOM_DATA_LEN) = Some (cells m (block + j))"
    and "heap m \<le> block + i" and "block + i + int n \<le> heap m + MAX_HEAP"
  shows "garbled rd m block base i n = Some 0"
  using assms
proof (induction n arbitrary: i)
  case (Suc n)
  have "garbled rd m block base (i + 1) n = Some 0" by (rule Suc.IH) (use Suc.prems in auto)
  moreover have "at rd ((base + i) mod RANDOM_DATA_LEN) = Some (cells m (block + i))" using Suc.prems(1) by simp
  moreover have "peek m (block + i) = Some (cells m (block + i))" using Suc.prems(2,3) by (simp add: peek_def mapped_def)
  ultimately show ?case by simp
qed simp

lemma fill_random:
  assumes "length rd = nat RANDOM_DATA_LEN" and "heap m \<le> block + i" and "block + i + int n \<le> heap m + MAX_HEAP"
  shows "\<exists>t. fill rd block base i n m = Some t \<and> heap t = heap m \<and> mem_brk t = mem_brk m
    \<and> (\<forall>x. x < block + i \<or> block + i + int n \<le> x \<longrightarrow> cells t x = cells m x)
    \<and> (\<forall>j. i \<le> j \<longrightarrow> j < i + int n \<longrightarrow> at rd ((base + j) mod RANDOM_DATA_LEN) = Some (cells t (block + j)))"
  using assms
proof (induction n arbitrary: i m)
  case (Suc n)
  obtain v where v: "at rd ((base + i) mod RANDOM_DATA_LEN) = Some v" using at_random [OF Suc.prems(1)] by blast
  define m1 where "m1 = m\<lparr>cells := (cells m)(block + i := v)\<rparr>"
  have p: "poke (block + i) v m = Some m1" using Suc.prems(2,3) by (simp add: poke_def mapped_def m1_def)
  have m1: "heap m1 \<le> block + (i + 1)" "block + (i + 1) + int n \<le> heap m1 + MAX_HEAP"
    using Suc.prems(2,3) by (simp_all add: m1_def)
  obtain t where t: "fill rd block base (i + 1) n m1 = Some t" "heap t = heap m1" "mem_brk t = mem_brk m1"
    "\<And>x. x < block + (i + 1) \<or> block + (i + 1) + int n \<le> x \<Longrightarrow> cells t x = cells m1 x"
    "\<And>j. i + 1 \<le> j \<Longrightarrow> j < i + 1 + int n \<Longrightarrow> at rd ((base + j) mod RANDOM_DATA_LEN) = Some (cells t (block + j))"
    using Suc.IH [OF Suc.prems(1) m1(1,2)] by blast
  have "at rd ((base + j) mod RANDOM_DATA_LEN) = Some (cells t (block + j))" if "i \<le> j" "j < i + int (Suc n)" for j
    using t(5) [of j] t(4) [of "block + j"] v that by (cases "j = i") (auto simp: m1_def)
  moreover have "cells t x = cells m x" if "x < block + i \<or> block + i + int (Suc n) \<le> x" for x
    using t(4) [of x] that by (auto simp: m1_def)
  ultimately show ?case using p t(1-3) v by (simp add: m1_def)
qed auto

section \<open>The range list\<close>

lemma remove_range_set: "distinct (map lo rs) \<Longrightarrow> remove_range rs l = filter (\<lambda>r. lo r \<noteq> l) rs"
proof (induction rs)
  case (Cons r rs)
  have "filter (\<lambda>x. lo x \<noteq> l) rs = rs" if "lo r = l" using Cons.prems that by (intro filter_True ballI) (metis distinct.simps(2) image_eqI list.simps(9) list.set_map)
  then show ?case using Cons by simp
qed simp

lemma overlaps_none:
  "(\<And>r. r \<in> set rs \<Longrightarrow> h < lo r \<or> hi r < l) \<Longrightarrow> l \<le> h \<Longrightarrow> (\<And>r. r \<in> set rs \<Longrightarrow> lo r \<le> hi r) \<Longrightarrow> \<not> overlaps l h rs"
  by (induction rs) force+

section \<open>The driver over a correct allocator\<close>

abbreviation block_of :: "'s driver \<Rightarrow> int \<Rightarrow> int" where
  "block_of d i \<equiv> blocks (the_trace d) ! nat i"

abbreviation size_of :: "'s driver \<Rightarrow> int \<Rightarrow> int" where
  "size_of d i \<equiv> block_sizes (the_trace d) ! nat i"

abbreviation base_of :: "'s driver \<Rightarrow> int \<Rightarrow> int" where
  "base_of d i \<equiv> block_rand_base (the_trace d) ! nat i"

definition arrays_ok :: "'s driver \<Rightarrow> bool" where
  "arrays_ok d \<longleftrightarrow> length (blocks (the_trace d)) = nat (num_ids (the_trace d))
     \<and> length (block_sizes (the_trace d)) = nat (num_ids (the_trace d))
     \<and> length (block_rand_base (the_trace d)) = nat (num_ids (the_trace d)) \<and> length (random_data d) = nat RANDOM_DATA_LEN"

text \<open>The payload of an index in use belongs to the allocator's payloads and holds its random data.\<close>

definition held_ok :: "debug_level \<Rightarrow> memsys \<Rightarrow> 's driver \<Rightarrow> (int \<times> int) set \<Rightarrow> int \<Rightarrow> bool" where
  "held_ok dbg m d L i \<longleftrightarrow> 0 \<le> i \<and> i < num_ids (the_trace d) \<and> 0 < size_of d i \<and> size_of d i < 2 ^ 31
     \<and> (\<exists>n \<ge> size_of d i. (block_of d i, n) \<in> L)
     \<and> (dbg \<noteq> DBG_NONE \<longrightarrow> holds_random (random_data d) (cells m) (block_of d i) (base_of d i) (size_of d i))"

definition range_ok :: "'s driver \<Rightarrow> int set \<Rightarrow> range \<Rightarrow> bool" where
  "range_ok d H r \<longleftrightarrow> range_index r \<in> H \<and> lo r = block_of d (range_index r)
     \<and> hi r = lo r + size_of d (range_index r) - 1"

locale driven = allocator live memory set_memory malloc free realloc
  for live :: "'s \<Rightarrow> (int \<times> int) set \<Rightarrow> bool" and memory :: "'s \<Rightarrow> memsys" and set_memory :: "memsys \<Rightarrow> 's \<Rightarrow> 's"
    and malloc :: "int \<Rightarrow> 's \<Rightarrow> (int \<times> 's) option" and free :: "int \<Rightarrow> 's \<Rightarrow> 's option"
    and realloc :: "int \<Rightarrow> int \<Rightarrow> 's \<Rightarrow> (int \<times> 's) option" +
  fixes E :: "'s env"
  assumes env: "pk_memory E = memory" "pk_set_memory E = set_memory" "pk_malloc E = malloc" "pk_free E = free"
    "pk_realloc E = realloc"
begin

definition drv :: "'s driver \<Rightarrow> (int \<times> int) set \<Rightarrow> int set \<Rightarrow> bool" where
  "drv d L H \<longleftrightarrow> live (package d) L \<and> arrays_ok d \<and> (\<forall>i \<in> H. held_ok (debug_mode E) (memory (package d)) d L i)
     \<and> inj_on (block_of d) H \<and> distinct (map range_index (ranges d)) \<and> (\<forall>r \<in> set (ranges d). range_ok d H r)"

lemma drvD:
  assumes "drv d L H"
  shows "live (package d) L" "arrays_ok d" "\<And>i. i \<in> H \<Longrightarrow> held_ok (debug_mode E) (memory (package d)) d L i"
    "inj_on (block_of d) H" "distinct (map range_index (ranges d))" "\<And>r. r \<in> set (ranges d) \<Longrightarrow> range_ok d H r"
  using assms by (simp_all add: drv_def)

lemma drv_at:
  assumes "arrays_ok d" and "0 \<le> i" and "i < num_ids (the_trace d)"
  shows "at (blocks (the_trace d)) i = Some (block_of d i)" "at (block_sizes (the_trace d)) i = Some (size_of d i)"
    "at (block_rand_base (the_trace d)) i = Some (base_of d i)"
  using assms by (simp_all add: arrays_ok_def at_def)

lemma held_payload:
  assumes "drv d L H" and "i \<in> H"
  shows "\<exists>n. (block_of d i, n) \<in> L \<and> size_of d i \<le> n"
  using drvD(3) [OF assms] by (auto simp: held_ok_def)

lemma held_distinct:
  assumes "drv d L H" and "i \<notin> H" and "0 \<le> i" and "j \<in> H"
  shows "nat j \<noteq> nat i"
proof -
  have "0 \<le> j" using drvD(3) [OF assms(1,4)] by (simp add: held_ok_def)
  moreover have "j \<noteq> i" using assms(2,4) by blast
  ultimately show ?thesis using assms(3) by simp
qed

lemma check_index_ok:
  assumes "arrays_ok d" and "0 \<le> i" "i < num_ids (the_trace d)" and "live (package d) L" and "(block_of d i, n) \<in> L" "size_of d i \<le> n"
    and "debug_mode E \<noteq> DBG_NONE \<Longrightarrow>
      holds_random (random_data d) (cells (memory (package d))) (block_of d i) (base_of d i) (size_of d i)"
  shows "check_index E i d = Some d"
proof (cases "debug_mode E = DBG_NONE")
  case False
  note b = live_payload [OF assms(4,5)] and r = live_region [OF assms(4)]
  have "garbled (random_data d) (memory (package d)) (block_of d i) (base_of d i) 0 (nat (size_of d i)) = Some 0"
  proof (cases "0 < size_of d i")
    case True
    show ?thesis by (rule garbled_zero) (use True b r assms(6) assms(7) [OF False] in \<open>auto simp: holds_random_def\<close>)
  qed simp
  then show ?thesis using False assms(2) drv_at [OF assms(1-3)] by (simp add: check_index_def env)
qed (simp add: check_index_def)

lemma check_held:
  assumes "drv d L H" and "i \<in> H"
  shows "check_index E i d = Some d"
proof -
  have h: "held_ok (debug_mode E) (memory (package d)) d L i" by (rule drvD(3) [OF assms])
  then obtain n where n: "(block_of d i, n) \<in> L" "size_of d i \<le> n" by (auto simp: held_ok_def)
  show ?thesis
    by (rule check_index_ok [OF drvD(2) [OF assms(1)] _ _ drvD(1) [OF assms(1)] n]) (use h in \<open>auto simp: held_ok_def\<close>)
qed

lemma check_all_held:
  assumes "drv d L H" and "\<forall>r \<in> set rs. range_index r \<in> H"
  shows "check_all E rs d = Some d"
  using assms(2) by (induction rs) (simp_all add: check_held [OF assms(1)])

lemma ranges_lo:
  assumes "drv d L H"
  shows "distinct (map lo (ranges d))" and "remove_range (ranges d) l = filter (\<lambda>r. lo r \<noteq> l) (ranges d)"
proof -
  have "inj_on lo (set (ranges d))"
  proof (rule inj_onI)
    fix r q assume rq: "r \<in> set (ranges d)" "q \<in> set (ranges d)" "lo r = lo q"
    then have "range_index r = range_index q"
      using drvD(6) [OF assms, of r] drvD(6) [OF assms, of q] drvD(4) [OF assms] by (auto simp: range_ok_def inj_on_def)
    then show "r = q" using drvD(5) [OF assms] rq(1,2) by (auto simp: distinct_map inj_on_def)
  qed
  then show d: "distinct (map lo (ranges d))" using drvD(5) [OF assms] by (simp add: distinct_map)
  show "remove_range (ranges d) l = filter (\<lambda>r. lo r \<noteq> l) (ranges d)" by (rule remove_range_set [OF d])
qed

text \<open>A change of the allocator's state that keeps the payloads of the indices \<open>K\<close>.\<close>

lemma drv_package:
  assumes d: "drv d L H" and K: "K \<subseteq> H" and s: "live s L'" and keep: "kept L'' (memory (package d)) (memory s)"
    and held: "\<And>i n. i \<in> K \<Longrightarrow> (block_of d i, n) \<in> L \<Longrightarrow> (block_of d i, n) \<in> L' \<and> (block_of d i, n) \<in> L''"
    and rs: "distinct (map range_index rs)" "\<And>r. r \<in> set rs \<Longrightarrow> r \<in> set (ranges d) \<and> range_index r \<in> K"
  shows "drv (d\<lparr>package := s, ranges := rs\<rparr>) L' K"
proof -
  have "held_ok (debug_mode E) (memory s) (d\<lparr>package := s, ranges := rs\<rparr>) L' i" if "i \<in> K" for i
  proof -
    have h: "held_ok (debug_mode E) (memory (package d)) d L i" using drvD(3) [OF d] that K by blast
    then obtain n where n: "(block_of d i, n) \<in> L" "size_of d i \<le> n" by (auto simp: held_ok_def)
    have "holds_random (random_data d) (cells (memory s)) (block_of d i) (base_of d i) (size_of d i)"
      if "debug_mode E \<noteq> DBG_NONE"
      by (rule holds_random_cong [where c = "cells (memory (package d))" and block = "block_of d i"])
        (use h that kept_cell [OF keep] held [OF \<open>i \<in> K\<close> n(1)] n(2) in \<open>auto simp: held_ok_def\<close>)
    then show ?thesis using h held [OF that n(1)] n(2) by (auto simp: held_ok_def)
  qed
  moreover have "range_ok (d\<lparr>package := s, ranges := rs\<rparr>) K r" if "r \<in> set rs" for r
    using drvD(6) [OF d, of r] rs(2) [OF that] by (simp add: range_ok_def)
  ultimately show ?thesis
    using drvD(2) [OF d] inj_on_subset [OF drvD(4) [OF d] K] s rs(1) by (simp add: drv_def arrays_ok_def)
qed

text \<open>A new payload passes the checks of \<^verbatim>\<open>add_range\<close>.\<close>

lemma add_range_ok:
  assumes d: "drv d L H" and p: "(p, n) \<in> L" and sz: "0 < sz" "sz \<le> n" and fresh: "\<And>i. i \<in> H \<Longrightarrow> block_of d i \<noteq> p"
  shows "\<exists>rs. add_range E p sz i d = Some (True, d\<lparr>ranges := rs\<rparr>)
    \<and> (rs = ranges d \<or> rs = \<lparr>lo = p, hi = p + sz - 1, range_index = i\<rparr> # ranges d)"
proof -
  note b = live_payload [OF drvD(1) [OF d] p]
  have al: "IS_ALIGNED p" using b by (simp add: IS_ALIGNED_def DRIVER_ALIGNMENT_def)
  have sep: "p + sz - 1 < lo r \<or> hi r < p" "lo r \<le> hi r" if r: "r \<in> set (ranges d)" for r
  proof -
    note ro = drvD(6) [OF d r, unfolded range_ok_def]
    obtain m where m: "(lo r, m) \<in> L" "size_of d (range_index r) \<le> m" using held_payload [OF d] ro by metis
    have "lo r \<noteq> p" using fresh ro by metis
    then show "p + sz - 1 < lo r \<or> hi r < p" using live_disjoint [OF drvD(1) [OF d] p m(1)] m(2) sz ro by auto
    show "lo r \<le> hi r" using drvD(3) [OF d, of "range_index r"] ro by (simp add: held_ok_def)
  qed
  then have "\<not> overlaps p (p + sz - 1) (ranges d)" using sz(1) by (intro overlaps_none) auto
  then have "add_range E p sz i d = Some (True, d\<lparr>ranges := if ignore_ranges (the_trace d) \<or> debug_mode E = DBG_NONE
      then ranges d else \<lparr>lo = p, hi = p + sz - 1, range_index = i\<rparr> # ranges d\<rparr>)"
    using al b sz by (simp add: add_range_def Let_def env mem_heap_lo_def mem_heap_hi_def)
  then show ?thesis by (intro exI conjI) (assumption, simp)
qed

text \<open>The bookkeeping of a payload for the index \<open>i\<close>.\<close>

lemma drv_install:
  assumes d: "drv d L H" and i: "i \<notin> H" "0 \<le> i" "i < num_ids (the_trace d)" and p: "(p, n) \<in> L"
    and sz: "0 < sz" "sz \<le> n" "sz < 2 ^ 31" and fresh: "\<And>j. j \<in> H \<Longrightarrow> block_of d j \<noteq> p"
    and rs: "rs = ranges d \<or> rs = \<lparr>lo = p, hi = p + sz - 1, range_index = i\<rparr> # ranges d"
    and t: "t = (the_trace d)\<lparr>blocks := (blocks (the_trace d))[nat i := p],
      block_sizes := (block_sizes (the_trace d))[nat i := sz], block_rand_base := bases\<rparr>"
    and bases: "length bases = length (block_rand_base (the_trace d))" "\<And>j. j \<in> H \<Longrightarrow> bases ! nat j = base_of d j"
    and s: "live s L" "\<And>x. x < p \<or> p + sz \<le> x \<Longrightarrow> cells (memory s) x = cells (memory (package d)) x"
      "debug_mode E \<noteq> DBG_NONE \<Longrightarrow> holds_random (random_data d) (cells (memory s)) p (bases ! nat i) sz"
  shows "drv (d\<lparr>ranges := rs, the_trace := t, package := s, randoms := k\<rparr>) L (insert i H)" (is "drv ?e _ _")
proof -
  note ar = drvD(2) [OF d, unfolded arrays_ok_def]
  have ni: "nat j \<noteq> nat i" if "j \<in> H" for j by (rule held_distinct [OF d i(1,2) that])
  have old: "block_of ?e j = block_of d j" "size_of ?e j = size_of d j" "base_of ?e j = base_of d j" if "j \<in> H" for j
    using ni [OF that] bases(2) [OF that] by (simp_all add: t)
  have new: "block_of ?e i = p" "size_of ?e i = sz" "base_of ?e i = bases ! nat i"
    using ar i(2,3) by (simp_all add: t)
  have num: "num_ids (the_trace ?e) = num_ids (the_trace d)" by (simp add: t)
  have "held_ok (debug_mode E) (memory s) ?e L j" if j: "j \<in> insert i H" for j
  proof (cases "j = i")
    case True
    then show ?thesis unfolding held_ok_def True new num using i sz p s(3) by auto
  next
    case False
    then have j: "j \<in> H" using j by simp
    note h = drvD(3) [OF d j]
    obtain m where m: "(block_of d j, m) \<in> L" "size_of d j \<le> m" using held_payload [OF d j] by blast
    have "holds_random (random_data d) (cells (memory s)) (block_of d j) (base_of d j) (size_of d j)" if "debug_mode E \<noteq> DBG_NONE"
      by (rule holds_random_cong [where c = "cells (memory (package d))" and block = "block_of d j"])
        (use h that s(2) live_disjoint [OF s(1) p m(1)] fresh [OF j] m(2) sz(2) in \<open>auto simp: held_ok_def\<close>)
    then show ?thesis using h unfolding held_ok_def old [OF j] num by simp
  qed
  moreover have "inj_on (block_of ?e) (insert i H)"
  proof -
    have "inj_on (block_of ?e) H" using drvD(4) [OF d] inj_on_cong [of H "block_of ?e" "block_of d"] old(1) by blast
    moreover have "block_of ?e i \<notin> block_of ?e ` (H - {i})" 
    proof
      assume "block_of ?e i \<in> block_of ?e ` (H - {i})"
      then obtain j where "j \<in> H" "block_of ?e i = block_of ?e j" by blast
      then show False using old(1) [of j] new(1) fresh [of j] by simp
    qed
    ultimately show ?thesis unfolding inj_on_insert by blast
  qed
  moreover have "range_ok ?e (insert i H) r" if "r \<in> set rs" for r
  proof (cases "r \<in> set (ranges d)")
    case True
    note ro = drvD(6) [OF d True, unfolded range_ok_def]
    then show ?thesis using old(1,2) [of "range_index r"] by (simp add: range_ok_def)
  next
    case False
    then have "r = \<lparr>lo = p, hi = p + sz - 1, range_index = i\<rparr>" using that rs by auto
    then show ?thesis using new(1,2) by (simp add: range_ok_def)
  qed
  moreover have "distinct (map range_index rs)"
  proof -
    have "i \<notin> range_index ` set (ranges d)" using drvD(6) [OF d] i(1) by (force simp: range_ok_def)
    then show ?thesis using rs drvD(5) [OF d] by auto
  qed
  moreover have "arrays_ok ?e" using ar bases(1) by (simp add: arrays_ok_def t)
  ultimately show ?thesis using s(1) by (simp add: drv_def)
qed

lemma randomize_ok:
  assumes d: "drv d L H" and i: "i \<notin> H" "0 \<le> i" "i < num_ids (the_trace d)" and p: "(p, n) \<in> L"
    and sz: "0 < sz" "sz \<le> n" "sz < 2 ^ 31" and fresh: "\<And>j. j \<in> H \<Longrightarrow> block_of d j \<noteq> p"
    and rs: "rs = ranges d \<or> rs = \<lparr>lo = p, hi = p + sz - 1, range_index = i\<rparr> # ranges d"
    and t: "t = (the_trace d)\<lparr>blocks := (blocks (the_trace d))[nat i := p],
      block_sizes := (block_sizes (the_trace d))[nat i := sz]\<rparr>"
  shows "\<exists>e. randomize_block E i (d\<lparr>ranges := rs, the_trace := t\<rparr>) = Some e \<and> drv e L (insert i H)
    \<and> errors e = errors d \<and> num_ids (the_trace e) = num_ids (the_trace d) \<and> room (memory (package e)) = room (memory (package d))"
proof (cases "debug_mode E = DBG_NONE")
  case True
  have "drv (d\<lparr>ranges := rs, the_trace := t\<lparr>block_rand_base := block_rand_base (the_trace d)\<rparr>, package := package d,
      randoms := randoms d\<rparr>) L (insert i H)"
    by (rule drv_install [OF d i p sz fresh rs]) (use t drvD(1) [OF d] True in simp_all)
  moreover have "d\<lparr>ranges := rs, the_trace := t\<lparr>block_rand_base := block_rand_base (the_trace d)\<rparr>, package := package d,
      randoms := randoms d\<rparr> = d\<lparr>ranges := rs, the_trace := t\<rparr>" by (simp add: t)
  ultimately show ?thesis using True by (simp add: randomize_block_def t)
next
  case False
  note ar = drvD(2) [OF d, unfolded arrays_ok_def] and b = live_payload [OF drvD(1) [OF d] p] and r = live_region [OF drvD(1) [OF d]]
  define base where "base = random E (randoms d)"
  define bases where "bases = (block_rand_base (the_trace d))[nat i := base]"
  obtain m where m: "fill (random_data d) p base 0 (nat sz) (memory (package d)) = Some m" "heap m = heap (memory (package d))"
    "mem_brk m = mem_brk (memory (package d))" "\<And>x. x < p \<or> p + sz \<le> x \<Longrightarrow> cells m x = cells (memory (package d)) x"
    "\<And>j. 0 \<le> j \<Longrightarrow> j < sz \<Longrightarrow> at (random_data d) ((base + j) mod RANDOM_DATA_LEN) = Some (cells m (p + j))"
    using fill_random [of "random_data d" "memory (package d)" p 0 "nat sz" base] ar b r sz by auto
  have s: "live (set_memory m (package d)) L" by (rule set_memory_live [OF drvD(1) [OF d] p m(2,3)]) (use m(4) sz(2) in auto)
  have nb: "bases ! nat j = base_of d j" if "j \<in> H" for j
    using held_distinct [OF d i(1,2) that] by (simp add: bases_def)
  have "drv (d\<lparr>ranges := rs, the_trace := t\<lparr>block_rand_base := bases\<rparr>, package := set_memory m (package d),
      randoms := randoms d + 1\<rparr>) L (insert i H)"
    by (rule drv_install [where bases = bases, OF d i p sz fresh rs _ _ nb s])
      (use t m(4,5) ar i in \<open>simp_all add: bases_def memory_set_memory holds_random_def\<close>)
  moreover have "randomize_block E i (d\<lparr>ranges := rs, the_trace := t\<rparr>) = Some (d\<lparr>ranges := rs,
      the_trace := t\<lparr>block_rand_base := bases\<rparr>, package := set_memory m (package d), randoms := randoms d + 1\<rparr>)"
    using False m(1) ar i(2,3) by (simp add: randomize_block_def env t put_at_def at_def bases_def base_def)
  ultimately show ?thesis using m(2,3) by (simp add: memory_set_memory room_def t)
qed

lemma set_block_some:
  assumes "arrays_ok d" and "0 \<le> i" and "i < num_ids (the_trace d)"
  shows "set_block i p d = Some (d\<lparr>the_trace := (the_trace d)\<lparr>blocks := (blocks (the_trace d))[nat i := p]\<rparr>\<rparr>)"
    and "set_block_size i sz d = Some (d\<lparr>the_trace := (the_trace d)\<lparr>block_sizes := (block_sizes (the_trace d))[nat i := sz]\<rparr>\<rparr>)"
  using assms by (simp_all add: set_block_def set_block_size_def put_at_def arrays_ok_def)

text \<open>The requests of a trace, one at a time, on a driver that is in order.\<close>

lemma valid_alloc_ok:
  assumes d: "drv d L H" and i: "i \<notin> H" "0 \<le> i" "i < num_ids (the_trace d)" and sz: "0 < sz" "sz < 2 ^ 31"
    and room: "sz + 32 \<le> room (memory (package d))"
  shows "\<exists>e L'. valid_alloc E i sz d = Some (True, e) \<and> drv e L' (insert i H) \<and> errors e = errors d
    \<and> num_ids (the_trace e) = num_ids (the_trace d) \<and> room (memory (package d)) \<le> room (memory (package e)) + sz + 32"
proof -
  have lim: "sz < 2 ^ 62" using sz(2) by simp
  obtain p s n where m: "malloc sz (package d) = Some (p, s)" "kept L (memory (package d)) (memory s)" "p \<noteq> 0" "p \<notin> fst ` L"
    "room (memory (package d)) \<le> room (memory s) + sz + 32" "sz \<le> n" "live s (insert (p, n) L)"
    using malloc_live [OF drvD(1) [OF d] sz(1) lim] room by auto
  let ?d = "d\<lparr>package := s\<rparr>"
  have "drv (d\<lparr>package := s, ranges := ranges d\<rparr>) (insert (p, n) L) H"
    by (rule drv_package [OF d order_refl m(7,2)]) (use drvD(5,6) [OF d] in \<open>auto simp: range_ok_def\<close>)
  then have d1: "drv ?d (insert (p, n) L) H" by simp
  have fresh: "block_of ?d j \<noteq> p" if "j \<in> H" for j using held_payload [OF d that] m(4) by force
  obtain rs where rs: "add_range E p sz i ?d = Some (True, ?d\<lparr>ranges := rs\<rparr>)"
    "rs = ranges ?d \<or> rs = \<lparr>lo = p, hi = p + sz - 1, range_index = i\<rparr> # ranges ?d"
    using add_range_ok [OF d1 insertI1 sz(1) m(6) fresh, of i] by blast
  obtain e where e: "randomize_block E i (?d\<lparr>ranges := rs, the_trace := (the_trace ?d)\<lparr>blocks := (blocks (the_trace ?d))[nat i := p],
      block_sizes := (block_sizes (the_trace ?d))[nat i := sz]\<rparr>\<rparr>) = Some e" "drv e (insert (p, n) L) (insert i H)"
    "errors e = errors ?d" "num_ids (the_trace e) = num_ids (the_trace ?d)" "room (memory (package e)) = room (memory (package ?d))"
    using randomize_ok [OF d1 i(1,2) _ insertI1 sz(1) m(6) sz(2) fresh rs(2) refl] i(3) by auto
  have ar: "arrays_ok (?d\<lparr>ranges := rs\<rparr>)" using drvD(2) [OF d] by (simp add: arrays_ok_def)
  have "valid_alloc E i sz d = Some (True, e)"
    using m(1,3) rs(1) e(1) i ar sz to_int_small [of sz] by (simp add: valid_alloc_def env set_block_def set_block_size_def put_at_def arrays_ok_def)
  then show ?thesis using e(2-5) m(5) by auto
qed

lemma valid_free_ok:
  assumes d: "drv d L H" and i: "i \<in> H"
  shows "\<exists>e L'. valid_free E i d = Some (True, e) \<and> drv e L' (H - {i}) \<and> errors e = errors d
    \<and> num_ids (the_trace e) = num_ids (the_trace d) \<and> room (memory (package e)) = room (memory (package d))"
proof -
  let ?p = "block_of d i" and ?rs = "filter (\<lambda>r. lo r \<noteq> block_of d i) (ranges d)"
  note h = drvD(3) [OF d i, unfolded held_ok_def]
  obtain n where n: "(?p, n) \<in> L" using h by auto
  obtain s where s: "free ?p (package d) = Some s" "live s (L - {(?p, n)})" "kept (L - {(?p, n)}) (memory (package d)) (memory s)"
    "mem_brk (memory s) = mem_brk (memory (package d))" using free_live [OF drvD(1) [OF d] n] by blast
  have keep: "(block_of d j, k) \<in> L - {(?p, n)}" if "j \<in> H - {i}" "(block_of d j, k) \<in> L" for j k
    using drvD(4) [OF d] that i by (auto simp: inj_on_def)
  have rs: "r \<in> set (ranges d) \<and> range_index r \<in> H - {i}" if "r \<in> set ?rs" for r
    using that drvD(6) [OF d, of r] by (auto simp: range_ok_def)
  have "distinct (map range_index ?rs)" using drvD(5) [OF d] by (simp add: distinct_map_filter)
  then have "drv (d\<lparr>package := s, ranges := ?rs\<rparr>) (L - {(?p, n)}) (H - {i})"
    using drv_package [OF d Diff_subset s(2,3)] keep rs by blast
  moreover have "valid_free E i d = Some (True, d\<lparr>package := s, ranges := ?rs\<rparr>)"
    using check_held [OF d i] drv_at [OF drvD(2) [OF d]] h s(1) ranges_lo(2) [OF d] by (simp add: valid_free_def env)
  ultimately show ?thesis using s(3,4) by (auto simp: room_def kept_def)
qed

lemma valid_free_null: "valid_free E (-1) d = Some (True, d)"
  by (simp add: valid_free_def check_index_def env free_null)

text \<open>Entries of an index that is not in use do not matter.\<close>

lemma drv_unused:
  assumes d: "drv d L H" and i: "i \<notin> H" "0 \<le> i"
  shows "drv (d\<lparr>the_trace := (the_trace d)\<lparr>blocks := (blocks (the_trace d))[nat i := a],
     block_sizes := (block_sizes (the_trace d))[nat i := b], block_rand_base := (block_rand_base (the_trace d))[nat i := c]\<rparr>,
     randoms := k\<rparr>) L H" (is "drv ?e _ _")
proof -
  have old: "block_of ?e j = block_of d j" "size_of ?e j = size_of d j" "base_of ?e j = base_of d j" if "j \<in> H" for j
    using held_distinct [OF d i that] by simp_all
  have "held_ok (debug_mode E) (memory (package ?e)) ?e L j" if "j \<in> H" for j
    using drvD(3) [OF d that] unfolding held_ok_def old [OF that] by simp
  moreover have "range_ok ?e H r" if "r \<in> set (ranges d)" for r
    using drvD(6) [OF d that] old(1,2) unfolding range_ok_def by simp
  moreover have "inj_on (block_of ?e) H"
    using drvD(4) [OF d] inj_on_cong [of H "block_of ?e" "block_of d"] old(1) by blast
  ultimately show ?thesis using drvD(1,2,5) [OF d] by (simp add: drv_def arrays_ok_def)
qed

lemma randomize_empty:
  assumes "arrays_ok d" and "0 \<le> i" and "i < num_ids (the_trace d)" and "size_of d i = 0"
  shows "\<exists>c k. randomize_block E i d = Some (d\<lparr>the_trace := (the_trace d)\<lparr>block_rand_base :=
     (block_rand_base (the_trace d))[nat i := c]\<rparr>, randoms := k\<rparr>)"
proof (cases "debug_mode E = DBG_NONE")
  case True
  have "d\<lparr>the_trace := (the_trace d)\<lparr>block_rand_base := (block_rand_base (the_trace d))[nat i := base_of d i]\<rparr>, randoms := randoms d\<rparr> = d"
    by simp
  then show ?thesis using True unfolding randomize_block_def by metis
next
  case False
  have "put_at (block_rand_base (the_trace d)) i b = Some ((block_rand_base (the_trace d))[nat i := b])" for b
    using assms(1-3) by (simp add: put_at_def arrays_ok_def)
  then have "randomize_block E i d = Some (d\<lparr>the_trace := (the_trace d)\<lparr>block_rand_base :=
      (block_rand_base (the_trace d))[nat i := random E (randoms d)]\<rparr>, randoms := randoms d + 1\<rparr>)"
    using False assms(4) drv_at [OF assms(1-3)] by (simp add: randomize_block_def env memory_set_memory)
  then show ?thesis by blast
qed

text \<open>The release by a reallocation to length zero.\<close>

lemma valid_realloc_zero:
  assumes d: "drv d L H" and i: "i \<in> H"
  shows "\<exists>e L'. valid_realloc E i 0 d = Some (True, e) \<and> drv e L' (H - {i}) \<and> errors e = errors d
    \<and> num_ids (the_trace e) = num_ids (the_trace d) \<and> room (memory (package e)) = room (memory (package d))"
proof -
  obtain f L' where f: "valid_free E i d = Some (True, f)" "drv f L' (H - {i})" "errors f = errors d"
    "num_ids (the_trace f) = num_ids (the_trace d)" "room (memory (package f)) = room (memory (package d))"
    using valid_free_ok [OF d i] by blast
  note h = drvD(3) [OF d i, unfolded held_ok_def] and a = drv_at [OF drvD(2) [OF d]]
  obtain n where n: "(block_of d i, n) \<in> L" using h by auto
  obtain s where s: "free (block_of d i) (package d) = Some s" "f = d\<lparr>package := s, ranges := remove_range (ranges d) (block_of d i)\<rparr>"
    using f(1) check_held [OF d i] a h by (auto simp: valid_free_def env split: bind_splits)
  have r: "realloc (block_of d i) 0 (package d) = Some (0, s)"
    using realloc_zero live_nonnull [OF drvD(1) [OF d] n] s(1) by simp
  let ?g = "f\<lparr>the_trace := (the_trace f)\<lparr>blocks := (blocks (the_trace f))[nat i := 0],
      block_sizes := (block_sizes (the_trace f))[nat i := 0]\<rparr>\<rparr>"
  have tf: "the_trace f = the_trace d" using s(2) by simp
  have ar: "arrays_ok ?g" "0 \<le> i" "i < num_ids (the_trace ?g)" "size_of ?g i = 0"
    using drvD(2) [OF f(2)] h by (simp_all add: arrays_ok_def tf)
  obtain c k where rnd: "randomize_block E i ?g = Some (?g\<lparr>the_trace := (the_trace ?g)\<lparr>block_rand_base :=
     (block_rand_base (the_trace ?g))[nat i := c]\<rparr>, randoms := k\<rparr>)" (is "_ = Some ?e") using randomize_empty [OF ar] by blast
  have "check_index E i ?g = Some ?g" using drv_at [OF ar(1-3)] ar(4) by (simp add: check_index_def env)
  then have "valid_realloc E i 0 d = Some (True, ?e)"
    using check_held [OF d i] a h r rnd ar(1) f(2) tf
    by (simp add: valid_realloc_def env s(2) set_block_def set_block_size_def put_at_def at_def arrays_ok_def)
  moreover have "drv ?e L' (H - {i})" using drv_unused [OF f(2), where i = i and a = 0 and b = 0 and c = c and k = k] ar(2) by simp
  ultimately show ?thesis using f(3-5) by auto
qed

text \<open>A reallocation that moves the payload: the old contents are found again at the new place.\<close>

lemma drv_realloc:
  assumes d: "drv d L H" and i: "i \<in> H" and n: "(block_of d i, n) \<in> L" and sz: "0 < sz" "sz < 2 ^ 62"
    and room: "sz + 32 \<le> room (memory (package d))"
  shows "\<exists>q u k. realloc (block_of d i) sz (package d) = Some (q, u) \<and> q \<noteq> 0 \<and> sz \<le> k
    \<and> (\<forall>j \<in> H - {i}. block_of d j \<noteq> q)
    \<and> drv (d\<lparr>package := u, ranges := remove_range (ranges d) (block_of d i)\<rparr>) (insert (q, k) (L - {(block_of d i, n)})) (H - {i})
    \<and> room (memory (package d)) \<le> room (memory u) + sz + 32
    \<and> (\<forall>j. 0 \<le> j \<longrightarrow> j < n \<longrightarrow> j < sz \<longrightarrow> cells (memory u) (q + j) = cells (memory (package d)) (block_of d i + j))"
proof -
  let ?p = "block_of d i" and ?rs = "filter (\<lambda>r. lo r \<noteq> block_of d i) (ranges d)"
  obtain q s where m: "malloc sz (package d) = Some (q, s)" "q \<noteq> 0"
    using malloc_live [OF drvD(1) [OF d] sz] room by auto
  obtain u k where u: "realloc ?p sz (package d) = Some (q, u)" "sz \<le> k" "q \<notin> fst ` L" "live u (insert (q, k) (L - {(?p, n)}))"
    "kept (L - {(?p, n)}) (memory (package d)) (memory u)" "room (memory (package d)) \<le> room (memory u) + sz + 32"
    "\<forall>j. 0 \<le> j \<longrightarrow> j < n \<longrightarrow> j < sz \<longrightarrow> cells (memory u) (q + j) = cells (memory (package d)) (?p + j)"
    using realloc_live [OF drvD(1) [OF d] n sz m] by blast
  have keep: "(block_of d j, k') \<in> L - {(?p, n)}" if "j \<in> H - {i}" "(block_of d j, k') \<in> L" for j k'
    using drvD(4) [OF d] that i by (auto simp: inj_on_def)
  have rs: "r \<in> set (ranges d) \<and> range_index r \<in> H - {i}" if "r \<in> set ?rs" for r
    using that drvD(6) [OF d, of r] by (auto simp: range_ok_def)
  have "distinct (map range_index ?rs)" using drvD(5) [OF d] by (simp add: distinct_map_filter)
  then have "drv (d\<lparr>package := u, ranges := ?rs\<rparr>) (insert (q, k) (L - {(?p, n)})) (H - {i})"
    using drv_package [OF d Diff_subset u(4,5)] keep rs by blast
  moreover have "block_of d j \<noteq> q" if "j \<in> H" for j using held_payload [OF d that] u(3) by force
  ultimately show ?thesis using u m(2) ranges_lo(2) [OF d] by auto
qed

lemma valid_realloc_ok:
  assumes d: "drv d L H" and i: "i \<in> H" and sz: "0 < sz" "sz < 2 ^ 31" and room: "sz + 32 \<le> room (memory (package d))"
  shows "\<exists>e L'. valid_realloc E i sz d = Some (True, e) \<and> drv e L' H \<and> errors e = errors d
    \<and> num_ids (the_trace e) = num_ids (the_trace d) \<and> room (memory (package d)) \<le> room (memory (package e)) + sz + 32"
proof -
  note h = drvD(3) [OF d i, unfolded held_ok_def] and a = drv_at [OF drvD(2) [OF d]]
  obtain n where n: "(block_of d i, n) \<in> L" "size_of d i \<le> n" using h by auto
  have lim: "sz < 2 ^ 62" using sz(2) by simp
  obtain q u k where u: "realloc (block_of d i) sz (package d) = Some (q, u)" "q \<noteq> 0" "sz \<le> k" "\<forall>j \<in> H - {i}. block_of d j \<noteq> q"
    and d1: "drv (d\<lparr>package := u, ranges := remove_range (ranges d) (block_of d i)\<rparr>) (insert (q, k) (L - {(block_of d i, n)})) (H - {i})"
      (is "drv ?d ?L ?H")
    and rm: "room (memory (package d)) \<le> room (memory u) + sz + 32"
    and cp: "\<forall>j. 0 \<le> j \<longrightarrow> j < n \<longrightarrow> j < sz \<longrightarrow> cells (memory u) (q + j) = cells (memory (package d)) (block_of d i + j)"
    using drv_realloc [OF d i n(1) sz(1) lim room] by blast
  have fresh: "block_of ?d j \<noteq> q" if "j \<in> ?H" for j using u(4) that by simp
  obtain rs where rs: "add_range E q sz i ?d = Some (True, ?d\<lparr>ranges := rs\<rparr>)"
    "rs = ranges ?d \<or> rs = \<lparr>lo = q, hi = q + sz - 1, range_index = i\<rparr> # ranges ?d"
    using add_range_ok [OF d1 insertI1 sz(1) u(3) fresh, of i] by blast
  let ?f = "?d\<lparr>ranges := rs, the_trace := (the_trace ?d)\<lparr>blocks := (blocks (the_trace ?d))[nat i := q],
      block_sizes := (block_sizes (the_trace ?d))[nat i := min sz (size_of d i)]\<rparr>\<rparr>"
  have chk: "check_index E i ?f = Some ?f"
  proof (rule check_index_ok)
    show "live (package ?f) ?L" using drvD(1) [OF d1] by simp
    show "(block_of ?f i, k) \<in> ?L" using h drvD(2) [OF d] by (simp add: arrays_ok_def)
    show "holds_random (random_data ?f) (cells (memory (package ?f))) (block_of ?f i) (base_of ?f i) (size_of ?f i)"
      if "debug_mode E \<noteq> DBG_NONE"
      using h that cp n(2) drvD(2) [OF d] by (simp add: arrays_ok_def holds_random_def)
  qed (use h u(3) drvD(2) [OF d] in \<open>simp_all add: arrays_ok_def\<close>)
  obtain e where e: "randomize_block E i (?d\<lparr>ranges := rs, the_trace := (the_trace ?d)\<lparr>blocks := (blocks (the_trace ?d))[nat i := q],
      block_sizes := (block_sizes (the_trace ?d))[nat i := sz]\<rparr>\<rparr>) = Some e" "drv e ?L (insert i ?H)"
    "errors e = errors ?d" "num_ids (the_trace e) = num_ids (the_trace ?d)" "room (memory (package e)) = room (memory (package ?d))"
    using randomize_ok [OF d1 _ _ _ insertI1 sz(1) u(3) sz(2) fresh rs(2) refl] h by auto
  have eq: "?f = ?d\<lparr>ranges := rs, the_trace := (the_trace ?d)\<lparr>blocks := (blocks (the_trace ?d))[nat i := q]\<rparr>\<rparr>" if "\<not> sz < size_of d i"
    using that by (cases "the_trace d") (simp add: min_def)
  have "valid_realloc E i sz d = Some (True, e)"
  proof (cases "sz < size_of d i")
    case True
    then have "min sz (size_of d i) = sz" by simp
    then show ?thesis
      using True check_held [OF d i] a h u(1,2) sz to_int_small [of sz] rs(1) chk e(1) drvD(2) [OF d]
      by (simp add: valid_realloc_def env set_block_def set_block_size_def put_at_def at_def arrays_ok_def)
  next
    case False
    then show ?thesis
      using check_held [OF d i] a h u(1,2) sz to_int_small [of sz] rs(1) chk [unfolded eq [OF False]] e(1) drvD(2) [OF d]
      by (simp add: valid_realloc_def env set_block_def set_block_size_def put_at_def at_def arrays_ok_def)
  qed
  moreover have "insert i ?H = H" using i by blast
  ultimately show ?thesis using e(2-5) rm by auto
qed

text \<open>
  A trace that keeps within the memory is accepted: no error is counted, whatever the debug level.
\<close>

lemma valid_ops_ok:
  assumes "drv d L H" and "trace_ok (num_ids (the_trace d)) H os" and "demand os \<le> room (memory (package d))"
  shows "\<exists>e L' H'. valid_ops E os d = Some (True, e) \<and> drv e L' H' \<and> errors e = errors d"
  using assms
proof (induction os arbitrary: d L H)
  case (Cons oper os)
  let ?i = "op_index oper" and ?sz = "op_size oper"
  have chk: "(if debug_mode E = DBG_EXPENSIVE then check_all E (ranges d) d else Some d) = Some d"
    using check_all_held [OF Cons.prems(1)] drvD(6) [OF Cons.prems(1)] by (simp add: range_ok_def)
  have step: ?case if e: "(case op_type oper of ALLOC \<Rightarrow> valid_alloc E ?i ?sz d | REALLOC \<Rightarrow> valid_realloc E ?i ?sz d
        | FREE \<Rightarrow> valid_free E ?i d) = Some (True, e)" "drv e M K" "errors e = errors d"
      "trace_ok (num_ids (the_trace e)) K os" "demand os \<le> room (memory (package e))" for e M K
    using Cons.IH [OF e(2,4,5)] chk e(1,3) by simp
  show ?case
  proof (cases "op_type oper")
    case ALLOC
    note t = Cons.prems(2,3)
    have t': "?i \<notin> H" "0 \<le> ?i" "?i < num_ids (the_trace d)" "0 < ?sz" "?sz < 2 ^ 31"
      "trace_ok (num_ids (the_trace d)) (insert ?i H) os" "?sz + 32 + demand os \<le> room (memory (package d))"
      using t ALLOC by (auto simp: demand_def)
    show ?thesis using valid_alloc_ok [OF Cons.prems(1) t'(1-5)] demand_nonneg [OF t'(6)] t'(6,7) step ALLOC by fastforce
  next
    case REALLOC
    note t = Cons.prems(2,3)
    have t': "?i \<in> H" "0 \<le> ?sz" "?sz < 2 ^ 31" "trace_ok (num_ids (the_trace d)) (if ?sz = 0 then H - {?i} else H) os"
      "?sz + 32 + demand os \<le> room (memory (package d))"
      using t REALLOC by (auto simp: demand_def)
    show ?thesis
    proof (cases "?sz = 0")
      case True
      then show ?thesis using valid_realloc_zero [OF Cons.prems(1) t'(1)] t'(4,5) step REALLOC by fastforce
    next
      case False
      then show ?thesis
        using valid_realloc_ok [OF Cons.prems(1) t'(1) _ t'(3)] demand_nonneg [OF t'(4)] t'(2,4,5) step REALLOC by fastforce
    qed
  next
    case FREE
    have dem: "demand os \<le> room (memory (package d))" using Cons.prems(3) FREE by (simp add: demand_def)
    show ?thesis
    proof (cases "?i = -1 \<and> trace_ok (num_ids (the_trace d)) H os")
      case True
      then show ?thesis using step [OF _ Cons.prems(1)] valid_free_null FREE dem by simp
    next
      case False
      then have "?i \<in> H" "trace_ok (num_ids (the_trace d)) (H - {?i}) os" using Cons.prems(2) FREE by auto
      then show ?thesis using valid_free_ok [OF Cons.prems(1)] step FREE dem by fastforce
    qed
  qed
qed auto

text \<open>The payloads in use fit into the heap.\<close>

lemma held_sum:
  assumes d: "drv d L H"
  shows "finite H" and "(\<Sum>i \<in> H. size_of d i) \<le> mem_heapsize (memory (package d))"
proof -
  let ?m = "memory (package d)" and ?I = "\<lambda>i. {block_of d i..<block_of d i + size_of d i}"
  have "H \<subseteq> {0..<num_ids (the_trace d)}" using drvD(3) [OF d] by (auto simp: held_ok_def)
  then show fin: "finite H" using finite_subset by blast
  have sub: "?I i \<subseteq> {heap ?m..<mem_brk ?m}" and sz: "int (card (?I i)) = size_of d i" if i: "i \<in> H" for i
  proof -
    obtain n where n: "(block_of d i, n) \<in> L" "size_of d i \<le> n" using held_payload [OF d i] by blast
    show "?I i \<subseteq> {heap ?m..<mem_brk ?m}" using live_payload [OF drvD(1) [OF d] n(1)] n(2) by auto
    show "int (card (?I i)) = size_of d i" using drvD(3) [OF d i] by (simp add: held_ok_def)
  qed
  have disj: "?I i \<inter> ?I j = {}" if ij: "i \<in> H" "j \<in> H" "i \<noteq> j" for i j
  proof -
    obtain n k where nk: "(block_of d i, n) \<in> L" "size_of d i \<le> n" "(block_of d j, k) \<in> L" "size_of d j \<le> k"
      using held_payload [OF d ij(1)] held_payload [OF d ij(2)] by blast
    have "block_of d i \<noteq> block_of d j" using drvD(4) [OF d] ij by (auto simp: inj_on_def)
    then show ?thesis using live_disjoint [OF drvD(1) [OF d] nk(1,3)] nk(2,4) by auto
  qed
  have "(\<Sum>i \<in> H. size_of d i) = (\<Sum>i \<in> H. int (card (?I i)))" by (rule sum.cong [OF refl sz [symmetric]])
  also have "\<dots> = int (card (\<Union>i \<in> H. ?I i))"
    using card_UN_disjoint [of H ?I] fin disj by simp
  also have "\<dots> \<le> int (card {heap ?m..<mem_brk ?m})"
    by (rule of_nat_mono [OF card_mono [OF _ UN_least [OF sub]]]) simp
  finally show "(\<Sum>i \<in> H. size_of d i) \<le> mem_heapsize ?m" using live_base [OF drvD(1) [OF d]] by (simp add: mem_heapsize_def)
qed

text \<open>Utilization: the driver neither writes into the payloads nor records ranges.\<close>

definition tally :: "'s driver \<Rightarrow> int set \<Rightarrow> int" where
  "tally d H = (\<Sum>i \<in> H. size_of d i)"

lemma drv_held_set:
  assumes d: "drv d L H" and dbg: "debug_mode E = DBG_NONE" and i: "i \<notin> H" "0 \<le> i" "i < num_ids (the_trace d)"
    and p: "(p, n) \<in> L" "0 < sz" "sz \<le> n" "sz < 2 ^ 31" and fresh: "\<And>j. j \<in> H \<Longrightarrow> block_of d j \<noteq> p"
    and e: "e = d\<lparr>the_trace := (the_trace d)\<lparr>blocks := (blocks (the_trace d))[nat i := p],
      block_sizes := (block_sizes (the_trace d))[nat i := sz]\<rparr>\<rparr>"
  shows "drv e L (insert i H)" and "tally e (insert i H) = tally d H + sz"
proof -
  have "drv (d\<lparr>ranges := ranges d, the_trace := (the_trace d)\<lparr>blocks := (blocks (the_trace d))[nat i := p],
      block_sizes := (block_sizes (the_trace d))[nat i := sz], block_rand_base := block_rand_base (the_trace d)\<rparr>,
      package := package d, randoms := randoms d\<rparr>) L (insert i H)"
    by (rule drv_install [OF d i p fresh]) (use drvD(1) [OF d] dbg in simp_all)
  then show "drv e L (insert i H)" by (simp add: e)
  have "size_of e i = sz" using i drvD(2) [OF d] by (simp add: arrays_ok_def e)
  moreover have "(\<Sum>j \<in> H. size_of e j) = (\<Sum>j \<in> H. size_of d j)"
  proof (rule sum.cong [OF refl])
    show "size_of e j = size_of d j" if "j \<in> H" for j using held_distinct [OF d i(1,2) that] by (simp add: e)
  qed
  ultimately show "tally e (insert i H) = tally d H + sz"
    using held_sum(1) [OF d] i(1) by (simp add: tally_def)
qed

lemma tally_remove: "drv d L H \<Longrightarrow> i \<in> H \<Longrightarrow> tally d (H - {i}) = tally d H - size_of d i"
  using held_sum(1) [of d L H] by (simp add: tally_def sum_diff1)

text \<open>The result of a request in the utilization run.\<close>

definition util_step :: "'s driver \<Rightarrow> int \<Rightarrow> (int \<times> 's driver) option \<Rightarrow> int set \<Rightarrow> bool" where
  "util_step d c r K \<longleftrightarrow> (\<exists>e L'. r = Some (tally e K, e) \<and> drv e L' K \<and> ranges e = []
     \<and> num_ids (the_trace e) = num_ids (the_trace d) \<and> heap (memory (package e)) = heap (memory (package d))
     \<and> mem_brk (memory (package d)) \<le> mem_brk (memory (package e))
     \<and> room (memory (package d)) \<le> room (memory (package e)) + c)"

lemma util_alloc_ok:
  assumes d: "drv d L H" and dbg: "debug_mode E = DBG_NONE" and r: "ranges d = []" and t: "op_type oper = ALLOC"
    and i: "op_index oper \<notin> H" "0 \<le> op_index oper" "op_index oper < num_ids (the_trace d)"
    and sz: "0 < op_size oper" "op_size oper < 2 ^ 31" and room: "op_size oper + 32 \<le> room (memory (package d))"
  shows "util_step d (op_size oper + 32) (util_op E oper (tally d H) d) (insert (op_index oper) H)"
proof -
  let ?i = "op_index oper" and ?sz = "op_size oper"
  have lim: "?sz < 2 ^ 62" using sz(2) by simp
  obtain p s n where m: "malloc ?sz (package d) = Some (p, s)" "kept L (memory (package d)) (memory s)" "p \<noteq> 0" "p \<notin> fst ` L"
    "room (memory (package d)) \<le> room (memory s) + ?sz + 32" "?sz \<le> n" "live s (insert (p, n) L)"
    using malloc_live [OF drvD(1) [OF d] sz(1) lim] room by auto
  let ?d = "d\<lparr>package := s\<rparr>"
  have "drv (d\<lparr>package := s, ranges := ranges d\<rparr>) (insert (p, n) L) H"
    by (rule drv_package [OF d order_refl m(7,2)]) (use r in auto)
  then have d1: "drv ?d (insert (p, n) L) H" by simp
  have fresh: "block_of ?d j \<noteq> p" if "j \<in> H" for j using held_payload [OF d that] m(4) by force
  define e where "e = ?d\<lparr>the_trace := (the_trace ?d)\<lparr>blocks := (blocks (the_trace ?d))[nat ?i := p],
      block_sizes := (block_sizes (the_trace ?d))[nat ?i := ?sz]\<rparr>\<rparr>"
  have "drv e (insert (p, n) L) (insert ?i H)" "tally e (insert ?i H) = tally ?d H + ?sz"
    using drv_held_set [OF d1 dbg i(1,2) _ insertI1 sz(1) m(6) sz(2) fresh e_def] i(3) by simp_all
  moreover have "util_op E oper (tally d H) d = Some (tally d H + ?sz, e)"
    using t m(1,3) i(2,3) sz to_int_small [of ?sz] to_size_small [of ?sz] drvD(2) [OF d]
    by (simp add: util_op_def Let_def env e_def set_block_def set_block_size_def put_at_def arrays_ok_def)
  ultimately show ?thesis using m(2,5) r by (auto simp: util_step_def e_def tally_def kept_def)
qed

lemma util_free_ok:
  assumes d: "drv d L H" and r: "ranges d = []" and t: "op_type oper = FREE" and i: "op_index oper \<in> H"
  shows "util_step d 0 (util_op E oper (tally d H) d) (H - {op_index oper})"
proof -
  let ?i = "op_index oper"
  obtain f L' where f: "valid_free E ?i d = Some (True, f)" "drv f L' (H - {?i})" using valid_free_ok [OF d i] by blast
  note h = drvD(3) [OF d i, unfolded held_ok_def] and a = drv_at [OF drvD(2) [OF d]]
  obtain n where n: "(block_of d ?i, n) \<in> L" using h by auto
  obtain s where s: "free (block_of d ?i) (package d) = Some s" "kept (L - {(block_of d ?i, n)}) (memory (package d)) (memory s)"
    "mem_brk (memory s) = mem_brk (memory (package d))" using free_live [OF drvD(1) [OF d] n] by blast
  have fe: "f = d\<lparr>package := s\<rparr>"
    using f(1) check_held [OF d i] a h s(1) r by (auto simp: valid_free_def env split: bind_splits)
  have "util_op E oper (tally d H) d = Some (tally d H - size_of d ?i, f)"
    using t a h s(1) to_int_small [of "size_of d ?i"] by (simp add: util_op_def Let_def env fe)
  moreover have "tally f (H - {?i}) = tally d H - size_of d ?i" using tally_remove [OF d i] by (simp add: tally_def fe)
  ultimately show ?thesis using f(2) r s(2,3) by (auto simp: util_step_def fe kept_def room_def)
qed

lemma util_realloc_zero:
  assumes d: "drv d L H" and r: "ranges d = []" and t: "op_type oper = REALLOC" "op_size oper = 0" and i: "op_index oper \<in> H"
  shows "util_step d 0 (util_op E oper (tally d H) d) (H - {op_index oper})"
proof -
  let ?i = "op_index oper"
  note h = drvD(3) [OF d i, unfolded held_ok_def] and a = drv_at [OF drvD(2) [OF d]]
  have "util_step d 0 (util_op E (oper\<lparr>op_type := FREE\<rparr>) (tally d H) d) (H - {?i})"
    using util_free_ok [OF d r, of "oper\<lparr>op_type := FREE\<rparr>"] i by simp
  then obtain f L' where f: "util_op E (oper\<lparr>op_type := FREE\<rparr>) (tally d H) d = Some (tally f (H - {?i}), f)"
      "drv f L' (H - {?i})" "ranges f = []" "num_ids (the_trace f) = num_ids (the_trace d)"
      "heap (memory (package f)) = heap (memory (package d))" "mem_brk (memory (package d)) \<le> mem_brk (memory (package f))"
      "room (memory (package d)) \<le> room (memory (package f))"
    by (auto simp: util_step_def)
  obtain s where s: "free (block_of d ?i) (package d) = Some s" "f = d\<lparr>package := s\<rparr>" "tally f (H - {?i}) = tally d H - size_of d ?i"
    using f(1) a h to_int_small [of "size_of d ?i"] by (auto simp: util_op_def Let_def env split: bind_splits)
  obtain n where n: "(block_of d ?i, n) \<in> L" using h by auto
  have rz: "realloc (block_of d ?i) 0 (package d) = Some (0, s)"
    using realloc_zero live_nonnull [OF drvD(1) [OF d] n] s(1) by simp
  define e where "e = f\<lparr>the_trace := (the_trace f)\<lparr>blocks := (blocks (the_trace f))[nat ?i := 0],
      block_sizes := (block_sizes (the_trace f))[nat ?i := 0]\<rparr>\<rparr>"
  have "drv (f\<lparr>the_trace := (the_trace f)\<lparr>blocks := (blocks (the_trace f))[nat ?i := 0],
      block_sizes := (block_sizes (the_trace f))[nat ?i := 0], block_rand_base := (block_rand_base (the_trace f))[nat ?i := base_of f ?i]\<rparr>,
      randoms := randoms f\<rparr>) L' (H - {?i})"
    by (rule drv_unused [OF f(2)]) (use h in auto)
  then have "drv e L' (H - {?i})" by (simp add: e_def)
  moreover have "tally e (H - {?i}) = tally f (H - {?i})"
    unfolding tally_def
  proof (rule sum.cong [OF refl])
    fix j assume "j \<in> H - {?i}"
    then have "nat j \<noteq> nat ?i" using held_distinct [OF f(2), of ?i j] h by simp
    then show "size_of e j = size_of f j" by (simp add: e_def)
  qed
  moreover have "util_op E oper (tally d H) d = Some (tally d H - size_of d ?i, e)"
    using t a h rz to_int_small [of 0] to_size_small [of 0] to_int_small [of "size_of d ?i"] drvD(2) [OF d]
    by (simp add: util_op_def Let_def env e_def s(2) set_block_def set_block_size_def put_at_def arrays_ok_def)
  ultimately show ?thesis using s(3) f(3-7) by (auto simp: util_step_def e_def)
qed

lemma util_realloc_ok:
  assumes d: "drv d L H" and dbg: "debug_mode E = DBG_NONE" and r: "ranges d = []" and t: "op_type oper = REALLOC"
    and i: "op_index oper \<in> H" and sz: "0 < op_size oper" "op_size oper < 2 ^ 31"
    and room: "op_size oper + 32 \<le> room (memory (package d))"
  shows "util_step d (op_size oper + 32) (util_op E oper (tally d H) d) H"
proof -
  let ?i = "op_index oper" and ?sz = "op_size oper"
  note h = drvD(3) [OF d i, unfolded held_ok_def] and a = drv_at [OF drvD(2) [OF d]]
  obtain n where n: "(block_of d ?i, n) \<in> L" using h by auto
  have lim: "?sz < 2 ^ 62" using sz(2) by simp
  obtain q u k where u: "realloc (block_of d ?i) ?sz (package d) = Some (q, u)" "q \<noteq> 0" "?sz \<le> k" "\<forall>j \<in> H - {?i}. block_of d j \<noteq> q"
    and d1: "drv (d\<lparr>package := u, ranges := remove_range (ranges d) (block_of d ?i)\<rparr>) (insert (q, k) (L - {(block_of d ?i, n)})) (H - {?i})"
      (is "drv ?d ?L ?H")
    and rm: "room (memory (package d)) \<le> room (memory u) + ?sz + 32"
    using drv_realloc [OF d i n sz(1) lim room] by blast
  obtain m where m: "malloc ?sz (package d) = Some m" using malloc_live [OF drvD(1) [OF d] sz(1) lim] by blast
  have kp: "kept {} (memory (package d)) (memory u)"
    using realloc_live [OF drvD(1) [OF d] n sz(1) lim, of "fst m" "snd m"] m u(1,2) kept_mono [of _ "memory (package d)" "memory u" "{}"]
      malloc_live [OF drvD(1) [OF d] sz(1) lim] room by auto
  have fresh: "block_of ?d j \<noteq> q" if "j \<in> ?H" for j using u(4) that by simp
  define e where "e = ?d\<lparr>the_trace := (the_trace ?d)\<lparr>blocks := (blocks (the_trace ?d))[nat ?i := q],
      block_sizes := (block_sizes (the_trace ?d))[nat ?i := ?sz]\<rparr>\<rparr>"
  have e: "drv e ?L (insert ?i ?H)" "tally e (insert ?i ?H) = tally ?d ?H + ?sz"
    using drv_held_set [OF d1 dbg _ _ _ insertI1 sz(1) u(3) sz(2) fresh e_def] h by simp_all
  have "tally ?d ?H = tally d H - size_of d ?i" using tally_remove [OF d i] by (simp add: tally_def)
  moreover have "insert ?i ?H = H" using i by blast
  moreover have "util_op E oper (tally d H) d = Some (tally d H + (?sz - size_of d ?i), e)"
    using t a h u(1,2) sz r to_int_small [of ?sz] to_size_small [of ?sz] to_int_small [of "size_of d ?i"] drvD(2) [OF d]
    by (simp add: util_op_def Let_def env e_def set_block_def set_block_size_def put_at_def arrays_ok_def)
  ultimately show ?thesis using e rm kp r by (auto simp: util_step_def e_def kept_def)
qed

text \<open>The greatest total of the lengths in use never exceeds the heap that the allocator took.\<close>

lemma util_ops_ok:
  assumes "drv d L H" and dbg: "debug_mode E = DBG_NONE" and "ranges d = []" and "trace_ok (num_ids (the_trace d)) H os"
    and "demand os \<le> room (memory (package d))" and "mx \<le> mem_heapsize (memory (package d))"
  shows "\<exists>e mx'. util_ops E os (tally d H) mx d = Some (mx', e) \<and> mx \<le> mx' \<and> mx' \<le> mem_heapsize (memory (package e))"
  using assms(1,3-)
proof (induction os arbitrary: d L H mx)
  case (Cons oper os)
  let ?i = "op_index oper" and ?sz = "op_size oper"
  have step: ?case if u: "util_step d c (util_op E oper (tally d H) d) K" "trace_ok (num_ids (the_trace d)) K os"
      "demand os + c \<le> room (memory (package d))" for c K
  proof -
    obtain e M where e: "util_op E oper (tally d H) d = Some (tally e K, e)" "drv e M K" "ranges e = []"
      "num_ids (the_trace e) = num_ids (the_trace d)" "heap (memory (package e)) = heap (memory (package d))"
      "mem_brk (memory (package d)) \<le> mem_brk (memory (package e))" "room (memory (package d)) \<le> room (memory (package e)) + c"
      using u(1) by (auto simp: util_step_def)
    let ?mx = "if tally e K > mx then tally e K else mx"
    have "?mx \<le> mem_heapsize (memory (package e))"
      using held_sum(2) [OF e(2)] Cons.prems(5) e(5,6) by (simp add: tally_def mem_heapsize_def)
    moreover have "trace_ok (num_ids (the_trace e)) K os" "demand os \<le> room (memory (package e))" using u(2,3) e(4,7) by simp_all
    ultimately obtain e' mx' where "util_ops E os (tally e K) ?mx e = Some (mx', e')" "?mx \<le> mx'" "mx' \<le> mem_heapsize (memory (package e'))"
      using Cons.IH [OF e(2,3)] by blast
    then show ?thesis using e(1) by (auto split: if_splits)
  qed
  show ?case
  proof (cases "op_type oper")
    case ALLOC
    have t: "?i \<notin> H" "0 \<le> ?i" "?i < num_ids (the_trace d)" "0 < ?sz" "?sz < 2 ^ 31"
      "trace_ok (num_ids (the_trace d)) (insert ?i H) os" "?sz + 32 + demand os \<le> room (memory (package d))"
      using Cons.prems(3,4) ALLOC by (auto simp: demand_def)
    show ?thesis using step [OF util_alloc_ok [OF Cons.prems(1) dbg Cons.prems(2) ALLOC t(1-5)]] demand_nonneg [OF t(6)] t(6,7) by simp
  next
    case REALLOC
    have t: "?i \<in> H" "0 \<le> ?sz" "?sz < 2 ^ 31" "trace_ok (num_ids (the_trace d)) (if ?sz = 0 then H - {?i} else H) os"
      "?sz + 32 + demand os \<le> room (memory (package d))"
      using Cons.prems(3,4) REALLOC by (auto simp: demand_def)
    show ?thesis
    proof (cases "?sz = 0")
      case True
      then show ?thesis using step [OF util_realloc_zero [OF Cons.prems(1,2) REALLOC True t(1)]] t(4,5) by simp
    next
      case False
      then show ?thesis
        using step [OF util_realloc_ok [OF Cons.prems(1) dbg Cons.prems(2) REALLOC t(1) _ t(3)]] demand_nonneg [OF t(4)] t(2,4,5) by simp
    qed
  next
    case FREE
    have dem: "demand os \<le> room (memory (package d))" using Cons.prems(4) FREE by (simp add: demand_def)
    show ?thesis
    proof (cases "?i = -1 \<and> trace_ok (num_ids (the_trace d)) H os")
      case True
      have "util_op E oper (tally d H) d = Some (tally d H, d)"
        using FREE True free_null by (simp add: util_op_def Let_def env)
      then have "util_step d 0 (util_op E oper (tally d H) d) H" using Cons.prems(1,2) by (auto simp: util_step_def)
      then show ?thesis using step True dem by simp
    next
      case False
      then have f: "?i \<in> H" "trace_ok (num_ids (the_trace d)) (H - {?i}) os" using Cons.prems(3) FREE by auto
      then show ?thesis using step [OF util_free_ok [OF Cons.prems(1,2) FREE f(1)]] dem by simp
    qed
  qed
qed auto

end

section \<open>Whole runs\<close>

text \<open>Initialization on a region that starts on a multiple of 16, as pages do.\<close>

definition region_base :: "memsys \<Rightarrow> bool" where
  "region_base m \<longleftrightarrow> 0 < heap m \<and> 16 dvd heap m \<and> heap m + MAX_HEAP < 2 ^ 63"

locale started = driven live memory set_memory malloc free realloc E
  for live :: "'s \<Rightarrow> (int \<times> int) set \<Rightarrow> bool" and memory :: "'s \<Rightarrow> memsys" and set_memory :: "memsys \<Rightarrow> 's \<Rightarrow> 's"
    and malloc :: "int \<Rightarrow> 's \<Rightarrow> (int \<times> 's) option" and free :: "int \<Rightarrow> 's \<Rightarrow> 's option"
    and realloc :: "int \<Rightarrow> int \<Rightarrow> 's \<Rightarrow> (int \<times> 's) option" and E :: "'s env" +
  assumes init_live: "region_base (memory s) \<Longrightarrow> mem_brk (memory s) = heap (memory s)
    \<Longrightarrow> \<exists>t. pk_init E s = (True, t) \<and> live t {} \<and> room (memory t) = MAX_HEAP - 8"
begin

lemma start_run:
  assumes "region_base (memory (package d))" and "length (random_data d) = nat RANDOM_DATA_LEN" and "ranges d = []"
    and "length (block_rand_base (the_trace d)) = nat (num_ids (the_trace d))"
  shows "\<exists>t. pk_init E (reset_memory E clear (package d)) = (True, t) \<and> room (memory t) = MAX_HEAP - 8
    \<and> drv (d\<lparr>package := t, the_trace := reinit_trace (the_trace d)\<rparr>) {} {}"
proof -
  let ?s = "reset_memory E clear (package d)"
  have "heap (memory ?s) = heap (memory (package d))" "mem_brk (memory ?s) = heap (memory ?s)"
    by (simp_all add: reset_memory_def env memory_set_memory mem_reset_brk_def Let_def)
  then obtain t where t: "pk_init E ?s = (True, t)" "live t {}" "room (memory t) = MAX_HEAP - 8"
    using init_live [of ?s] assms(1) by (auto simp: region_base_def)
  have "drv (d\<lparr>package := t, the_trace := reinit_trace (the_trace d)\<rparr>) {} {}"
    using t(2) assms(2-4) by (simp add: drv_def arrays_ok_def reinit_trace_def)
  then show ?thesis using t(1,3) by blast
qed

lemma eval_mm_valid_ok:
  assumes "region_base (memory (package d))" and "length (random_data d) = nat RANDOM_DATA_LEN" and "ranges d = []"
    and "length (block_rand_base (the_trace d)) = nat (num_ids (the_trace d))"
    and "trace_ok (num_ids (the_trace d)) {} (ops (the_trace d))" and "demand (ops (the_trace d)) \<le> MAX_HEAP - 8"
  shows "\<exists>e. eval_mm_valid E d = Some (True, e) \<and> errors e = errors d"
proof -
  obtain t where t: "pk_init E (reset_memory E True (package d)) = (True, t)" "room (memory t) = MAX_HEAP - 8"
    "drv (d\<lparr>package := t, the_trace := reinit_trace (the_trace d)\<rparr>) {} {}" using start_run [OF assms(1-4)] by blast
  show ?thesis
    using valid_ops_ok [OF t(3), of "ops (the_trace d)"] assms(5,6) t(1,2) by (auto simp: eval_mm_valid_def reinit_trace_def)
qed

lemma eval_mm_util_ok:
  assumes "debug_mode E = DBG_NONE" and "region_base (memory (package d))" and "length (random_data d) = nat RANDOM_DATA_LEN"
    and "ranges d = []" and "length (block_rand_base (the_trace d)) = nat (num_ids (the_trace d))"
    and "trace_ok (num_ids (the_trace d)) {} (ops (the_trace d))" and "demand (ops (the_trace d)) \<le> MAX_HEAP - 8"
  shows "\<exists>a b e. eval_mm_util E d = Some ((a, b), e) \<and> 0 \<le> a \<and> a \<le> b"
proof -
  obtain t where t: "pk_init E (reset_memory E False (package d)) = (True, t)" "room (memory t) = MAX_HEAP - 8"
    "drv (d\<lparr>package := t, the_trace := reinit_trace (the_trace d)\<rparr>) {} {}" using start_run [OF assms(2-5)] by blast
  let ?d = "d\<lparr>package := t, the_trace := reinit_trace (the_trace d)\<rparr>"
  have "\<exists>e mx. util_ops E (ops (the_trace d)) (tally ?d {}) 0 ?d = Some (mx, e) \<and> 0 \<le> mx \<and> mx \<le> mem_heapsize (memory (package e))"
    by (rule util_ops_ok [OF t(3) assms(1)])
      (use assms(4,6,7) t(2) live_base [OF drvD(1) [OF t(3)]] in \<open>simp_all add: reinit_trace_def mem_heapsize_def\<close>)
  then show ?thesis using t(1) by (auto simp: eval_mm_util_def reinit_trace_def tally_def env)
qed

end

text \<open>The debug level plays no role in the utilization run.\<close>

lemma util_ops_debug: "util_ops (E\<lparr>debug_mode := x\<rparr>) os t mx d = util_ops E os t mx d"
proof (induction os arbitrary: t mx d)
  case (Cons oper os)
  have "util_op (E\<lparr>debug_mode := x\<rparr>) oper t d = util_op E oper t d"
    by (cases "op_type oper") (simp_all add: util_op_def Let_def)
  then show ?case by (cases "util_op E oper t d") (auto simp: Cons.IH)
qed simp

lemma eval_mm_util_debug: "eval_mm_util (E\<lparr>debug_mode := x\<rparr>) d = eval_mm_util E d"
  by (simp add: eval_mm_util_def reset_memory_def util_ops_debug case_prod_beta' Let_def)

text \<open>
  The overlap test of \<^verbatim>\<open>add_range\<close> does not see a new payload that contains an old one. It compares
  the two ends of the new payload with the old ones only, so a payload that begins before an old
  payload and ends behind it is accepted and recorded.
\<close>

theorem add_range_accepts_containing_payload:
  assumes "ranges d = [r]" and "lo r \<le> hi r" and "l < lo r" and "hi r < l + sz - 1" and "IS_ALIGNED l"
    and "mem_heap_lo (pk_memory E (package d)) \<le> l" and "l + sz - 1 \<le> mem_heap_hi (pk_memory E (package d))"
    and "\<not> ignore_ranges (the_trace d)" and "debug_mode E \<noteq> DBG_NONE"
  shows "add_range E l sz index d = Some (True, d\<lparr>ranges := [\<lparr>lo = l, hi = l + sz - 1, range_index = index\<rparr>, r]\<rparr>)"
  using assms by (simp add: add_range_def)

definition plain_env :: "memsys env" where
  "plain_env = \<lparr>pk_memory = (\<lambda>m. m), pk_set_memory = (\<lambda>m _. m), pk_init = Pair True, pk_malloc = (\<lambda>_ _. None),
     pk_free = (\<lambda>_ _. None), pk_realloc = (\<lambda>_ _ _. None), random = (\<lambda>_. 0), debug_mode = DBG_CHEAP\<rparr>"

definition one_range_driver :: "memsys driver" where
  "one_range_driver = \<lparr>package = \<lparr>heap = 0, mem_brk = 1000, cells = (\<lambda>_. 0)\<rparr>,
     the_trace = \<lparr>ignore_ranges = False, num_ids = 2, weight = 1, ops = [], blocks = [], block_sizes = [], block_rand_base = []\<rparr>,
     ranges = [\<lparr>lo = 32, hi = 39, range_index = 0\<rparr>], errors = 0, randoms = 0, random_data = []\<rparr>"

theorem add_range_accepts_containing_payload_witness:
  "add_range plain_env 16 100 1 one_range_driver
     = Some (True, one_range_driver\<lparr>ranges := [\<lparr>lo = 16, hi = 16 + 100 - 1, range_index = 1\<rparr>, \<lparr>lo = 32, hi = 39, range_index = 0\<rparr>]\<rparr>)"
  by (rule add_range_accepts_containing_payload)
    (simp_all add: plain_env_def one_range_driver_def IS_ALIGNED_def DRIVER_ALIGNMENT_def mem_heap_lo_def mem_heap_hi_def)

end
