(* ===== verification/Mm_Implicit.thy ===== *)
theory Mm_Implicit
  imports Heap_Blocks Mdriver
begin

text \<open>
  The implicit-list allocator (\<^verbatim>\<open>src/malloc/src/mm-implicit.c\<close>) over the byte memory of
  \<^verbatim>\<open>Memlib\<close>, and its refinement: on a heap that is tiled by blocks, every operation is an
  operation on the list of the block sizes and allocation bits. The loops over the blocks are partial
  functions; on a tiled heap they are proved to return.
\<close>

section \<open>The allocator\<close>

record mm =
  mem :: memsys
  mm_heap_first :: int
  mm_heap_last :: int

definition ALIGNMENT :: int where
  "ALIGNMENT = 16"

definition round_up :: "int \<Rightarrow> int \<Rightarrow> int" where
  "round_up sz n = (sz + (n - 1)) mod 2 ^ 64 div n * n"

definition set_header :: "int \<Rightarrow> int \<Rightarrow> bool \<Rightarrow> mm \<Rightarrow> mm option" where
  "set_header block sz is_alloc s = map_option (\<lambda>m. s\<lparr>mem := m\<rparr>) (store block (make_header sz is_alloc) (mem s))"

definition get_size :: "int \<Rightarrow> mm \<Rightarrow> int option" where
  "get_size block s = map_option header_size (load (mem s) block)"

definition is_allocated :: "int \<Rightarrow> mm \<Rightarrow> bool option" where
  "is_allocated block s = map_option header_allocated (load (mem s) block)"

text \<open>The payload follows the header of eight bytes.\<close>

definition payload :: "int \<Rightarrow> int" where
  "payload block = block + 8"

definition block_from_payload :: "int \<Rightarrow> int" where
  "block_from_payload ptr = ptr - 8"

definition split_block :: "int \<Rightarrow> int \<Rightarrow> int \<Rightarrow> mm \<Rightarrow> (int \<times> mm) option" where
  "split_block block sz block_size s = do {
     s \<leftarrow> set_header block sz True s;
     s \<leftarrow> set_header (block + sz) (block_size - sz) False s;
     let s = (if block = mm_heap_last s then s\<lparr>mm_heap_last := block + sz\<rparr> else s);
     Some (payload block, s)
   }"

partial_function (option) coalesce_loop :: "int \<Rightarrow> int \<Rightarrow> mm \<Rightarrow> mm option" where
  "coalesce_loop prev cur s =
     (if mm_heap_last s \<noteq> 0 \<and> cur \<le> mm_heap_last s then do {
        pa \<leftarrow> is_allocated prev s;
        ca \<leftarrow> (if pa then Some True else is_allocated cur s);
        ps \<leftarrow> get_size prev s;
        cs \<leftarrow> get_size cur s;
        if \<not> pa \<and> \<not> ca then do {
          let s = (if cur = mm_heap_last s then s\<lparr>mm_heap_last := prev\<rparr> else s);
          s \<leftarrow> set_header prev (ps + cs) False s;
          coalesce_loop prev (prev + (ps + cs)) s
        } else coalesce_loop (prev + ps) (cur + cs) s
      } else Some s)"

definition coalesce_blocks :: "mm \<Rightarrow> mm option" where
  "coalesce_blocks s = do {
     n \<leftarrow> get_size (mm_heap_first s) s;
     coalesce_loop (mm_heap_first s) (mm_heap_first s + n) s
   }"

partial_function (option) fit_loop :: "int \<Rightarrow> int \<Rightarrow> mm \<Rightarrow> int option" where
  "fit_loop sz cur s =
     (if mm_heap_last s \<noteq> 0 \<and> cur \<le> mm_heap_last s then do {
        a \<leftarrow> is_allocated cur s;
        n \<leftarrow> get_size cur s;
        if \<not> a \<and> sz \<le> n then Some cur else fit_loop sz (cur + n) s
      } else Some 0)"

definition find_fit :: "int \<Rightarrow> mm \<Rightarrow> int option" where
  "find_fit sz s = fit_loop sz (mm_heap_first s) s"

definition mm_init :: "mm \<Rightarrow> bool \<times> mm" where
  "mm_init s =
     (let (padding, m) = mem_sbrk (ALIGNMENT - 8) (mem s) in
      if padding = -1 then (False, s) else (True, s\<lparr>mem := m, mm_heap_first := 0, mm_heap_last := 0\<rparr>))"

definition mm_malloc :: "int \<Rightarrow> mm \<Rightarrow> (int \<times> mm) option" where
  "mm_malloc sz s = do {
     let sz = round_up ((8 + sz) mod 2 ^ 64) ALIGNMENT;
     s \<leftarrow> coalesce_blocks s;
     block \<leftarrow> find_fit sz s;
     if block \<noteq> 0 then do {
       block_size \<leftarrow> get_size block s;
       if sz < block_size then split_block block sz block_size s
       else do {
         s \<leftarrow> set_header block block_size True s;
         Some (payload block, s)
       }
     } else
       let (block, m) = mem_sbrk (ssize sz) (mem s) in
       if block = -1 then Some (0, s)
       else do {
         let s = s\<lparr>mem := m, mm_heap_first := (if mm_heap_first s = 0 then block else mm_heap_first s), mm_heap_last := block\<rparr>;
         s \<leftarrow> set_header block sz True s;
         Some (payload block, s)
       }
   }"

definition mm_free :: "int \<Rightarrow> mm \<Rightarrow> mm option" where
  "mm_free ptr s =
     (if ptr = 0 then Some s
      else do {
        let block = block_from_payload ptr;
        n \<leftarrow> get_size block s;
        set_header block n False s
      })"

definition lift_mem :: "(memsys \<Rightarrow> memsys option) \<Rightarrow> mm \<Rightarrow> mm option" where
  "lift_mem f s = map_option (\<lambda>m. s\<lparr>mem := m\<rparr>) (f (mem s))"

definition mm_realloc :: "int \<Rightarrow> int \<Rightarrow> mm \<Rightarrow> (int \<times> mm) option" where
  "mm_realloc old_ptr sz s =
     (if old_ptr = 0 then mm_malloc sz s
      else if sz = 0 then map_option (Pair 0) (mm_free old_ptr s)
      else do {
        n \<leftarrow> get_size (block_from_payload old_ptr) s;
        let old_size = (n - 8) mod 2 ^ 64;
        (new_ptr, s) \<leftarrow> mm_malloc sz s;
        s \<leftarrow> lift_mem (memcpy new_ptr old_ptr (if old_size < sz then old_size else sz)) s;
        s \<leftarrow> mm_free old_ptr s;
        Some (new_ptr, s)
      })"

definition mm_calloc :: "int \<Rightarrow> int \<Rightarrow> mm \<Rightarrow> (int \<times> mm) option" where
  "mm_calloc nmemb sz s = do {
     let n = (sz * nmemb) mod 2 ^ 64;
     (new_ptr, s) \<leftarrow> mm_malloc n s;
     s \<leftarrow> lift_mem (memset new_ptr 0 n) s;
     Some (new_ptr, s)
   }"

section \<open>Heaps tiled by blocks\<close>

fun blocks_at :: "memsys \<Rightarrow> int \<Rightarrow> blocks \<Rightarrow> int \<Rightarrow> bool" where
  "blocks_at m a [] e \<longleftrightarrow> a = e"
| "blocks_at m a ((n, al) # bs) e \<longleftrightarrow>
     16 \<le> n \<and> 16 dvd n \<and> load m a = Some (make_header n al) \<and> blocks_at m (a + n) bs e"

lemma blocks_at_sizes: "blocks_at m a bs e \<Longrightarrow> sizes_ok bs"
  by (induction m a bs e rule: blocks_at.induct) (auto simp: sizes_ok_def)

lemma blocks_at_end: "blocks_at m a bs e \<Longrightarrow> e = a + extent bs"
  by (induction m a bs e rule: blocks_at.induct) auto

lemma blocks_at_append:
  "blocks_at m a (xs @ ys) e \<longleftrightarrow> blocks_at m a xs (a + extent xs) \<and> blocks_at m (a + extent xs) ys e"
  by (induction m a xs e rule: blocks_at.induct) (auto simp: add.assoc)

lemma blocks_at_cong:
  "blocks_at m a bs e \<Longrightarrow> (\<And>b. a \<le> b \<Longrightarrow> b + 16 \<le> e \<Longrightarrow> load m' b = load m b) \<Longrightarrow> blocks_at m' a bs e"
proof (induction m a bs e rule: blocks_at.induct)
  case (2 m a n al bs e)
  have "sizes_ok bs" "e = a + n + extent bs" using blocks_at_sizes blocks_at_end 2(2) by auto
  then have "a + 16 \<le> e" using extent_nonneg [of bs] 2(2) by auto
  then show ?case using 2 by auto
qed simp

section \<open>Coalescing\<close>

text \<open>Adjacent free blocks become one, from the left.\<close>

fun merge :: "blocks \<Rightarrow> blocks" where
  "merge ((n, al) # (k, bl) # bs) =
     (if \<not> al \<and> \<not> bl then merge ((n + k, False) # bs) else (n, al) # merge ((k, bl) # bs))"
| "merge bs = bs"

lemma merge_nonempty [simp]: "merge bs = [] \<longleftrightarrow> bs = []"
  by (induction bs rule: merge.induct) auto

lemma merge_allocs: "allocs a (merge bs) = allocs a bs"
  by (induction bs arbitrary: a rule: merge.induct) (auto simp: add.assoc)

lemma merge_free: "sizes_ok bs \<Longrightarrow> free_cells a (merge bs) = free_cells a bs"
proof (induction bs arbitrary: a rule: merge.induct)
  case (1 n al k bl bs)
  have nk: "0 \<le> n" "0 \<le> k" using 1(3) by (auto simp: sizes_ok_def)
  have "16 dvd n + k" "16 \<le> n + k" if "\<not> al \<and> \<not> bl" using 1(3) by (auto simp: sizes_ok_def)
  then have "sizes_ok ((n + k, False) # bs)" if "\<not> al \<and> \<not> bl" using that 1(3) by (auto simp: sizes_ok_def)
  moreover have "sizes_ok ((k, bl) # bs)" using 1(3) by (auto simp: sizes_ok_def)
  moreover have "{a..<a + (n + k)} = {a..<a + n} \<union> {a + n..<a + n + k}" using nk by auto
  ultimately show ?case using 1(1,2) by (auto simp: add.assoc)
qed auto

lemma merge_total: "extent (merge bs) = extent bs"
  by (induction bs rule: merge.induct) auto

text \<open>After merging no two free blocks are adjacent.\<close>

fun separated :: "blocks \<Rightarrow> bool" where
  "separated ((n, al) # (k, bl) # bs) \<longleftrightarrow> (al \<or> bl) \<and> separated ((k, bl) # bs)"
| "separated _ \<longleftrightarrow> True"

lemma merge_hd: "al \<Longrightarrow> \<exists>bs'. merge ((n, al) # bs) = (n, al) # bs'"
  by (cases bs) auto

lemma separated_cons: "separated bs \<Longrightarrow> bs = [] \<or> al \<or> snd (hd bs) \<Longrightarrow> separated ((n, al) # bs)"
  by (cases bs) auto

lemma merge_hd_alloc: "bs \<noteq> [] \<Longrightarrow> snd (hd bs) \<Longrightarrow> snd (hd (merge bs))"
  by (induction bs rule: merge.induct) auto

lemma merge_separated: "separated (merge bs)"
proof (induction bs rule: merge.induct)
  case (1 n al k bl bs)
  then show ?case
    using separated_cons [of "merge ((k, bl) # bs)" al n] merge_hd_alloc [of "(k, bl) # bs"] by auto
qed auto

text \<open>Two states that differ only in the cells of \<open>F\<close> and in the last block.\<close>

definition same_but :: "int set \<Rightarrow> mm \<Rightarrow> mm \<Rightarrow> bool" where
  "same_but F s t \<longleftrightarrow> heap (mem t) = heap (mem s) \<and> mem_brk (mem t) = mem_brk (mem s)
     \<and> mm_heap_first t = mm_heap_first s \<and> (\<forall>x. x \<notin> F \<longrightarrow> cells (mem t) x = cells (mem s) x)"

lemma same_but_refl: "same_but F s s"
  by (simp add: same_but_def)

lemma same_but_trans: "same_but F s t \<Longrightarrow> same_but G t u \<Longrightarrow> F \<subseteq> H \<Longrightarrow> G \<subseteq> H \<Longrightarrow> same_but H s u"
  unfolding same_but_def by (metis subsetD)

lemma same_but_mono: "same_but F s t \<Longrightarrow> F \<subseteq> G \<Longrightarrow> same_but G s t"
  unfolding same_but_def by blast

lemma same_but_load:
  assumes "same_but F s t" and "\<And>x. b \<le> x \<Longrightarrow> x < b + 8 \<Longrightarrow> x \<notin> F"
  shows "load (mem t) b = load (mem s) b"
proof -
  have "get_le (cells (mem t)) b 8 = get_le (cells (mem s)) b 8"
    by (rule get_le_cong) (use assms in \<open>auto simp: same_but_def\<close>)
  then show ?thesis using assms(1) by (simp add: load_def mapped_def same_but_def)
qed

lemma header_read:
  assumes "load (mem s) a = Some (make_header n al)" and "16 dvd n"
  shows "get_size a s = Some n" and "is_allocated a s = Some al"
proof -
  have "even n" using assms(2) by (meson dvd_trans even_numeral)
  then show "get_size a s = Some n" "is_allocated a s = Some al"
    using assms(1) header_parts [of n al] by (simp_all add: get_size_def is_allocated_def)
qed

text \<open>The part of the state that all operations keep: where the heap is.\<close>

definition region_ok :: "mm \<Rightarrow> int \<Rightarrow> int \<Rightarrow> bool" where
  "region_ok s a e \<longleftrightarrow> 0 < heap (mem s) \<and> heap (mem s) \<le> a \<and> e \<le> heap (mem s) + MAX_HEAP \<and> heap (mem s) + MAX_HEAP < 2 ^ 63"

lemma set_header_at:
  assumes "region_ok s a e" and "a \<le> p" and "p + 16 \<le> e" and "16 \<le> n" "16 dvd n" "n < 2 ^ 63"
  shows "\<exists>t. set_header p n al s = Some t \<and> load (mem t) p = Some (make_header n al)
    \<and> same_but {p..<p + 8} s t \<and> mm_heap_last t = mm_heap_last s"
proof -
  have "even n" using assms(5) by (meson dvd_trans even_numeral)
  then have h: "0 \<le> make_header n al" "make_header n al < 2 ^ 64"
    using header_parts(1) [of n al] assms(4,6) by auto
  have "mapped (mem s) p 8" using assms(1-3) by (simp add: mapped_def region_ok_def)
  from store_mapped [OF this h] show ?thesis
    by (auto simp: set_header_def same_but_def)
qed

lemma region_ok_same: "region_ok s a e \<Longrightarrow> same_but F s t \<Longrightarrow> a \<le> b \<Longrightarrow> region_ok t b e"
  by (auto simp: region_ok_def same_but_def)

lemma blocks_at_same:
  assumes "blocks_at (mem s) a bs e" and "same_but F s t" and "\<And>x. a \<le> x \<Longrightarrow> x < e \<Longrightarrow> x \<notin> F"
  shows "blocks_at (mem t) a bs e"
  by (rule blocks_at_cong [OF assms(1)], rule same_but_load [OF assms(2)]) (use assms(3) in auto)

lemma coalesce_loop_correct:
  assumes "blocks_at (mem s) prev ((n, al) # bs) e" and "mm_heap_last s = last_addr prev ((n, al) # bs)"
    and "region_ok s prev e"
  shows "\<exists>t. coalesce_loop prev (prev + n) s = Some t
    \<and> blocks_at (mem t) prev (merge ((n, al) # bs)) e \<and> mm_heap_last t = last_addr prev (merge ((n, al) # bs))
    \<and> same_but (free_cells prev ((n, al) # bs)) s t"
  using assms
proof (induction bs arbitrary: s prev n al)
  case Nil
  then have "prev + n > mm_heap_last s" by simp
  then show ?case using Nil same_but_refl by (subst coalesce_loop.simps) auto
next
  case (Cons b bs)
  obtain k bl where b: "b = (k, bl)" by (cases b)
  have h1: "load (mem s) prev = Some (make_header n al)" "16 \<le> n" "16 dvd n"
    and h2: "load (mem s) (prev + n) = Some (make_header k bl)" "16 \<le> k" "16 dvd k"
    and bs: "blocks_at (mem s) (prev + n + k) bs e"
    using Cons.prems(1) b by auto
  note sz = blocks_at_sizes [OF bs] and e = blocks_at_end [OF bs]
  have e_ge: "prev + n + k \<le> e" using e extent_nonneg [OF sz] by simp
  have "prev + n \<le> last_addr (prev + n) (b # bs)"
    by (rule last_addr_ge) (use sz h2 b in \<open>auto simp: sizes_ok_def\<close>)
  then have run: "mm_heap_last s \<noteq> 0 \<and> prev + n \<le> mm_heap_last s"
    using Cons.prems(2,3) h1(2) b by (auto simp: region_ok_def)
  note rd = header_read [OF h1(1,3)] header_read [OF h2(1,3)]
  show ?case
  proof (cases "\<not> al \<and> \<not> bl")
    case True
    define s1 where "s1 = (if prev + n = mm_heap_last s then s\<lparr>mm_heap_last := prev\<rparr> else s)"
    have s1: "mem s1 = mem s" "same_but {} s s1" by (auto simp: s1_def same_but_def)
    have "n + k < 2 ^ 63" using Cons.prems(3) e_ge by (auto simp: region_ok_def)
    then obtain s2 where s2: "set_header prev (n + k) False s1 = Some s2"
      "load (mem s2) prev = Some (make_header (n + k) False)" "same_but {prev..<prev + 8} s1 s2"
      "mm_heap_last s2 = mm_heap_last s1"
      using set_header_at [of s1 prev e prev "n + k" False] region_ok_same [OF Cons.prems(3) s1(2)] h1 h2 e_ge by auto
    have same: "same_but {prev..<prev + 8} s s2" using same_but_trans [OF s1(2) s2(3)] by auto
    have "blocks_at (mem s2) prev ((n + k, False) # bs) e"
      using s2(2) h1 h2 blocks_at_same [OF bs same] by (auto simp: add.assoc)
    moreover have "mm_heap_last s2 = last_addr prev ((n + k, False) # bs)"
    proof (cases bs)
      case Nil
      then show ?thesis using s2(4) s1_def Cons.prems(2) b by simp
    next
      case (Cons c cs)
      have "prev + n < last_addr (prev + n + k) bs"
        using last_addr_ge [OF sz, of "prev + n + k"] h2(2) by linarith
      then show ?thesis
        using s2(4) s1_def Cons.prems Cons \<open>mm_heap_last s = last_addr prev ((n, al) # b # bs)\<close> b by (simp add: add.assoc)
    qed
    moreover have "region_ok s2 prev e" using region_ok_same [OF Cons.prems(3) same] by simp
    ultimately obtain t where t: "coalesce_loop prev (prev + (n + k)) s2 = Some t"
      "blocks_at (mem t) prev (merge ((n + k, False) # bs)) e"
      "mm_heap_last t = last_addr prev (merge ((n + k, False) # bs))"
      "same_but (free_cells prev ((n + k, False) # bs)) s2 t"
      using Cons.IH by blast
    have "coalesce_loop prev (prev + n) s = Some t"
      using run rd s2(1) t(1) True by (subst coalesce_loop.simps) (simp add: s1_def [symmetric])
    moreover have "same_but (free_cells prev ((n, al) # b # bs)) s t"
      by (rule same_but_trans [OF same t(4)]) (use True b h1 h2 in \<open>auto simp: add.assoc\<close>)
    ultimately show ?thesis using t True b by auto
  next
    case False
    have "blocks_at (mem s) (prev + n) ((k, bl) # bs) e" using Cons.prems(1) b by simp
    moreover have "mm_heap_last s = last_addr (prev + n) ((k, bl) # bs)" using Cons.prems(2) b by simp
    moreover have "region_ok s (prev + n) e" using Cons.prems(3) h1(2) by (auto simp: region_ok_def)
    ultimately obtain t where t: "coalesce_loop (prev + n) (prev + n + k) s = Some t"
      "blocks_at (mem t) (prev + n) (merge ((k, bl) # bs)) e"
      "mm_heap_last t = last_addr (prev + n) (merge ((k, bl) # bs))"
      "same_but (free_cells (prev + n) ((k, bl) # bs)) s t"
      using Cons.IH by blast
    have "coalesce_loop prev (prev + n) s = Some t"
      using run rd t(1) False by (subst coalesce_loop.simps) (cases al; simp)
    moreover have "load (mem t) prev = Some (make_header n al)"
    proof -
      have "sizes_ok ((k, bl) # bs)" using sz h2 by (auto simp: sizes_ok_def)
      then have "x \<notin> free_cells (prev + n) ((k, bl) # bs)" if "x < prev + 8" for x
        using free_cells_bounds [of "(k, bl) # bs" x "prev + n"] that h1(2) by linarith
      then show ?thesis using same_but_load [OF t(4), of prev] h1(1) by simp
    qed
    moreover have "same_but (free_cells prev ((n, al) # b # bs)) s t"
      by (rule same_but_mono [OF t(4)]) (use b in auto)
    moreover have "last_addr prev ((n, al) # merge ((k, bl) # bs)) = last_addr (prev + n) (merge ((k, bl) # bs))"
      by (rule last_addr_cons) simp
    ultimately show ?thesis using t False b h1 by auto
  qed
qed

section \<open>Well-formed heaps\<close>

definition heap_at :: "mm \<Rightarrow> blocks \<Rightarrow> bool" where
  "heap_at s bs \<longleftrightarrow> bs \<noteq> [] \<and> mm_heap_first s = heap (mem s) + 8 \<and> 16 dvd heap (mem s)
     \<and> region_ok s (mm_heap_first s) (mem_brk (mem s))
     \<and> blocks_at (mem s) (mm_heap_first s) bs (mem_brk (mem s))
     \<and> mm_heap_last s = last_addr (mm_heap_first s) bs"

lemma heap_atD:
  assumes "heap_at s bs"
  shows "bs \<noteq> []" "mm_heap_first s = heap (mem s) + 8" "16 dvd heap (mem s)"
    "region_ok s (mm_heap_first s) (mem_brk (mem s))" "blocks_at (mem s) (mm_heap_first s) bs (mem_brk (mem s))"
    "mm_heap_last s = last_addr (mm_heap_first s) bs" "sizes_ok bs" "mem_brk (mem s) = mm_heap_first s + extent bs"
  using assms blocks_at_sizes blocks_at_end by (auto simp: heap_at_def)

lemma heap_at_same:
  assumes "heap_at s bs" and "same_but F s t" and "bs' \<noteq> []"
    and "blocks_at (mem t) (mm_heap_first s) bs' (mem_brk (mem s))" and "mm_heap_last t = last_addr (mm_heap_first s) bs'"
  shows "heap_at t bs'"
  using assms region_ok_same [OF heap_atD(4) [OF assms(1)] assms(2) order_refl]
  by (auto simp: heap_at_def same_but_def)

lemma coalesce_blocks_correct:
  assumes "heap_at s bs"
  shows "\<exists>t. coalesce_blocks s = Some t \<and> heap_at t (merge bs) \<and> same_but (free_cells (mm_heap_first s) bs) s t"
proof -
  note h = heap_atD [OF assms]
  obtain n al r where bs: "bs = (n, al) # r" using h(1) by (metis list.exhaust prod.exhaust)
  have "get_size (mm_heap_first s) s = Some n" using header_read(1) h(5) bs by simp
  moreover obtain t where t: "coalesce_loop (mm_heap_first s) (mm_heap_first s + n) s = Some t"
    "blocks_at (mem t) (mm_heap_first s) (merge bs) (mem_brk (mem s))"
    "mm_heap_last t = last_addr (mm_heap_first s) (merge bs)" "same_but (free_cells (mm_heap_first s) bs) s t"
    using coalesce_loop_correct [of s "mm_heap_first s" n al r] h bs by auto
  moreover have "heap_at t (merge bs)" by (rule heap_at_same [OF assms t(4) _ t(2,3)]) (use h in simp)
  ultimately show ?thesis by (simp add: coalesce_blocks_def)
qed

fun first_fit :: "int \<Rightarrow> int \<Rightarrow> blocks \<Rightarrow> int" where
  "first_fit sz a [] = 0"
| "first_fit sz a ((n, al) # bs) = (if \<not> al \<and> sz \<le> n then a else first_fit sz (a + n) bs)"

lemma fit_loop_correct:
  assumes "blocks_at (mem s) a bs e" and "bs \<noteq> [] \<Longrightarrow> mm_heap_last s = last_addr a bs"
    and "mm_heap_last s < e" and "0 < a"
  shows "fit_loop sz a s = Some (first_fit sz a bs)"
  using assms
proof (induction bs arbitrary: a)
  case Nil
  then show ?case by (subst fit_loop.simps) simp
next
  case (Cons b bs)
  obtain n al where b: "b = (n, al)" by (cases b)
  have h: "load (mem s) a = Some (make_header n al)" "16 \<le> n" "16 dvd n" and bs: "blocks_at (mem s) (a + n) bs e"
    using Cons.prems(1) b by auto
  have "a \<le> mm_heap_last s"
    using Cons.prems(2) last_addr_ge [OF blocks_at_sizes [OF Cons.prems(1)]] by simp
  moreover have "fit_loop sz (a + n) s = Some (first_fit sz (a + n) bs)"
    by (rule Cons.IH [OF bs]) (use Cons.prems b h last_addr_cons in auto)
  ultimately show ?case
    using header_read [OF h(1,3)] Cons.prems(4) b by (subst fit_loop.simps) simp
qed

lemma find_fit_correct:
  assumes "heap_at s bs"
  shows "find_fit sz s = Some (first_fit sz (mm_heap_first s) bs)"
  unfolding find_fit_def
  by (rule fit_loop_correct [OF heap_atD(5) [OF assms]])
    (use heap_atD [OF assms] last_addr_end [of bs "mm_heap_first s"] in \<open>auto simp: region_ok_def\<close>)

lemma first_fit_split:
  "first_fit sz a bs \<noteq> 0 \<Longrightarrow> \<exists>pre n post. bs = pre @ (n, False) # post \<and> first_fit sz a bs = a + extent pre \<and> sz \<le> n"
proof (induction bs arbitrary: a)
  case (Cons b bs)
  obtain n al where b: "b = (n, al)" by (cases b)
  show ?case
  proof (cases "\<not> al \<and> sz \<le> n")
    case True
    then show ?thesis using b by (intro exI [of _ "[]"]) auto
  next
    case False
    then have "first_fit sz (a + n) bs \<noteq> 0" using Cons.prems b by (auto split: if_splits)
    from Cons.IH [OF this] obtain pre k post where
      "bs = pre @ (k, False) # post" "first_fit sz (a + n) bs = a + n + extent pre" "sz \<le> k" by blast
    then have "b # bs = ((n, al) # pre) @ (k, False) # post \<and> first_fit sz a (b # bs) = a + extent ((n, al) # pre) \<and> sz \<le> k"
      using False b by auto
    then show ?thesis by blast
  qed
qed simp

lemma first_fit_none: "first_fit sz a bs = 0 \<Longrightarrow> 0 < a \<Longrightarrow> sizes_ok bs \<Longrightarrow> (n, False) \<in> set bs \<Longrightarrow> n < sz"
proof (induction bs arbitrary: a)
  case (Cons b bs)
  obtain k al where b: "b = (k, al)" by (cases b)
  have "sizes_ok bs" "0 < a + k" using Cons.prems b by (auto simp: sizes_ok_def)
  then show ?case using Cons b by (auto split: if_splits)
qed simp

text \<open>Replacing one block of the heap by others of the same extent size.\<close>

lemma heap_replace:
  assumes s: "heap_at s (pre @ (n, al) # post)" and p: "p = mm_heap_first s + extent pre"
    and t: "same_but {p..<p + n} s t" and new: "blocks_at (mem t) p mid (p + n)" "mid \<noteq> []"
    and last: "mm_heap_last t = (if post = [] then last_addr p mid else mm_heap_last s)"
  shows "heap_at t (pre @ mid @ post)"
proof (rule heap_at_same [OF s t])
  note h = heap_atD [OF s]
  let ?a = "mm_heap_first s" and ?e = "mem_brk (mem s)"
  have pre: "blocks_at (mem s) ?a pre p" and post: "blocks_at (mem s) (p + n) post ?e" and n: "16 \<le> n"
    using h(5) p by (auto simp: blocks_at_append)
  have tot: "extent mid = n" using blocks_at_end [OF new(1)] by simp
  have "blocks_at (mem t) ?a pre p" by (rule blocks_at_same [OF pre t]) auto
  moreover have "blocks_at (mem t) (p + n) post ?e" by (rule blocks_at_same [OF post t]) auto
  ultimately show "blocks_at (mem t) ?a (pre @ mid @ post) ?e"
    using new(1) tot p by (simp add: blocks_at_append)
  show "mm_heap_last t = last_addr ?a (pre @ mid @ post)"
  proof (cases "post = []")
    case True
    then show ?thesis using last new(2) p by (simp add: last_addr_append)
  next
    case False
    have "last_addr ?a (pre @ mid @ post) = last_addr (p + n) post"
      using last_addr_append [of post ?a "pre @ mid"] False tot p by (simp add: add.assoc)
    also have "\<dots> = mm_heap_last s"
      using h(6) last_addr_append [of post ?a "pre @ [(n, al)]"] False p by (simp add: add.assoc)
    finally show ?thesis using last False by simp
  qed
qed (use new in simp)

section \<open>Allocation and release\<close>

text \<open>The size of a block for a request that does not wrap around.\<close>

lemma round_up_request:
  assumes "0 \<le> sz" and "sz < 2 ^ 62"
  shows "16 dvd round_up ((8 + sz) mod 2 ^ 64) ALIGNMENT" and "8 + sz \<le> round_up ((8 + sz) mod 2 ^ 64) ALIGNMENT"
    and "16 \<le> round_up ((8 + sz) mod 2 ^ 64) ALIGNMENT" and "round_up ((8 + sz) mod 2 ^ 64) ALIGNMENT < 2 ^ 63"
    and "round_up ((8 + sz) mod 2 ^ 64) ALIGNMENT \<le> sz + 23"
proof -
  have "(8 + sz) mod 2 ^ 64 = 8 + sz" "(8 + sz + 15) mod 2 ^ 64 = 8 + sz + 15" using assms by auto
  then have r: "round_up ((8 + sz) mod 2 ^ 64) ALIGNMENT = (23 + sz) div 16 * 16"
    unfolding round_up_def ALIGNMENT_def by simp
  have d: "(23 + sz) div 16 * 16 + (23 + sz) mod 16 = 23 + sz" "0 \<le> (23 + sz) mod 16" "(23 + sz) mod 16 < 16"
    by (simp_all add: div_mult_mod_eq)
  show "16 dvd round_up ((8 + sz) mod 2 ^ 64) ALIGNMENT" unfolding r by simp
  show "8 + sz \<le> round_up ((8 + sz) mod 2 ^ 64) ALIGNMENT" "16 \<le> round_up ((8 + sz) mod 2 ^ 64) ALIGNMENT"
    unfolding r using d assms(1) by presburger+
  show le: "round_up ((8 + sz) mod 2 ^ 64) ALIGNMENT \<le> sz + 23" unfolding r using d by linarith
  show "round_up ((8 + sz) mod 2 ^ 64) ALIGNMENT < 2 ^ 63" using le assms(2) by simp
qed

text \<open>Taking a free block that is large enough, whole or split.\<close>

lemma take_whole:
  assumes s: "heap_at s (pre @ (n, False) # post)" and p: "p = mm_heap_first s + extent pre"
  shows "\<exists>t. set_header p n True s = Some t \<and> heap_at t (pre @ (n, True) # post) \<and> same_but {p..<p + n} s t"
proof -
  note h = heap_atD [OF s]
  have n: "16 \<le> n" "16 dvd n" and end_le: "p + n \<le> mem_brk (mem s)"
    using h(5,7,8) p extent_nonneg [of post] by (auto simp: blocks_at_append sizes_ok_def)
  have p_ge: "mm_heap_first s \<le> p" using p h(7) extent_nonneg [of pre] by (auto simp: sizes_ok_def)
  have "n < 2 ^ 63" using h(4) end_le p_ge by (auto simp: region_ok_def)
  then obtain t where t: "set_header p n True s = Some t" "load (mem t) p = Some (make_header n True)"
    "same_but {p..<p + 8} s t" "mm_heap_last t = mm_heap_last s"
    using set_header_at [OF h(4) p_ge _ n(1,2)] end_le n by force
  have same: "same_but {p..<p + n} s t" by (rule same_but_mono [OF t(3)]) (use n in auto)
  have "last_addr p [(n, True)] = mm_heap_last s" if "post = []"
    using that h(6) p by (simp add: last_addr_append)
  then have "heap_at t (pre @ [(n, True)] @ post)"
    using heap_replace [OF s p same, of "[(n, True)]"] n t by auto
  then show ?thesis using t(1) same by auto
qed

lemma take_part:
  assumes s: "heap_at s (pre @ (n, False) # post)" and p: "p = mm_heap_first s + extent pre"
    and k: "16 \<le> k" "16 dvd k" "k < n"
  shows "\<exists>t. split_block p k n s = Some (payload p, t) \<and> heap_at t (pre @ (k, True) # (n - k, False) # post)
     \<and> same_but {p..<p + n} s t"
proof -
  note h = heap_atD [OF s]
  have n: "16 \<le> n" "16 dvd n" and end_le: "p + n \<le> mem_brk (mem s)"
    using h(5,7,8) p extent_nonneg [of post] by (auto simp: blocks_at_append sizes_ok_def)
  have p_ge: "mm_heap_first s \<le> p" using p h(7) extent_nonneg [of pre] by (auto simp: sizes_ok_def)
  have d: "16 dvd n - k" using n(2) k(2) by (rule dvd_diff)
  then have r: "16 \<le> n - k" using k(3) by (simp add: zdvd_imp_le)
  have lim: "n < 2 ^ 63" using h(4) end_le p_ge by (auto simp: region_ok_def)
  obtain s1 where s1: "set_header p k True s = Some s1" "load (mem s1) p = Some (make_header k True)"
    "same_but {p..<p + 8} s s1" "mm_heap_last s1 = mm_heap_last s"
    using set_header_at [OF h(4) p_ge _ k(1,2), of True] end_le k lim by force
  have reg: "region_ok s1 (mm_heap_first s) (mem_brk (mem s))" using region_ok_same [OF h(4) s1(3)] by simp
  obtain s2 where s2: "set_header (p + k) (n - k) False s1 = Some s2" "load (mem s2) (p + k) = Some (make_header (n - k) False)"
    "same_but {p + k..<p + k + 8} s1 s2" "mm_heap_last s2 = mm_heap_last s1"
    using set_header_at [OF reg _ _ r d, of "p + k" False] end_le k r lim p_ge by force
  define t where "t = (if p = mm_heap_last s2 then s2\<lparr>mm_heap_last := p + k\<rparr> else s2)"
  have mem_t: "mem t = mem s2" and same2: "same_but {p..<p + n} s t"
    using same_but_trans [OF s1(3) s2(3), of "{p..<p + n}"] k r by (auto simp: t_def same_but_def)
  have "load (mem s2) p = load (mem s1) p" by (rule same_but_load [OF s2(3)]) (use k in auto)
  then have blocks: "blocks_at (mem t) p [(k, True), (n - k, False)] (p + n)"
    using s1(2) s2(2) k d r by (simp add: mem_t)
  have last: "mm_heap_last t = (if post = [] then last_addr p [(k, True), (n - k, False)] else mm_heap_last s)"
  proof (cases "post = []")
    case True
    then have "mm_heap_last s = p" using h(6) p by (simp add: last_addr_append)
    then show ?thesis using True s1(4) s2(4) by (simp add: t_def)
  next
    case False
    then have "mm_heap_last s = last_addr (p + n) post"
      using h(6) p last_addr_append [of post _ "pre @ [(n, False)]"] by (simp add: add.assoc)
    moreover have "sizes_ok post" using h(7) by (auto simp: sizes_ok_def)
    ultimately have "p < mm_heap_last s" using last_addr_ge [of post "p + n"] n by simp
    then show ?thesis using False s1(4) s2(4) by (simp add: t_def)
  qed
  have "heap_at t (pre @ [(k, True), (n - k, False)] @ post)"
    by (rule heap_replace [OF s p same2 blocks _ last]) simp
  moreover have "split_block p k n s = Some (payload p, t)"
    using s1(1) s2(1) by (simp add: split_block_def t_def)
  ultimately show ?thesis using same2 by auto
qed

text \<open>A new block at the end of the heap.\<close>

lemma extend_heap:
  assumes s: "heap_at s bs" and k: "16 \<le> k" "16 dvd k" "k < 2 ^ 63"
    and room: "mem_brk (mem s) + k \<le> heap (mem s) + MAX_HEAP"
  shows "\<exists>t. set_header (mem_brk (mem s)) k True
        (s\<lparr>mem := (mem s)\<lparr>mem_brk := mem_brk (mem s) + k\<rparr>, mm_heap_last := mem_brk (mem s)\<rparr>) = Some t
     \<and> heap_at t (bs @ [(k, True)]) \<and> (\<forall>x. x < mem_brk (mem s) \<longrightarrow> cells (mem t) x = cells (mem s) x)
     \<and> mm_heap_first t = mm_heap_first s"
proof -
  note h = heap_atD [OF s]
  let ?e = "mem_brk (mem s)" and ?a = "mm_heap_first s"
  let ?s = "s\<lparr>mem := (mem s)\<lparr>mem_brk := ?e + k\<rparr>, mm_heap_last := ?e\<rparr>"
  have a_le: "?a \<le> ?e" using h(7,8) extent_nonneg [of bs] by simp
  have reg: "region_ok ?s ?a (?e + k)" using h(4) room by (simp add: region_ok_def)
  obtain t where t: "set_header ?e k True ?s = Some t" "load (mem t) ?e = Some (make_header k True)"
    "same_but {?e..<?e + 8} ?s t" "mm_heap_last t = ?e"
    using set_header_at [OF reg a_le _ k] k by force
  have old: "blocks_at (mem ?s) ?a bs ?e"
    by (rule blocks_at_cong [OF h(5)]) (simp add: load_def mapped_def)
  have "blocks_at (mem t) ?a bs ?e" by (rule blocks_at_same [OF old t(3)]) auto
  then have "blocks_at (mem t) ?a (bs @ [(k, True)]) (?e + k)"
    using t(2) k h(8) by (simp add: blocks_at_append)
  moreover have "last_addr ?a (bs @ [(k, True)]) = ?e" using h(8) by (simp add: last_addr_append)
  ultimately have "heap_at t (bs @ [(k, True)])"
    using t(3,4) h(2,3) region_ok_same [OF reg t(3) order_refl] by (simp add: heap_at_def same_but_def)
  then show ?thesis using t(1,3) by (auto simp: same_but_def)
qed

text \<open>
  An allocation on a tiled heap: it returns null on a heap with the same allocated blocks, when no
  free block is large enough and the break cannot grow, or the payload of one new allocated
  block. No cell of an allocated block changes.
\<close>

lemma insert_alloc_pre: "allocs a (pre @ (n, True) # post) = insert (a + extent pre, n) (allocs a (pre @ (n, False) # post))"
  by (simp add: allocs_append)

lemma mm_malloc_fit:
  assumes "k = round_up ((8 + sz) mod 2 ^ 64) ALIGNMENT" and "coalesce_blocks s = Some s1"
    and "find_fit k s1 = Some p" and "p \<noteq> 0" and "get_size p s1 = Some n"
  shows "mm_malloc sz s = (if k < n then split_block p k n s1 else map_option (Pair (payload p)) (set_header p n True s1))"
  unfolding mm_malloc_def Let_def assms(1) [symmetric] assms(2) using assms(3-5)
  by (cases "set_header p n True s1") auto

lemma mm_malloc_nofit:
  assumes "k = round_up ((8 + sz) mod 2 ^ 64) ALIGNMENT" and "coalesce_blocks s = Some s1"
    and "find_fit k s1 = Some 0" and "mm_heap_first s1 \<noteq> 0" and "mem_sbrk (ssize k) (mem s1) = (b, m)"
  shows "mm_malloc sz s = (if b = -1 then Some (0, s1)
     else map_option (Pair (payload b)) (set_header b k True (s1\<lparr>mem := m, mm_heap_last := b\<rparr>)))"
proof -
  have "s1\<lparr>mem := m, mm_heap_first := mm_heap_first s1, mm_heap_last := b\<rparr> = s1\<lparr>mem := m, mm_heap_last := b\<rparr>"
    by (cases s1) simp
  then show ?thesis
    unfolding mm_malloc_def Let_def assms(1) [symmetric] assms(2) using assms(3-5)
    by (cases "set_header b k True (s1\<lparr>mem := m, mm_heap_last := b\<rparr>)") auto
qed

definition alloc_spec :: "int \<Rightarrow> mm \<Rightarrow> blocks \<Rightarrow> int \<Rightarrow> mm \<Rightarrow> bool" where
  "alloc_spec sz s bs p t \<longleftrightarrow> (\<exists>bs'. heap_at t bs' \<and> mm_heap_first t = mm_heap_first s
    \<and> mem_brk (mem s) \<le> mem_brk (mem t) \<and> mem_brk (mem t) \<le> mem_brk (mem s) + sz + 23
    \<and> (\<forall>x. x < mem_brk (mem s) \<longrightarrow> x \<notin> free_cells (mm_heap_first s) bs \<longrightarrow> cells (mem t) x = cells (mem s) x)
    \<and> (p = 0 \<and> allocs (mm_heap_first s) bs' = allocs (mm_heap_first s) bs
         \<and> (\<forall>n. (n, False) \<in> set bs' \<longrightarrow> n < sz + 23) \<and> heap (mem s) + MAX_HEAP < mem_brk (mem s) + sz + 23
       \<or> (\<exists>n. mm_heap_first s + 8 \<le> p \<and> 8 + sz \<le> n
            \<and> allocs (mm_heap_first s) bs' = insert (p - 8, n) (allocs (mm_heap_first s) bs)
            \<and> (\<forall>k. (p - 8, k) \<notin> allocs (mm_heap_first s) bs))))"

lemma take_block:
  assumes s: "heap_at s (pre @ (n, False) # post)" and p: "p = mm_heap_first s + extent pre"
    and k: "16 \<le> k" "16 dvd k" "k \<le> n"
  shows "\<exists>t bs' l. (if k < n then split_block p k n s else map_option (Pair (payload p)) (set_header p n True s)) = Some (payload p, t)
    \<and> heap_at t bs' \<and> same_but {p..<p + n} s t \<and> k \<le> l
    \<and> allocs (mm_heap_first s) bs' = insert (p, l) (allocs (mm_heap_first s) (pre @ (n, False) # post))"
proof (cases "k < n")
  case True
  obtain t where t: "split_block p k n s = Some (payload p, t)" "heap_at t (pre @ (k, True) # (n - k, False) # post)"
    "same_but {p..<p + n} s t" using take_part [OF s p k(1,2) True] by blast
  have "allocs (mm_heap_first s) (pre @ (k, True) # (n - k, False) # post)
      = insert (p, k) (allocs (mm_heap_first s) (pre @ (n, False) # post))"
    by (simp add: allocs_append p add.assoc)
  then show ?thesis using t True by auto
next
  case False
  obtain t where t: "set_header p n True s = Some t" "heap_at t (pre @ (n, True) # post)" "same_but {p..<p + n} s t"
    using take_whole [OF s p] by blast
  have "allocs (mm_heap_first s) (pre @ (n, True) # post) = insert (p, n) (allocs (mm_heap_first s) (pre @ (n, False) # post))"
    unfolding p by (rule insert_alloc_pre)
  then show ?thesis using t False k(3) by auto
qed

lemma mm_malloc_reuse:
  assumes s: "heap_at s bs" and sz: "0 \<le> sz" "sz < 2 ^ 62" and k: "k = round_up ((8 + sz) mod 2 ^ 64) ALIGNMENT"
    and c: "coalesce_blocks s = Some s1" and s1: "heap_at s1 (merge bs)"
    and same: "same_but (free_cells (mm_heap_first s) bs) s s1" and fit: "first_fit k (mm_heap_first s) (merge bs) \<noteq> 0"
  shows "\<exists>p t. mm_malloc sz s = Some (p, t) \<and> alloc_spec sz s bs p t"
proof -
  let ?a = "mm_heap_first s"
  note kb = round_up_request [OF sz, folded k] and ok = heap_atD(7) [OF s]
  have a1: "mm_heap_first s1 = ?a" using same by (simp add: same_but_def)
  obtain pre n post where m: "merge bs = pre @ (n, False) # post"
    and p: "first_fit k ?a (merge bs) = ?a + extent pre" and n: "k \<le> n" using first_fit_split [OF fit] by blast
  define p0 where "p0 = ?a + extent pre"
  have s1': "heap_at s1 (pre @ (n, False) # post)" and p1: "p0 = mm_heap_first s1 + extent pre"
    using s1 m a1 by (simp_all add: p0_def)
  have sok: "sizes_ok pre" "16 \<le> n" using heap_atD(7) [OF s1] m by (auto simp: sizes_ok_def)
  have "blocks_at (mem s1) p0 ((n, False) # post) (mem_brk (mem s1))"
    using heap_atD(5) [OF s1] m a1 by (simp add: blocks_at_append p0_def)
  then have size: "get_size p0 s1 = Some n" using header_read(1) by simp
  have "find_fit k s1 = Some (first_fit k ?a (merge bs))" using find_fit_correct [OF s1] a1 by simp
  note mm = mm_malloc_fit [OF k c this fit, unfolded p, folded p0_def, OF size]
  obtain t bs' l where r: "mm_malloc sz s = Some (payload p0, t)" "heap_at t bs'" "same_but {p0..<p0 + n} s1 t" "k \<le> l"
    "allocs ?a bs' = insert (p0, l) (allocs ?a bs)"
    using take_block [OF s1' p1 kb(3,1) n] mm a1 merge_allocs [of ?a bs] m by auto
  have sub: "{p0..<p0 + n} \<subseteq> free_cells ?a bs"
    using merge_free [OF ok, of ?a] m by (auto simp: free_cells_append p0_def)
  then have "same_but (free_cells ?a bs) s t" using same_but_trans [OF same r(3)] by blast
  moreover have "(p0, j) \<notin> allocs ?a bs" for j
  proof
    assume al: "(p0, j) \<in> allocs ?a bs"
    then have "p0 \<notin> free_cells ?a bs" using allocs_not_free [OF ok al] allocs_bounds [OF ok al] by simp
    then show False using sub sok(2) by force
  qed
  moreover have "?a \<le> p0" using extent_nonneg [OF sok(1)] by (simp add: p0_def)
  moreover have "8 + sz \<le> l" using r(4) kb(2) by linarith
  ultimately show ?thesis
    using r(1,2,5) sz(1) by (auto simp: alloc_spec_def payload_def same_but_def)
qed

lemma mm_malloc_extend:
  assumes s: "heap_at s bs" and sz: "0 \<le> sz" "sz < 2 ^ 62" and k: "k = round_up ((8 + sz) mod 2 ^ 64) ALIGNMENT"
    and c: "coalesce_blocks s = Some s1" and s1: "heap_at s1 (merge bs)"
    and same: "same_but (free_cells (mm_heap_first s) bs) s s1" and nofit: "first_fit k (mm_heap_first s) (merge bs) = 0"
  shows "\<exists>p t. mm_malloc sz s = Some (p, t) \<and> alloc_spec sz s bs p t"
proof -
  let ?a = "mm_heap_first s" and ?e = "mem_brk (mem s)"
  note kb = round_up_request [OF sz, folded k]
  have a1: "mm_heap_first s1 = ?a" and e1: "mem_brk (mem s1) = ?e" "heap (mem s1) = heap (mem s)"
    using same by (auto simp: same_but_def)
  note h1 = heap_atD [OF s1, unfolded a1 e1]
  have a_pos: "0 < ?a" using heap_atD(2,4) [OF s] by (auto simp: region_ok_def)
  have "find_fit k s1 = Some 0" using find_fit_correct [OF s1] a1 nofit by simp
  note mm = mm_malloc_nofit [OF k c this]
  have small: "n < sz + 23" if "(n, False) \<in> set (merge bs)" for n
    using first_fit_none [OF nofit a_pos h1(7) that] kb(5) by simp
  have ss: "ssize k = k" using kb(4) by (simp add: ssize_def)
  show ?thesis
  proof (cases "?e + k > heap (mem s) + MAX_HEAP")
    case full: True
    then have "mm_malloc sz s = Some (0, s1)" using mm a1 a_pos e1 by (simp add: ss mem_sbrk_def)
    moreover have "heap (mem s) + MAX_HEAP < ?e + sz + 23" using full kb(5) by simp
    ultimately show ?thesis using s1 same small a1 sz(1) merge_allocs [of ?a bs] by (auto simp: alloc_spec_def same_but_def)
  next
    case room: False
    obtain t where t: "set_header ?e k True (s1\<lparr>mem := (mem s1)\<lparr>mem_brk := ?e + k\<rparr>, mm_heap_last := ?e\<rparr>) = Some t"
      "heap_at t (merge bs @ [(k, True)])" "\<forall>x. x < ?e \<longrightarrow> cells (mem t) x = cells (mem s1) x" "mm_heap_first t = ?a"
      using extend_heap [OF s1 kb(3,1,4)] room e1 a1 by auto
    have e_ne: "?e \<noteq> -1" and fe: "?a \<le> ?e" using h1(7,8) extent_nonneg [of "merge bs"] a_pos by auto
    have "mem_sbrk (ssize k) (mem s1) = (?e, (mem s1)\<lparr>mem_brk := ?e + k\<rparr>)"
      using room kb(3) e1 by (simp add: ss mem_sbrk_def)
    then have "mm_malloc sz s = Some (payload ?e, t)" using mm a1 a_pos e_ne t(1) by simp
    moreover have "allocs ?a (merge bs @ [(k, True)]) = insert (?e, k) (allocs ?a bs)"
      using h1(8) by (simp add: allocs_append merge_allocs)
    moreover have "(?e, j) \<notin> allocs ?a bs" for j
      using allocs_bounds [OF heap_atD(7) [OF s], of ?e j ?a] heap_atD(8) [OF s] by fastforce
    moreover have "mem_brk (mem t) = ?e + k" using heap_atD(8) [OF t(2)] t(4) h1(8) by simp
    ultimately show ?thesis using t(2-4) kb(2,3,5) same fe by (auto simp: alloc_spec_def payload_def same_but_def)
  qed
qed

lemma mm_malloc_at:
  assumes s: "heap_at s bs" and sz: "0 \<le> sz" "sz < 2 ^ 62"
  shows "\<exists>p t. mm_malloc sz s = Some (p, t) \<and> alloc_spec sz s bs p t"
  using coalesce_blocks_correct [OF s] mm_malloc_reuse [OF s sz refl] mm_malloc_extend [OF s sz refl] by blast

lemma mm_free_at:
  assumes s: "heap_at s bs" and al: "(b, n) \<in> allocs (mm_heap_first s) bs"
  shows "\<exists>t bs'. mm_free (payload b) s = Some t \<and> heap_at t bs' \<and> mm_heap_first t = mm_heap_first s
    \<and> allocs (mm_heap_first s) bs' = allocs (mm_heap_first s) bs - {(b, n)} \<and> same_but {b..<b + 8} s t"
proof -
  note h = heap_atD [OF s]
  let ?a = "mm_heap_first s"
  obtain pre post where bs: "bs = pre @ (n, True) # post" and b: "b = ?a + extent pre" using allocs_split [OF al] by blast
  have n: "16 \<le> n" "16 dvd n" and ok: "sizes_ok pre" "sizes_ok post" using h(7) bs by (auto simp: sizes_ok_def)
  have end_le: "b + n \<le> mem_brk (mem s)" using h(8) b bs extent_nonneg [OF ok(2)] by simp
  have b_ge: "?a \<le> b" using b extent_nonneg [OF ok(1)] by simp
  have "blocks_at (mem s) b ((n, True) # post) (mem_brk (mem s))" using h(5) bs b by (simp add: blocks_at_append)
  then have size: "get_size b s = Some n" using header_read(1) by simp
  have "n < 2 ^ 63" using h(4) end_le b_ge by (auto simp: region_ok_def)
  then obtain t where t: "set_header b n False s = Some t" "load (mem t) b = Some (make_header n False)"
    "same_but {b..<b + 8} s t" "mm_heap_last t = mm_heap_last s"
    using set_header_at [OF h(4) b_ge _ n, of False] end_le n by force
  have same: "same_but {b..<b + n} s t" by (rule same_but_mono [OF t(3)]) (use n in auto)
  have "last_addr b [(n, False)] = mm_heap_last s" if "post = []" using that h(6) b bs by (simp add: last_addr_append)
  then have "heap_at t (pre @ [(n, False)] @ post)"
    using heap_replace [OF s [unfolded bs] b same, of "[(n, False)]"] n t by auto
  moreover have "mm_free (payload b) s = Some t"
    using size t(1) b_ge h(2,4) by (simp add: mm_free_def Let_def payload_def block_from_payload_def region_ok_def)
  moreover have "allocs ?a (pre @ [(n, False)] @ post) = allocs ?a bs - {(b, n)}"
  proof -
    have "(b, n) \<notin> allocs ?a pre" using allocs_bounds [OF ok(1), of b n ?a] b n by auto
    moreover have "(b, n) \<notin> allocs (b + n) post" using allocs_bounds [OF ok(2), of b n "b + n"] n by auto
    ultimately show ?thesis using b by (auto simp: bs allocs_append add.assoc)
  qed
  ultimately show ?thesis using t(3) by (auto simp: same_but_def)
qed

section \<open>The allocator interface\<close>

text \<open>The payloads of the allocated blocks.\<close>

definition payloads :: "(int \<times> int) set \<Rightarrow> (int \<times> int) set" where
  "payloads A = (\<lambda>(b, n). (payload b, n - 8)) ` A"

definition mm_live :: "mm \<Rightarrow> (int \<times> int) set \<Rightarrow> bool" where
  "mm_live s L \<longleftrightarrow> (\<exists>bs. heap_at s bs \<and> L = payloads (allocs (mm_heap_first s) bs))"

lemma payloads_insert: "payloads (insert (b, n) A) = insert (payload b, n - 8) (payloads A)"
  by (simp add: payloads_def)

lemma payloads_remove: "payloads (A - {(b, n)}) = payloads A - {(payload b, n - 8)}"
  by (auto simp: payloads_def payload_def image_iff)

lemma in_payloads: "(p, k) \<in> payloads A \<longleftrightarrow> (p - 8, k + 8) \<in> A"
  by (force simp: payloads_def payload_def image_iff)

lemma live_aligned:
  assumes "heap_at s bs" and "(b, n) \<in> allocs (mm_heap_first s) bs"
  shows "16 dvd payload b" and "mm_heap_first s \<le> b" and "b + n \<le> mem_brk (mem s)" and "16 \<le> n" and "0 < b"
proof -
  note h = heap_atD [OF assms(1)] and al = allocs_bounds [OF heap_atD(7) [OF assms(1)] assms(2)]
  have "payload b = (b - mm_heap_first s) + (heap (mem s) + 16)" using h(2) by (simp add: payload_def)
  moreover have "16 dvd heap (mem s) + 16" using h(3) by simp
  ultimately show "16 dvd payload b" using al by (metis dvd_add)
  show "mm_heap_first s \<le> b" "b + n \<le> mem_brk (mem s)" "16 \<le> n" using al h(8) by auto
  then show "0 < b" using h(2,4) by (auto simp: region_ok_def)
qed

lemma mm_malloc_live:
  assumes "mm_live s L" and "0 \<le> sz" and "sz < 2 ^ 62"
  shows "\<exists>p t. mm_malloc sz s = Some (p, t) \<and> kept L (mem s) (mem t)
    \<and> (p = 0 \<and> room (mem s) < sz + 32 \<and> mm_live t L
       \<or> p \<noteq> 0 \<and> p \<notin> fst ` L \<and> room (mem s) \<le> room (mem t) + sz + 32 \<and> (\<exists>n \<ge> sz. mm_live t (insert (p, n) L)))"
proof -
  obtain bs where s: "heap_at s bs" and L: "L = payloads (allocs (mm_heap_first s) bs)" using assms(1) by (auto simp: mm_live_def)
  let ?a = "mm_heap_first s"
  obtain p t bs' where m: "mm_malloc sz s = Some (p, t)" and t: "heap_at t bs'" and a: "mm_heap_first t = ?a"
    and brk: "mem_brk (mem s) \<le> mem_brk (mem t)" "mem_brk (mem t) \<le> mem_brk (mem s) + sz + 23"
    and keep: "\<forall>x. x < mem_brk (mem s) \<longrightarrow> x \<notin> free_cells ?a bs \<longrightarrow> cells (mem t) x = cells (mem s) x"
    and res: "p = 0 \<and> allocs ?a bs' = allocs ?a bs \<and> heap (mem s) + MAX_HEAP < mem_brk (mem s) + sz + 23
       \<or> (\<exists>n. ?a + 8 \<le> p \<and> 8 + sz \<le> n \<and> allocs ?a bs' = insert (p - 8, n) (allocs ?a bs) \<and> (\<forall>k. (p - 8, k) \<notin> allocs ?a bs))"
    using mm_malloc_at [OF s assms(2,3)] unfolding alloc_spec_def by blast
  have "cells (mem t) x = cells (mem s) x" if "(q, k) \<in> L" "q \<le> x" "x < q + k" for q k x
  proof -
    have al: "(q - 8, k + 8) \<in> allocs ?a bs" using that(1) L in_payloads by simp
    have "x \<notin> free_cells ?a bs" using allocs_not_free [OF heap_atD(7) [OF s] al] that by simp
    moreover have "x < mem_brk (mem s)" using live_aligned(3) [OF s al] that by simp
    ultimately show ?thesis using keep by simp
  qed
  moreover have h: "heap (mem t) = heap (mem s)" using heap_atD(2) [OF s] heap_atD(2) [OF t] a by simp
  ultimately have "kept L (mem s) (mem t)" using brk(1) by (simp add: kept_def)
  moreover have "p = 0 \<and> room (mem s) < sz + 32 \<and> mm_live t L
     \<or> p \<noteq> 0 \<and> p \<notin> fst ` L \<and> room (mem s) \<le> room (mem t) + sz + 32 \<and> (\<exists>n \<ge> sz. mm_live t (insert (p, n) L))"
    using res
  proof (elim disjE exE conjE)
    fix n assume p: "?a + 8 \<le> p" "8 + sz \<le> n" "allocs ?a bs' = insert (p - 8, n) (allocs ?a bs)"
      and new: "\<forall>k. (p - 8, k) \<notin> allocs ?a bs"
    have "mm_live t (insert (p, n - 8) L)"
      unfolding mm_live_def using t p(3) L payloads_insert [of "p - 8" n] a by (auto simp: payload_def)
    moreover have "p \<notin> fst ` L" using new L in_payloads by force
    moreover have "0 < ?a" using heap_atD(2,4) [OF s] by (auto simp: region_ok_def)
    ultimately show ?thesis using p(1,2) brk(2) h by (auto simp: room_def)
  next
    assume "p = 0" "allocs ?a bs' = allocs ?a bs" "heap (mem s) + MAX_HEAP < mem_brk (mem s) + sz + 23"
    moreover from this have "mm_live t L" unfolding mm_live_def using t a L by metis
    ultimately show ?thesis by (simp add: room_def)
  qed
  ultimately show ?thesis using m by auto
qed

lemma mm_free_live:
  assumes "mm_live s L" and "(p, n) \<in> L"
  shows "\<exists>t. mm_free p s = Some t \<and> mm_live t (L - {(p, n)}) \<and> kept (L - {(p, n)}) (mem s) (mem t)
    \<and> mem_brk (mem t) = mem_brk (mem s)"
proof -
  obtain bs where s: "heap_at s bs" and L: "L = payloads (allocs (mm_heap_first s) bs)" using assms(1) by (auto simp: mm_live_def)
  have al: "(p - 8, n + 8) \<in> allocs (mm_heap_first s) bs" using assms(2) L in_payloads by simp
  obtain t bs' where t: "mm_free p s = Some t" "heap_at t bs'" "mm_heap_first t = mm_heap_first s"
    "allocs (mm_heap_first s) bs' = allocs (mm_heap_first s) bs - {(p - 8, n + 8)}" "same_but {p - 8..<p} s t"
    using mm_free_at [OF s al] by (auto simp: payload_def)
  have "mm_live t (L - {(p, n)})"
    unfolding mm_live_def using t(2-4) L payloads_remove [of _ "p - 8" "n + 8"] by (auto simp: payload_def)
  moreover have "cells (mem t) x = cells (mem s) x" if "(q, k) \<in> L - {(p, n)}" "q \<le> x" "x < q + k" for q k x
  proof -
    have al': "(q - 8, k + 8) \<in> allocs (mm_heap_first s) bs" using that(1) L in_payloads by simp
    have "(p - 8, n + 8) \<noteq> (q - 8, k + 8)" using that(1) by auto
    then have "x \<notin> {p - 8..<p}"
      using allocs_disjoint [OF heap_atD(7) [OF s] al al'] that live_aligned(4) [OF s al] by auto
    then show ?thesis using t(5) by (simp add: same_but_def)
  qed
  ultimately show ?thesis using t(1,5) by (auto simp: kept_def same_but_def)
qed

text \<open>The user writes into a payload.\<close>

lemma mm_write_live:
  assumes "mm_live s L" and "(p, n) \<in> L" and m: "heap m = heap (mem s)" "mem_brk m = mem_brk (mem s)"
    and out: "\<And>x. x < p \<or> p + n \<le> x \<Longrightarrow> cells m x = cells (mem s) x"
  shows "mm_live (s\<lparr>mem := m\<rparr>) L"
proof -
  obtain bs where s: "heap_at s bs" and L: "L = payloads (allocs (mm_heap_first s) bs)" using assms(1) by (auto simp: mm_live_def)
  let ?t = "s\<lparr>mem := m\<rparr>" and ?b = "p - 8" and ?n = "n + 8"
  have al: "(?b, ?n) \<in> allocs (mm_heap_first s) bs" using assms(2) L in_payloads by simp
  obtain pre post where bs: "bs = pre @ (?n, True) # post" and b: "?b = mm_heap_first s + extent pre" using allocs_split [OF al] by blast
  have same: "same_but {p..<p + n} s ?t" using m out by (auto simp: same_but_def)
  have "blocks_at (mem s) ?b ((?n, True) # post) (mem_brk (mem s))" using heap_atD(5) [OF s] bs b by (simp add: blocks_at_append)
  moreover have "load m ?b = load (mem s) ?b" using same_but_load [OF same, of ?b] by force
  ultimately have blk: "blocks_at (mem ?t) ?b [(?n, True)] (?b + ?n)" by simp
  have "last_addr ?b [(?n, True)] = mm_heap_last s" if "post = []" using that heap_atD(6) [OF s] b bs by (simp add: last_addr_append)
  then have "heap_at ?t (pre @ [(?n, True)] @ post)"
    using heap_replace [OF s [unfolded bs] b same_but_mono [OF same] blk] by auto
  then show ?thesis unfolding mm_live_def using L bs by auto
qed

lemma mm_realloc_copy:
  assumes "mm_live s L" and "(p, n) \<in> L" and "0 < sz" and "mm_malloc sz s = Some (q, t)"
    and "memcpy q p (min n sz) (mem t) = Some m"
  shows "mm_realloc p sz s = map_option (Pair q) (mm_free p (t\<lparr>mem := m\<rparr>))"
proof -
  obtain bs where s: "heap_at s bs" and L: "L = payloads (allocs (mm_heap_first s) bs)" using assms(1) by (auto simp: mm_live_def)
  have al: "(p - 8, n + 8) \<in> allocs (mm_heap_first s) bs" using assms(2) L in_payloads by simp
  obtain pre post where bs: "bs = pre @ (n + 8, True) # post" and b: "p - 8 = mm_heap_first s + extent pre" using allocs_split [OF al] by blast
  have "blocks_at (mem s) (p - 8) ((n + 8, True) # post) (mem_brk (mem s))" using heap_atD(5) [OF s] bs b by (simp add: blocks_at_append)
  then have "get_size (p - 8) s = Some (n + 8)" using header_read(1) by simp
  moreover have "p \<noteq> 0" using live_aligned(5) [OF s al] by simp
  moreover have "(if n < sz then n else sz) = min n sz" by simp
  moreover have "(n + 8 - 8) mod 2 ^ 64 = n"
    using live_aligned [OF s al] heap_atD(4) [OF s] by (auto simp: region_ok_def)
  ultimately show ?thesis
    using assms(3-5) by (cases "mm_free p (t\<lparr>mem := m\<rparr>)") (simp_all add: mm_realloc_def lift_mem_def block_from_payload_def)
qed

lemma mm_null_cases:
  "mm_free 0 s = Some s" "mm_realloc 0 sz s = mm_malloc sz s"
  "p \<noteq> 0 \<Longrightarrow> mm_realloc p 0 s = map_option (Pair 0) (mm_free p s)"
  by (simp_all add: mm_free_def mm_realloc_def)

interpretation implicit: allocator mm_live mem "\<lambda>m s. s\<lparr>mem := m\<rparr>" mm_malloc mm_free mm_realloc
proof
  fix s :: mm and L and p n q k :: int
  assume "mm_live s L"
  then obtain bs where s: "heap_at s bs" and L: "L = payloads (allocs (mm_heap_first s) bs)" by (auto simp: mm_live_def)
  note h = heap_atD [OF s]
  show "(p, n) \<in> L \<Longrightarrow> (q, k) \<in> L \<Longrightarrow> (p, n) \<noteq> (q, k) \<Longrightarrow> p + n < q \<or> q + k < p"
    using allocs_disjoint [OF h(7), of "p - 8" "n + 8" _ "q - 8" "k + 8"] L in_payloads by fastforce
  show "16 dvd p \<and> 0 < heap (mem s) \<and> heap (mem s) \<le> p \<and> 0 \<le> n \<and> p + n \<le> mem_brk (mem s)" if "(p, n) \<in> L"
    using live_aligned [OF s, of "p - 8" "n + 8"] that L in_payloads h(2,4) by (auto simp: payload_def region_ok_def)
  show "mem_brk (mem s) \<le> heap (mem s) + MAX_HEAP" using h(4) by (simp add: region_ok_def)
  show "heap (mem s) \<le> mem_brk (mem s)" using h(2,8) extent_nonneg [OF h(7)] by simp
next
  fix s :: mm and L and sz :: int
  assume "mm_live s L" "0 < sz" "sz < 2 ^ 62"
  then show "\<exists>p t. mm_malloc sz s = Some (p, t) \<and> kept L (mem s) (mem t)
    \<and> (p = 0 \<and> room (mem s) < sz + 32 \<and> mm_live t L
       \<or> p \<noteq> 0 \<and> p \<notin> fst ` L \<and> room (mem s) \<le> room (mem t) + sz + 32 \<and> (\<exists>n \<ge> sz. mm_live t (insert (p, n) L)))"
    by (intro mm_malloc_live) auto
qed (auto simp: mm_null_cases intro: mm_free_live mm_realloc_copy mm_write_live)

text \<open>The driver linked with this package.\<close>

definition implicit_env :: "(nat \<Rightarrow> int) \<Rightarrow> debug_level \<Rightarrow> mm env" where
  "implicit_env rnd dbg = \<lparr>pk_memory = mem, pk_set_memory = (\<lambda>m s. s\<lparr>mem := m\<rparr>), pk_init = mm_init, pk_malloc = mm_malloc,
     pk_free = mm_free, pk_realloc = mm_realloc, random = rnd, debug_mode = dbg\<rparr>"

interpretation implicit_driver: driven mm_live mem "\<lambda>m s. s\<lparr>mem := m\<rparr>" mm_malloc mm_free mm_realloc "implicit_env rnd dbg"
  for rnd dbg
  by unfold_locales (simp_all add: implicit_env_def)

section \<open>Properties\<close>


text \<open>A heap of two blocks, the second one free.\<close>

definition two_blocks :: mm where
  "two_blocks = \<lparr>mem = \<lparr>heap = 16, mem_brk = 88, cells = put_le (put_le (\<lambda>_. 0) 24 8 33) 56 8 32\<rparr>,
     mm_heap_first = 24, mm_heap_last = 56\<rparr>"

lemma two_blocks_tiled: "heap_at two_blocks [(32, True), (32, False)]"
proof -
  have "load (mem two_blocks) 24 = Some (make_header 32 True)" "load (mem two_blocks) 56 = Some (make_header 32 False)"
    using get_put_disjoint [of 56 8 24 8 "put_le (\<lambda>_. 0) 24 8 33" 32] get_put_le [of 33 "\<lambda>_. 0" 24 8]
      get_put_le [of 32 "put_le (\<lambda>_. 0) 24 8 33" 56 8] header_parts(1) [of 32]
    by (simp_all add: load_def mapped_def two_blocks_def MAX_HEAP_def)
  then show ?thesis by (simp add: heap_at_def region_ok_def two_blocks_def MAX_HEAP_def)
qed



definition two_blocks_driver :: "mm driver" where
  "two_blocks_driver = \<lparr>package = two_blocks, the_trace = \<lparr>ignore_ranges = False, num_ids = 1, weight = 1, ops = [],
     blocks = [0], block_sizes = [0], block_rand_base = [0]\<rparr>, ranges = [], errors = 0, randoms = 0,
     random_data = replicate (nat RANDOM_DATA_LEN) 0\<rparr>"


text \<open>
  The first \<^verbatim>\<open>mm_malloc\<close> after \<^verbatim>\<open>mm_init\<close> reads the header at the null pointer: \<^verbatim>\<open>coalesce_blocks\<close> takes the
  size of \<^verbatim>\<open>mm_heap_first\<close> before it tests whether the heap has a block, which is undefined.
\<close>

theorem implicit_first_malloc_reads_null:
  assumes "mm_init s = (True, t)" and "0 < heap (mem s)"
  shows "mm_heap_first t = 0 \<and> mm_malloc sz t = None"
proof -
  have t: "mm_heap_first t = 0" "heap (mem t) = heap (mem s)"
    using assms(1) by (auto simp: mm_init_def mem_sbrk_def Let_def split: if_splits)
  then have "load (mem t) 0 = None" using assms(2) by (simp add: load_def mapped_def)
  then show ?thesis using t by (simp add: mm_malloc_def coalesce_blocks_def get_size_def)
qed

theorem implicit_first_malloc_reads_null_witness:
  "mm_malloc 8 (snd (mm_init \<lparr>mem = mem_init 0x800000000, mm_heap_first = 0, mm_heap_last = 0\<rparr>)) = None"
  by (rule implicit_first_malloc_reads_null [THEN conjunct2, of "\<lparr>mem = mem_init 0x800000000, mm_heap_first = 0, mm_heap_last = 0\<rparr>"])
    (simp_all add: mm_init_def mem_init_def mem_reset_brk_def mem_sbrk_def ALIGNMENT_def MAX_HEAP_def)

end
