(* ===== verification/Mm_Explicit.thy ===== *)
theory Mm_Explicit
  imports Heap_Blocks Mdriver
begin

text \<open>
  The explicit-list allocator (\<^verbatim>\<open>src/malloc/src/mm-explicit.c\<close>) over the byte memory of
  \<^verbatim>\<open>Memlib\<close>: blocks with a header and a footer, and a doubly linked list of the free blocks whose
  links are stored in the blocks. It is proved to be an allocator in the sense of \<^verbatim>\<open>Allocator\<close> for
  positive lengths, so that the test driver accepts it.
\<close>

section \<open>The allocator\<close>

record mm =
  mem :: memsys
  mm_heap_first :: int
  mm_heap_last :: int
  mm_free_first :: int
  mm_free_last :: int

definition ALIGNMENT :: int where
  "ALIGNMENT = 16"

definition round_up :: "int \<Rightarrow> int \<Rightarrow> int" where
  "round_up sz n = (sz + (n - 1)) mod 2 ^ 64 div n * n"

text \<open>Reads and writes of a word; the fields of a free block follow its header.\<close>

definition put :: "int \<Rightarrow> int \<Rightarrow> mm \<Rightarrow> mm option" where
  "put a v s = map_option (\<lambda>m. s\<lparr>mem := m\<rparr>) (store a v (mem s))"

definition get :: "int \<Rightarrow> mm \<Rightarrow> int option" where
  "get a s = load (mem s) a"

definition next_field :: "int \<Rightarrow> int" where
  "next_field block = block + 8"

definition prev_field :: "int \<Rightarrow> int" where
  "prev_field block = block + 16"

definition payload :: "int \<Rightarrow> int" where
  "payload block = block + 8"

definition set_header :: "int \<Rightarrow> int \<Rightarrow> bool \<Rightarrow> mm \<Rightarrow> mm option" where
  "set_header block sz is_alloc s = put block (make_header sz is_alloc) s"

definition set_footer :: "int \<Rightarrow> int \<Rightarrow> bool \<Rightarrow> mm \<Rightarrow> mm option" where
  "set_footer block sz is_alloc s = put (block + sz - 8) (make_header sz is_alloc) s"

definition get_size :: "int \<Rightarrow> mm \<Rightarrow> int option" where
  "get_size block s = map_option header_size (get block s)"

definition is_allocated :: "int \<Rightarrow> mm \<Rightarrow> bool option" where
  "is_allocated block s = map_option header_allocated (get block s)"

definition add_to_freelist :: "int \<Rightarrow> mm \<Rightarrow> mm option" where
  "add_to_freelist block s = do {
     sz \<leftarrow> get_size block s;
     s \<leftarrow> set_header block sz False s;
     s \<leftarrow> set_footer block sz False s;
     if mm_free_first s = 0 then do {
       let s = s\<lparr>mm_free_first := block\<rparr>;
       s \<leftarrow> put (prev_field (mm_free_first s)) 0 s;
       s \<leftarrow> put (next_field (mm_free_first s)) 0 s;
       Some (s\<lparr>mm_free_last := block\<rparr>)
     } else do {
       s \<leftarrow> put (prev_field (mm_free_first s)) block s;
       s \<leftarrow> put (next_field block) (mm_free_first s) s;
       Some (s\<lparr>mm_free_first := block\<rparr>)
     }
   }"

definition remove_from_freelist :: "int \<Rightarrow> mm \<Rightarrow> (int \<times> mm) option" where
  "remove_from_freelist cur s = map_option (Pair cur)
     (if cur = mm_free_first s \<and> cur = mm_free_last s then Some (s\<lparr>mm_free_first := 0, mm_free_last := 0\<rparr>)
      else if cur = mm_free_first s then do {
        nxt \<leftarrow> get (next_field cur) s;
        let s = s\<lparr>mm_free_first := nxt\<rparr>;
        nxt \<leftarrow> get (next_field cur) s;
        put (prev_field nxt) 0 s
      }
      else if cur = mm_free_last s then do {
        prv \<leftarrow> get (prev_field cur) s;
        let s = s\<lparr>mm_free_last := prv\<rparr>;
        prv \<leftarrow> get (prev_field cur) s;
        put (next_field prv) 0 s
      }
      else do {
        nxt \<leftarrow> get (next_field cur) s;
        prv \<leftarrow> get (prev_field cur) s;
        s \<leftarrow> put (prev_field nxt) prv s;
        nxt \<leftarrow> get (next_field cur) s;
        prv \<leftarrow> get (prev_field cur) s;
        put (next_field prv) nxt s
      })"

partial_function (option) fit_loop :: "int \<Rightarrow> int \<Rightarrow> mm \<Rightarrow> (int \<times> mm) option" where
  "fit_loop sz cur s =
     (if mm_free_last s \<noteq> 0 \<and> cur \<noteq> 0 then do {
        n \<leftarrow> get_size cur s;
        if n \<ge> sz then remove_from_freelist cur s
        else do {
          nxt \<leftarrow> get (next_field cur) s;
          fit_loop sz nxt s
        }
      } else Some (0, s))"

definition find_fit :: "int \<Rightarrow> mm \<Rightarrow> (int \<times> mm) option" where
  "find_fit sz s = fit_loop sz (mm_free_first s) s"

definition block_from_payload :: "int \<Rightarrow> int" where
  "block_from_payload ptr = ptr - 8"

definition mm_init :: "mm \<Rightarrow> bool \<times> mm" where
  "mm_init s =
     (let (padding, m) = mem_sbrk (ALIGNMENT - 8) (mem s) in
      if padding = -1 then (False, s)
      else (True, s\<lparr>mem := m, mm_heap_first := 0, mm_heap_last := 0, mm_free_first := 0, mm_free_last := 0\<rparr>))"

definition split_block_exp :: "int \<Rightarrow> int \<Rightarrow> int \<Rightarrow> mm \<Rightarrow> (int \<times> mm) option" where
  "split_block_exp block sz block_size s = do {
     s \<leftarrow> set_header block sz True s;
     s \<leftarrow> set_footer block sz True s;
     let freed_block = block + sz;
     s \<leftarrow> set_header freed_block (block_size - sz) False s;
     s \<leftarrow> set_footer freed_block (block_size - sz) False s;
     s \<leftarrow> add_to_freelist freed_block s;
     let s = (if block = mm_heap_last s then s\<lparr>mm_heap_last := block + sz\<rparr> else s);
     Some (payload block, s)
   }"

definition coalesce_left :: "int \<Rightarrow> mm \<Rightarrow> (int \<times> mm) option" where
  "coalesce_left block s = do {
     block_size \<leftarrow> get_size block s;
     (prev_size, prv) \<leftarrow> (if block \<noteq> mm_heap_first s then do {
         footer \<leftarrow> get (block - 8) s;
         let prev_size = header_size footer;
         Some (prev_size, block - prev_size)
       } else Some (0, 0));
     merge \<leftarrow> (if block \<noteq> mm_heap_first s then map_option Not (is_allocated prv s) else Some False);
     (return_block, new_blocksize, s) \<leftarrow> (if merge then do {
         (_, s) \<leftarrow> remove_from_freelist prv s;
         Some (prv, prev_size + block_size, if block = mm_heap_last s then s\<lparr>mm_heap_last := prv\<rparr> else s)
       } else Some (block, block_size, s));
     s \<leftarrow> set_header return_block new_blocksize False s;
     s \<leftarrow> set_footer return_block new_blocksize False s;
     Some (return_block, s)
   }"

definition coalesce_right :: "int \<Rightarrow> mm \<Rightarrow> (int \<times> mm) option" where
  "coalesce_right block s = do {
     block_size \<leftarrow> get_size block s;
     (next_size, nxt) \<leftarrow> (if block \<noteq> mm_heap_last s then do {
         next_size \<leftarrow> get_size (block + block_size) s;
         Some (next_size, block + block_size)
       } else Some (0, 0));
     merge \<leftarrow> (if block \<noteq> mm_heap_last s then map_option Not (is_allocated nxt s) else Some False);
     (new_blocksize, s) \<leftarrow> (if merge then do {
         (_, s) \<leftarrow> remove_from_freelist nxt s;
         Some (block_size + next_size, if nxt = mm_heap_last s then s\<lparr>mm_heap_last := block\<rparr> else s)
       } else Some (block_size, s));
     s \<leftarrow> set_header block new_blocksize False s;
     s \<leftarrow> set_footer block new_blocksize False s;
     Some (block, s)
   }"

text \<open>The size of a block for a request, with header and footer; \<^verbatim>\<open>free_block_t\<close> has 24 bytes.\<close>

definition block_size_for :: "int \<Rightarrow> int" where
  "block_size_for sz = round_up ((8 + sz + 8) mod 2 ^ 64) ALIGNMENT"

definition mm_malloc :: "int \<Rightarrow> mm \<Rightarrow> (int \<times> mm) option" where
  "mm_malloc sz s = do {
     let sz = block_size_for sz;
     (block, s) \<leftarrow> find_fit sz s;
     if block \<noteq> 0 then do {
       block_size \<leftarrow> get_size block s;
       if block_size \<ge> round_up ((sz + 24) mod 2 ^ 64) ALIGNMENT then split_block_exp block sz block_size s
       else do {
         s \<leftarrow> set_header block block_size True s;
         s \<leftarrow> set_footer block block_size True s;
         Some (payload block, s)
       }
     } else
       let (block, m) = mem_sbrk (ssize sz) (mem s) in
       if block = -1 then Some (0, s)
       else do {
         let s = s\<lparr>mem := m, mm_heap_first := (if mm_heap_first s = 0 then block else mm_heap_first s), mm_heap_last := block\<rparr>;
         s \<leftarrow> set_header block sz True s;
         s \<leftarrow> set_footer block sz True s;
         Some (payload block, s)
       }
   }"

definition mm_free :: "int \<Rightarrow> mm \<Rightarrow> mm option" where
  "mm_free ptr s =
     (if ptr = 0 then Some s
      else do {
        let block = block_from_payload ptr;
        (block, s) \<leftarrow> coalesce_left block s;
        (block, s) \<leftarrow> coalesce_right block s;
        add_to_freelist block s
      })"

definition lift_mem :: "(memsys \<Rightarrow> memsys option) \<Rightarrow> mm \<Rightarrow> mm option" where
  "lift_mem f s = map_option (\<lambda>m. s\<lparr>mem := m\<rparr>) (f (mem s))"

text \<open>\<^verbatim>\<open>size_t\<close> subtraction wraps around when the block is smaller than 16.\<close>

definition mm_realloc :: "int \<Rightarrow> int \<Rightarrow> mm \<Rightarrow> (int \<times> mm) option" where
  "mm_realloc old_ptr sz s =
     (if old_ptr = 0 then mm_malloc sz s
      else if sz = 0 then map_option (Pair 0) (mm_free old_ptr s)
      else do {
        n \<leftarrow> get_size (block_from_payload old_ptr) s;
        let old_size = (n - 2 * 8) mod 2 ^ 64;
        (new_ptr, s) \<leftarrow> mm_malloc sz s;
        s \<leftarrow> lift_mem (memcpy new_ptr old_ptr (if old_size < sz then old_size else sz)) s;
        s \<leftarrow> mm_free old_ptr s;
        Some (new_ptr, s)
      })"

definition mm_calloc :: "int \<Rightarrow> int \<Rightarrow> mm \<Rightarrow> (int \<times> mm) option" where
  "mm_calloc nmemb sz s = do {
     let n = (sz * nmemb) mod 2 ^ 64;
     (new_ptr, s) \<leftarrow> mm_malloc n s;
     s \<leftarrow> lift_mem (memset new_ptr 0 n) s;
     Some (new_ptr, s)
   }"

section \<open>Blocks with headers and footers\<close>

fun blks :: "int \<Rightarrow> blocks \<Rightarrow> (int \<times> int \<times> bool) set" where
  "blks a [] = {}"
| "blks a ((n, al) # bs) = insert (a, n, al) (blks (a + n) bs)"

definition sizes_32 :: "blocks \<Rightarrow> bool" where
  "sizes_32 bs \<longleftrightarrow> (\<forall>(n, al) \<in> set bs. 32 \<le> n \<and> 16 dvd n)"

lemma sizes_32_simps [simp]:
  "sizes_32 []" "sizes_32 ((n, al) # bs) \<longleftrightarrow> 32 \<le> n \<and> 16 dvd n \<and> sizes_32 bs"
  "sizes_32 (xs @ ys) \<longleftrightarrow> sizes_32 xs \<and> sizes_32 ys"
  by (auto simp: sizes_32_def)

lemma sizes_32_ok: "sizes_32 bs \<Longrightarrow> sizes_ok bs"
  by (auto simp: sizes_32_def sizes_ok_def)

lemmas extent_32 = extent_nonneg [OF sizes_32_ok]

lemma blks_append: "blks a (xs @ ys) = blks a xs \<union> blks (a + extent xs) ys"
  by (induction a xs rule: blks.induct) (auto simp: add.assoc)

lemma blks_bounds:
  "sizes_32 bs \<Longrightarrow> (b, n, al) \<in> blks a bs \<Longrightarrow> a \<le> b \<and> b + n \<le> a + extent bs \<and> 32 \<le> n \<and> 16 dvd n \<and> 16 dvd b - a"
proof (induction bs arbitrary: a)
  case (Cons c bs)
  obtain k cl where c: "c = (k, cl)" by (cases c)
  show ?case
  proof (cases "(b, n, al) \<in> blks (a + k) bs")
    case True
    then have "a + k \<le> b" "b + n \<le> a + k + extent bs" "32 \<le> n" "16 dvd n" "16 dvd b - (a + k)" "16 dvd k" "32 \<le> k"
      using Cons c by auto
    moreover have "16 dvd b - (a + k) + k" using calculation(5,6) by (rule dvd_add)
    ultimately show ?thesis using c by simp
  next
    case False
    then show ?thesis using Cons.prems c extent_32 by auto
  qed
qed simp

lemma blks_disjoint:
  "sizes_32 bs \<Longrightarrow> (b, n, al) \<in> blks a bs \<Longrightarrow> (c, k, cl) \<in> blks a bs
    \<Longrightarrow> b = c \<and> n = k \<and> al = cl \<or> b + n \<le> c \<or> c + k \<le> b"
proof (induction bs arbitrary: a)
  case (Cons d bs)
  obtain l dl where d: "d = (l, dl)" by (cases d)
  have ok: "sizes_32 bs" using Cons.prems(1) d by simp
  show ?case
  proof (cases "(b, n, al) \<in> blks (a + l) bs \<and> (c, k, cl) \<in> blks (a + l) bs")
    case True
    then show ?thesis using Cons.IH [OF ok] by blast
  next
    case False
    then show ?thesis using Cons.prems(2,3) d blks_bounds [OF ok, of _ _ _ "a + l"] by fastforce
  qed
qed simp

lemma blks_split: "(b, n, al) \<in> blks a bs \<Longrightarrow> \<exists>pre post. bs = pre @ (n, al) # post \<and> b = a + extent pre"
proof (induction bs arbitrary: a)
  case (Cons c bs)
  obtain k cl where c: "c = (k, cl)" by (cases c)
  show ?case
  proof (cases "(b, n, al) \<in> blks (a + k) bs")
    case True
    from Cons.IH [OF this] obtain pre post where "bs = pre @ (n, al) # post" "b = a + k + extent pre" by blast
    then have "c # bs = ((k, cl) # pre) @ (n, al) # post \<and> b = a + extent ((k, cl) # pre)" using c by simp
    then show ?thesis by blast
  next
    case False
    then have "c # bs = [] @ (n, al) # bs \<and> b = a + extent []" using Cons.prems c by simp
    then show ?thesis by blast
  qed
qed simp

lemma blks_mid: "(a + extent pre, n, al) \<in> blks a (pre @ (n, al) # post)"
  by (simp add: blks_append)

text \<open>The same tag before and behind the payload.\<close>

definition tag :: "memsys \<Rightarrow> int \<Rightarrow> int \<Rightarrow> bool \<Rightarrow> bool" where
  "tag m b n al \<longleftrightarrow> load m b = Some (make_header n al) \<and> load m (b + n - 8) = Some (make_header n al)"

text \<open>The links of the free list.\<close>

definition linked :: "memsys \<Rightarrow> int \<Rightarrow> int \<Rightarrow> bool" where
  "linked m x y \<longleftrightarrow> load m (x + 8) = Some y \<and> load m (y + 16) = Some x"

definition links :: "memsys \<Rightarrow> int list \<Rightarrow> bool" where
  "links m fl \<longleftrightarrow> successively (linked m) fl \<and> (fl \<noteq> [] \<longrightarrow> load m (last fl + 8) = Some 0)"

definition list_ends :: "mm \<Rightarrow> int list \<Rightarrow> bool" where
  "list_ends s fl \<longleftrightarrow> mm_free_first s = (if fl = [] then 0 else hd fl) \<and> mm_free_last s = (if fl = [] then 0 else last fl)"

definition heap_ends :: "mm \<Rightarrow> int \<Rightarrow> blocks \<Rightarrow> bool" where
  "heap_ends s a bs \<longleftrightarrow> mm_heap_first s = (if bs = [] then 0 else a) \<and> mm_heap_last s = (if bs = [] then 0 else last_addr a bs)"

definition free_list :: "int \<Rightarrow> blocks \<Rightarrow> int list \<Rightarrow> bool" where
  "free_list a bs fl \<longleftrightarrow> distinct fl \<and> (\<forall>x \<in> set fl. \<exists>n. (x, n, False) \<in> blks a bs)"

definition base :: "mm \<Rightarrow> int" where
  "base s = heap (mem s) + 8"

text \<open>
  The heap is tiled by \<open>bs\<close>, and the list \<open>fl\<close> links some of the free blocks. While a block is taken,
  split or merged it is free and not in the list.
\<close>

definition xinv :: "mm \<Rightarrow> blocks \<Rightarrow> int list \<Rightarrow> bool" where
  "xinv s bs fl \<longleftrightarrow> region_base (mem s) \<and> mem_brk (mem s) \<le> heap (mem s) + MAX_HEAP
     \<and> mem_brk (mem s) = base s + extent bs \<and> sizes_32 bs \<and> (\<forall>b n al. (b, n, al) \<in> blks (base s) bs \<longrightarrow> tag (mem s) b n al)
     \<and> heap_ends s (base s) bs \<and> free_list (base s) bs fl \<and> links (mem s) fl \<and> list_ends s fl"

lemma xinvD:
  assumes "xinv s bs fl"
  shows "region_base (mem s)" "mem_brk (mem s) \<le> heap (mem s) + MAX_HEAP" "mem_brk (mem s) = base s + extent bs" "sizes_32 bs"
    "\<And>b n al. (b, n, al) \<in> blks (base s) bs \<Longrightarrow> tag (mem s) b n al" "heap_ends s (base s) bs" "free_list (base s) bs fl"
    "links (mem s) fl" "list_ends s fl"
  using assms by (simp_all add: xinv_def)

text \<open>Every free block is in the list.\<close>

definition complete :: "mm \<Rightarrow> blocks \<Rightarrow> int list \<Rightarrow> bool" where
  "complete s bs fl \<longleftrightarrow> (\<forall>b n. (b, n, False) \<in> blks (base s) bs \<longrightarrow> b \<in> set fl)"

section \<open>Writing words\<close>

definition wrote :: "int set \<Rightarrow> mm \<Rightarrow> mm \<Rightarrow> bool" where
  "wrote F s t \<longleftrightarrow> heap (mem t) = heap (mem s) \<and> mem_brk (mem t) = mem_brk (mem s) \<and> (\<forall>x. x \<notin> F \<longrightarrow> cells (mem t) x = cells (mem s) x)"

lemma wrote_refl: "wrote F s s"
  by (simp add: wrote_def)

lemma wrote_trans: "wrote F s t \<Longrightarrow> wrote G t u \<Longrightarrow> F \<subseteq> H \<Longrightarrow> G \<subseteq> H \<Longrightarrow> wrote H s u"
  unfolding wrote_def by (metis subsetD)

lemma wrote_mono: "wrote F s t \<Longrightarrow> F \<subseteq> G \<Longrightarrow> wrote G s t"
  by (auto simp: wrote_def)

lemma wrote_load: "wrote F s t \<Longrightarrow> (\<And>x. a \<le> x \<Longrightarrow> x < a + 8 \<Longrightarrow> x \<notin> F) \<Longrightarrow> load (mem t) a = load (mem s) a"
  unfolding load_def mapped_def wrote_def by (auto intro: get_le_cong)

lemma same_ptrs:
  "t = s\<lparr>mem := m\<rparr> \<Longrightarrow> mm_heap_first t = mm_heap_first s" "t = s\<lparr>mem := m\<rparr> \<Longrightarrow> mm_heap_last t = mm_heap_last s"
  "t = s\<lparr>mem := m\<rparr> \<Longrightarrow> mm_free_first t = mm_free_first s" "t = s\<lparr>mem := m\<rparr> \<Longrightarrow> mm_free_last t = mm_free_last s"
  by simp_all

lemma put_ok:
  assumes "heap (mem s) \<le> a" and "a + 8 \<le> heap (mem s) + MAX_HEAP" and "0 \<le> v" and "v < 2 ^ 64"
  shows "\<exists>t. put a v s = Some t \<and> load (mem t) a = Some v \<and> wrote {a..<a + 8} s t \<and> t = s\<lparr>mem := mem t\<rparr>"
proof -
  have "mapped (mem s) a 8" using assms(1,2) by (simp add: mapped_def)
  then obtain m where "store a v (mem s) = Some m" "load m a = Some v" "heap m = heap (mem s)" "mem_brk m = mem_brk (mem s)"
    "\<forall>x. x < a \<or> a + 8 \<le> x \<longrightarrow> cells m x = cells (mem s) x" using store_mapped [OF _ assms(3,4)] by blast
  then show ?thesis by (auto simp: put_def wrote_def)
qed

section \<open>The free list\<close>

definition link_cells :: "int set \<Rightarrow> int set" where
  "link_cells Z = (\<Union>z \<in> Z. {z + 8..<z + 24})"

lemma link_cells_mono: "Z \<subseteq> Y \<Longrightarrow> link_cells Z \<subseteq> link_cells Y"
  by (auto simp: link_cells_def)

lemma successively_linked_cong:
  "successively (linked m) xs \<Longrightarrow> (\<And>x. x \<in> set (butlast xs) \<Longrightarrow> load m' (x + 8) = load m (x + 8))
    \<Longrightarrow> (\<And>x. x \<in> set (tl xs) \<Longrightarrow> load m' (x + 16) = load m (x + 16)) \<Longrightarrow> successively (linked m') xs"
proof (induction xs rule: induct_list012)
  case (3 x y zs)
  have "successively (linked m') (y # zs)" by (rule "3.IH"(2)) (use "3.prems" in \<open>auto split: if_splits\<close>)
  then show ?case using "3.prems" by (auto simp: linked_def)
qed auto

lemma links_cong:
  assumes "links m fl" and "\<And>x. x \<in> set fl \<Longrightarrow> load m' (x + 8) = load m (x + 8) \<and> load m' (x + 16) = load m (x + 16)"
  shows "links m' fl"
  using assms successively_linked_cong [of m fl m'] unfolding links_def
  by (metis in_set_butlastD last_in_set list.set_sel(2) tl_Nil)

lemma free_listD: "free_list a bs fl \<Longrightarrow> x \<in> set fl \<Longrightarrow> \<exists>n. (x, n, False) \<in> blks a bs"
  by (simp add: free_list_def)

lemma free_spaced:
  assumes "sizes_32 bs" and "free_list a bs fl" and "x \<in> set fl" and "y \<in> set fl" and "x \<noteq> y"
  shows "x + 32 \<le> y \<or> y + 32 \<le> x"
proof -
  obtain n k where b: "(x, n, False) \<in> blks a bs" "(y, k, False) \<in> blks a bs" using assms(2-4) unfolding free_list_def by blast
  then show ?thesis
    using blks_disjoint [OF assms(1) b] blks_bounds [OF assms(1) b(1)] blks_bounds [OF assms(1) b(2)] assms(5) by auto
qed

lemma tag_frame:
  assumes "sizes_32 bs" and "(b, n, al) \<in> blks a bs" and "tag (mem s) b n al" and "wrote (link_cells Z) s t"
    and "\<And>z. z \<in> Z \<Longrightarrow> \<exists>k cl. (z, k, cl) \<in> blks a bs"
  shows "tag (mem t) b n al"
proof -
  have out: "c + 8 \<le> x \<or> x < c" if x: "x \<in> link_cells Z" and c: "c = b \<or> c = b + n - 8" for x c
  proof -
    obtain z where z: "z \<in> Z" "z + 8 \<le> x" "x < z + 24" using x by (auto simp: link_cells_def)
    obtain k cl where k: "(z, k, cl) \<in> blks a bs" using assms(5) [OF z(1)] by blast
    show ?thesis
      using blks_disjoint [OF assms(1,2) k] blks_bounds [OF assms(1,2)] blks_bounds [OF assms(1) k] z(2,3) c by auto
  qed
  have "load (mem t) c = load (mem s) c" if "c = b \<or> c = b + n - 8" for c
    by (rule wrote_load [OF assms(4)]) (use out that in force)
  then show ?thesis using assms(3) by (simp add: tag_def)
qed

text \<open>A change of the links only.\<close>

lemma xinv_links:
  assumes s: "xinv s bs fl" and w: "wrote (link_cells Z) s t" and Z: "\<And>z. z \<in> Z \<Longrightarrow> \<exists>k cl. (z, k, cl) \<in> blks (base s) bs"
    and ptr: "mm_heap_first t = mm_heap_first s" "mm_heap_last t = mm_heap_last s"
    and fl': "free_list (base s) bs fl'" "links (mem t) fl'" "list_ends t fl'"
  shows "xinv t bs fl'"
proof -
  note h = xinvD [OF s]
  have b: "base t = base s" using w by (simp add: base_def wrote_def)
  have "tag (mem t) c n al" if "(c, n, al) \<in> blks (base s) bs" for c n al
    by (rule tag_frame [OF h(4) that h(5) [OF that] w]) (rule Z)
  then show ?thesis
    using h w ptr fl' b by (simp add: xinv_def wrote_def heap_ends_def region_base_def)
qed

lemma xinv_relink:
  assumes s: "xinv s bs fl" and w: "wrote (link_cells (set fl)) s t"
    and ptr: "mm_heap_first t = mm_heap_first s" "mm_heap_last t = mm_heap_last s"
    and fl': "set fl' \<subseteq> set fl" "distinct fl'" "links (mem t) fl'" "list_ends t fl'"
  shows "xinv t bs fl'"
proof (rule xinv_links [OF s w _ ptr _ fl'(3,4)])
  show "\<exists>k cl. (z, k, cl) \<in> blks (base s) bs" if "z \<in> set fl" for z using free_listD [OF xinvD(7) [OF s] that] by blast
  show "free_list (base s) bs fl'" using xinvD(7) [OF s] fl'(1,2) by (auto simp: free_list_def)
qed

text \<open>The link fields of two different free blocks are apart.\<close>

lemma link_frame:
  assumes s: "xinv s bs fl" and w: "wrote {c..<c + 8} s t" and xy: "x \<in> set fl" "y \<in> set fl"
  shows "c = y + 8 \<Longrightarrow> x \<noteq> y \<Longrightarrow> load (mem t) (x + 8) = load (mem s) (x + 8)"
    and "c = y + 8 \<Longrightarrow> load (mem t) (x + 16) = load (mem s) (x + 16)"
    and "c = y + 16 \<Longrightarrow> x \<noteq> y \<Longrightarrow> load (mem t) (x + 16) = load (mem s) (x + 16)"
    and "c = y + 16 \<Longrightarrow> load (mem t) (x + 8) = load (mem s) (x + 8)"
  using free_spaced [OF xinvD(4,7) [OF s] xy] by (auto intro!: wrote_load [OF w])

lemma free_bounds:
  assumes s: "xinv s bs fl" and x: "x \<in> set fl"
  shows "heap (mem s) \<le> x" "x + 32 \<le> heap (mem s) + MAX_HEAP" "0 < x" "x < 2 ^ 63"
proof -
  note h = xinvD [OF s]
  obtain n where "(x, n, False) \<in> blks (base s) bs" using free_listD [OF h(7) x] by blast
  from blks_bounds [OF h(4) this] show "heap (mem s) \<le> x" "x + 32 \<le> heap (mem s) + MAX_HEAP" "0 < x" "x < 2 ^ 63"
    using h(1-3) by (auto simp: base_def region_base_def)
qed

lemma put_link:
  assumes s: "xinv s bs fl" and x: "x \<in> set fl" and c: "c = x + 8 \<or> c = x + 16" and v: "v = 0 \<or> v \<in> set fl"
  shows "\<exists>t. put c v s = Some t \<and> load (mem t) c = Some v \<and> wrote {c..<c + 8} s t \<and> t = s\<lparr>mem := mem t\<rparr>"
  by (rule put_ok) (use free_bounds [OF s x] free_bounds [OF s, of v] c v in auto)

text \<open>The four cases of a removal.\<close>

lemma remove_only:
  assumes s: "xinv s bs [x]"
  shows "\<exists>t. remove_from_freelist x s = Some (x, t) \<and> xinv t bs [] \<and> wrote {} s t
    \<and> mm_heap_first t = mm_heap_first s \<and> mm_heap_last t = mm_heap_last s"
proof -
  let ?t = "s\<lparr>mm_free_first := 0, mm_free_last := 0\<rparr>"
  have "xinv ?t bs []"
    by (rule xinv_relink [OF s]) (simp_all add: wrote_def links_def list_ends_def)
  moreover have "remove_from_freelist x s = Some (x, ?t)"
    using xinvD(9) [OF s] by (simp add: remove_from_freelist_def list_ends_def)
  ultimately show ?thesis by (auto simp: wrote_def)
qed

lemma remove_first:
  assumes s: "xinv s bs (x # y # ys)"
  shows "\<exists>t. remove_from_freelist x s = Some (x, t) \<and> xinv t bs (y # ys) \<and> wrote (link_cells {y}) s t
    \<and> mm_heap_first t = mm_heap_first s \<and> mm_heap_last t = mm_heap_last s"
proof -
  note h = xinvD [OF s]
  have d: "distinct (x # y # ys)" using h(7) by (simp add: free_list_def)
  have nx: "load (mem s) (x + 8) = Some y" using h(8) by (simp add: links_def linked_def)
  have e: "mm_free_first s = x" "mm_free_last s = last (y # ys)" using h(9) by (simp_all add: list_ends_def)
  have ne: "x \<noteq> last (y # ys)" using d last_in_set [of "y # ys"] by auto
  obtain t0 where t0: "put (y + 16) 0 s = Some t0" "wrote {y + 16..<y + 16 + 8} s t0" "t0 = s\<lparr>mem := mem t0\<rparr>"
    using put_link [OF s, of y "y + 16" 0] by auto
  define t where "t = s\<lparr>mem := mem t0, mm_free_first := y\<rparr>"
  have mt: "mem t = mem t0" by (simp add: t_def)
  have p: "put (y + 16) 0 (s\<lparr>mm_free_first := y\<rparr>) = Some t"
    using t0(1) by (auto simp: put_def t_def)
  have w: "wrote (link_cells {y}) s t" using t0(2) by (auto simp: wrote_def mt link_cells_def)
  have "successively (linked (mem t0)) (y # ys)"
  proof (rule successively_linked_cong)
    show "successively (linked (mem s)) (y # ys)" using h(8) by (simp add: links_def)
    show "load (mem t0) (z + 8) = load (mem s) (z + 8)" if "z \<in> set (butlast (y # ys))" for z
      using link_frame(4) [OF s t0(2), of z y] in_set_butlastD [OF that] by simp
    show "load (mem t0) (z + 16) = load (mem s) (z + 16)" if "z \<in> set (tl (y # ys))" for z
      using link_frame(3) [OF s t0(2), of z y] that d by auto
  qed
  moreover have "load (mem t0) (last (y # ys) + 8) = Some 0"
    using link_frame(4) [OF s t0(2), of "last (y # ys)" y] h(8) last_in_set [of "y # ys"] by (simp add: links_def)
  ultimately have "links (mem t) (y # ys)" by (simp add: links_def mt)
  then have "xinv t bs (y # ys)"
    by (rule xinv_relink [OF s wrote_mono [OF w link_cells_mono], rotated 5]) (use d e(2) in \<open>auto simp: t_def list_ends_def\<close>)
  moreover have "remove_from_freelist x s = Some (x, t)"
    using nx e ne p by (simp add: remove_from_freelist_def get_def next_field_def prev_field_def)
  ultimately show ?thesis using w by (simp add: t_def)
qed

lemma remove_last:
  assumes s: "xinv s bs (xs @ [w, x])"
  shows "\<exists>t. remove_from_freelist x s = Some (x, t) \<and> xinv t bs (xs @ [w]) \<and> wrote (link_cells {w}) s t
    \<and> mm_heap_first t = mm_heap_first s \<and> mm_heap_last t = mm_heap_last s"
proof -
  note h = xinvD [OF s]
  have d: "distinct (xs @ [w, x])" using h(7) by (simp add: free_list_def)
  have pv: "load (mem s) (x + 16) = Some w" using h(8) by (simp add: links_def linked_def successively_append_iff)
  have e: "mm_free_first s = hd (xs @ [w])" "mm_free_last s = x" using h(9) by (simp_all add: list_ends_def hd_append)
  have ne: "x \<noteq> hd (xs @ [w])" using d hd_in_set [of "xs @ [w]"] by auto
  obtain t0 where t0: "put (w + 8) 0 s = Some t0" "load (mem t0) (w + 8) = Some 0" "wrote {w + 8..<w + 8 + 8} s t0" "t0 = s\<lparr>mem := mem t0\<rparr>"
    using put_link [OF s, of w "w + 8" 0] by auto
  define t where "t = s\<lparr>mem := mem t0, mm_free_last := w\<rparr>"
  have mt: "mem t = mem t0" by (simp add: t_def)
  have p: "put (w + 8) 0 (s\<lparr>mm_free_last := w\<rparr>) = Some t" using t0(1) by (auto simp: put_def t_def)
  have wr: "wrote (link_cells {w}) s t" using t0(3) by (auto simp: wrote_def mt link_cells_def)
  have "successively (linked (mem t0)) (xs @ [w])"
  proof (rule successively_linked_cong)
    show "successively (linked (mem s)) (xs @ [w])" using h(8) by (simp add: links_def successively_append_iff)
    show "load (mem t0) (z + 8) = load (mem s) (z + 8)" if "z \<in> set (butlast (xs @ [w]))" for z
      using link_frame(1) [OF s t0(3), of z w] that d by auto
    show "load (mem t0) (z + 16) = load (mem s) (z + 16)" if "z \<in> set (tl (xs @ [w]))" for z
      using link_frame(2) [OF s t0(3), of z w] list.set_sel(2) [OF _ that] by fastforce
  qed
  then have "links (mem t) (xs @ [w])" using t0(2) by (simp add: links_def mt)
  then have "xinv t bs (xs @ [w])"
    by (rule xinv_relink [OF s wrote_mono [OF wr link_cells_mono], rotated 5]) (use d e(1) in \<open>auto simp: t_def list_ends_def\<close>)
  moreover have "remove_from_freelist x s = Some (x, t)"
    using pv e ne p by (simp add: remove_from_freelist_def get_def next_field_def prev_field_def)
  ultimately show ?thesis using wr by (simp add: t_def)
qed

lemma remove_middle:
  assumes s: "xinv s bs (xs @ [w, x, y] @ ys)"
  shows "\<exists>t. remove_from_freelist x s = Some (x, t) \<and> xinv t bs (xs @ [w, y] @ ys) \<and> wrote (link_cells {w, y}) s t
    \<and> mm_heap_first t = mm_heap_first s \<and> mm_heap_last t = mm_heap_last s"
proof -
  let ?fl = "xs @ [w, x, y] @ ys"
  note h = xinvD [OF s]
  have d: "distinct ?fl" using h(7) by (simp add: free_list_def)
  have l: "successively (linked (mem s)) (xs @ [w])" "successively (linked (mem s)) (y # ys)" "linked (mem s) w x" "linked (mem s) x y"
    "load (mem s) (last (y # ys) + 8) = Some 0"
    using h(8) by (auto simp: links_def successively_append_iff successively_Cons split: if_splits)
  have nx: "load (mem s) (x + 8) = Some y" and pv: "load (mem s) (x + 16) = Some w" using l(3,4) by (simp_all add: linked_def)
  have e: "mm_free_first s = hd (xs @ [w])" "mm_free_last s = last (y # ys)" using h(9) by (simp_all add: list_ends_def hd_append)
  have ne: "x \<noteq> hd (xs @ [w])" "x \<noteq> last (y # ys)" using d hd_in_set [of "xs @ [w]"] last_in_set [of "y # ys"] by auto
  obtain t1 where t1: "put (y + 16) w s = Some t1" "load (mem t1) (y + 16) = Some w" "wrote {y + 16..<y + 16 + 8} s t1" "t1 = s\<lparr>mem := mem t1\<rparr>"
    using put_link [OF s, of y "y + 16" w] by auto
  have wb: "heap (mem t1) \<le> w + 8" "w + 8 + 8 \<le> heap (mem t1) + MAX_HEAP" "0 \<le> y" "y < 2 ^ 64"
    using free_bounds [OF s, of w] free_bounds [OF s, of y] t1(3) by (auto simp: wrote_def)
  obtain t where t: "put (w + 8) y t1 = Some t" "load (mem t) (w + 8) = Some y" "wrote {w + 8..<w + 8 + 8} t1 t" "t = t1\<lparr>mem := mem t\<rparr>"
    using put_ok [OF wb] by blast
  note ptr = same_ptrs [OF t1(4)] same_ptrs [OF t(4)]
  have wr: "wrote (link_cells {w, y}) s t"
    by (rule wrote_trans [OF t1(3) t(3)]) (auto simp: link_cells_def)
  have f8: "load (mem t) (z + 8) = load (mem s) (z + 8)" if "z \<in> set ?fl" "z \<noteq> w" for z
  proof -
    have "load (mem t1) (z + 8) = load (mem s) (z + 8)" using link_frame(4) [OF s t1(3) that(1)] by simp
    moreover have "load (mem t) (z + 8) = load (mem t1) (z + 8)"
      by (rule wrote_load [OF t(3)]) (use free_spaced [OF h(4,7) that(1), of w] that(2) in auto)
    ultimately show ?thesis by simp
  qed
  have f16: "load (mem t) (z + 16) = load (mem t1) (z + 16)" if "z \<in> set ?fl" for z
  proof (cases "z = w")
    case True
    then show ?thesis by (intro wrote_load [OF t(3)]) auto
  next
    case False
    then show ?thesis by (intro wrote_load [OF t(3)]) (use free_spaced [OF h(4,7) that, of w] in auto)
  qed
  have f16': "load (mem t) (z + 16) = load (mem s) (z + 16)" if "z \<in> set ?fl" "z \<noteq> y" for z
    using f16 [OF that(1)] link_frame(3) [OF s t1(3) that(1)] that(2) by simp
  have "successively (linked (mem t)) (xs @ [w])"
    by (rule successively_linked_cong [OF l(1)], rule f8) (use d f16' list.set_sel(2) [of "xs @ [w]"] in \<open>auto\<close>)
  moreover have "successively (linked (mem t)) (y # ys)"
  proof (rule successively_linked_cong [OF l(2)])
    show "load (mem t) (z + 8) = load (mem s) (z + 8)" if "z \<in> set (butlast (y # ys))" for z
      using f8 [of z] in_set_butlastD [OF that] d by auto
    show "load (mem t) (z + 16) = load (mem s) (z + 16)" if "z \<in> set (tl (y # ys))" for z
      using f16' [of z] that d by auto
  qed
  moreover have "linked (mem t) w y" using t(2) f16 [of y] t1(2) by (simp add: linked_def)
  moreover have "load (mem t) (last (y # ys) + 8) = Some 0" 
  proof -
    have "last (y # ys) \<in> set (y # ys)" by (rule last_in_set) simp
    then have "last (y # ys) \<in> set ?fl" "last (y # ys) \<noteq> w" using d by auto
    then show ?thesis using f8 l(5) by metis
  qed
  ultimately have "links (mem t) (xs @ [w, y] @ ys)"
    by (auto simp: links_def successively_append_iff successively_Cons split: if_splits)
  then have "xinv t bs (xs @ [w, y] @ ys)"
    by (rule xinv_relink [OF s wrote_mono [OF wr link_cells_mono], rotated 5])
      (use d e ptr in \<open>auto simp: list_ends_def hd_append\<close>)
  moreover have "remove_from_freelist x s = Some (x, t)"
  proof -
    have "load (mem t1) (x + 8) = Some y" "load (mem t1) (x + 16) = Some w"
      using link_frame(3,4) [OF s t1(3), of x y] d nx pv by auto
    then show ?thesis using nx pv e ne t(1) t1(1) by (simp add: remove_from_freelist_def get_def next_field_def prev_field_def)
  qed
  ultimately show ?thesis using wr ptr by simp
qed

lemma remove_ok:
  assumes s: "xinv s bs (xs @ x # ys)"
  shows "\<exists>t. remove_from_freelist x s = Some (x, t) \<and> xinv t bs (xs @ ys) \<and> wrote (link_cells (set (xs @ ys))) s t
    \<and> mm_heap_first t = mm_heap_first s \<and> mm_heap_last t = mm_heap_last s"
proof (cases xs rule: rev_cases)
  case Nil
  show ?thesis
  proof (cases ys)
    case y: Nil
    then show ?thesis using remove_only [of s bs x] s Nil by (auto simp: link_cells_def)
  next
    case (Cons y zs)
    then show ?thesis
      using remove_first [of s bs x y zs] s Nil wrote_mono [OF _ link_cells_mono [of "{y}" "set (y # zs)"]] by fastforce
  qed
next
  case (snoc us w)
  show ?thesis
  proof (cases ys)
    case Nil
    then show ?thesis
      using remove_last [of s bs us w x] s snoc wrote_mono [OF _ link_cells_mono [of "{w}" "set (us @ [w])"]] by fastforce
  next
    case (Cons y zs)
    then show ?thesis
      using remove_middle [of s bs us w x y zs] s snoc wrote_mono [OF _ link_cells_mono [of "{w, y}" "set (us @ [w, y] @ zs)"]]
      by fastforce
  qed
qed

section \<open>Searching and inserting\<close>

lemma tag_read:
  assumes s: "xinv s bs fl" and b: "(b, n, al) \<in> blks (base s) bs"
  shows "get_size b s = Some n" "is_allocated b s = Some al" "get (b + n - 8) s = Some (make_header n al)"
    "header_size (make_header n al) = n"
proof -
  have "16 dvd n" using blks_bounds [OF xinvD(4) [OF s] b] by simp
  then have ev: "even n" by (metis dvd_trans even_numeral)
  have t: "tag (mem s) b n al" by (rule xinvD(5) [OF s b])
  show "get_size b s = Some n" "is_allocated b s = Some al" "get (b + n - 8) s = Some (make_header n al)"
    "header_size (make_header n al) = n"
    using t header_parts [OF ev] by (simp_all add: tag_def get_size_def is_allocated_def get_def)
qed

lemma next_read:
  assumes s: "xinv s bs (xs @ x # ys)"
  shows "get (next_field x) s = Some (if ys = [] then 0 else hd ys)"
proof -
  have "links (mem s) (xs @ x # ys)" by (rule xinvD(8) [OF s])
  then show ?thesis
    by (auto simp: links_def linked_def get_def next_field_def successively_append_iff successively_Cons)
qed

lemma fit_loop_ok:
  assumes s: "xinv s bs (xs @ ys)"
  shows "\<exists>p t. fit_loop k (if ys = [] then 0 else hd ys) s = Some (p, t)
    \<and> (p = 0 \<and> t = s \<and> (\<forall>x n. x \<in> set ys \<longrightarrow> (x, n, False) \<in> blks (base s) bs \<longrightarrow> n < k)
       \<or> (\<exists>us vs n. xs @ ys = us @ p # vs \<and> (p, n, False) \<in> blks (base s) bs \<and> k \<le> n \<and> remove_from_freelist p s = Some (p, t)))"
  using s
proof (induction ys arbitrary: xs)
  case Nil
  then show ?case by (subst fit_loop.simps) simp
next
  case (Cons x ys)
  note h = xinvD [OF Cons.prems]
  obtain n where n: "(x, n, False) \<in> blks (base s) bs" using free_listD [OF h(7), of x] by auto
  note r = tag_read [OF Cons.prems n]
  have x0: "x \<noteq> 0" using free_bounds(3) [OF Cons.prems, of x] by auto
  have "mm_free_last s \<in> set (xs @ x # ys)" using h(9) last_in_set [of "xs @ x # ys"] unfolding list_ends_def by (auto simp del: last_in_set)
  then have l0: "mm_free_last s \<noteq> 0" using free_bounds(3) [OF Cons.prems, of "mm_free_last s"] by linarith
  have step: "fit_loop k x s = (if n \<ge> k then remove_from_freelist x s else fit_loop k (if ys = [] then 0 else hd ys) s)"
    by (subst fit_loop.simps) (use x0 l0 r(1) next_read [OF Cons.prems] in simp)
  show ?case
  proof (cases "n \<ge> k")
    case True
    obtain t where "remove_from_freelist x s = Some (x, t)" using remove_ok [OF Cons.prems] by blast
    then show ?thesis using step True n by auto
  next
    case False
    have uniq: "m = n" if "(x, m, False) \<in> blks (base s) bs" for m
      using blks_disjoint [OF h(4) that n] blks_bounds [OF h(4) that] blks_bounds [OF h(4) n] by auto
    have "xinv s bs ((xs @ [x]) @ ys)" using Cons.prems by simp
    from Cons.IH [OF this] show ?thesis using step False uniq by fastforce
  qed
qed

lemma find_fit_ok:
  assumes s: "xinv s bs fl"
  shows "find_fit k s = Some (0, s) \<and> (\<forall>x n. x \<in> set fl \<longrightarrow> (x, n, False) \<in> blks (base s) bs \<longrightarrow> n < k)
    \<or> (\<exists>p t us vs n. find_fit k s = Some (p, t) \<and> fl = us @ p # vs \<and> (p, n, False) \<in> blks (base s) bs \<and> k \<le> n
        \<and> xinv t bs (us @ vs) \<and> wrote (link_cells (set (us @ vs))) s t
        \<and> mm_heap_first t = mm_heap_first s \<and> mm_heap_last t = mm_heap_last s)"
proof -
  have f: "find_fit k s = fit_loop k (if fl = [] then 0 else hd fl) s"
    using xinvD(9) [OF s] by (simp add: find_fit_def list_ends_def)
  obtain p t where "fit_loop k (if fl = [] then 0 else hd fl) s = Some (p, t)"
    "p = 0 \<and> t = s \<and> (\<forall>x n. x \<in> set fl \<longrightarrow> (x, n, False) \<in> blks (base s) bs \<longrightarrow> n < k)
      \<or> (\<exists>us vs n. fl = us @ p # vs \<and> (p, n, False) \<in> blks (base s) bs \<and> k \<le> n \<and> remove_from_freelist p s = Some (p, t))"
    using fit_loop_ok [of s bs "[]" fl k] s by auto
  then show ?thesis using f remove_ok [of s bs] s by force
qed

section \<open>Retagging blocks\<close>

lemma make_header_bounds:
  assumes "16 \<le> n" and "16 dvd n" and "n < 2 ^ 63"
  shows "0 \<le> make_header n al" "make_header n al < 2 ^ 64"
proof -
  have "even n" using assms(2) by (metis dvd_trans even_numeral)
  then show "0 \<le> make_header n al" "make_header n al < 2 ^ 64" using header_parts(1) [of n al] assms(1,3) by (cases al; simp)+
qed

lemma tag_write:
  assumes "heap (mem s) \<le> b" and "b + n \<le> heap (mem s) + MAX_HEAP" and n: "16 \<le> n" "16 dvd n" "n < 2 ^ 63"
  shows "\<exists>s' t. set_header b n al s = Some s' \<and> set_footer b n al s' = Some t \<and> tag (mem t) b n al
    \<and> wrote {b..<b + n} s t \<and> wrote ({b..<b + 8} \<union> {b + n - 8..<b + n}) s t \<and> t = s\<lparr>mem := mem t\<rparr>"
proof -
  note v = make_header_bounds [OF n, of al]
  have b1: "b + 8 \<le> heap (mem s) + MAX_HEAP" using assms(2) n(1) by linarith
  obtain s' where s': "put b (make_header n al) s = Some s'" "load (mem s') b = Some (make_header n al)" "wrote {b..<b + 8} s s'" "s' = s\<lparr>mem := mem s'\<rparr>"
    using put_ok [OF assms(1) b1 v] by blast
  have b2: "heap (mem s') \<le> b + n - 8" "b + n - 8 + 8 \<le> heap (mem s') + MAX_HEAP" using assms(1,2) n(1) s'(3) by (auto simp: wrote_def)
  obtain t where t: "put (b + n - 8) (make_header n al) s' = Some t" "load (mem t) (b + n - 8) = Some (make_header n al)"
    "wrote {b + n - 8..<b + n - 8 + 8} s' t" "t = s'\<lparr>mem := mem t\<rparr>"
    using put_ok [OF b2 v] by blast
  have "load (mem t) b = load (mem s') b" by (rule wrote_load [OF t(3)]) (use n(1) in auto)
  then have "tag (mem t) b n al" using s'(2) t(2) by (simp add: tag_def)
  moreover have "wrote ({b..<b + 8} \<union> {b + n - 8..<b + n}) s t" by (rule wrote_trans [OF s'(3) t(3)]) auto
  moreover have "wrote {b..<b + n} s t" by (rule wrote_trans [OF s'(3) t(3)]) (use n(1) in auto)
  moreover have "t = s\<lparr>mem := mem t\<rparr>" using s'(4) t(4) by (metis mm.surjective mm.update_convs(1))
  ultimately show ?thesis using s'(1) t(1) by (auto simp: set_header_def set_footer_def)
qed

lemma tag_same:
  assumes "wrote F s t" and "tag (mem s) b n al" and "\<And>x. x \<in> F \<Longrightarrow> x < b \<or> b + n \<le> x" and "32 \<le> n"
  shows "tag (mem t) b n al"
proof -
  have "load (mem t) c = load (mem s) c" if "c = b \<or> c = b + n - 8" for c
    by (rule wrote_load [OF assms(1)]) (use assms(3,4) that in force)
  then show ?thesis using assms(2) by (simp add: tag_def)
qed

lemma links_same:
  assumes s: "xinv s bs fl" and w: "wrote F s t"
    and out: "\<And>x n y. x \<in> set fl \<Longrightarrow> (x, n, False) \<in> blks (base s) bs \<Longrightarrow> y \<in> F \<Longrightarrow> y < x + 8 \<or> x + 24 \<le> y"
  shows "links (mem t) fl"
proof (rule links_cong [OF xinvD(8) [OF s]])
  fix x assume x: "x \<in> set fl"
  obtain n where n: "(x, n, False) \<in> blks (base s) bs" using free_listD [OF xinvD(7) [OF s] x] by blast
  have "load (mem t) c = load (mem s) c" if "c = x + 8 \<or> c = x + 16" for c
    by (rule wrote_load [OF w]) (use out [OF x n] that in force)
  then show "load (mem t) (x + 8) = load (mem s) (x + 8) \<and> load (mem t) (x + 16) = load (mem s) (x + 16)" by simp
qed

text \<open>Blocks that are not in the list are replaced by other blocks over the same cells.\<close>

lemma xreplace:
  assumes s: "xinv s (pre @ mid @ post) fl" and p: "p = base s + extent pre" and w: "wrote {p..<p + extent mid} s t"
    and new: "\<And>b n al. (b, n, al) \<in> blks p mid' \<Longrightarrow> tag (mem t) b n al" "extent mid' = extent mid" "sizes_32 mid'" "mid \<noteq> []" "mid' \<noteq> []"
    and out: "\<And>x. x \<in> set fl \<Longrightarrow> x < p \<or> p + extent mid \<le> x"
    and ptr: "mm_heap_first t = mm_heap_first s" "mm_heap_last t = (if post = [] then last_addr p mid' else mm_heap_last s)"
      "mm_free_first t = mm_free_first s" "mm_free_last t = mm_free_last s"
  shows "xinv t (pre @ mid' @ post) fl"
proof -
  note h = xinvD [OF s]
  have ok: "sizes_32 pre" "sizes_32 mid" "sizes_32 post" using h(4) by simp_all
  have bt: "base t = base s" using w by (simp add: base_def wrote_def)
  have B: "blks (base s) (pre @ mid @ post) = blks (base s) pre \<union> blks p mid \<union> blks (p + extent mid) post"
    and B': "blks (base s) (pre @ mid' @ post) = blks (base s) pre \<union> blks p mid' \<union> blks (p + extent mid) post"
    using p new(2) by (auto simp: blks_append add.assoc)
  have tags: "tag (mem t) b n al" if "(b, n, al) \<in> blks (base s) (pre @ mid' @ post)" for b n al
  proof (cases "(b, n, al) \<in> blks p mid'")
    case False
    then have old: "(b, n, al) \<in> blks (base s) pre \<or> (b, n, al) \<in> blks (p + extent mid) post" using that B' by auto
    then have "(b, n, al) \<in> blks (base s) (pre @ mid @ post)" using B by auto
    moreover have "x < b \<or> b + n \<le> x" if "x \<in> {p..<p + extent mid}" for x
      using old blks_bounds [OF ok(1), of b n al "base s"] blks_bounds [OF ok(3), of b n al "p + extent mid"] that p by auto
    moreover have "32 \<le> n" using old blks_bounds [OF ok(1), of b n al] blks_bounds [OF ok(3), of b n al] by auto
    ultimately show ?thesis using tag_same [OF w h(5)] by blast
  qed (rule new(1))
  have "links (mem t) fl"
  proof (rule links_same [OF s w])
    fix x n y assume x: "x \<in> set fl" "(x, n, False) \<in> blks (base s) (pre @ mid @ post)" and y: "y \<in> {p..<p + extent mid}"
    obtain c where "c \<in> blks (base s) pre \<union> blks (p + extent mid) post" "c = (x, n, False)"
      using x(2) B out [OF x(1)] blks_bounds [OF ok(2), of x n False p] by auto
    then show "y < x + 8 \<or> x + 24 \<le> y"
      using blks_bounds [OF ok(1), of x n False "base s"] blks_bounds [OF ok(3), of x n False "p + extent mid"] y p by auto
  qed
  moreover have "free_list (base s) (pre @ mid' @ post) fl"
  proof -
    have "\<exists>n. (x, n, False) \<in> blks (base s) (pre @ mid' @ post)" if x: "x \<in> set fl" for x
    proof -
      obtain n where n: "(x, n, False) \<in> blks (base s) (pre @ mid @ post)" using free_listD [OF h(7) x] by blast
      have "(x, n, False) \<notin> blks p mid" using out [OF x] blks_bounds [OF ok(2), of x n False p] by auto
      then show ?thesis using n B B' by auto
    qed
    then show ?thesis using h(7) by (simp add: free_list_def)
  qed
  moreover have "heap_ends t (base s) (pre @ mid' @ post)"
    using h(6) ptr(1,2) new(2,4,5) p last_addr_append [of post "base s" "pre @ mid'"] last_addr_append [of post "base s" "pre @ mid"]
      last_addr_append [of mid' "base s" pre]
    by (auto simp: heap_ends_def add.assoc)
  ultimately show ?thesis
    using h(1-4,9) w tags new(2,3) ok ptr(3,4) bt by (simp add: xinv_def wrote_def list_ends_def region_base_def)
qed

text \<open>A free block that is not in the list is put in front.\<close>

lemma free_outside:
  assumes s: "xinv s bs fl" and x: "(x, n, al) \<in> blks (base s) bs" "x \<notin> set fl" and y: "y \<in> set fl"
  shows "y + 32 \<le> x \<or> x + n \<le> y"
proof -
  obtain k where k: "(y, k, False) \<in> blks (base s) bs" using free_listD [OF xinvD(7) [OF s] y] by blast
  have "x \<noteq> y" using x(2) y by blast
  then show ?thesis
    using blks_disjoint [OF xinvD(4) [OF s] x(1) k] blks_bounds [OF xinvD(4) [OF s] k] by auto
qed

lemma alloc_not_listed:
  assumes s: "xinv s bs fl" and b: "(b, n, True) \<in> blks (base s) bs"
  shows "b \<notin> set fl"
proof
  assume "b \<in> set fl"
  then obtain k where k: "(b, k, False) \<in> blks (base s) bs" using free_listD [OF xinvD(7) [OF s]] by blast
  show False
    using blks_disjoint [OF xinvD(4) [OF s] b k] blks_bounds [OF xinvD(4) [OF s] b] blks_bounds [OF xinvD(4) [OF s] k] by auto
qed

lemma retag:
  assumes s: "xinv s bs fl" and x: "(x, n, al) \<in> blks (base s) bs" "x \<notin> set fl"
  shows "\<exists>s' t pre post. bs = pre @ (n, al) # post \<and> x = base s + extent pre
    \<and> set_header x n bl s = Some s' \<and> set_footer x n bl s' = Some t \<and> xinv t (pre @ (n, bl) # post) fl
    \<and> wrote ({x..<x + 8} \<union> {x + n - 8..<x + n}) s t \<and> t = s\<lparr>mem := mem t\<rparr>"
proof -
  note h = xinvD [OF s] and b = blks_bounds [OF xinvD(4) [OF s] x(1)]
  obtain pre post where bs: "bs = pre @ [(n, al)] @ post" and p: "x = base s + extent pre" using blks_split [OF x(1)] by auto
  have bd: "heap (mem s) \<le> x" "x + n \<le> heap (mem s) + MAX_HEAP" "16 \<le> n" "16 dvd n" "n < 2 ^ 63"
    using b h(1-3) by (auto simp: base_def region_base_def)
  obtain s' t where t: "set_header x n bl s = Some s'" "set_footer x n bl s' = Some t" "tag (mem t) x n bl"
    "wrote {x..<x + n} s t" "wrote ({x..<x + 8} \<union> {x + n - 8..<x + n}) s t" "t = s\<lparr>mem := mem t\<rparr>"
    using tag_write [OF bd] by blast
  have "xinv t (pre @ [(n, bl)] @ post) fl"
  proof (rule xreplace [OF s [unfolded bs] p])
    show "y < x \<or> x + extent [(n, al)] \<le> y" if "y \<in> set fl" for y using free_outside [OF s x that] by auto
    show "mm_heap_last t = (if post = [] then last_addr x [(n, bl)] else mm_heap_last s)"
      using same_ptrs(2) [OF t(6)] h(6) bs p by (simp add: heap_ends_def last_addr_append)
  qed (use t(3,4) b same_ptrs [OF t(6)] in simp_all)
  then show ?thesis using t(1,2,5,6) bs p by auto
qed

text \<open>The two writes that link the block \<open>x\<close> in front of the list.\<close>

lemma push_links:
  assumes s: "xinv s bs fl" and x: "(x, n, False) \<in> blks (base s) bs" "x \<notin> set fl"
    and y: "y = (if fl = [] then x else hd fl)" and v: "v = (if fl = [] then 0 else x)" and w: "w = (if fl = [] then 0 else hd fl)"
  shows "\<exists>s' t. put (y + 16) v s = Some s' \<and> put (x + 8) w s' = Some t \<and> links (mem t) (x # fl)
    \<and> wrote (link_cells {x, y}) s t \<and> s' = s\<lparr>mem := mem s'\<rparr> \<and> t = s\<lparr>mem := mem t\<rparr>"
proof -
  note h = xinvD [OF s] and b = blks_bounds [OF xinvD(4) [OF s] x(1)]
  have xb: "heap (mem s) \<le> x" "x + n \<le> heap (mem s) + MAX_HEAP" "0 < x" "x < 2 ^ 63"
    using b h(1-3) by (auto simp: base_def region_base_def)
  have yb: "heap (mem s) \<le> y + 16" "y + 16 + 8 \<le> heap (mem s) + MAX_HEAP" "0 \<le> v" "v < 2 ^ 64" "0 \<le> w" "w < 2 ^ 64"
    using free_bounds [OF s, of "hd fl"] xb b by (auto simp: y v w)
  obtain s' where s': "put (y + 16) v s = Some s'" "load (mem s') (y + 16) = Some v" "wrote {y + 16..<y + 16 + 8} s s'" "s' = s\<lparr>mem := mem s'\<rparr>"
    using put_ok [OF yb(1-4)] by blast
  have xb': "heap (mem s') \<le> x + 8" "x + 8 + 8 \<le> heap (mem s') + MAX_HEAP" using xb b s'(3) by (auto simp: wrote_def)
  obtain t where t: "put (x + 8) w s' = Some t" "load (mem t) (x + 8) = Some w" "wrote {x + 8..<x + 8 + 8} s' t" "t = s'\<lparr>mem := mem t\<rparr>"
    using put_ok [OF xb' yb(5,6)] by blast
  have far: "load (mem t) (z + 8) = load (mem s') (z + 8)" "load (mem t) (z + 16) = load (mem s') (z + 16)" if z: "z \<in> set fl" for z
    using free_outside [OF s x z] b by (auto intro!: wrote_load [OF t(3)])
  have "links (mem t) (x # fl)"
  proof (cases fl)
    case Nil
    then show ?thesis using t(2) by (simp add: links_def w)
  next
    case (Cons z zs)
    then have yz: "y = z" "w = z" "v = x" by (simp_all add: y w v)
    have d: "distinct fl" using h(7) by (simp add: free_list_def)
    have k8: "load (mem t) (u + 8) = load (mem s) (u + 8)" if "u \<in> set fl" for u
      using far(1) [OF that] link_frame(4) [OF s s'(3) that, of z] Cons yz by simp
    have "linked (mem t) x z" using t(2) s'(2) far(2) [of z] yz Cons by (simp add: linked_def)
    moreover have "successively (linked (mem t)) fl"
    proof (rule successively_linked_cong)
      show "successively (linked (mem s)) fl" using h(8) by (simp add: links_def)
      show "load (mem t) (u + 8) = load (mem s) (u + 8)" if "u \<in> set (butlast fl)" for u using k8 in_set_butlastD [OF that] by blast
      show "load (mem t) (u + 16) = load (mem s) (u + 16)" if "u \<in> set (tl fl)" for u
        using far(2) [of u] link_frame(3) [OF s s'(3), of u z] that d Cons yz by auto
    qed
    moreover have "load (mem t) (last fl + 8) = Some 0" using k8 [of "last fl"] h(8) Cons by (simp add: links_def)
    ultimately show ?thesis using Cons by (simp add: links_def)
  qed
  moreover have "wrote (link_cells {x, y}) s t" by (rule wrote_trans [OF s'(3) t(3)]) (auto simp: link_cells_def)
  moreover have "t = s\<lparr>mem := mem t\<rparr>" using s'(4) t(4) by (metis mm.surjective mm.update_convs(1))
  ultimately show ?thesis using s'(1,4) t(1) by auto
qed

lemma put_list_end:
  "put a v (s\<lparr>mm_free_first := p\<rparr>) = map_option (\<lambda>t. t\<lparr>mm_free_first := p\<rparr>) (put a v s)"
  by (cases "store a v (mem s)") (simp_all add: put_def)

lemma add_ok:
  assumes s: "xinv s bs fl" and x: "(x, n, False) \<in> blks (base s) bs" "x \<notin> set fl"
  shows "\<exists>t. add_to_freelist x s = Some t \<and> xinv t bs (x # fl) \<and> wrote ({x..<x + n} \<union> link_cells (set fl)) s t
    \<and> mm_heap_first t = mm_heap_first s \<and> mm_heap_last t = mm_heap_last s"
proof -
  note b = blks_bounds [OF xinvD(4) [OF s] x(1)]
  obtain s1 s2 where s2: "set_header x n False s = Some s1" "set_footer x n False s1 = Some s2" "xinv s2 bs fl"
    "wrote ({x..<x + 8} \<union> {x + n - 8..<x + n}) s s2" "s2 = s\<lparr>mem := mem s2\<rparr>" using retag [OF s x, of False] by auto
  note h = xinvD [OF s2(3)]
  have x2: "(x, n, False) \<in> blks (base s2) bs" using x(1) s2(4) by (simp add: base_def wrote_def)
  have fo: "free_list (base s2) bs (x # fl)" using h(7) x2 x(2) by (auto simp: free_list_def)
  define y where "y = (if fl = [] then x else hd fl)"
  obtain s3 s4 where s4: "put (y + 16) (if fl = [] then 0 else x) s2 = Some s3" "put (x + 8) (if fl = [] then 0 else hd fl) s3 = Some s4"
    "links (mem s4) (x # fl)" "wrote (link_cells {x, y}) s2 s4" "s3 = s2\<lparr>mem := mem s3\<rparr>" "s4 = s2\<lparr>mem := mem s4\<rparr>"
    using push_links [OF s2(3) x2 x(2) y_def refl refl] by blast
  note ptr = same_ptrs [OF s2(5)] same_ptrs [OF s4(5)] same_ptrs [OF s4(6)]
  define t where "t = s4\<lparr>mm_free_first := x, mm_free_last := if fl = [] then x else mm_free_last s4\<rparr>"
  have mt: "mem t = mem s4" by (simp add: t_def)
  have wr: "wrote (link_cells {x, y}) s2 t" using s4(4) by (simp add: wrote_def mt)
  have ends: "list_ends t (x # fl)" using h(9) ptr by (auto simp: list_ends_def t_def)
  have "xinv t bs (x # fl)"
  proof (rule xinv_links [OF s2(3) wr _ _ _ fo _ ends])
    have "y \<in> set (x # fl)" by (auto simp: y_def)
    then show "\<exists>k cl. (z, k, cl) \<in> blks (base s2) bs" if "z \<in> {x, y}" for z using free_listD [OF fo, of z] that by auto
  qed (use s4(3) ptr in \<open>simp_all add: t_def\<close>)
  moreover have "add_to_freelist x s = Some t"
  proof -
    have sz: "get_size x s = Some n" by (rule tag_read(1) [OF s x(1)])
    have first: "mm_free_first s2 = (if fl = [] then 0 else hd fl)" using h(9) by (simp add: list_ends_def)
    have nz: "hd fl \<noteq> 0" if "fl \<noteq> []" using free_bounds(3) [OF s2(3), of "hd fl"] that by auto
    show ?thesis
    proof (cases "fl = []")
      case True
      then show ?thesis
        using sz s2(1,2) first s4(1,2) by (simp add: add_to_freelist_def put_list_end next_field_def prev_field_def y_def t_def)
    next
      case False
      have last: "s4\<lparr>mm_free_first := x\<rparr> = t" using False by (simp add: t_def)
      show ?thesis
        using False sz s2(1,2) first nz s4(1,2) ptr(7) last by (simp add: add_to_freelist_def next_field_def prev_field_def y_def)
    qed
  qed
  moreover have "wrote ({x..<x + n} \<union> link_cells (set fl)) s t"
    by (rule wrote_trans [OF s2(4) wr]) (use b in \<open>auto simp: link_cells_def y_def split: if_splits\<close>)
  ultimately show ?thesis using ptr by (simp add: t_def)
qed

section \<open>Allocation\<close>

lemma allocs_blks: "(b, n) \<in> allocs a bs \<longleftrightarrow> (b, n, True) \<in> blks a bs"
  by (induction a bs rule: blks.induct) auto

lemma free_cells_blks: "x \<in> free_cells a bs \<longleftrightarrow> (\<exists>b n. (b, n, False) \<in> blks a bs \<and> b \<le> x \<and> x < b + n)"
  by (induction a bs rule: blks.induct) auto

lemma link_cells_free:
  assumes "sizes_32 bs" and "free_list a bs fl"
  shows "link_cells (set fl) \<subseteq> free_cells a bs"
proof
  fix y assume "y \<in> link_cells (set fl)"
  then obtain x where x: "x \<in> set fl" "x + 8 \<le> y" "y < x + 24" by (auto simp: link_cells_def)
  then obtain n where n: "(x, n, False) \<in> blks a bs" using free_listD [OF assms(2)] by blast
  then show "y \<in> free_cells a bs" using x(2,3) blks_bounds [OF assms(1) n] unfolding free_cells_blks by force
qed

lemma request_size:
  assumes "0 < sz" and "sz < 2 ^ 62"
  shows "16 dvd block_size_for sz" "32 \<le> block_size_for sz" "sz + 16 \<le> block_size_for sz" "block_size_for sz \<le> sz + 31"
    "block_size_for sz < 2 ^ 63" "round_up ((block_size_for sz + 24) mod 2 ^ 64) ALIGNMENT = block_size_for sz + 32"
proof -
  have m: "(8 + sz + 8) mod 2 ^ 64 = sz + 16" "(sz + 16 + 15) mod 2 ^ 64 = sz + 31" using assms by auto
  have r: "block_size_for sz = (sz + 31) div 16 * 16"
    unfolding block_size_for_def round_up_def ALIGNMENT_def m(1) using m(2) by simp
  have d: "(sz + 31) div 16 * 16 + (sz + 31) mod 16 = sz + 31" "0 \<le> (sz + 31) mod 16" "(sz + 31) mod 16 < 16"
    by (simp_all add: div_mult_mod_eq)
  show dv: "16 dvd block_size_for sz" unfolding r by simp
  show le: "sz + 16 \<le> block_size_for sz" and up: "block_size_for sz \<le> sz + 31" unfolding r using d by linarith+
  have "2 \<le> (sz + 31) div 16" using assms(1) by simp
  then show "32 \<le> block_size_for sz" unfolding r by simp
  show lt: "block_size_for sz < 2 ^ 63" using up assms(2) by simp
  obtain q where q: "block_size_for sz = 16 * q" using dv by blast
  have "(block_size_for sz + 24) mod 2 ^ 64 = block_size_for sz + 24" "(block_size_for sz + 24 + 15) mod 2 ^ 64 = block_size_for sz + 39"
    using lt le assms(1) by auto
  moreover have "(16 * q + 39) div 16 * 16 = 16 * q + 32" by simp
  ultimately show "round_up ((block_size_for sz + 24) mod 2 ^ 64) ALIGNMENT = block_size_for sz + 32"
    unfolding round_up_def ALIGNMENT_def using q by simp
qed

lemma last_block:
  assumes s: "xinv s (pre @ (n, al) # post) fl" and p: "p = base s + extent pre"
  shows "p = mm_heap_last s \<longleftrightarrow> post = []"
proof -
  note h = xinvD [OF s]
  have ok: "sizes_ok post" "32 \<le> n" using h(4) sizes_32_ok by auto
  have l: "mm_heap_last s = last_addr (base s) (pre @ (n, al) # post)" using h(6) by (simp add: heap_ends_def)
  show ?thesis
  proof (cases "post = []")
    case True
    then show ?thesis using l p by (simp add: last_addr_append)
  next
    case False
    then have "mm_heap_last s = last_addr (p + n) post"
      using l p last_addr_append [of post "base s" "pre @ [(n, al)]"] by (simp add: add.assoc)
    then show ?thesis using False last_addr_ge [OF ok(1), of "p + n"] ok(2) by simp
  qed
qed

lemma heap_last_commute:
  "add_to_freelist x (s\<lparr>mm_heap_last := l\<rparr>) = map_option (\<lambda>t. t\<lparr>mm_heap_last := l\<rparr>) (add_to_freelist x s)"
proof -
  have p: "put a v (u\<lparr>mm_heap_last := l\<rparr>) = map_option (\<lambda>t. t\<lparr>mm_heap_last := l\<rparr>) (put a v u)" for a v u
    by (cases "store a v (mem u)") (simp_all add: put_def)
  have b: "Option.bind (map_option (\<lambda>t. t\<lparr>mm_heap_last := l\<rparr>) r) f = Option.bind r (\<lambda>t. f (t\<lparr>mm_heap_last := l\<rparr>))" for r :: "mm option" and f :: "mm \<Rightarrow> mm option"
    by (cases r) simp_all
  have m: "map_option (\<lambda>t. t\<lparr>mm_heap_last := l\<rparr>) (Option.bind r f) = Option.bind r (\<lambda>t. map_option (\<lambda>t. t\<lparr>mm_heap_last := l\<rparr>) (f t))" for r :: "'b option" and f :: "'b \<Rightarrow> mm option"
    by (cases r) simp_all
  have u: "u\<lparr>mm_heap_last := l, mm_free_first := x\<rparr> = u\<lparr>mm_free_first := x, mm_heap_last := l\<rparr>"
    "u\<lparr>mm_heap_last := l, mm_free_last := x\<rparr> = u\<lparr>mm_free_last := x, mm_heap_last := l\<rparr>" for u by simp_all
  have g: "get_size x (u\<lparr>mm_heap_last := l\<rparr>) = get_size x u" for u by (simp add: get_size_def get_def)
  show ?thesis
    unfolding add_to_freelist_def set_header_def set_footer_def Let_def g
    by (simp add: p b m u if_distrib [of "map_option _"] cong: if_cong)
qed

lemma add_keeps_last:
  assumes "add_to_freelist x s = Some t"
  shows "mm_heap_last t = mm_heap_last s"
proof -
  have "Some t = Some (t\<lparr>mm_heap_last := mm_heap_last s\<rparr>)"
    using heap_last_commute [where x = x and s = s and l = "mm_heap_last s"] assms by simp
  then have "mm_heap_last t = mm_heap_last (t\<lparr>mm_heap_last := mm_heap_last s\<rparr>)" by simp
  then show ?thesis by simp
qed

text \<open>A free block outside the list is split; the rest goes into the list.\<close>

lemma split_ok:
  assumes s: "xinv s (pre @ (n, False) # post) fl" and p: "p = base s + extent pre" "p \<notin> set fl"
    and k: "32 \<le> k" "16 dvd k" "k + 32 \<le> n"
  shows "\<exists>t. split_block_exp p k n s = Some (payload p, t) \<and> xinv t (pre @ (k, True) # (n - k, False) # post) ((p + k) # fl)
    \<and> wrote ({p..<p + n} \<union> link_cells (set fl)) s t"
proof -
  note h = xinvD [OF s]
  have blk: "(p, n, False) \<in> blks (base s) (pre @ (n, False) # post)" unfolding p(1) by (rule blks_mid)
  note b = blks_bounds [OF h(4) blk]
  have d: "16 dvd n - k" using b k(2) by (simp add: dvd_diff)
  have hb: "heap (mem s) \<le> p" "p + n \<le> heap (mem s) + MAX_HEAP" "n < 2 ^ 63" using b h(1-3) by (auto simp: base_def region_base_def)
  have kb: "p + k \<le> heap (mem s) + MAX_HEAP" "16 \<le> k" "k < 2 ^ 63" using hb k by auto
  obtain s1 s2 where s2: "set_header p k True s = Some s1" "set_footer p k True s1 = Some s2" "tag (mem s2) p k True"
    "wrote {p..<p + k} s s2" "s2 = s\<lparr>mem := mem s2\<rparr>" using tag_write [OF hb(1) kb(1,2) k(2) kb(3), of True] by blast
  have rb: "heap (mem s2) \<le> p + k" "p + k + (n - k) \<le> heap (mem s2) + MAX_HEAP" "16 \<le> n - k" "n - k < 2 ^ 63"
    using hb k s2(4) by (auto simp: wrote_def)
  obtain s3 s4 where s4: "set_header (p + k) (n - k) False s2 = Some s3" "set_footer (p + k) (n - k) False s3 = Some s4"
    "tag (mem s4) (p + k) (n - k) False" "wrote {p + k..<p + k + (n - k)} s2 s4" "s4 = s2\<lparr>mem := mem s4\<rparr>"
    using tag_write [OF rb(1-3) d rb(4), of False] by blast
  have tk: "tag (mem s4) p k True" by (rule tag_same [OF s4(4) s2(3)]) (use k in auto)
  define l where "l = (if p = mm_heap_last s then p + k else mm_heap_last s)"
  let ?u = "s4\<lparr>mm_heap_last := l\<rparr>"
  have wr: "wrote {p..<p + n} s s4" by (rule wrote_trans [OF s2(4) s4(4)]) (use k in auto)
  note ptr = same_ptrs [OF s2(5)] same_ptrs [OF s4(5)]
  have "xinv ?u (pre @ [(k, True), (n - k, False)] @ post) fl"
  proof (rule xreplace [where mid = "[(n, False)]" and p = p])
    show "xinv s (pre @ [(n, False)] @ post) fl" using s by simp
    show "wrote {p..<p + extent [(n, False)]} s ?u" using wr by (simp add: wrote_def)
    show "tag (mem ?u) c m al" if "(c, m, al) \<in> blks p [(k, True), (n - k, False)]" for c m al using that tk s4(3) by auto
    show "x < p \<or> p + extent [(n, False)] \<le> x" if "x \<in> set fl" for x using free_outside [OF s blk p(2) that] by auto
    show "mm_heap_last ?u = (if post = [] then last_addr p [(k, True), (n - k, False)] else mm_heap_last s)"
      using last_block [OF s p(1)] by (simp add: l_def)
  qed (use k d p(1) ptr in simp_all)
  then have u: "xinv ?u (pre @ (k, True) # (n - k, False) # post) fl" by simp
  have bu: "base ?u = base s" using wr by (simp add: base_def wrote_def)
  have nb: "(p + k, n - k, False) \<in> blks (base ?u) (pre @ (k, True) # (n - k, False) # post)"
    unfolding bu p(1) by (simp add: blks_append add.assoc)
  have nf: "p + k \<notin> set fl" using free_outside [OF s blk p(2), of "p + k"] k by auto
  obtain t where t: "add_to_freelist (p + k) ?u = Some t" "xinv t (pre @ (k, True) # (n - k, False) # post) ((p + k) # fl)"
    "wrote ({p + k..<p + k + (n - k)} \<union> link_cells (set fl)) ?u t" using add_ok [OF u nb nf] by blast
  obtain v where v: "add_to_freelist (p + k) s4 = Some v" "t = v\<lparr>mm_heap_last := l\<rparr>" using t(1) heap_last_commute by auto
  have "mm_heap_last v = mm_heap_last s" using add_keeps_last [OF v(1)] ptr by simp
  then have "(if p = mm_heap_last v then v\<lparr>mm_heap_last := p + k\<rparr> else v) = t" using v(2) by (simp add: l_def)
  then have "split_block_exp p k n s = Some (payload p, t)"
    using s2(1,2) s4(1,2) v(1) by (simp add: split_block_exp_def)
  moreover have "wrote ({p..<p + n} \<union> link_cells (set fl)) s t"
  proof (rule wrote_trans [OF _ t(3)])
    show "wrote {p..<p + n} s ?u" using wr by (simp add: wrote_def)
  qed (use k in auto)
  ultimately show ?thesis using t(2) by auto
qed

text \<open>What an allocation does on a heap tiled by \<open>bs\<close> with all free blocks in the list.\<close>

definition xalloc_spec :: "int \<Rightarrow> mm \<Rightarrow> blocks \<Rightarrow> int \<Rightarrow> mm \<Rightarrow> bool" where
  "xalloc_spec sz s bs p t \<longleftrightarrow> (\<exists>bs' fl'. xinv t bs' fl' \<and> complete t bs' fl' \<and> heap (mem t) = heap (mem s)
    \<and> mem_brk (mem s) \<le> mem_brk (mem t) \<and> mem_brk (mem t) \<le> mem_brk (mem s) + sz + 31
    \<and> (\<forall>x. x < mem_brk (mem s) \<longrightarrow> x \<notin> free_cells (base s) bs \<longrightarrow> cells (mem t) x = cells (mem s) x)
    \<and> (p = 0 \<and> allocs (base s) bs' = allocs (base s) bs \<and> room (mem s) < sz + 32
       \<or> (\<exists>n. base s + 8 \<le> p \<and> sz + 16 \<le> n \<and> allocs (base s) bs' = insert (p - 8, n) (allocs (base s) bs)
            \<and> (\<forall>k. (p - 8, k) \<notin> allocs (base s) bs))))"

text \<open>The block that was found, whole or its first part.\<close>

lemma take_fit:
  assumes s: "xinv s (pre @ (n, False) # post) fl" and p: "p = base s + extent pre" "p \<notin> set fl"
    and all: "\<forall>b m. (b, m, False) \<in> blks (base s) (pre @ (n, False) # post) \<longrightarrow> b = p \<or> b \<in> set fl"
    and k: "32 \<le> k" "16 dvd k" "k \<le> n"
  shows "\<exists>t bs' fl' l. (if n \<ge> k + 32 then split_block_exp p k n s
      else do { s \<leftarrow> set_header p n True s; s \<leftarrow> set_footer p n True s; Some (payload p, s) }) = Some (payload p, t)
    \<and> xinv t bs' fl' \<and> complete t bs' fl' \<and> wrote ({p..<p + n} \<union> link_cells (set fl)) s t \<and> k \<le> l
    \<and> allocs (base s) bs' = insert (p, l) (allocs (base s) (pre @ (n, False) # post))"
proof (cases "n \<ge> k + 32")
  case True
  obtain t where t: "split_block_exp p k n s = Some (payload p, t)" "xinv t (pre @ (k, True) # (n - k, False) # post) ((p + k) # fl)"
    "wrote ({p..<p + n} \<union> link_cells (set fl)) s t" using split_ok [OF s p k(1,2) True] by blast
  have bt: "base t = base s" using t(3) by (simp add: base_def wrote_def)
  have "complete t (pre @ (k, True) # (n - k, False) # post) ((p + k) # fl)"
    unfolding complete_def
  proof (intro allI impI)
    fix b m assume b: "(b, m, False) \<in> blks (base t) (pre @ (k, True) # (n - k, False) # post)"
    show "b \<in> set ((p + k) # fl)"
    proof (cases "b = p + k")
      case False
      then have old: "(b, m, False) \<in> blks (base s) (pre @ (n, False) # post)" "(b, m, False) \<in> blks (base s) pre \<union> blks (p + n) post"
        using b p(1) by (auto simp: blks_append bt add.assoc)
      have "sizes_32 pre" "sizes_32 post" "32 \<le> n" using xinvD(4) [OF s] by simp_all
      then have "b \<noteq> p" using old(2) blks_bounds [of pre b m False "base s"] blks_bounds [of post b m False "p + n"] p(1) by auto
      then show ?thesis using all old(1) by auto
    qed simp
  qed
  moreover have "allocs (base s) (pre @ (k, True) # (n - k, False) # post) = insert (p, k) (allocs (base s) (pre @ (n, False) # post))"
    by (simp add: allocs_append p(1) add.assoc)
  ultimately show ?thesis using t True by auto
next
  case False
  have blk: "(p, n, False) \<in> blks (base s) (pre @ (n, False) # post)" unfolding p(1) by (rule blks_mid)
  obtain s' t pre' post' where t: "pre @ (n, False) # post = pre' @ (n, False) # post'" "p = base s + extent pre'"
    "set_header p n True s = Some s'" "set_footer p n True s' = Some t" "xinv t (pre' @ (n, True) # post') fl"
    "wrote ({p..<p + 8} \<union> {p + n - 8..<p + n}) s t" using retag [OF s blk p(2), of True] by blast
  note h = xinvD(4) [OF s] and b = blks_bounds [OF xinvD(4) [OF s] blk]
  have bt: "base t = base s" using t(6) by (simp add: base_def wrote_def)
  have "complete t (pre' @ (n, True) # post') fl"
    unfolding complete_def
  proof (intro allI impI)
    fix c m assume c: "(c, m, False) \<in> blks (base t) (pre' @ (n, True) # post')"
    then have old: "(c, m, False) \<in> blks (base s) pre' \<union> blks (p + n) post'"
      using t(2) by (auto simp: blks_append bt add.assoc)
    have "sizes_32 pre'" "sizes_32 post'" "32 \<le> n" using h t(1) by simp_all
    then have "c \<noteq> p" using old blks_bounds [of pre' c m False "base s"] blks_bounds [of post' c m False "p + n"] t(2) by auto
    moreover have "(c, m, False) \<in> blks (base s) (pre @ (n, False) # post)"
      unfolding t(1) using old t(2) by (auto simp: blks_append add.assoc)
    ultimately show "c \<in> set fl" using all by blast
  qed
  moreover have "allocs (base s) (pre' @ (n, True) # post') = insert (p, n) (allocs (base s) (pre @ (n, False) # post))"
    unfolding t(1) by (simp add: allocs_append t(2))
  moreover have "wrote ({p..<p + n} \<union> link_cells (set fl)) s t" by (rule wrote_mono [OF t(6)]) (use b in auto)
  ultimately show ?thesis using t(3-5) False k(3) by auto
qed

text \<open>A new block at the break.\<close>

lemma grow_ok:
  assumes s: "xinv s bs fl" and k: "32 \<le> k" "16 dvd k" "k < 2 ^ 63" and room: "mem_brk (mem s) + k \<le> heap (mem s) + MAX_HEAP"
    and u: "u = s\<lparr>mem := (mem s)\<lparr>mem_brk := mem_brk (mem s) + k\<rparr>,
      mm_heap_first := (if mm_heap_first s = 0 then mem_brk (mem s) else mm_heap_first s), mm_heap_last := mem_brk (mem s)\<rparr>"
  shows "\<exists>u' t. set_header (mem_brk (mem s)) k True u = Some u' \<and> set_footer (mem_brk (mem s)) k True u' = Some t
    \<and> xinv t (bs @ [(k, True)]) fl \<and> mem_brk (mem t) = mem_brk (mem s) + k \<and> heap (mem t) = heap (mem s)
    \<and> (\<forall>x. x < mem_brk (mem s) \<longrightarrow> cells (mem t) x = cells (mem s) x)"
proof -
  note h = xinvD [OF s]
  let ?e = "mem_brk (mem s)"
  have e: "?e = base s + extent bs" "0 \<le> extent bs" using h(3) extent_32 [OF h(4)] by auto
  have b: "heap (mem u) \<le> ?e" "?e + k \<le> heap (mem u) + MAX_HEAP" "16 \<le> k" using e room k by (auto simp: u base_def)
  obtain u' t where t: "set_header ?e k True u = Some u'" "set_footer ?e k True u' = Some t" "tag (mem t) ?e k True"
    "wrote {?e..<?e + k} u t" "t = u\<lparr>mem := mem t\<rparr>" using tag_write [OF b k(2,3)] by blast
  have old: "wrote {?e..<?e + k} (s\<lparr>mem := (mem s)\<lparr>mem_brk := ?e + k\<rparr>\<rparr>) t" using t(4) by (simp add: wrote_def u)
  have bt: "base t = base s" using t(4) by (simp add: base_def wrote_def u)
  have ld: "load (mem t) c = load (mem s) c" if "c + 8 \<le> ?e" for c
    using wrote_load [OF old, of c] that by (simp add: load_def mapped_def)
  have "tag (mem t) c n al" if c: "(c, n, al) \<in> blks (base s) (bs @ [(k, True)])" for c n al
  proof (cases "(c, n, al) \<in> blks (base s) bs")
    case True
    then show ?thesis using h(5) [OF True] blks_bounds [OF h(4) True] ld e by (simp add: tag_def)
  next
    case False
    then show ?thesis using c t(3) e by (simp add: blks_append)
  qed
  moreover have "links (mem t) fl"
  proof (rule links_cong [OF h(8)])
    fix x assume "x \<in> set fl"
    then obtain n where n: "(x, n, False) \<in> blks (base s) bs" using free_listD [OF h(7)] by blast
    show "load (mem t) (x + 8) = load (mem s) (x + 8) \<and> load (mem t) (x + 16) = load (mem s) (x + 16)"
      using ld blks_bounds [OF h(4) n] e by simp
  qed
  moreover have "free_list (base s) (bs @ [(k, True)]) fl" using h(7) by (auto simp: free_list_def blks_append)
  moreover have "heap_ends t (base s) (bs @ [(k, True)])"
    using h(1,6) e same_ptrs(1,2) [OF t(5)] by (auto simp: heap_ends_def u last_addr_append base_def region_base_def)
  moreover have "list_ends t fl" using h(9) same_ptrs(3,4) [OF t(5)] by (simp add: list_ends_def u)
  ultimately have "xinv t (bs @ [(k, True)]) fl"
    using h(1,2,4) k room old e bt by (simp add: xinv_def wrote_def region_base_def)
  then show ?thesis using t(1,2) old by (auto simp: wrote_def)
qed

lemma malloc_fit:
  assumes s: "xinv s bs fl" "complete s bs fl" and sz: "0 < sz" "sz < 2 ^ 62"
    and f: "find_fit (block_size_for sz) s = Some (p, s1)" "fl = us @ p # vs" "(p, n, False) \<in> blks (base s) bs" "block_size_for sz \<le> n"
    and s1: "xinv s1 bs (us @ vs)" "wrote (link_cells (set (us @ vs))) s s1"
  shows "\<exists>p t. mm_malloc sz s = Some (p, t) \<and> xalloc_spec sz s bs p t"
proof -
  define k where "k = block_size_for sz"
  note kb = request_size [OF sz, folded k_def] and h = xinvD [OF s(1)]
  have b1: "base s1 = base s" using s1(2) by (simp add: base_def wrote_def)
  have d: "p \<notin> set (us @ vs)" using h(7) f(2) by (simp add: free_list_def)
  obtain pre post where bs: "bs = pre @ (n, False) # post" and p: "p = base s1 + extent pre" using blks_split [OF f(3)] b1 by auto
  have all: "\<forall>b m. (b, m, False) \<in> blks (base s1) (pre @ (n, False) # post) \<longrightarrow> b = p \<or> b \<in> set (us @ vs)"
    using s(2) f(2) unfolding complete_def bs b1 by auto
  obtain t bs' fl' l where t: "(if n \<ge> k + 32 then split_block_exp p k n s1
      else do { s \<leftarrow> set_header p n True s1; s \<leftarrow> set_footer p n True s; Some (payload p, s) }) = Some (payload p, t)"
    "xinv t bs' fl'" "complete t bs' fl'" "wrote ({p..<p + n} \<union> link_cells (set (us @ vs))) s1 t" "k \<le> l"
    "allocs (base s) bs' = insert (p, l) (allocs (base s) bs)"
    using take_fit [OF s1(1) [unfolded bs] p d all kb(2,1)] f(4) unfolding k_def bs b1 by blast
  have pb: "base s \<le> p" "32 \<le> n" using blks_bounds [OF h(4) f(3)] by auto
  have p0: "p \<noteq> 0" using pb(1) h(1) by (auto simp: base_def region_base_def)
  have "get_size p s1 = Some n" using tag_read(1) [OF s1(1)] f(3) b1 by simp
  then have mm: "mm_malloc sz s = Some (payload p, t)"
    using f(1) p0 t(1) kb(6) by (simp add: mm_malloc_def k_def [symmetric] split: if_splits)
  have cells_sub: "{p..<p + n} \<union> link_cells (set (us @ vs)) \<subseteq> free_cells (base s) bs"
  proof -
    have "link_cells (set (us @ vs)) \<subseteq> link_cells (set fl)" using f(2) by (intro link_cells_mono) auto
    moreover have "{p..<p + n} \<subseteq> free_cells (base s) bs" using f(3) free_cells_blks by fastforce
    ultimately show ?thesis using link_cells_free [OF h(4,7)] by blast
  qed
  then have w: "wrote (free_cells (base s) bs) s t" using wrote_trans [OF s1(2) t(4)] by auto
  have fresh: "(p, j) \<notin> allocs (base s) bs" for j
    unfolding allocs_blks using blks_disjoint [OF h(4) f(3), of p j True] blks_bounds [OF h(4), of p j True "base s"] pb(2) by auto
  have "sz + 16 \<le> l" using t(5) kb(3) by linarith
  then have "xalloc_spec sz s bs (payload p) t"
    using t(2,3,6) w fresh pb(1) sz(1) unfolding xalloc_spec_def payload_def wrote_def by auto
  then show ?thesis using mm by blast
qed

lemma malloc_grow:
  assumes s: "xinv s bs fl" "complete s bs fl" and sz: "0 < sz" "sz < 2 ^ 62" and f: "find_fit (block_size_for sz) s = Some (0, s)"
  shows "\<exists>p t. mm_malloc sz s = Some (p, t) \<and> xalloc_spec sz s bs p t"
proof -
  define k where "k = block_size_for sz"
  note kb = request_size [OF sz, folded k_def] and h = xinvD [OF s(1)]
  have ss: "ssize k = k" using kb(5) by (simp add: ssize_def)
  have e: "mem_brk (mem s) = base s + extent bs" "0 \<le> extent bs" using h(3) extent_32 [OF h(4)] by auto
  have e0: "0 < base s" "mem_brk (mem s) \<noteq> -1" using h(1) e by (auto simp: base_def region_base_def)
  show ?thesis
  proof (cases "mem_brk (mem s) + k > heap (mem s) + MAX_HEAP")
    case True
    then have "mm_malloc sz s = Some (0, s)" using f by (simp add: mm_malloc_def k_def [symmetric] ss mem_sbrk_def)
    moreover have "xalloc_spec sz s bs 0 s"
      unfolding xalloc_spec_def using s True kb(4) sz(1) by (intro exI [of _ bs] exI [of _ fl]) (simp add: room_def)
    ultimately show ?thesis by blast
  next
    case False
    define u where "u = s\<lparr>mem := (mem s)\<lparr>mem_brk := mem_brk (mem s) + k\<rparr>,
      mm_heap_first := (if mm_heap_first s = 0 then mem_brk (mem s) else mm_heap_first s), mm_heap_last := mem_brk (mem s)\<rparr>"
    obtain u' t where t: "set_header (mem_brk (mem s)) k True u = Some u'" "set_footer (mem_brk (mem s)) k True u' = Some t"
      "xinv t (bs @ [(k, True)]) fl" "mem_brk (mem t) = mem_brk (mem s) + k" "heap (mem t) = heap (mem s)"
      "\<forall>x. x < mem_brk (mem s) \<longrightarrow> cells (mem t) x = cells (mem s) x"
      using grow_ok [OF s(1) kb(2,1,5) _ u_def] False by auto
    have "mem_sbrk (ssize k) (mem s) = (mem_brk (mem s), (mem s)\<lparr>mem_brk := mem_brk (mem s) + k\<rparr>)"
      using False kb(2) by (simp add: ss mem_sbrk_def)
    then have mm: "mm_malloc sz s = Some (payload (mem_brk (mem s)), t)"
      using f e0 t(1,2) unfolding u_def by (simp add: mm_malloc_def k_def [symmetric])
    have bt: "base t = base s" using t(5) by (simp add: base_def)
    have cm: "complete t (bs @ [(k, True)]) fl" using s(2) unfolding complete_def bt by (auto simp: blks_append)
    have al: "allocs (base s) (bs @ [(k, True)]) = insert (mem_brk (mem s), k) (allocs (base s) bs)" using e by (simp add: allocs_append)
    have fresh: "(mem_brk (mem s), j) \<notin> allocs (base s) bs" for j
      unfolding allocs_blks using blks_bounds [OF h(4), of "mem_brk (mem s)" j True "base s"] e by auto
    have "xalloc_spec sz s bs (payload (mem_brk (mem s))) t"
      unfolding xalloc_spec_def payload_def
      using t(3-6) cm al fresh kb(2-4) e by (intro exI [of _ "bs @ [(k, True)]"] exI [of _ fl]) auto
    then show ?thesis using mm by blast
  qed
qed

lemma malloc_at:
  assumes s: "xinv s bs fl" "complete s bs fl" and sz: "0 < sz" "sz < 2 ^ 62"
  shows "\<exists>p t. mm_malloc sz s = Some (p, t) \<and> xalloc_spec sz s bs p t"
  using find_fit_ok [OF s(1), of "block_size_for sz"] malloc_grow [OF s sz] malloc_fit [OF s sz] by blast

section \<open>Release\<close>

text \<open>The block at \<open>b\<close> is free and the only one that is not in the list.\<close>

definition pending :: "mm \<Rightarrow> blocks \<Rightarrow> int \<Rightarrow> blocks \<Rightarrow> int list \<Rightarrow> int \<Rightarrow> bool" where
  "pending s pre n post fl b \<longleftrightarrow> xinv s (pre @ (n, False) # post) fl \<and> b = base s + extent pre \<and> b \<notin> set fl
     \<and> (\<forall>c m. (c, m, False) \<in> blks (base s) (pre @ (n, False) # post) \<longrightarrow> c = b \<or> c \<in> set fl)"

text \<open>Two neighbours outside the list become one free block.\<close>

lemma merge_ok:
  assumes s: "xinv s (pre @ [(m, ml), (n, nl)] @ post) fl" and q: "q = base s + extent pre" "q \<notin> set fl" "q + m \<notin> set fl"
    and u: "u = s\<lparr>mm_heap_last := if q + m = mm_heap_last s then q else mm_heap_last s\<rparr>"
  shows "\<exists>u' t. set_header q (m + n) False u = Some u' \<and> set_footer q (m + n) False u' = Some t
    \<and> xinv t (pre @ (m + n, False) # post) fl \<and> wrote {q..<q + (m + n)} s t"
proof -
  note h = xinvD [OF s]
  have bm: "(q, m, ml) \<in> blks (base s) (pre @ [(m, ml), (n, nl)] @ post)" "(q + m, n, nl) \<in> blks (base s) (pre @ [(m, ml), (n, nl)] @ post)"
    by (simp_all add: blks_append q(1) add.assoc)
  have ok: "sizes_32 pre" "32 \<le> m" "32 \<le> n" "16 dvd m" "16 dvd n" "sizes_32 post" using h(4) by simp_all
  then have d: "16 \<le> m + n" "16 dvd m + n" by auto
  have bd: "heap (mem u) \<le> q" "q + (m + n) \<le> heap (mem u) + MAX_HEAP" "m + n < 2 ^ 63"
    using q(1) extent_32 [OF ok(1)] extent_32 [OF ok(6)] h(1-3) ok(2,3) by (auto simp: base_def region_base_def u)
  obtain u' t where t: "set_header q (m + n) False u = Some u'" "set_footer q (m + n) False u' = Some t" "tag (mem t) q (m + n) False"
    "wrote {q..<q + (m + n)} u t" "t = u\<lparr>mem := mem t\<rparr>" using tag_write [OF bd(1,2) d bd(3), of False] by blast
  have w: "wrote {q..<q + (m + n)} s t" using t(4) by (simp add: wrote_def u)
  have last: "q + m = mm_heap_last s \<longleftrightarrow> post = []"
    using last_block [of s "pre @ [(m, ml)]" n nl post fl "q + m"] s q(1) by (simp add: add.assoc)
  have "xinv t (pre @ [(m + n, False)] @ post) fl"
  proof (rule xreplace [OF s q(1)])
    show "x < q \<or> q + extent [(m, ml), (n, nl)] \<le> x" if "x \<in> set fl" for x
      using free_outside [OF s bm(1) q(2) that] free_outside [OF s bm(2) q(3) that] by auto
    show "mm_heap_last t = (if post = [] then last_addr q [(m + n, False)] else mm_heap_last s)"
      using same_ptrs(2) [OF t(5)] last by (simp add: u)
  qed (use t(3) w ok d same_ptrs [OF t(5)] in \<open>simp_all add: u\<close>)
  then show ?thesis using t(1,2) w by auto
qed

text \<open>The removal of one free block from a list that holds all of them but \<open>b\<close>.\<close>

lemma take_out:
  assumes s: "xinv s bs fl" and q: "q \<in> set fl"
  shows "\<exists>t us vs. fl = us @ q # vs \<and> remove_from_freelist q s = Some (q, t) \<and> xinv t bs (us @ vs) \<and> q \<notin> set (us @ vs)
    \<and> set fl = insert q (set (us @ vs)) \<and> wrote (free_cells (base s) bs) s t
    \<and> mm_heap_first t = mm_heap_first s \<and> mm_heap_last t = mm_heap_last s"
proof -
  obtain us vs where fl: "fl = us @ q # vs" using q by (meson split_list)
  then obtain t where t: "remove_from_freelist q s = Some (q, t)" "xinv t bs (us @ vs)" "wrote (link_cells (set (us @ vs))) s t"
    "mm_heap_first t = mm_heap_first s" "mm_heap_last t = mm_heap_last s" using remove_ok [of s bs us q vs] s by blast
  have "link_cells (set (us @ vs)) \<subseteq> link_cells (set fl)" using fl by (intro link_cells_mono) auto
  then have "wrote (free_cells (base s) bs) s t"
    using wrote_mono [OF t(3)] link_cells_free [OF xinvD(4,7) [OF s]] by blast
  moreover have "q \<notin> set (us @ vs)" using xinvD(7) [OF s] fl by (simp add: free_list_def)
  ultimately show ?thesis using fl t by auto
qed

text \<open>What merging with a neighbour leaves: \<open>b\<close> was not in use before, or was the released block.\<close>

lemma left_alone:
  assumes s: "xinv s (pre @ (n, True) # post) fl" "complete s (pre @ (n, True) # post) fl" and b: "b = base s + extent pre"
    and code: "coalesce_left b s = do { s \<leftarrow> set_header b n False s; s \<leftarrow> set_footer b n False s; Some (b, s) }"
  shows "\<exists>t. coalesce_left b s = Some (b, t) \<and> pending t pre n post fl b \<and> wrote {b..<b + n} s t"
proof -
  have blk: "(b, n, True) \<in> blks (base s) (pre @ (n, True) # post)" unfolding b by (rule blks_mid)
  note bd = blks_bounds [OF xinvD(4) [OF s(1)] blk]
  have nf: "b \<notin> set fl" by (rule alloc_not_listed [OF s(1) blk])
  have hb: "heap (mem s) \<le> b" "b + n \<le> heap (mem s) + MAX_HEAP" "16 \<le> n" "n < 2 ^ 63"
    using bd xinvD(1-3) [OF s(1)] by (auto simp: base_def region_base_def)
  obtain s' t where t: "set_header b n False s = Some s'" "set_footer b n False s' = Some t" "tag (mem t) b n False"
    "wrote {b..<b + n} s t" "t = s\<lparr>mem := mem t\<rparr>" using tag_write [OF hb(1-3) _ hb(4), of False] bd by blast
  have "xinv t (pre @ [(n, False)] @ post) fl"
  proof (rule xreplace [where mid = "[(n, True)]" and p = b])
    show "x < b \<or> b + extent [(n, True)] \<le> x" if "x \<in> set fl" for x using free_outside [OF s(1) blk nf that] by auto
    show "mm_heap_last t = (if post = [] then last_addr b [(n, False)] else mm_heap_last s)"
      using same_ptrs(2) [OF t(5)] last_block [OF s(1) b] by auto
  qed (use s(1) b t(3,4) bd same_ptrs [OF t(5)] in simp_all)
  moreover have bt: "base t = base s" using t(4) by (simp add: base_def wrote_def)
  moreover have "c = b \<or> c \<in> set fl" if "(c, m, False) \<in> blks (base t) (pre @ (n, False) # post)" for c m
    using s(2) that unfolding complete_def bt b by (auto simp: blks_append)
  ultimately have "pending t pre n post fl b" using b nf unfolding pending_def by auto
  then show ?thesis using code t(1,2,4) by auto
qed

lemma allocs_release:
  assumes "sizes_32 (pre @ (n, True) # post)"
  shows "allocs a (pre @ (n, False) # post) = allocs a (pre @ (n, True) # post) - {(a + extent pre, n)}"
proof -
  have ok: "sizes_32 pre" "sizes_32 post" "32 \<le> n" using assms by simp_all
  have "(a + extent pre, n) \<notin> allocs a pre" unfolding allocs_blks using blks_bounds [OF ok(1), of _ n True a] ok(3) by force
  moreover have "(a + extent pre, n) \<notin> allocs (a + extent pre + n) post"
    unfolding allocs_blks using blks_bounds [OF ok(2), of _ n True "a + extent pre + n"] ok(3) by force
  ultimately show ?thesis by (auto simp: allocs_append)
qed

lemma left_merge:
  assumes s: "xinv s (pre @ (m, False) # (n, True) # post) fl" "complete s (pre @ (m, False) # (n, True) # post) fl"
    and q: "q = base s + extent pre"
  shows "\<exists>t fl'. coalesce_left (q + m) s = Some (q, t) \<and> pending t pre (m + n) post fl' q
    \<and> wrote (free_cells (base s) (pre @ (m, False) # (n, True) # post) \<union> {q + m..<q + m + n}) s t"
proof -
  let ?bs = "pre @ (m, False) # (n, True) # post"
  note h = xinvD [OF s(1)]
  have qb: "(q, m, False) \<in> blks (base s) ?bs" and blk: "(q + m, n, True) \<in> blks (base s) ?bs"
    using q by (simp_all add: blks_append add.assoc)
  note r = tag_read [OF s(1) blk] and rq = tag_read [OF s(1) qb] and bd = blks_bounds [OF h(4) qb]
  have ne: "q + m \<noteq> mm_heap_first s" using bd h(6) by (simp add: heap_ends_def)
  have "q \<in> set fl" using s(2) qb by (auto simp: complete_def)
  then obtain s1 us vs where s1: "remove_from_freelist q s = Some (q, s1)" "xinv s1 ?bs (us @ vs)" "q \<notin> set (us @ vs)"
    "set fl = insert q (set (us @ vs))" "wrote (free_cells (base s) ?bs) s s1"
    "mm_heap_first s1 = mm_heap_first s" "mm_heap_last s1 = mm_heap_last s" using take_out [OF s(1)] by blast
  have b1: "base s1 = base s" using s1(5) by (simp add: base_def wrote_def)
  have nb: "q + m \<notin> set (us @ vs)" using alloc_not_listed [OF s(1) blk] s1(4) by blast
  define u where "u = s1\<lparr>mm_heap_last := if q + m = mm_heap_last s1 then q else mm_heap_last s1\<rparr>"
  obtain u' t where t: "set_header q (m + n) False u = Some u'" "set_footer q (m + n) False u' = Some t"
    "xinv t (pre @ (m + n, False) # post) (us @ vs)" "wrote {q..<q + (m + n)} s1 t"
    using merge_ok [of s1 pre m False n True post "us @ vs" q u] s1(2,3) nb u_def q b1 by auto
  have upd: "(if q + m = mm_heap_last s1 then s1\<lparr>mm_heap_last := q\<rparr> else s1) = u" by (simp add: u_def)
  have code: "coalesce_left (q + m) s = Some (q, t)"
    using r(1) ne rq s1(1) t(1,2) upd by (simp add: coalesce_left_def)
  have bt: "base t = base s" using t(4) b1 by (simp add: base_def wrote_def)
  have "x = q \<or> x \<in> set (us @ vs)" if "(x, k, False) \<in> blks (base t) (pre @ (m + n, False) # post)" for x k
  proof (cases "x = q")
    case False
    then have "(x, k, False) \<in> blks (base s) ?bs" using that q unfolding bt by (auto simp: blks_append add.assoc)
    then show ?thesis using s(2) s1(4) unfolding complete_def by blast
  qed simp
  then have "pending t pre (m + n) post (us @ vs) q" unfolding pending_def using t(3) s1(3) bt q by auto
  moreover have "wrote (free_cells (base s) ?bs \<union> {q + m..<q + m + n}) s t"
  proof (rule wrote_trans [OF s1(5) t(4)])
    have "{q..<q + m} \<subseteq> free_cells (base s) ?bs" using qb free_cells_blks by fastforce
    then show "{q..<q + (m + n)} \<subseteq> free_cells (base s) ?bs \<union> {q + m..<q + m + n}" by force
  qed simp
  ultimately show ?thesis using code by blast
qed

lemma coalesce_left_ok:
  assumes s: "xinv s (pre @ (n, True) # post) fl" "complete s (pre @ (n, True) # post) fl" and b: "b = base s + extent pre"
  shows "\<exists>t b' pre' n' fl'. coalesce_left b s = Some (b', t) \<and> pending t pre' n' post fl' b'
    \<and> allocs (base s) (pre' @ (n', False) # post) = allocs (base s) (pre @ (n, True) # post) - {(b, n)}
    \<and> wrote (free_cells (base s) (pre @ (n, True) # post) \<union> {b..<b + n}) s t"
proof -
  note h = xinvD [OF s(1)]
  have first: "mm_heap_first s = base s" using h(6) by (simp add: heap_ends_def)
  have blk: "(b, n, True) \<in> blks (base s) (pre @ (n, True) # post)" unfolding b by (rule blks_mid)
  note r = tag_read [OF s(1) blk]
  have rel: "allocs (base s) (pre @ (n, False) # post) = allocs (base s) (pre @ (n, True) # post) - {(b, n)}"
    using allocs_release [OF h(4)] b by simp
  have alone: ?thesis if c: "coalesce_left b s = do { s \<leftarrow> set_header b n False s; s \<leftarrow> set_footer b n False s; Some (b, s) }"
    using left_alone [OF s b c] rel wrote_mono [OF _ Un_upper2] by blast
  show ?thesis
  proof (cases pre rule: rev_cases)
    case Nil
    then show ?thesis using alone r(1) first b by (simp add: coalesce_left_def)
  next
    case (snoc pre' c)
    obtain m ml where c: "c = (m, ml)" by (cases c)
    define q where "q = base s + extent pre'"
    have bq: "b = q + m" using b snoc c by (simp add: q_def)
    have bl: "pre @ (n, True) # post = pre' @ (m, ml) # (n, True) # post" using snoc c by simp
    have qb: "(q, m, ml) \<in> blks (base s) (pre @ (n, True) # post)" unfolding bl q_def by (rule blks_mid)
    show ?thesis
    proof (cases ml)
      case True
      then show ?thesis using alone r(1) tag_read [OF s(1) qb] blks_bounds [OF h(4) qb] first bq by (simp add: coalesce_left_def)
    next
      case False
      have "allocs (base s) (pre' @ (m + n, False) # post) = allocs (base s) (pre @ (n, True) # post) - {(b, n)}"
        unfolding rel [symmetric] using snoc c False by (simp add: allocs_append add.assoc)
      moreover have ml: "ml = False" using False by simp
      ultimately show ?thesis using left_merge [OF s [unfolded bl ml] q_def] unfolding bl bq ml by blast
    qed
  qed
qed

lemma right_alone:
  assumes s: "pending s pre n post fl b"
    and code: "coalesce_right b s = do { s \<leftarrow> set_header b n False s; s \<leftarrow> set_footer b n False s; Some (b, s) }"
  shows "\<exists>t. coalesce_right b s = Some (b, t) \<and> pending t pre n post fl b \<and> wrote {b..<b + n} s t"
proof -
  have x: "xinv s (pre @ (n, False) # post) fl" "b \<notin> set fl" using s unfolding pending_def by blast+
  have blk: "(b, n, False) \<in> blks (base s) (pre @ (n, False) # post)" using s blks_mid by (auto simp: pending_def)
  obtain s' t where t: "set_header b n False s = Some s'" "set_footer b n False s' = Some t" "xinv t (pre @ (n, False) # post) fl"
    "wrote ({b..<b + 8} \<union> {b + n - 8..<b + n}) s t" using retag [OF x(1) blk x(2), of False] by metis
  have bt: "base t = base s" using t(4) by (simp add: base_def wrote_def)
  have "pending t pre n post fl b" using s t(3) unfolding pending_def bt by blast
  moreover have "wrote {b..<b + n} s t" by (rule wrote_mono [OF t(4)]) (use blks_bounds [OF xinvD(4) [OF x(1)] blk] in auto)
  ultimately show ?thesis using code t(1,2) by auto
qed

lemma right_merge:
  assumes s: "pending s pre n ((m, False) # post) fl b"
  shows "\<exists>t fl'. coalesce_right b s = Some (b, t) \<and> pending t pre (n + m) post fl' b
    \<and> wrote (free_cells (base s) (pre @ (n, False) # (m, False) # post)) s t"
proof -
  let ?bs = "pre @ (n, False) # (m, False) # post"
  have x: "xinv s ?bs fl" "b = base s + extent pre" "b \<notin> set fl" "\<And>c k. (c, k, False) \<in> blks (base s) ?bs \<Longrightarrow> c = b \<or> c \<in> set fl"
    using s unfolding pending_def by blast+
  note h = xinvD [OF x(1)]
  have blk: "(b, n, False) \<in> blks (base s) ?bs" "(b + n, m, False) \<in> blks (base s) ?bs" using x(2) by (simp_all add: blks_append add.assoc)
  note r = tag_read [OF x(1) blk(1)] and rm = tag_read [OF x(1) blk(2)] and bd = blks_bounds [OF h(4) blk(1)]
  have nl: "b \<noteq> mm_heap_last s" using last_block [OF x(1,2)] by simp
  have "b + n \<in> set fl" using x(4) [OF blk(2)] bd by auto
  then obtain s1 us vs where s1: "remove_from_freelist (b + n) s = Some (b + n, s1)" "xinv s1 ?bs (us @ vs)" "b + n \<notin> set (us @ vs)"
    "set fl = insert (b + n) (set (us @ vs))" "wrote (free_cells (base s) ?bs) s s1" "mm_heap_last s1 = mm_heap_last s" using take_out [OF x(1)] by blast
  have b1: "base s1 = base s" using s1(5) by (simp add: base_def wrote_def)
  have nb: "b \<notin> set (us @ vs)" using x(3) s1(4) by blast
  define u where "u = s1\<lparr>mm_heap_last := if b + n = mm_heap_last s1 then b else mm_heap_last s1\<rparr>"
  obtain u' t where t: "set_header b (n + m) False u = Some u'" "set_footer b (n + m) False u' = Some t"
    "xinv t (pre @ (n + m, False) # post) (us @ vs)" "wrote {b..<b + (n + m)} s1 t"
    using merge_ok [of s1 pre n False m False post "us @ vs" b u] s1(2,3) nb u_def x(2) b1 by auto
  have upd: "(if b + n = mm_heap_last s1 then s1\<lparr>mm_heap_last := b\<rparr> else s1) = u" by (simp add: u_def)
  have "coalesce_right b s = Some (b, t)"
    using r(1) nl rm(1,2) s1(1) t(1,2) upd by (simp add: coalesce_right_def)
  moreover have bt: "base t = base s" using t(4) b1 by (simp add: base_def wrote_def)
  moreover have "c = b \<or> c \<in> set (us @ vs)" if "(c, k, False) \<in> blks (base t) (pre @ (n + m, False) # post)" for c k
  proof (cases "c = b")
    case False
    then have c: "(c, k, False) \<in> blks (base s) pre \<union> blks (b + n + m) post" using that x(2) by (auto simp: blks_append bt add.assoc)
    have ok: "sizes_32 pre" "sizes_32 post" "32 \<le> m" "32 \<le> n" using h(4) by simp_all
    have "c \<noteq> b + n" using c blks_bounds [OF ok(1), of c k False "base s"] blks_bounds [OF ok(2), of c k False "b + n + m"] ok x(2) by auto
    moreover have "(c, k, False) \<in> blks (base s) ?bs" using c x(2) by (auto simp: blks_append add.assoc)
    ultimately show ?thesis using x(4) s1(4) False by blast
  qed simp
  ultimately have "coalesce_right b s = Some (b, t)" "pending t pre (n + m) post (us @ vs) b"
    using t(3) nb x(2) by (auto simp: pending_def)
  moreover have "wrote (free_cells (base s) ?bs) s t"
  proof (rule wrote_trans [OF s1(5) t(4)])
    show "{b..<b + (n + m)} \<subseteq> free_cells (base s) ?bs"
    proof
      fix y assume "y \<in> {b..<b + (n + m)}"
      then have "b \<le> y \<and> y < b + n \<or> b + n \<le> y \<and> y < b + n + m" by auto
      then show "y \<in> free_cells (base s) ?bs" using blk free_cells_blks by blast
    qed
  qed simp
  ultimately show ?thesis by blast
qed

lemma coalesce_right_ok:
  assumes s: "pending s pre n post fl b"
  shows "\<exists>t n' post' fl'. coalesce_right b s = Some (b, t) \<and> pending t pre n' post' fl' b
    \<and> allocs (base s) (pre @ (n', False) # post') = allocs (base s) (pre @ (n, False) # post)
    \<and> wrote (free_cells (base s) (pre @ (n, False) # post)) s t"
proof -
  have x: "xinv s (pre @ (n, False) # post) fl" "b = base s + extent pre" using s unfolding pending_def by blast+
  have blk: "(b, n, False) \<in> blks (base s) (pre @ (n, False) # post)" unfolding x(2) by (rule blks_mid)
  note r = tag_read [OF x(1) blk]
  have sub: "{b..<b + n} \<subseteq> free_cells (base s) (pre @ (n, False) # post)" using blk free_cells_blks by fastforce
  have alone: ?thesis if c: "coalesce_right b s = do { s \<leftarrow> set_header b n False s; s \<leftarrow> set_footer b n False s; Some (b, s) }"
    using right_alone [OF s c] wrote_mono [OF _ sub] by blast
  show ?thesis
  proof (cases post)
    case Nil
    then show ?thesis using alone r(1) last_block [OF x] by (simp add: coalesce_right_def)
  next
    case (Cons c post')
    obtain m ml where c: "c = (m, ml)" by (cases c)
    show ?thesis
    proof (cases ml)
      case True
      have "(b + n, m, ml) \<in> blks (base s) (pre @ (n, False) # post)" using x(2) Cons c by (simp add: blks_append add.assoc)
      then show ?thesis using alone r(1) last_block [OF x] tag_read [OF x(1)] True Cons by (simp add: coalesce_right_def)
    next
      case False
      then have s': "pending s pre n ((m, False) # post') fl b" using s Cons c by simp
      obtain t fl' where t: "coalesce_right b s = Some (b, t)" "pending t pre (n + m) post' fl' b"
        "wrote (free_cells (base s) (pre @ (n, False) # (m, False) # post')) s t" using right_merge [OF s'] by blast
      then show ?thesis using Cons c False by (fastforce simp: allocs_append add.assoc)
    qed
  qed
qed

lemma blks_cover: "sizes_32 bs \<Longrightarrow> a \<le> x \<Longrightarrow> x < a + extent bs \<Longrightarrow> \<exists>b n al. (b, n, al) \<in> blks a bs \<and> b \<le> x \<and> x < b + n"
proof (induction bs arbitrary: a)
  case (Cons c bs)
  obtain n al where c: "c = (n, al)" by (cases c)
  show ?case
  proof (cases "x < a + n")
    case True
    then show ?thesis using Cons.prems c by auto
  next
    case False
    then show ?thesis using Cons.IH [of "a + n"] Cons.prems c by auto
  qed
qed simp

text \<open>The free cells are those between the ends of the heap that no allocated block has.\<close>

lemma free_cells_complement:
  assumes "sizes_32 bs"
  shows "x \<in> free_cells a bs \<longleftrightarrow> a \<le> x \<and> x < a + extent bs \<and> (\<forall>c k. (c, k) \<in> allocs a bs \<longrightarrow> x < c \<or> c + k \<le> x)"
proof
  assume f: "x \<in> free_cells a bs"
  then obtain b n where b: "(b, n, False) \<in> blks a bs" "b \<le> x" "x < b + n" using free_cells_blks by blast
  have "x < c \<or> c + k \<le> x" if "(c, k) \<in> allocs a bs" for c k
    using blks_disjoint [OF assms b(1), of c k True] that b(2,3) unfolding allocs_blks by auto
  then show "a \<le> x \<and> x < a + extent bs \<and> (\<forall>c k. (c, k) \<in> allocs a bs \<longrightarrow> x < c \<or> c + k \<le> x)"
    using blks_bounds [OF assms b(1)] b(2,3) by auto
next
  assume r: "a \<le> x \<and> x < a + extent bs \<and> (\<forall>c k. (c, k) \<in> allocs a bs \<longrightarrow> x < c \<or> c + k \<le> x)"
  then obtain b n al where b: "(b, n, al) \<in> blks a bs" "b \<le> x" "x < b + n" using blks_cover [OF assms] by blast
  then have "\<not> al" using r unfolding allocs_blks by force
  then show "x \<in> free_cells a bs" using b unfolding free_cells_blks by auto
qed

lemma free_cells_after:
  assumes s: "xinv s bs fl" and t: "xinv t bs' fl'" "base t = base s" "mem_brk (mem t) = mem_brk (mem s)"
    and al: "allocs (base s) bs' = allocs (base s) bs - {(b, n)}"
  shows "free_cells (base s) bs' \<subseteq> free_cells (base s) bs \<union> {b..<b + n}"
proof
  fix x assume x: "x \<in> free_cells (base s) bs'"
  have e: "extent bs' = extent bs" using xinvD(3) [OF s] xinvD(3) [OF t(1)] t(2,3) by simp
  note c = x [unfolded free_cells_complement [OF xinvD(4) [OF t(1)]] al e]
  show "x \<in> free_cells (base s) bs \<union> {b..<b + n}"
  proof (cases "x \<in> {b..<b + n}")
    case False
    have "x < d \<or> d + k \<le> x" if "(d, k) \<in> allocs (base s) bs" for d k
      using c that False by (cases "(d, k) = (b, n)") auto
    then show ?thesis using c unfolding Un_iff free_cells_complement [OF xinvD(4) [OF s]] by blast
  qed simp
qed

lemma free_at:
  assumes s: "xinv s bs fl" "complete s bs fl" and al: "(b, n) \<in> allocs (base s) bs"
  shows "\<exists>t bs' fl'. mm_free (payload b) s = Some t \<and> xinv t bs' fl' \<and> complete t bs' fl'
    \<and> allocs (base s) bs' = allocs (base s) bs - {(b, n)} \<and> wrote (free_cells (base s) bs \<union> {b..<b + n}) s t"
proof -
  let ?F = "free_cells (base s) bs \<union> {b..<b + n}"
  have blk: "(b, n, True) \<in> blks (base s) bs" using al by (simp add: allocs_blks)
  obtain pre post where bs: "bs = pre @ (n, True) # post" and b: "b = base s + extent pre" using blks_split [OF blk] by blast
  obtain s1 b' pre' n' fl1 where s1: "coalesce_left b s = Some (b', s1)" "pending s1 pre' n' post fl1 b'"
    "allocs (base s) (pre' @ (n', False) # post) = allocs (base s) bs - {(b, n)}" "wrote ?F s s1"
    using coalesce_left_ok [of s pre n post fl b] s b unfolding bs by blast
  have b1: "base s1 = base s" "mem_brk (mem s1) = mem_brk (mem s)" using s1(4) by (simp_all add: base_def wrote_def)
  have x1: "xinv s1 (pre' @ (n', False) # post) fl1" using s1(2) by (simp add: pending_def)
  obtain s2 n2 post2 fl2 where s2: "coalesce_right b' s1 = Some (b', s2)" "pending s2 pre' n2 post2 fl2 b'"
    "allocs (base s) (pre' @ (n2, False) # post2) = allocs (base s) bs - {(b, n)}"
    "wrote (free_cells (base s) (pre' @ (n', False) # post)) s1 s2"
    using coalesce_right_ok [OF s1(2)] s1(3) unfolding b1(1) by auto
  have b2: "base s2 = base s" "mem_brk (mem s2) = mem_brk (mem s)" using s2(4) b1 by (simp_all add: base_def wrote_def)
  let ?bs = "pre' @ (n2, False) # post2"
  have x2: "xinv s2 ?bs fl2" "b' = base s2 + extent pre'" "b' \<notin> set fl2" "\<And>c m. (c, m, False) \<in> blks (base s2) ?bs \<Longrightarrow> c = b' \<or> c \<in> set fl2"
    using s2(2) unfolding pending_def by blast+
  have blk2: "(b', n2, False) \<in> blks (base s2) ?bs" unfolding x2(2) by (rule blks_mid)
  obtain t where t: "add_to_freelist b' s2 = Some t" "xinv t ?bs (b' # fl2)" "wrote ({b'..<b' + n2} \<union> link_cells (set fl2)) s2 t"
    using add_ok [OF x2(1) blk2 x2(3)] by blast
  have bt: "base t = base s" using t(3) b2 by (simp add: base_def wrote_def)
  have "complete t ?bs (b' # fl2)" using x2(4) unfolding complete_def bt b2(1) by auto
  moreover have "wrote ?F s t"
  proof -
    have "{b'..<b' + n2} \<union> link_cells (set fl2) \<subseteq> free_cells (base s) ?bs"
      using blk2 free_cells_blks link_cells_free [OF xinvD(4,7) [OF x2(1)]] unfolding b2(1) by fastforce
    then have f2: "{b'..<b' + n2} \<union> link_cells (set fl2) \<subseteq> ?F" using free_cells_after [OF s(1) x2(1) b2 s2(3)] by blast
    have f1: "free_cells (base s) (pre' @ (n', False) # post) \<subseteq> ?F" by (rule free_cells_after [OF s(1) x1 b1 s1(3)])
    show ?thesis by (rule wrote_trans [OF wrote_trans [OF s1(4) s2(4) order_refl f1] t(3) order_refl f2])
  qed
  moreover have "payload b \<noteq> 0" using blks_bounds [OF xinvD(4) [OF s(1)] blk] xinvD(1) [OF s(1)] by (auto simp: payload_def base_def region_base_def)
  then have "mm_free (payload b) s = Some t"
    using s1(1) s2(1) t(1) by (simp add: mm_free_def block_from_payload_def payload_def)
  ultimately show ?thesis using t(2) s2(3) by blast
qed

section \<open>The allocator interface\<close>

definition xpayloads :: "(int \<times> int) set \<Rightarrow> (int \<times> int) set" where
  "xpayloads A = (\<lambda>(b, n). (payload b, n - 16)) ` A"

definition xlive :: "mm \<Rightarrow> (int \<times> int) set \<Rightarrow> bool" where
  "xlive s L \<longleftrightarrow> (\<exists>bs fl. xinv s bs fl \<and> complete s bs fl \<and> L = xpayloads (allocs (base s) bs))"

lemma xliveE:
  assumes "xlive s L"
  obtains bs fl where "xinv s bs fl" "complete s bs fl" "L = xpayloads (allocs (base s) bs)"
  using assms by (auto simp: xlive_def)

lemma in_xpayloads: "(p, k) \<in> xpayloads A \<longleftrightarrow> (p - 8, k + 16) \<in> A"
  by (force simp: xpayloads_def payload_def image_iff)

lemma xpayloads_insert: "xpayloads (insert (b, n) A) = insert (payload b, n - 16) (xpayloads A)"
  by (simp add: xpayloads_def)

lemma xpayloads_remove: "xpayloads (A - {(b, n)}) = xpayloads A - {(payload b, n - 16)}"
  by (auto simp: xpayloads_def payload_def image_iff)

lemma xlive_block:
  assumes "xinv s bs fl" and "L = xpayloads (allocs (base s) bs)" and "(p, k) \<in> L"
  shows "(p - 8, k + 16, True) \<in> blks (base s) bs" "base s \<le> p - 8" "p + k + 8 \<le> mem_brk (mem s)" "16 \<le> k" "16 dvd p"
proof -
  show blk: "(p - 8, k + 16, True) \<in> blks (base s) bs" using assms(2,3) in_xpayloads allocs_blks by simp
  note b = blks_bounds [OF xinvD(4) [OF assms(1)] blk]
  show "base s \<le> p - 8" "p + k + 8 \<le> mem_brk (mem s)" "16 \<le> k" using b xinvD(3) [OF assms(1)] by auto
  have "p = (p - 8 - base s) + (heap (mem s) + 16)" by (simp add: base_def)
  moreover have "16 dvd heap (mem s) + 16" using xinvD(1) [OF assms(1)] by (simp add: region_base_def)
  ultimately show "16 dvd p" using b by (metis dvd_add)
qed

lemma xlive_malloc:
  assumes "xlive s L" and "0 < sz" and "sz < 2 ^ 62"
  shows "\<exists>p t. mm_malloc sz s = Some (p, t) \<and> kept L (mem s) (mem t)
    \<and> (p = 0 \<and> room (mem s) < sz + 32 \<and> xlive t L
       \<or> p \<noteq> 0 \<and> p \<notin> fst ` L \<and> room (mem s) \<le> room (mem t) + sz + 32 \<and> (\<exists>n \<ge> sz. xlive t (insert (p, n) L)))"
proof -
  obtain bs fl where s: "xinv s bs fl" "complete s bs fl" and L: "L = xpayloads (allocs (base s) bs)" using assms(1) by (rule xliveE)
  obtain p t bs' fl' where m: "mm_malloc sz s = Some (p, t)" and t: "xinv t bs' fl'" "complete t bs' fl'" "heap (mem t) = heap (mem s)"
    "mem_brk (mem s) \<le> mem_brk (mem t)" "mem_brk (mem t) \<le> mem_brk (mem s) + sz + 31"
    and keep: "\<forall>x. x < mem_brk (mem s) \<longrightarrow> x \<notin> free_cells (base s) bs \<longrightarrow> cells (mem t) x = cells (mem s) x"
    and res: "p = 0 \<and> allocs (base s) bs' = allocs (base s) bs \<and> room (mem s) < sz + 32
       \<or> (\<exists>n. base s + 8 \<le> p \<and> sz + 16 \<le> n \<and> allocs (base s) bs' = insert (p - 8, n) (allocs (base s) bs)
            \<and> (\<forall>k. (p - 8, k) \<notin> allocs (base s) bs))"
    using malloc_at [OF s assms(2,3)] unfolding xalloc_spec_def by blast
  have bt: "base t = base s" using t(3) by (simp add: base_def)
  have "cells (mem t) x = cells (mem s) x" if q: "(q, k) \<in> L" "q \<le> x" "x < q + k" for q k x
  proof -
    note b = xlive_block [OF s(1) L q(1)]
    have "x \<notin> free_cells (base s) bs" using b(1) q(2,3) unfolding free_cells_complement [OF xinvD(4) [OF s(1)]] allocs_blks by force
    then show ?thesis using keep b(3) q(3) by simp
  qed
  then have "kept L (mem s) (mem t)" using t(3,4) by (simp add: kept_def)
  moreover have "p = 0 \<and> room (mem s) < sz + 32 \<and> xlive t L
     \<or> p \<noteq> 0 \<and> p \<notin> fst ` L \<and> room (mem s) \<le> room (mem t) + sz + 32 \<and> (\<exists>n \<ge> sz. xlive t (insert (p, n) L))"
    using res
  proof (elim disjE exE conjE)
    fix n assume p: "base s + 8 \<le> p" "sz + 16 \<le> n" "allocs (base s) bs' = insert (p - 8, n) (allocs (base s) bs)"
      and new: "\<forall>k. (p - 8, k) \<notin> allocs (base s) bs"
    have "insert (p, n - 16) L = xpayloads (allocs (base t) bs')" unfolding bt p(3) xpayloads_insert L by (simp add: payload_def)
    then have "xlive t (insert (p, n - 16) L)" using t(1,2) unfolding xlive_def by blast
    moreover have "p \<notin> fst ` L" using new L in_xpayloads by force
    moreover have "0 < base s" using xinvD(1) [OF s(1)] by (auto simp: base_def region_base_def)
    ultimately show ?thesis using p(1,2) t(3,5) by (auto simp: room_def)
  next
    assume p: "p = 0" "allocs (base s) bs' = allocs (base s) bs" "room (mem s) < sz + 32"
    have "xlive t L" unfolding xlive_def bt using t(1,2) p(2) L by metis
    then show ?thesis using p by simp
  qed
  ultimately show ?thesis using m by auto
qed

lemma xlive_free:
  assumes "xlive s L" and p: "(p, n) \<in> L"
  shows "\<exists>t. mm_free p s = Some t \<and> xlive t (L - {(p, n)}) \<and> kept (L - {(p, n)}) (mem s) (mem t) \<and> mem_brk (mem t) = mem_brk (mem s)"
proof -
  obtain bs fl where s: "xinv s bs fl" "complete s bs fl" and L: "L = xpayloads (allocs (base s) bs)" using assms(1) by (rule xliveE)
  note b = xlive_block [OF s(1) L p]
  have al: "(p - 8, n + 16) \<in> allocs (base s) bs" using b(1) by (simp add: allocs_blks)
  obtain t bs' fl' where t: "mm_free p s = Some t" "xinv t bs' fl'" "complete t bs' fl'"
    "allocs (base s) bs' = allocs (base s) bs - {(p - 8, n + 16)}" "wrote (free_cells (base s) bs \<union> {p - 8..<p - 8 + (n + 16)}) s t"
    using free_at [OF s al] by (auto simp: payload_def)
  have bt: "base t = base s" using t(5) by (simp add: base_def wrote_def)
  have "L - {(p, n)} = xpayloads (allocs (base t) bs')" unfolding bt t(4) xpayloads_remove L by (simp add: payload_def)
  then have "xlive t (L - {(p, n)})" using t(2,3) unfolding xlive_def by blast
  moreover have "cells (mem t) x = cells (mem s) x" if q: "(q, k) \<in> L - {(p, n)}" "q \<le> x" "x < q + k" for q k x
  proof -
    have qL: "(q, k) \<in> L" using q(1) by blast
    note c = xlive_block [OF s(1) L qL]
    have "x \<notin> free_cells (base s) bs" using c(1) q(2,3) unfolding free_cells_complement [OF xinvD(4) [OF s(1)]] allocs_blks by force
    moreover have "x \<notin> {p - 8..<p - 8 + (n + 16)}" using blks_disjoint [OF xinvD(4) [OF s(1)] b(1) c(1)] q by auto
    ultimately show ?thesis using t(5) by (simp add: wrote_def)
  qed
  ultimately show ?thesis using t(1,5) by (auto simp: kept_def wrote_def)
qed

lemma xlive_write:
  assumes "xlive s L" and p: "(p, n) \<in> L" and m: "heap m = heap (mem s)" "mem_brk m = mem_brk (mem s)"
    and out: "\<And>x. x < p \<or> p + n \<le> x \<Longrightarrow> cells m x = cells (mem s) x"
  shows "xlive (s\<lparr>mem := m\<rparr>) L"
proof -
  obtain bs fl where s: "xinv s bs fl" "complete s bs fl" and L: "L = xpayloads (allocs (base s) bs)" using assms(1) by (rule xliveE)
  let ?t = "s\<lparr>mem := m\<rparr>" and ?b = "p - 8" and ?n = "n + 16"
  note b = xlive_block [OF s(1) L p]
  obtain pre post where bs: "bs = pre @ [(?n, True)] @ post" and eb: "?b = base s + extent pre" using blks_split [OF b(1)] by auto
  have w: "wrote {p..<p + n} s ?t" using m out by (auto simp: wrote_def)
  have nf: "?b \<notin> set fl" by (rule alloc_not_listed [OF s(1) b(1)])
  have "load (mem ?t) c = load (mem s) c" if "c = ?b \<or> c = p + n" for c
    by (rule wrote_load [OF w]) (use that in force)
  moreover have "tag (mem s) ?b ?n True" by (rule xinvD(5) [OF s(1) b(1)])
  ultimately have tg: "tag (mem ?t) ?b ?n True" by (simp add: tag_def)
  have "xinv ?t (pre @ [(?n, True)] @ post) fl"
  proof (rule xreplace [OF s(1) [unfolded bs] eb])
    show "wrote {?b..<?b + extent [(?n, True)]} s ?t" by (rule wrote_mono [OF w]) auto
    show "x < ?b \<or> ?b + extent [(?n, True)] \<le> x" if "x \<in> set fl" for x using free_outside [OF s(1) b(1) nf that] by auto
    show "mm_heap_last ?t = (if post = [] then last_addr ?b [(?n, True)] else mm_heap_last s)"
      using last_block [of s pre ?n True post fl ?b] s(1) bs eb by auto
  qed (use tg xinvD(4) [OF s(1)] bs in auto)
  moreover have bt: "base ?t = base s" using m by (simp add: base_def)
  ultimately have "xinv ?t bs fl" "complete ?t bs fl" using s(2) bs by (simp_all add: complete_def)
  then show ?thesis using L bt unfolding xlive_def by metis
qed

lemma xlive_realloc:
  assumes "xlive s L" and p: "(p, n) \<in> L" and "0 < sz" and "mm_malloc sz s = Some (q, t)" and "memcpy q p (min n sz) (mem t) = Some m"
  shows "mm_realloc p sz s = map_option (Pair q) (mm_free p (t\<lparr>mem := m\<rparr>))"
proof -
  obtain bs fl where s: "xinv s bs fl" "complete s bs fl" and L: "L = xpayloads (allocs (base s) bs)" using assms(1) by (rule xliveE)
  note b = xlive_block [OF s(1) L p] and r = xinvD(1-3) [OF s(1)]
  have sz: "get_size (p - 8) s = Some (n + 16)" by (rule tag_read(1) [OF s(1) b(1)])
  have "n < 2 ^ 64" using b(2,3) r by (auto simp: base_def region_base_def)
  then have "(n + 16 - 2 * 8) mod 2 ^ 64 = n" using b(4) by simp
  moreover have "p \<noteq> 0" using b(2) r by (auto simp: base_def region_base_def)
  moreover have "(if n < sz then n else sz) = min n sz" by simp
  ultimately show ?thesis
    using sz assms(3-5) by (cases "mm_free p (t\<lparr>mem := m\<rparr>)") (simp_all add: mm_realloc_def lift_mem_def block_from_payload_def)
qed

lemma xlive_init:
  assumes "region_base (mem s)" and "mem_brk (mem s) = heap (mem s)"
  shows "\<exists>t. mm_init s = (True, t) \<and> xlive t {} \<and> room (mem t) = MAX_HEAP - 8"
proof -
  let ?t = "s\<lparr>mem := (mem s)\<lparr>mem_brk := heap (mem s) + 8\<rparr>, mm_heap_first := 0, mm_heap_last := 0, mm_free_first := 0, mm_free_last := 0\<rparr>"
  have "mm_init s = (True, ?t)"
    using assms by (simp add: mm_init_def mem_sbrk_def ALIGNMENT_def MAX_HEAP_def region_base_def Let_def)
  moreover have "xinv ?t [] []"
    using assms(1) by (simp add: xinv_def base_def region_base_def heap_ends_def free_list_def links_def list_ends_def MAX_HEAP_def)
  then have "xlive ?t {}" unfolding xlive_def by (intro exI [of _ "[]"]) (simp add: complete_def xpayloads_def)
  ultimately show ?thesis by (simp add: room_def)
qed

interpretation explicit: allocator xlive mem "\<lambda>m s. s\<lparr>mem := m\<rparr>" mm_malloc mm_free mm_realloc
proof
  fix s :: mm and L and p n q k :: int
  assume "xlive s L"
  then obtain bs fl where s: "xinv s bs fl" "complete s bs fl" and L: "L = xpayloads (allocs (base s) bs)" by (rule xliveE)
  note r = xinvD [OF s(1)]
  show "p + n < q \<or> q + k < p" if "(p, n) \<in> L" "(q, k) \<in> L" "(p, n) \<noteq> (q, k)"
    using blks_disjoint [OF r(4) xlive_block(1) [OF s(1) L that(1)] xlive_block(1) [OF s(1) L that(2)]] that(3) by auto
  show "16 dvd p \<and> 0 < heap (mem s) \<and> heap (mem s) \<le> p \<and> 0 \<le> n \<and> p + n \<le> mem_brk (mem s)" if "(p, n) \<in> L"
    using xlive_block [OF s(1) L that] r(1) by (auto simp: base_def region_base_def)
  show "mem_brk (mem s) \<le> heap (mem s) + MAX_HEAP" by (rule r(2))
  show "heap (mem s) \<le> mem_brk (mem s)" using r(3) extent_32 [OF r(4)] by (simp add: base_def)
next
  fix s :: mm and sz :: int
  show "mm_free 0 s = Some s" "mm_realloc 0 sz s = mm_malloc sz s" by (simp_all add: mm_free_def mm_realloc_def)
  fix p :: int assume "p \<noteq> 0"
  then show "mm_realloc p 0 s = map_option (Pair 0) (mm_free p s)" by (simp add: mm_realloc_def)
qed (auto intro: xlive_malloc xlive_free xlive_realloc xlive_write)

text \<open>The driver linked with this package.\<close>

definition explicit_env :: "(nat \<Rightarrow> int) \<Rightarrow> debug_level \<Rightarrow> mm env" where
  "explicit_env rnd dbg = \<lparr>pk_memory = mem, pk_set_memory = (\<lambda>m s. s\<lparr>mem := m\<rparr>), pk_init = mm_init, pk_malloc = mm_malloc,
     pk_free = mm_free, pk_realloc = mm_realloc, random = rnd, debug_mode = dbg\<rparr>"

interpretation explicit_driver: started xlive mem "\<lambda>m s. s\<lparr>mem := m\<rparr>" mm_malloc mm_free mm_realloc "explicit_env rnd dbg"
  for rnd dbg
  by unfold_locales (simp_all add: explicit_env_def xlive_init)

section \<open>Properties\<close>

text \<open>
  C6: the explicit-list allocator passes the validity run of the test driver. For every trace that
  only resizes and releases blocks in use, whose lengths are positive and need at most the region
  when no block is reused, at every debug level and for every sequence of random numbers,
  \<^verbatim>\<open>eval_mm_valid\<close> reaches the end, returns 1 and counts no error: no fault, no null result, every
  payload aligned, inside the heap and apart from the others, every payload's contents kept until
  it is released, also when it is moved by \<^verbatim>\<open>mm_realloc\<close>.
\<close>

theorem explicit_passes_validity_run:
  assumes "region_base (mem (package d))" and "length (random_data d) = nat RANDOM_DATA_LEN" and "ranges d = []"
    and "length (block_rand_base (the_trace d)) = nat (num_ids (the_trace d))"
    and "trace_ok (num_ids (the_trace d)) {} (ops (the_trace d))" and "demand (ops (the_trace d)) \<le> MAX_HEAP - 8"
  shows "\<exists>e. eval_mm_valid (explicit_env rnd dbg) d = Some (True, e) \<and> errors e = errors d"
  using assms by (rule explicit_driver.eval_mm_valid_ok)

text \<open>A driver with a trace of six requests.\<close>

definition sample_trace :: trace where
  "sample_trace = \<lparr>ignore_ranges = False, num_ids = 2, weight = 1,
     ops = [\<lparr>op_type = ALLOC, op_index = 0, op_size = 100\<rparr>, \<lparr>op_type = ALLOC, op_index = 1, op_size = 5\<rparr>,
       \<lparr>op_type = REALLOC, op_index = 0, op_size = 300\<rparr>, \<lparr>op_type = FREE, op_index = 1, op_size = 0\<rparr>,
       \<lparr>op_type = FREE, op_index = -1, op_size = 0\<rparr>, \<lparr>op_type = REALLOC, op_index = 0, op_size = 0\<rparr>],
     blocks = [0, 0], block_sizes = [0, 0], block_rand_base = [0, 0]\<rparr>"

definition sample_driver :: "mm driver" where
  "sample_driver = \<lparr>package = \<lparr>mem = mem_init 0x800000000, mm_heap_first = 0, mm_heap_last = 0, mm_free_first = 0, mm_free_last = 0\<rparr>,
     the_trace = sample_trace, ranges = [], errors = 0, randoms = 0, random_data = replicate (nat RANDOM_DATA_LEN) 0\<rparr>"

lemmas sample_defs = sample_driver_def sample_trace_def mem_init_def mem_reset_brk_def region_base_def MAX_HEAP_def demand_def

theorem explicit_passes_validity_run_witness:
  "\<exists>e. eval_mm_valid (explicit_env (\<lambda>_. 7) DBG_EXPENSIVE) sample_driver = Some (True, e) \<and> errors e = errors sample_driver"
  by (rule explicit_passes_validity_run) (simp_all add: sample_defs)

text \<open>
  C22: the utilization that the driver reports for the explicit-list allocator is a fraction between 0
  and 1: on such a trace \<^verbatim>\<open>eval_mm_util\<close> ends, and the greatest total of the lengths in use is at most
  the size of the heap, so that the \<^verbatim>\<open>int\<close> totals stay far below their limit.
\<close>

theorem explicit_utilization_at_most_one:
  assumes "region_base (mem (package d))" and "length (random_data d) = nat RANDOM_DATA_LEN" and "ranges d = []"
    and "length (block_rand_base (the_trace d)) = nat (num_ids (the_trace d))"
    and "trace_ok (num_ids (the_trace d)) {} (ops (the_trace d))" and "demand (ops (the_trace d)) \<le> MAX_HEAP - 8"
  shows "\<exists>a b e. eval_mm_util (explicit_env rnd dbg) d = Some ((a, b), e) \<and> 0 \<le> a \<and> a \<le> b"
proof -
  have "explicit_env rnd dbg = (explicit_env rnd DBG_NONE)\<lparr>debug_mode := dbg\<rparr>" by (simp add: explicit_env_def)
  moreover have "debug_mode (explicit_env rnd DBG_NONE) = DBG_NONE" by (simp add: explicit_env_def)
  ultimately show ?thesis
    using explicit_driver.eval_mm_util_ok [OF _ assms] eval_mm_util_debug [where E = "explicit_env rnd DBG_NONE" and x = dbg] by metis
qed

theorem explicit_utilization_at_most_one_witness:
  "\<exists>a b e. eval_mm_util (explicit_env (\<lambda>_. 7) DBG_CHEAP) sample_driver = Some ((a, b), e) \<and> 0 \<le> a \<and> a \<le> b"
  by (rule explicit_utilization_at_most_one) (simp_all add: sample_defs)



text \<open>Words in a concrete memory.\<close>

definition with_word :: "int \<Rightarrow> int \<Rightarrow> memsys \<Rightarrow> memsys" where
  "with_word a v m = m\<lparr>cells := put_le (cells m) a 8 v\<rparr>"

lemma with_word_simps:
  "heap (with_word a v m) = heap m" "mem_brk (with_word a v m) = mem_brk m"
  "(with_word a v m)\<lparr>mem_brk := x\<rparr> = with_word a v (m\<lparr>mem_brk := x\<rparr>)"
  "heap m \<le> a \<Longrightarrow> a + 8 \<le> heap m + MAX_HEAP \<Longrightarrow> store a v m = Some (with_word a v m)"
  "heap m \<le> a \<Longrightarrow> a + 8 \<le> heap m + MAX_HEAP \<Longrightarrow> 0 \<le> v \<Longrightarrow> v < 2 ^ 64 \<Longrightarrow> load (with_word a v m) a = Some v"
  "a + 8 \<le> b \<or> b + 8 \<le> a \<Longrightarrow> load (with_word a v m) b = load m b"
  using get_put_le [of v "cells m" a 8] get_put_disjoint [of a 8 b 8 "cells m" v]
  by (simp_all add: with_word_def store_def load_def mapped_def)


end
