(* ===== verification/Asan.thy ===== *)
theory Asan
  imports Memlib
begin

text \<open>
  The address sanitizer (\<^verbatim>\<open>src/signal-handler/myasan.c\<close> with the reports of \<^verbatim>\<open>util.c\<close>): a \<^verbatim>\<open>malloc\<close> and
  \<^verbatim>\<open>free\<close> that give every allocation pages of its own behind a protected header page, and a handler for
  the faults of the checked program. A report ends the process; it is the left value of a result.
  Addresses are integers, \<^verbatim>\<open>size_t\<close> arithmetic is written modulo \<^verbatim>\<open>2^64\<close> where it can wrap.
\<close>

section \<open>Reports and memory\<close>

datatype report =
    Seg_Fault int
  | Invalid_Heap_Access int
  | Invalid_Free int
  | Double_Free int int
  | Memory_Leak int int

definition exit_status :: "report \<Rightarrow> int" where
  "exit_status r = (case r of Seg_Fault _ \<Rightarrow> 10 | Invalid_Heap_Access _ \<Rightarrow> 11 | Invalid_Free _ \<Rightarrow> 20 | Double_Free _ _ \<Rightarrow> 21
     | Memory_Leak _ _ \<Rightarrow> 30)"

definition PAGE_SIZE :: int where
  "PAGE_SIZE = 4096"

definition START_PAGE :: int where
  "START_PAGE = 2 ^ 32"

definition MAX_HEAP_SIZE :: int where
  "MAX_HEAP_SIZE = 2 ^ 30"

definition HEADER_MAGIC :: int where
  "HEADER_MAGIC = 0x0123456789ABCDEF"

text \<open>\<open>rw x\<close>: the address \<open>x\<close> can be read and written. Before the initialization no page is mapped.\<close>

record asan =
  is_initialized :: bool
  current_page :: int
  rw :: "int \<Rightarrow> bool"
  bytes :: "int \<Rightarrow> byte"

text \<open>\<^verbatim>\<open>mprotect\<close> has an effect on the mapped pages of the range only; lengths are whole pages here.\<close>

definition mprotect :: "int \<Rightarrow> int \<Rightarrow> bool \<Rightarrow> asan \<Rightarrow> asan" where
  "mprotect a len prot s = s\<lparr>rw := (\<lambda>x. if a \<le> x \<and> x < a + len \<and> START_PAGE \<le> x \<and> x < START_PAGE + MAX_HEAP_SIZE
     then prot else rw s x)\<rparr>"

definition sigsegv_handler :: "int \<Rightarrow> asan \<Rightarrow> report" where
  "sigsegv_handler addr s =
     (if \<not> is_initialized s \<or> current_page s = 0 then Seg_Fault addr
      else if addr \<ge> START_PAGE \<and> addr < current_page s + PAGE_SIZE then Invalid_Heap_Access addr
      else Seg_Fault addr)"

text \<open>Accesses to \<open>n\<close> bytes of one page; a fault runs the handler.\<close>

definition load_bytes :: "int \<Rightarrow> nat \<Rightarrow> asan \<Rightarrow> report + int" where
  "load_bytes a n s = (if rw s a then Inr (get_le (bytes s) a n) else Inl (sigsegv_handler a s))"

definition store_bytes :: "int \<Rightarrow> nat \<Rightarrow> int \<Rightarrow> asan \<Rightarrow> report + asan" where
  "store_bytes a n v s = (if rw s a then Inr (s\<lparr>bytes := put_le (bytes s) a n v\<rparr>) else Inl (sigsegv_handler a s))"

definition and_then :: "report + 'a \<Rightarrow> ('a \<Rightarrow> report + 'b) \<Rightarrow> report + 'b" where
  "and_then x f = (case x of Inl r \<Rightarrow> Inl r | Inr y \<Rightarrow> f y)"

lemma and_then_simps [simp]: "and_then (Inl r) f = Inl r" "and_then (Inr y) f = f y"
  by (simp_all add: and_then_def)

section \<open>The sanitizer\<close>

definition pages_round_up :: "int \<Rightarrow> int" where
  "pages_round_up sz = (sz + PAGE_SIZE - 1) mod 2 ^ 64 div PAGE_SIZE"

definition set_header :: "int \<Rightarrow> int \<Rightarrow> bool \<Rightarrow> asan \<Rightarrow> report + asan" where
  "set_header header_page sz is_alloc s =
     and_then (store_bytes header_page 8 HEADER_MAGIC (mprotect header_page PAGE_SIZE True s)) (\<lambda>s.
     and_then (store_bytes (header_page + 8) 8 sz s) (\<lambda>s.
     and_then (store_bytes (header_page + 8 + 8) 1 (of_bool is_alloc) s) (\<lambda>s.
     Inr (mprotect header_page PAGE_SIZE False s))))"

definition get_payload :: "int \<Rightarrow> int \<Rightarrow> int" where
  "get_payload header_page sz = (header_page + PAGE_SIZE + pages_round_up sz * PAGE_SIZE - sz) mod 2 ^ 64"

partial_function (option) leak_loop :: "int \<Rightarrow> int \<Rightarrow> asan \<Rightarrow> (report + asan) option" where
  "leak_loop header current_addr s =
     (if header < current_page s then
        (let header = current_addr; s = mprotect header PAGE_SIZE True s in
         case load_bytes (header + 8) 8 s of Inl r \<Rightarrow> Some (Inl r)
         | Inr sz \<Rightarrow> (case load_bytes (header + 2 * 8) 1 s of Inl r \<Rightarrow> Some (Inl r)
           | Inr allocated \<Rightarrow>
               if allocated \<noteq> 0 then Some (Inl (Memory_Leak (get_payload header sz) sz))
               else leak_loop header (header + PAGE_SIZE + pages_round_up sz * PAGE_SIZE) (mprotect header PAGE_SIZE False s)))
      else Some (Inr s))"

definition check_for_leaks :: "asan \<Rightarrow> (report + asan) option" where
  "check_for_leaks s = leak_loop START_PAGE START_PAGE s"

text \<open>\<^verbatim>\<open>mmap\<close> gives zero pages without access at the address asked for, which the code asserts.\<close>

definition asan_init :: "asan \<Rightarrow> asan" where
  "asan_init s =
     (if is_initialized s then s
      else s\<lparr>current_page := START_PAGE, is_initialized := True, rw := (\<lambda>_. False), bytes := (\<lambda>_. 0)\<rparr>)"

definition asan_malloc :: "int \<Rightarrow> asan \<Rightarrow> report + int \<times> asan" where
  "asan_malloc sz s =
     (let s = asan_init s;
          pages_necessary = pages_round_up sz;
          s = mprotect (current_page s + PAGE_SIZE) (PAGE_SIZE * pages_necessary) True s;
          s = mprotect (current_page s) PAGE_SIZE True s;
          header_page = current_page s in
      and_then (set_header header_page sz True s) (\<lambda>s.
      let s = mprotect (current_page s) PAGE_SIZE False s;
          s = s\<lparr>current_page := current_page s + PAGE_SIZE * (1 + pages_necessary)\<rparr> in
      Inr (get_payload header_page sz, s)))"

definition asan_free :: "int \<Rightarrow> asan \<Rightarrow> report + asan" where
  "asan_free ptr s =
     (let s = asan_init s in
      if ptr = 0 then Inr s
      else if ptr < START_PAGE + PAGE_SIZE \<or> ptr > START_PAGE + MAX_HEAP_SIZE * PAGE_SIZE then Inl (Invalid_Free ptr)
      else
        let header = ptr - PAGE_SIZE - (ptr - START_PAGE) mod PAGE_SIZE;
            s = mprotect header PAGE_SIZE True s in
        and_then (load_bytes (header + 8) 8 s) (\<lambda>sz.
        and_then (load_bytes header 8 s) (\<lambda>magic.
        if magic \<noteq> HEADER_MAGIC \<or> get_payload header sz \<noteq> ptr then Inl (Invalid_Free ptr)
        else and_then (load_bytes (header + 2 * 8) 1 s) (\<lambda>allocated.
        if allocated = 0 then Inl (Double_Free ptr sz)
        else and_then (set_header header sz False s) (\<lambda>s.
        let s = mprotect header PAGE_SIZE False s in
        Inr (mprotect (header + PAGE_SIZE) (PAGE_SIZE * pages_round_up sz) False s))))))"

lemma mprotect_simps [simp]:
  "current_page (mprotect a n b s) = current_page s" "is_initialized (mprotect a n b s) = is_initialized s" "bytes (mprotect a n b s) = bytes s"
  by (simp_all add: mprotect_def)

text \<open>An access of the checked program to one byte: it succeeds or runs the handler.\<close>

definition user_read :: "int \<Rightarrow> asan \<Rightarrow> report + byte" where
  "user_read a s = (if rw s a then Inr (bytes s a) else Inl (sigsegv_handler a s))"

definition user_write :: "int \<Rightarrow> byte \<Rightarrow> asan \<Rightarrow> report + asan" where
  "user_write a v s = (if rw s a then Inr (s\<lparr>bytes := (bytes s)(a := v)\<rparr>) else Inl (sigsegv_handler a s))"

section \<open>The log of the allocations\<close>

text \<open>The allocations in order, with their length and whether they are in use, from a page \<open>a\<close> on.\<close>

type_synonym log = "(int \<times> bool) list"

definition npages :: "int \<Rightarrow> int" where
  "npages sz = (sz + 4095) div 4096"

definition span :: "int \<Rightarrow> int" where
  "span sz = PAGE_SIZE * (1 + npages sz)"

definition payload_of :: "int \<Rightarrow> int \<Rightarrow> int" where
  "payload_of h sz = h + span sz - sz"

fun placed :: "int \<Rightarrow> log \<Rightarrow> (int \<times> int \<times> bool) set" where
  "placed a [] = {}"
| "placed a ((sz, live) # as) = insert (a, sz, live) (placed (a + span sz) as)"

definition log_size :: "log \<Rightarrow> int" where
  "log_size as = (\<Sum>(sz, live) \<leftarrow> as. span sz)"

definition log_ok :: "log \<Rightarrow> bool" where
  "log_ok as \<longleftrightarrow> (\<forall>(sz, live) \<in> set as. 0 \<le> sz \<and> sz < 2 ^ 62)"

lemma log_simps [simp]:
  "log_size [] = 0" "log_size ((sz, live) # as) = span sz + log_size as" "log_size (as @ bs) = log_size as + log_size bs"
  "log_ok []" "log_ok ((sz, live) # as) \<longleftrightarrow> 0 \<le> sz \<and> sz < 2 ^ 62 \<and> log_ok as" "log_ok (as @ bs) \<longleftrightarrow> log_ok as \<and> log_ok bs"
  by (auto simp: log_size_def log_ok_def)

lemma npages_bounds:
  assumes "0 \<le> sz"
  shows "0 \<le> npages sz" "sz \<le> 4096 * npages sz" "4096 * npages sz < sz + 4096"
proof -
  have "4096 * npages sz + (sz + 4095) mod 4096 = sz + 4095" by (simp add: npages_def)
  moreover have "0 \<le> (sz + 4095) mod 4096" "(sz + 4095) mod 4096 < 4096" by simp_all
  ultimately show "0 \<le> npages sz" "sz \<le> 4096 * npages sz" "4096 * npages sz < sz + 4096" using assms by linarith+
qed

lemma pages_round_up_small: "0 \<le> sz \<Longrightarrow> sz < 2 ^ 62 \<Longrightarrow> pages_round_up sz = npages sz"
  by (simp add: pages_round_up_def npages_def PAGE_SIZE_def)

lemma span_bounds:
  assumes "0 \<le> sz"
  shows "PAGE_SIZE \<le> span sz" "PAGE_SIZE dvd span sz" "sz \<le> span sz - PAGE_SIZE" "span sz - PAGE_SIZE < sz + PAGE_SIZE"
  using npages_bounds [OF assms] by (auto simp: span_def PAGE_SIZE_def)

lemma log_size_nonneg: "log_ok as \<Longrightarrow> 0 \<le> log_size as"
proof (induction as)
  case (Cons c as)
  then show ?case using span_bounds(1) [of "fst c"] by (cases c) (auto simp: PAGE_SIZE_def)
qed simp

lemma placed_append: "placed a (as @ bs) = placed a as \<union> placed (a + log_size as) bs"
  by (induction a as rule: placed.induct) (auto simp: add.assoc)

lemma placed_bounds:
  "log_ok as \<Longrightarrow> (h, sz, live) \<in> placed a as
    \<Longrightarrow> a \<le> h \<and> h + span sz \<le> a + log_size as \<and> PAGE_SIZE dvd h - a \<and> 0 \<le> sz \<and> sz < 2 ^ 62"
proof (induction as arbitrary: a)
  case (Cons c as)
  obtain k l where c: "c = (k, l)" by (cases c)
  have k: "PAGE_SIZE \<le> span k" "PAGE_SIZE dvd span k" and ok: "log_ok as" using span_bounds [of k] Cons.prems(1) c by auto
  show ?case
  proof (cases "(h, sz, live) \<in> placed (a + span k) as")
    case True
    note ih = Cons.IH [OF ok True]
    have "PAGE_SIZE dvd (h - (a + span k)) + span k" using ih k(2) by (intro dvd_add) auto
    then show ?thesis using ih k(1) c by (simp add: PAGE_SIZE_def)
  next
    case False
    then show ?thesis using Cons.prems c log_size_nonneg [OF ok] by auto
  qed
qed simp

lemma placed_disjoint:
  "log_ok as \<Longrightarrow> (h, sz, live) \<in> placed a as \<Longrightarrow> (g, k, l) \<in> placed a as
    \<Longrightarrow> h = g \<and> sz = k \<and> live = l \<or> h + span sz \<le> g \<or> g + span k \<le> h"
proof (induction as arbitrary: a)
  case (Cons c as)
  obtain m b where c: "c = (m, b)" by (cases c)
  have ok: "log_ok as" using Cons.prems(1) c by simp
  show ?case
  proof (cases "(h, sz, live) \<in> placed (a + span m) as \<and> (g, k, l) \<in> placed (a + span m) as")
    case True
    then show ?thesis using Cons.IH [OF ok] by blast
  next
    case False
    then show ?thesis using Cons.prems(2,3) c placed_bounds [OF ok, of _ _ _ "a + span m"] by fastforce
  qed
qed simp

lemma placed_split: "(h, sz, live) \<in> placed a as \<Longrightarrow> \<exists>pre post. as = pre @ (sz, live) # post \<and> h = a + log_size pre"
proof (induction as arbitrary: a)
  case (Cons c as)
  obtain k l where c: "c = (k, l)" by (cases c)
  show ?case
  proof (cases "(h, sz, live) \<in> placed (a + span k) as")
    case True
    from Cons.IH [OF this] obtain pre post where "as = pre @ (sz, live) # post" "h = a + span k + log_size pre" by blast
    then have "c # as = ((k, l) # pre) @ (sz, live) # post \<and> h = a + log_size ((k, l) # pre)" using c by simp
    then show ?thesis by blast
  next
    case False
    then have "c # as = [] @ (sz, live) # as \<and> h = a + log_size []" using Cons.prems c by simp
    then show ?thesis by blast
  qed
qed simp

text \<open>The state that has served the log: headers in place, access to the payload pages in use only.\<close>

definition header_at :: "(int \<Rightarrow> byte) \<Rightarrow> int \<Rightarrow> int \<Rightarrow> bool \<Rightarrow> bool" where
  "header_at m h sz live \<longleftrightarrow> get_le m h 8 = HEADER_MAGIC \<and> get_le m (h + 8) 8 = sz \<and> get_le m (h + 16) 1 = of_bool live"

definition open_page :: "log \<Rightarrow> int \<Rightarrow> bool" where
  "open_page as x \<longleftrightarrow> (\<exists>h sz. (h, sz, True) \<in> placed START_PAGE as \<and> h + PAGE_SIZE \<le> x \<and> x < h + span sz)"

definition sanitized :: "asan \<Rightarrow> log \<Rightarrow> bool" where
  "sanitized s as \<longleftrightarrow> is_initialized s \<and> log_ok as \<and> current_page s = START_PAGE + log_size as
     \<and> current_page s \<le> START_PAGE + MAX_HEAP_SIZE
     \<and> (\<forall>h sz live. (h, sz, live) \<in> placed START_PAGE as \<longrightarrow> header_at (bytes s) h sz live)
     \<and> (\<forall>x. rw s x = open_page as x) \<and> (\<forall>x. current_page s \<le> x \<longrightarrow> bytes s x = 0)"

lemma sanitizedD:
  assumes "sanitized s as"
  shows "is_initialized s" "log_ok as" "current_page s = START_PAGE + log_size as" "current_page s \<le> START_PAGE + MAX_HEAP_SIZE"
    "\<And>h sz live. (h, sz, live) \<in> placed START_PAGE as \<Longrightarrow> header_at (bytes s) h sz live"
    "\<And>x. rw s x = open_page as x" "\<And>x. current_page s \<le> x \<Longrightarrow> bytes s x = 0" "asan_init s = s"
  using assms by (simp_all add: sanitized_def asan_init_def)

lemma open_page_bounds: "log_ok as \<Longrightarrow> open_page as x \<Longrightarrow> START_PAGE + PAGE_SIZE \<le> x \<and> x < START_PAGE + log_size as"
  using placed_bounds [of as _ _ True START_PAGE] by (force simp: open_page_def)

lemma get_payload_of:
  assumes "0 \<le> sz" and "sz < 2 ^ 62" and "0 \<le> h" and "h < 2 ^ 62"
  shows "get_payload h sz = payload_of h sz"
proof -
  have "sz \<le> span sz" "span sz \<le> sz + 2 * PAGE_SIZE" using span_bounds [OF assms(1)] by (auto simp: PAGE_SIZE_def)
  then have "0 \<le> payload_of h sz" "payload_of h sz < 2 ^ 64" using assms by (auto simp: payload_of_def PAGE_SIZE_def)
  moreover have "h + PAGE_SIZE + pages_round_up sz * PAGE_SIZE - sz = payload_of h sz"
    using pages_round_up_small [OF assms(1,2)] by (simp add: payload_of_def span_def algebra_simps)
  ultimately show ?thesis by (simp add: get_payload_def)
qed

section \<open>The operations on the log\<close>

lemma header_at_cong: "(\<And>x. h \<le> x \<Longrightarrow> x < h + 17 \<Longrightarrow> m' x = m x) \<Longrightarrow> header_at m h sz live \<Longrightarrow> header_at m' h sz live"
  using get_le_cong [of h 8 m' m] get_le_cong [of "h + 8" 8 m' m] get_le_cong [of "h + 16" 1 m' m] by (simp add: header_at_def)

lemma set_header_ok:
  assumes "START_PAGE \<le> h" and "h + PAGE_SIZE \<le> START_PAGE + MAX_HEAP_SIZE" and sz: "0 \<le> sz" "sz < 2 ^ 62"
  shows "\<exists>t. set_header h sz live s = Inr t \<and> header_at (bytes t) h sz live \<and> is_initialized t = is_initialized s
    \<and> current_page t = current_page s \<and> (\<forall>x. rw t x = (if h \<le> x \<and> x < h + PAGE_SIZE then False else rw s x))
    \<and> (\<forall>x. x < h \<or> h + 17 \<le> x \<longrightarrow> bytes t x = bytes s x)"
proof -
  let ?m1 = "put_le (bytes s) h 8 HEADER_MAGIC"
  let ?m2 = "put_le ?m1 (h + 8) 8 sz"
  define m3 where "m3 = put_le ?m2 (h + 16) 1 (of_bool live)"
  define t where "t = mprotect h PAGE_SIZE False ((mprotect h PAGE_SIZE True s)\<lparr>bytes := m3\<rparr>)"
  have "set_header h sz live s = Inr t"
    using assms(1,2) by (simp add: set_header_def store_bytes_def mprotect_def PAGE_SIZE_def add.assoc t_def m3_def)
  moreover have "header_at m3 h sz live"
  proof -
    have "get_le m3 (h + 16) 1 = of_bool live" unfolding m3_def using get_put_le [of "of_bool live" ?m2 "h + 16" 1] by (cases live) simp_all
    moreover have "get_le m3 (h + 8) 8 = get_le ?m2 (h + 8) 8" unfolding m3_def by (rule get_put_disjoint) simp
    moreover have "get_le ?m2 (h + 8) 8 = sz" using get_put_le [of sz ?m1 "h + 8" 8] sz by simp
    moreover have "get_le m3 h 8 = get_le ?m2 h 8" unfolding m3_def by (rule get_put_disjoint) simp
    moreover have "get_le ?m2 h 8 = get_le ?m1 h 8" by (rule get_put_disjoint) simp
    moreover have "get_le ?m1 h 8 = HEADER_MAGIC" using get_put_le [of HEADER_MAGIC "bytes s" h 8] by (simp add: HEADER_MAGIC_def)
    ultimately show ?thesis by (simp add: header_at_def)
  qed
  moreover have "m3 x = bytes s x" if "x < h \<or> h + 17 \<le> x" for x
  proof -
    have "m3 x = ?m2 x" unfolding m3_def by (rule put_le_other) (use that in auto)
    also have "\<dots> = ?m1 x" by (rule put_le_other) (use that in auto)
    also have "\<dots> = bytes s x" by (rule put_le_other) (use that in auto)
    finally show ?thesis .
  qed
  moreover have "bytes t = m3" "is_initialized t = is_initialized s" "current_page t = current_page s" by (simp_all add: t_def mprotect_def)
  moreover have "rw t x = (if h \<le> x \<and> x < h + PAGE_SIZE then False else rw s x)" for x using assms(1,2) by (auto simp: t_def mprotect_def)
  ultimately show ?thesis by auto
qed

lemma malloc_ok:
  assumes s: "sanitized s as" and sz: "0 \<le> sz" "sz < 2 ^ 62" and room: "current_page s + span sz \<le> START_PAGE + MAX_HEAP_SIZE"
  shows "\<exists>t. asan_malloc sz s = Inr (payload_of (current_page s) sz, t) \<and> sanitized t (as @ [(sz, True)])
    \<and> (\<forall>x. x < current_page s \<or> current_page s + 17 \<le> x \<longrightarrow> bytes t x = bytes s x)"
proof -
  note h = sanitizedD [OF s] and sp = span_bounds [OF sz(1)]
  let ?p = "current_page s"
  have p: "START_PAGE \<le> ?p" "?p + PAGE_SIZE \<le> START_PAGE + MAX_HEAP_SIZE" using h(3) log_size_nonneg [OF h(2)] sp(1) room by auto
  have n: "pages_round_up sz = npages sz" by (rule pages_round_up_small [OF sz])
  let ?u = "mprotect ?p PAGE_SIZE True (mprotect (?p + PAGE_SIZE) (PAGE_SIZE * npages sz) True s)"
  have len: "?p + PAGE_SIZE + PAGE_SIZE * npages sz = ?p + span sz" by (simp add: span_def algebra_simps)
  obtain t where t: "set_header ?p sz True ?u = Inr t" "header_at (bytes t) ?p sz True" "is_initialized t = is_initialized ?u"
    "current_page t = current_page ?u" "\<And>x. rw t x = (if ?p \<le> x \<and> x < ?p + PAGE_SIZE then False else rw ?u x)"
    "\<And>x. x < ?p \<or> ?p + 17 \<le> x \<Longrightarrow> bytes t x = bytes ?u x" using set_header_ok [OF p sz, of True ?u] by blast
  define v where "v = (mprotect ?p PAGE_SIZE False t)\<lparr>current_page := ?p + span sz\<rparr>"
  have pay: "get_payload ?p sz = payload_of ?p sz" using p room sp(1) by (intro get_payload_of [OF sz]) (auto simp: START_PAGE_def MAX_HEAP_SIZE_def PAGE_SIZE_def)
  have code: "asan_malloc sz s = Inr (payload_of ?p sz, v)"
    using t(1,4) unfolding asan_malloc_def Let_def h(8) n mprotect_simps and_then_simps pay by (simp add: v_def pay span_def)
  have rwv: "rw v x = (if ?p + PAGE_SIZE \<le> x \<and> x < ?p + span sz then True else rw s x)" for x
    using p room t(5) [of x] len h(6) [of x] open_page_bounds [OF h(2), of x] h(3)
    unfolding v_def mprotect_def by (auto simp: PAGE_SIZE_def)
  have bv: "bytes v x = bytes s x" if "x < ?p \<or> ?p + 17 \<le> x" for x using t(6) [OF that] by (simp add: v_def mprotect_def)
  have "sanitized v (as @ [(sz, True)])"
    unfolding sanitized_def
  proof (intro conjI allI impI)
    fix g k live assume g: "(g, k, live) \<in> placed START_PAGE (as @ [(sz, True)])"
    show "header_at (bytes v) g k live"
    proof (cases "(g, k, live) \<in> placed START_PAGE as")
      case True
      have "g + 17 \<le> ?p" using placed_bounds [OF h(2) True] span_bounds(1) [of k] h(3) by (auto simp: PAGE_SIZE_def)
      then show ?thesis using header_at_cong [OF _ h(5) [OF True], of "bytes v"] bv by auto
    next
      case False
      then show ?thesis using g t(2) h(3) by (auto simp: placed_append v_def mprotect_def)
    qed
  next
    fix x show "rw v x = open_page (as @ [(sz, True)]) x"
      using rwv [of x] h(3) h(6) [of x] unfolding open_page_def placed_append by auto
  next
    fix x assume "current_page v \<le> x"
    then show "bytes v x = 0" using bv [of x] h(7) [of x] sp(1) by (simp add: v_def PAGE_SIZE_def)
  qed (use h t(3) sz room in \<open>simp_all add: v_def mprotect_def\<close>)
  then show ?thesis using code bv by blast
qed

lemma init_sanitized: "\<not> is_initialized s \<Longrightarrow> sanitized (asan_init s) []"
  by (simp add: sanitized_def asan_init_def open_page_def START_PAGE_def MAX_HEAP_SIZE_def)

text \<open>The header page that \<^const>\<open>asan_free\<close> looks at: the page before that of the pointer.\<close>

definition header_of :: "int \<Rightarrow> int" where
  "header_of p = p - PAGE_SIZE - (p - START_PAGE) mod PAGE_SIZE"

lemma header_of_payload:
  assumes "PAGE_SIZE dvd h - START_PAGE" and "0 \<le> sz"
  shows "header_of (payload_of h sz) = h"
proof -
  note b = span_bounds [OF assms(2)]
  have "payload_of h sz - START_PAGE = (h - START_PAGE) + PAGE_SIZE + (span sz - PAGE_SIZE - sz)" by (simp add: payload_of_def)
  moreover have "((h - START_PAGE) + PAGE_SIZE + (span sz - PAGE_SIZE - sz)) mod PAGE_SIZE = (span sz - PAGE_SIZE - sz) mod PAGE_SIZE"
    using assms(1) by (metis dvd_add dvd_imp_mod_0 dvd_refl mod_add_left_eq add_0)
  moreover have "(span sz - PAGE_SIZE - sz) mod PAGE_SIZE = span sz - PAGE_SIZE - sz" using b by (intro mod_pos_pos_trivial) auto
  ultimately have "(payload_of h sz - START_PAGE) mod PAGE_SIZE = span sz - PAGE_SIZE - sz" by presburger
  then show ?thesis unfolding header_of_def by (simp add: payload_of_def)
qed

lemma header_of_bounds:
  assumes "START_PAGE + PAGE_SIZE \<le> p"
  shows "START_PAGE \<le> header_of p" "header_of p + PAGE_SIZE \<le> p" "PAGE_SIZE dvd header_of p - START_PAGE" "p < header_of p + 2 * PAGE_SIZE"
proof -
  let ?q = "p - START_PAGE"
  have q: "?q = PAGE_SIZE * (?q div PAGE_SIZE) + ?q mod PAGE_SIZE" by simp
  have r: "0 \<le> ?q mod PAGE_SIZE" "?q mod PAGE_SIZE < PAGE_SIZE" by (simp_all add: PAGE_SIZE_def)
  have "1 \<le> ?q div PAGE_SIZE" using assms by (simp add: PAGE_SIZE_def)
  moreover have e: "header_of p - START_PAGE = PAGE_SIZE * (?q div PAGE_SIZE - 1)"
    using q unfolding header_of_def right_diff_distrib by linarith
  ultimately show "START_PAGE \<le> header_of p" by (simp add: PAGE_SIZE_def)
  show "header_of p + PAGE_SIZE \<le> p" "p < header_of p + 2 * PAGE_SIZE" using r by (simp_all add: header_of_def)
  show "PAGE_SIZE dvd header_of p - START_PAGE" using e by simp
qed

text \<open>Every page below the first unused one is a header or belongs to a payload.\<close>

lemma placed_cover:
  "log_ok as \<Longrightarrow> a \<le> x \<Longrightarrow> x < a + log_size as \<Longrightarrow> PAGE_SIZE dvd x - a
    \<Longrightarrow> \<exists>h sz live. (h, sz, live) \<in> placed a as \<and> (x = h \<or> h + PAGE_SIZE \<le> x \<and> x < h + span sz)"
proof (induction as arbitrary: a)
  case (Cons c as)
  obtain k l where c: "c = (k, l)" by (cases c)
  have k: "PAGE_SIZE dvd span k" using span_bounds [of k] Cons.prems(1) c by auto
  show ?case
  proof (cases "a + span k \<le> x")
    case True
    have "PAGE_SIZE dvd (x - a) - span k" using Cons.prems(4) k by (rule dvd_diff)
    then have "PAGE_SIZE dvd x - (a + span k)" by (simp add: algebra_simps)
    moreover have "log_ok as" "x < a + span k + log_size as" using Cons.prems(1,3) c by (simp_all add: add.assoc)
    ultimately obtain h sz live where "(h, sz, live) \<in> placed (a + span k) as" "x = h \<or> h + PAGE_SIZE \<le> x \<and> x < h + span sz"
      using Cons.IH [of "a + span k"] True by blast
    moreover have "placed (a + span k) as \<subseteq> placed a (c # as)" using c by auto
    ultimately show ?thesis by blast
  next
    case False
    have "x = a \<or> a + PAGE_SIZE \<le> x" using Cons.prems(2,4) zdvd_imp_le [of PAGE_SIZE "x - a"] by force
    moreover have "(a, k, l) \<in> placed a (c # as)" "x < a + span k" using False c by auto
    ultimately show ?thesis by blast
  qed
qed simp

lemma free_reads:
  assumes "is_initialized s" and "START_PAGE + PAGE_SIZE \<le> p" and "p \<le> START_PAGE + MAX_HEAP_SIZE"
  defines "h \<equiv> header_of p"
  defines "sz \<equiv> get_le (bytes s) (h + 8) 8"
  shows "asan_free p s = (if get_le (bytes s) h 8 \<noteq> HEADER_MAGIC \<or> get_payload h sz \<noteq> p then Inl (Invalid_Free p)
    else if get_le (bytes s) (h + 16) 1 = 0 then Inl (Double_Free p sz)
    else and_then (set_header h sz False (mprotect h PAGE_SIZE True s))
      (\<lambda>t. Inr (mprotect (h + PAGE_SIZE) (PAGE_SIZE * pages_round_up sz) False (mprotect h PAGE_SIZE False t))))"
proof -
  note b = header_of_bounds [OF assms(2), folded h_def]
  have rwu: "rw (mprotect h PAGE_SIZE True s) x" if "h \<le> x" "x < h + 17" for x using b that assms(3) by (auto simp: mprotect_def PAGE_SIZE_def)
  have "load_bytes (h + 8) 8 (mprotect h PAGE_SIZE True s) = Inr sz" "load_bytes h 8 (mprotect h PAGE_SIZE True s) = Inr (get_le (bytes s) h 8)"
    "load_bytes (h + 2 * 8) 1 (mprotect h PAGE_SIZE True s) = Inr (get_le (bytes s) (h + 16) 1)"
    using rwu [of "h + 8"] rwu [of h] rwu [of "h + 16"] by (simp_all add: load_bytes_def sz_def)
  moreover have "p \<noteq> 0" "\<not> p < START_PAGE + PAGE_SIZE" "\<not> p > START_PAGE + MAX_HEAP_SIZE * PAGE_SIZE"
    using assms(2,3) by (auto simp: START_PAGE_def PAGE_SIZE_def MAX_HEAP_SIZE_def)
  moreover have "asan_init s = s" using assms(1) by (simp add: asan_init_def)
  ultimately show ?thesis unfolding asan_free_def Let_def header_of_def [symmetric] h_def [symmetric] by simp
qed

text \<open>An allocation in the log: where its header and its payload are.\<close>

lemma placed_header:
  assumes s: "sanitized s as" and pl: "(h, sz, live) \<in> placed START_PAGE as"
  shows "header_of (payload_of h sz) = h" "get_payload h sz = payload_of h sz" "START_PAGE + PAGE_SIZE \<le> payload_of h sz"
    "payload_of h sz \<le> current_page s" "START_PAGE \<le> h" "h + span sz \<le> current_page s" "0 \<le> sz" "sz < 2 ^ 62"
    "header_at (bytes s) h sz live"
proof -
  note h = sanitizedD [OF s]
  note b = placed_bounds [OF h(2) pl]
  show sz: "0 \<le> sz" "sz < 2 ^ 62" "START_PAGE \<le> h" "h + span sz \<le> current_page s" using b h(3) by auto
  show "header_of (payload_of h sz) = h" using b by (intro header_of_payload) auto
  show "get_payload h sz = payload_of h sz"
    by (rule get_payload_of [OF sz(1,2)]) (use sz span_bounds [OF sz(1)] h(4) in \<open>auto simp: START_PAGE_def MAX_HEAP_SIZE_def PAGE_SIZE_def\<close>)
  show "START_PAGE + PAGE_SIZE \<le> payload_of h sz" "payload_of h sz \<le> current_page s" using sz span_bounds [OF sz(1)] by (auto simp: payload_of_def)
  show "header_at (bytes s) h sz live" using h(5) pl by blast
qed

lemma free_dead:
  assumes s: "sanitized s as" and pl: "(h, sz, False) \<in> placed START_PAGE as"
  shows "asan_free (payload_of h sz) s = Inl (Double_Free (payload_of h sz) sz)"
  using free_reads [OF sanitizedD(1) [OF s], of "payload_of h sz"] placed_header [OF s pl] sanitizedD(4) [OF s] by (simp add: header_at_def)

text \<open>The pages of the checked program hold no value that reads as the header of an allocation.\<close>

definition no_forged_header :: "asan \<Rightarrow> log \<Rightarrow> bool" where
  "no_forged_header s as \<longleftrightarrow> (\<forall>h sz live g. (h, sz, live) \<in> placed START_PAGE as \<and> PAGE_SIZE dvd g - START_PAGE
     \<and> h + PAGE_SIZE \<le> g \<and> g < h + span sz \<longrightarrow> get_le (bytes s) g 8 \<noteq> HEADER_MAGIC)"

lemma get_le_zero: "(\<And>x. a \<le> x \<Longrightarrow> f x = 0) \<Longrightarrow> get_le f a n = 0"
  by (induction n arbitrary: a) auto

lemma free_other:
  assumes s: "sanitized s as" and forged: "no_forged_header s as" and p: "p \<noteq> 0" "p \<le> START_PAGE + MAX_HEAP_SIZE"
    and other: "\<And>h sz live. (h, sz, live) \<in> placed START_PAGE as \<Longrightarrow> payload_of h sz \<noteq> p"
  shows "asan_free p s = Inl (Invalid_Free p)"
proof (cases "p < START_PAGE + PAGE_SIZE")
  case True
  then show ?thesis using p sanitizedD(8) [OF s] by (simp add: asan_free_def Let_def)
next
  case False
  then have ge: "START_PAGE + PAGE_SIZE \<le> p" by simp
  note h = sanitizedD [OF s] and b = header_of_bounds [OF ge] and free = free_reads [OF sanitizedD(1) [OF s] ge p(2)]
  show ?thesis
  proof (cases "header_of p < current_page s")
    case True
    with placed_cover [OF h(2) b(1) _ b(3)] h(3) obtain g k live where g: "(g, k, live) \<in> placed START_PAGE as"
      "header_of p = g \<or> g + PAGE_SIZE \<le> header_of p \<and> header_of p < g + span k" by auto
    show ?thesis
    proof (cases "header_of p = g")
      case True
      then show ?thesis using free placed_header [OF s g(1)] other [OF g(1)] by (simp add: header_at_def)
    next
      case False
      then have "get_le (bytes s) (header_of p) 8 \<noteq> HEADER_MAGIC" using g forged b(3) unfolding no_forged_header_def by blast
      then show ?thesis using free by simp
    qed
  next
    case False
    then have "get_le (bytes s) (header_of p) 8 = 0" using h(7) by (intro get_le_zero) simp
    then show ?thesis using free by (simp add: HEADER_MAGIC_def)
  qed
qed

lemma placed_killed:
  assumes "log_ok (pre @ (sz, True) # post)"
  shows "(g, k, l) \<in> placed a (pre @ (sz, False) # post) \<longleftrightarrow>
    (if g = a + log_size pre then k = sz \<and> \<not> l else (g, k, l) \<in> placed a (pre @ (sz, True) # post))"
proof -
  have ok: "log_ok pre" "log_ok post" "0 \<le> sz" using assms by simp_all
  have "(g, k, l) \<in> placed a pre \<Longrightarrow> g < a + log_size pre"
    using placed_bounds [OF ok(1), of g k l a] span_bounds(1) [of k] by (auto simp: PAGE_SIZE_def)
  moreover have "(g, k, l) \<in> placed (a + log_size pre + span sz) post \<Longrightarrow> a + log_size pre < g"
    using placed_bounds [OF ok(2), of g k l "a + log_size pre + span sz"] span_bounds(1) [OF ok(3)] by (auto simp: PAGE_SIZE_def)
  ultimately show ?thesis by (auto simp: placed_append)
qed

lemma free_live:
  assumes s: "sanitized s (pre @ (sz, True) # post)"
  defines "h \<equiv> START_PAGE + log_size pre"
  shows "\<exists>t. asan_free (payload_of h sz) s = Inr t \<and> sanitized t (pre @ (sz, False) # post)
    \<and> (\<forall>x. x < h \<or> h + 17 \<le> x \<longrightarrow> bytes t x = bytes s x)"
proof -
  let ?as = "pre @ (sz, True) # post" and ?bs = "pre @ (sz, False) # post"
  note i = sanitizedD [OF s]
  have pl: "(h, sz, True) \<in> placed START_PAGE ?as" by (simp add: placed_append h_def)
  note a = placed_header [OF s pl] and sp = span_bounds [OF placed_header(7) [OF s pl]]
  have top: "h + PAGE_SIZE \<le> START_PAGE + MAX_HEAP_SIZE" using a(6) sp(1) i(4) by simp
  obtain t where t: "set_header h sz False (mprotect h PAGE_SIZE True s) = Inr t" "header_at (bytes t) h sz False"
    "is_initialized t = is_initialized s" "current_page t = current_page s"
    "\<And>x. rw t x = (if h \<le> x \<and> x < h + PAGE_SIZE then False else rw (mprotect h PAGE_SIZE True s) x)"
    "\<And>x. x < h \<or> h + 17 \<le> x \<Longrightarrow> bytes t x = bytes s x"
    using set_header_ok [OF a(5) top a(7,8), of False "mprotect h PAGE_SIZE True s"] by auto
  define v where "v = mprotect (h + PAGE_SIZE) (PAGE_SIZE * npages sz) False (mprotect h PAGE_SIZE False t)"
  have "get_le (bytes s) (h + 16) 1 = 1" "get_le (bytes s) h 8 = HEADER_MAGIC" "get_le (bytes s) (h + 8) 8 = sz" using a(9) by (simp_all add: header_at_def)
  then have code: "asan_free (payload_of h sz) s = Inr v"
    using free_reads [OF i(1) a(3)] a(1,2,4) i(4) t(1) by (simp del: get_le.simps add: v_def pages_round_up_small [OF a(7,8)])
  have len: "h + PAGE_SIZE + PAGE_SIZE * npages sz = h + span sz" by (simp add: span_def algebra_simps)
  have rwv: "rw v x = (if h \<le> x \<and> x < h + span sz then False else rw s x)" for x
    using t(5) [of x] a(5,6) i(4) sp(1) len unfolding v_def mprotect_def by (auto simp: PAGE_SIZE_def)
  have bv: "bytes v x = bytes s x" if "x < h \<or> h + 17 \<le> x" for x using t(6) [OF that] by (simp add: v_def)
  have "sanitized v ?bs"
    unfolding sanitized_def
  proof (intro conjI allI impI)
    fix g k l assume "(g, k, l) \<in> placed START_PAGE ?bs"
    then have g: "if g = h then k = sz \<and> \<not> l else (g, k, l) \<in> placed START_PAGE ?as" using placed_killed [OF i(2)] by (simp add: h_def)
    show "header_at (bytes v) g k l"
    proof (cases "g = h")
      case True
      then show ?thesis using g t(2) by (simp add: v_def)
    next
      case False
      then have pg: "(g, k, l) \<in> placed START_PAGE ?as" using g by simp
      have "g + 17 \<le> h \<or> h + 17 \<le> g" using placed_disjoint [OF i(2) pg pl] False span_bounds(1) [OF placed_header(7) [OF s pg]] sp(1)
        by (auto simp: PAGE_SIZE_def)
      then show ?thesis using header_at_cong [OF _ i(5) [OF pg], of "bytes v"] bv by auto
    qed
  next
    fix x
    have "open_page ?bs x \<longleftrightarrow> \<not> (h \<le> x \<and> x < h + span sz) \<and> open_page ?as x"
    proof
      assume "open_page ?bs x"
      then obtain g k where g: "(g, k, True) \<in> placed START_PAGE ?bs" "g + PAGE_SIZE \<le> x" "x < g + span k" unfolding open_page_def by blast
      then have pg: "g \<noteq> h" "(g, k, True) \<in> placed START_PAGE ?as" using placed_killed [OF i(2)] by (auto simp: h_def split: if_splits)
      then show "\<not> (h \<le> x \<and> x < h + span sz) \<and> open_page ?as x"
        using g placed_disjoint [OF i(2) pg(2) pl] unfolding open_page_def by (auto simp: PAGE_SIZE_def)
    next
      assume x: "\<not> (h \<le> x \<and> x < h + span sz) \<and> open_page ?as x"
      then obtain g k where g: "(g, k, True) \<in> placed START_PAGE ?as" "g + PAGE_SIZE \<le> x" "x < g + span k" unfolding open_page_def by blast
      then have "g \<noteq> h" using x placed_disjoint [OF i(2) g(1) pl] sp(1) span_bounds(1) [OF placed_header(7) [OF s g(1)]] by (auto simp: PAGE_SIZE_def)
      then show "open_page ?bs x" using g placed_killed [OF i(2)] unfolding open_page_def h_def by auto
    qed
    then show "rw v x = open_page ?bs x" using rwv [of x] i(6) [of x] by auto
  next
    fix x assume "current_page v \<le> x"
    then show "bytes v x = 0" using bv [of x] i(7) [of x] a(6) sp(1) t(4) by (auto simp: v_def PAGE_SIZE_def)
  qed (use i t(3,4) in \<open>simp_all add: v_def\<close>)
  then show ?thesis using code bv by blast
qed

lemma user_write_ok:
  assumes s: "sanitized s as" and x: "open_page as x"
  shows "\<exists>t. user_write x v s = Inr t \<and> sanitized t as \<and> bytes t = (bytes s)(x := v)"
proof -
  note i = sanitizedD [OF s]
  obtain h sz where h: "(h, sz, True) \<in> placed START_PAGE as" "h + PAGE_SIZE \<le> x" "x < h + span sz" using x unfolding open_page_def by blast
  have "header_at ((bytes s)(x := v)) g k l" if g: "(g, k, l) \<in> placed START_PAGE as" for g k l
  proof (rule header_at_cong [OF _ i(5) [OF g]])
    fix y assume "g \<le> y" "y < g + 17"
    then show "((bytes s)(x := v)) y = bytes s y" using placed_disjoint [OF i(2) g h(1)] h(2,3) span_bounds(1) [OF placed_header(7) [OF s g]]
      by (auto simp: PAGE_SIZE_def)
  qed
  moreover have "x < current_page s" using open_page_bounds [OF i(2) x] i(3) by simp
  ultimately show ?thesis using i x by (auto simp: user_write_def sanitized_def)
qed

section \<open>The leak check\<close>

fun first_leak :: "int \<Rightarrow> log \<Rightarrow> (int \<times> int) option" where
  "first_leak a [] = None"
| "first_leak a ((sz, live) # as) = (if live then Some (a, sz) else first_leak (a + span sz) as)"

definition leak_report :: "asan \<Rightarrow> (int \<times> int) option \<Rightarrow> report + asan" where
  "leak_report s l = (case l of Some (h, sz) \<Rightarrow> Inl (Memory_Leak (payload_of h sz) sz)
     | None \<Rightarrow> if current_page s < START_PAGE + MAX_HEAP_SIZE then Inr s else Inl (Invalid_Heap_Access (current_page s + 8)))"

lemma mprotect_twice: "(\<And>x. a \<le> x \<Longrightarrow> x < a + n \<Longrightarrow> \<not> rw s x) \<Longrightarrow> mprotect a n False (mprotect a n True s) = s"
  by (cases s) (auto simp: mprotect_def)

lemma current_page_fits:
  assumes s: "sanitized s as" and "current_page s < START_PAGE + MAX_HEAP_SIZE"
  shows "current_page s + PAGE_SIZE \<le> START_PAGE + MAX_HEAP_SIZE"
proof -
  have "log_ok as \<Longrightarrow> PAGE_SIZE dvd log_size as" by (induction as) (auto simp: span_bounds)
  then have "PAGE_SIZE dvd MAX_HEAP_SIZE - log_size as" using sanitizedD(2) [OF s] by (intro dvd_diff) (simp_all add: PAGE_SIZE_def MAX_HEAP_SIZE_def)
  moreover have "0 < MAX_HEAP_SIZE - log_size as" using sanitizedD(3) [OF s] assms(2) by simp
  ultimately have "PAGE_SIZE \<le> MAX_HEAP_SIZE - log_size as" using zdvd_imp_le by blast
  then show ?thesis using sanitizedD(3) [OF s] by simp
qed

lemma leak_step:
  assumes "header < current_page s" and "START_PAGE \<le> a" and "a + PAGE_SIZE \<le> START_PAGE + MAX_HEAP_SIZE"
  defines "sz \<equiv> get_le (bytes s) (a + 8) 8"
  shows "leak_loop header a s = (if get_le (bytes s) (a + 16) 1 \<noteq> 0 then Some (Inl (Memory_Leak (get_payload a sz) sz))
    else leak_loop a (a + PAGE_SIZE + pages_round_up sz * PAGE_SIZE) (mprotect a PAGE_SIZE False (mprotect a PAGE_SIZE True s)))"
proof -
  have "rw (mprotect a PAGE_SIZE True s) (a + 8)" "rw (mprotect a PAGE_SIZE True s) (a + 16)"
    using assms(2,3) by (simp_all add: mprotect_def PAGE_SIZE_def)
  then show ?thesis using assms(1) by (subst leak_loop.simps) (simp add: load_bytes_def sz_def Let_def)
qed

lemma leak_scan:
  assumes "log_ok bs" and "START_PAGE \<le> a" and "a + log_size bs = current_page s" and "header < current_page s"
    and "current_page s \<le> START_PAGE + MAX_HEAP_SIZE"
    and "\<And>h sz live. (h, sz, live) \<in> placed a bs \<Longrightarrow> header_at (bytes s) h sz live"
    and "\<And>x. current_page s \<le> x \<Longrightarrow> bytes s x = 0"
    and "\<And>h sz live x. (h, sz, live) \<in> placed a bs \<Longrightarrow> h \<le> x \<Longrightarrow> x < h + PAGE_SIZE \<Longrightarrow> \<not> rw s x"
    and "\<And>x. current_page s \<le> x \<Longrightarrow> \<not> rw s x"
    and "is_initialized s" and "current_page s < START_PAGE + MAX_HEAP_SIZE \<Longrightarrow> current_page s + PAGE_SIZE \<le> START_PAGE + MAX_HEAP_SIZE"
  shows "leak_loop header a s = Some (leak_report s (first_leak a bs))"
  using assms
proof (induction bs arbitrary: a header)
  case Nil
  have a: "current_page s = a" using Nil.prems(3) by simp
  show ?case
  proof (cases "a < START_PAGE + MAX_HEAP_SIZE")
    case True
    then have fits: "a + PAGE_SIZE \<le> START_PAGE + MAX_HEAP_SIZE" using Nil.prems(11) a by simp
    have z: "get_le (bytes s) (a + 16) 1 = 0" "get_le (bytes s) (a + 8) 8 = 0" using Nil.prems(3,7) by (auto intro!: get_le_zero)
    have same: "mprotect a PAGE_SIZE False (mprotect a PAGE_SIZE True s) = s" by (rule mprotect_twice) (use Nil.prems(3,9) in auto)
    have "leak_loop header a s = leak_loop a (a + PAGE_SIZE) s"
      using leak_step [OF Nil.prems(4,2) fits] z same by (simp del: get_le.simps add: pages_round_up_def PAGE_SIZE_def)
    also have "\<dots> = Some (Inr s)" using a by (subst leak_loop.simps) simp
    finally show ?thesis using True a by (simp add: leak_report_def)
  next
    case False
    have "\<not> rw (mprotect a PAGE_SIZE True s) (a + 8)" using False Nil.prems(9) [of "a + 8"] a by (simp add: mprotect_def)
    then show ?thesis using False a Nil.prems(2,4,10)
      by (subst leak_loop.simps) (simp add: Let_def load_bytes_def sigsegv_handler_def leak_report_def START_PAGE_def PAGE_SIZE_def)
  qed
next
  case (Cons c bs)
  obtain sz live where c: "c = (sz, live)" by (cases c)
  have sz: "0 \<le> sz" "sz < 2 ^ 62" "log_ok bs" using Cons.prems(1) c by simp_all
  note sp = span_bounds [OF sz(1)] and ls = log_size_nonneg [OF sz(3)]
  have fits: "a + PAGE_SIZE \<le> START_PAGE + MAX_HEAP_SIZE" and lt: "a < current_page s"
    using Cons.prems(3,5) c sp(1) ls by (auto simp: PAGE_SIZE_def)
  have hd: "get_le (bytes s) (a + 8) 8 = sz" "get_le (bytes s) (a + 16) 1 = of_bool live"
    using Cons.prems(6) [of a sz live] c by (simp_all add: header_at_def)
  note step = leak_step [OF Cons.prems(4,2) fits, unfolded hd]
  show ?case
  proof (cases live)
    case True
    have "get_payload a sz = payload_of a sz"
      by (rule get_payload_of [OF sz(1,2)]) (use Cons.prems(2) fits in \<open>auto simp: START_PAGE_def MAX_HEAP_SIZE_def PAGE_SIZE_def\<close>)
    then show ?thesis using step True c by (simp add: leak_report_def)
  next
    case False
    have same: "mprotect a PAGE_SIZE False (mprotect a PAGE_SIZE True s) = s" by (rule mprotect_twice) (use Cons.prems(8) c in auto)
    have next_header: "a + PAGE_SIZE + pages_round_up sz * PAGE_SIZE = a + span sz" using pages_round_up_small [OF sz(1,2)] by (simp add: span_def algebra_simps)
    have "leak_loop header a s = leak_loop a (a + span sz) s" using step False unfolding next_header same by simp
    moreover have "leak_loop a (a + span sz) s = Some (leak_report s (first_leak (a + span sz) bs))"
      by (rule Cons.IH [OF sz(3) _ _ lt Cons.prems(5) Cons.prems(6) Cons.prems(7) Cons.prems(8) Cons.prems(9) Cons.prems(10) Cons.prems(11)])
        (use Cons.prems(2,3) c sp(1) in \<open>auto simp: PAGE_SIZE_def\<close>)
    ultimately show ?thesis using False c by simp
  qed
qed

lemma header_closed:
  assumes s: "sanitized s as" and g: "(g, k, l) \<in> placed START_PAGE as" "g \<le> x" "x < g + PAGE_SIZE"
  shows "\<not> open_page as x"
  using placed_disjoint [OF sanitizedD(2) [OF s] g(1)] g(2,3) span_bounds(1) [OF placed_header(7) [OF s g(1)]]
  unfolding open_page_def by fastforce

lemma check_for_leaks_ok:
  assumes s: "sanitized s as"
  shows "check_for_leaks s = Some (leak_report s (first_leak START_PAGE as))"
proof (cases "as = []")
  case True
  then show ?thesis using sanitizedD(3) [OF s] unfolding check_for_leaks_def by (subst leak_loop.simps) (simp add: leak_report_def MAX_HEAP_SIZE_def)
next
  case False
  note i = sanitizedD [OF s]
  obtain sz live bs where as: "as = (sz, live) # bs" using False by (metis neq_Nil_conv prod.collapse)
  have "START_PAGE < current_page s" using i(2,3) as span_bounds(1) [of sz] log_size_nonneg [of bs] by (auto simp: PAGE_SIZE_def)
  moreover have "\<not> rw s x" if g: "(h, sz, live) \<in> placed START_PAGE as" "h \<le> x" "x < h + PAGE_SIZE" for h sz live x
    using header_closed [OF s g] i(6) by simp
  moreover have "\<not> rw s x" if "current_page s \<le> x" for x using that i(3,6) open_page_bounds [OF i(2), of x] by auto
  ultimately show ?thesis unfolding check_for_leaks_def using i(1-5,7) current_page_fits [OF s] by (intro leak_scan) auto
qed

section \<open>The contract of the sanitizer\<close>

text \<open>
  What a checked program does: calls of the two entry points, accesses to single bytes, and its exit. The result
  of an operation is the pointer of \<^verbatim>\<open>malloc\<close>, the byte read, or 0.
\<close>

datatype user_op = Malloc int | Free int | Load int | Store int byte | Exit

definition asan_step :: "user_op \<Rightarrow> asan \<Rightarrow> (report + int \<times> asan) option" where
  "asan_step c s = (case c of
      Malloc sz \<Rightarrow> Some (asan_malloc sz s)
    | Free p \<Rightarrow> Some (and_then (asan_free p s) (\<lambda>t. Inr (0, t)))
    | Load x \<Rightarrow> Some (and_then (user_read x s) (\<lambda>v. Inr (uint v, s)))
    | Store x v \<Rightarrow> Some (and_then (user_write x v s) (\<lambda>t. Inr (0, t)))
    | Exit \<Rightarrow> map_option (\<lambda>r. and_then r (\<lambda>t. Inr (0, t))) (check_for_leaks s))"

text \<open>The contract speaks of the log of allocations and of the contents of their pages only.\<close>

fun find_alloc :: "int \<Rightarrow> int \<Rightarrow> log \<Rightarrow> (int \<times> bool) option" where
  "find_alloc a p [] = None"
| "find_alloc a p ((sz, live) # as) = (if payload_of a sz = p then Some (sz, live) else find_alloc (a + span sz) p as)"

fun kill :: "int \<Rightarrow> int \<Rightarrow> log \<Rightarrow> log" where
  "kill a p [] = []"
| "kill a p ((sz, live) # as) = (if payload_of a sz = p then (sz, False) # as else (sz, live) # kill (a + span sz) p as)"

fun in_use :: "int \<Rightarrow> int \<Rightarrow> log \<Rightarrow> bool" where
  "in_use a x [] = False"
| "in_use a x ((sz, live) # as) = (live \<and> a + PAGE_SIZE \<le> x \<and> x < a + span sz \<or> in_use (a + span sz) x as)"

definition bad_access :: "int \<Rightarrow> log \<Rightarrow> report" where
  "bad_access x as = (if START_PAGE \<le> x \<and> x < START_PAGE + log_size as + PAGE_SIZE then Invalid_Heap_Access x else Seg_Fault x)"

definition spec_step :: "user_op \<Rightarrow> log \<Rightarrow> report + log" where
  "spec_step c as = (case c of
      Malloc sz \<Rightarrow> Inr (as @ [(sz, True)])
    | Free p \<Rightarrow> if p = 0 then Inr as else (case find_alloc START_PAGE p as of
          None \<Rightarrow> Inl (Invalid_Free p)
        | Some (sz, live) \<Rightarrow> if live then Inr (kill START_PAGE p as) else Inl (Double_Free p sz))
    | Load x \<Rightarrow> if in_use START_PAGE x as then Inr as else Inl (bad_access x as)
    | Store x v \<Rightarrow> if in_use START_PAGE x as then Inr as else Inl (bad_access x as)
    | Exit \<Rightarrow> (case first_leak START_PAGE as of None \<Rightarrow> Inr as | Some (h, sz) \<Rightarrow> Inl (Memory_Leak (payload_of h sz) sz)))"

definition spec_value :: "user_op \<Rightarrow> log \<Rightarrow> asan \<Rightarrow> int" where
  "spec_value c as s = (case c of Malloc sz \<Rightarrow> payload_of (START_PAGE + log_size as) sz | Load x \<Rightarrow> uint (bytes s x) | _ \<Rightarrow> 0)"

text \<open>
  The bounds of the contract: the heap has room for the allocation, a freed pointer does not lie beyond the
  heap, and a page is left when the program exits (the leak check reads one page past the last allocation).
\<close>

definition op_fits :: "user_op \<Rightarrow> log \<Rightarrow> bool" where
  "op_fits c as = (case c of Malloc sz \<Rightarrow> 0 \<le> sz \<and> sz < 2 ^ 62 \<and> log_size as + span sz \<le> MAX_HEAP_SIZE
     | Free p \<Rightarrow> p \<le> START_PAGE + MAX_HEAP_SIZE | Exit \<Rightarrow> log_size as < MAX_HEAP_SIZE | _ \<Rightarrow> True)"

lemma in_use_open: "in_use a x as \<longleftrightarrow> (\<exists>h sz. (h, sz, True) \<in> placed a as \<and> h + PAGE_SIZE \<le> x \<and> x < h + span sz)"
  by (induction a x as rule: in_use.induct) auto

lemma find_alloc_placed:
  "(case find_alloc a p as of None \<Rightarrow> \<forall>h sz live. (h, sz, live) \<in> placed a as \<longrightarrow> payload_of h sz \<noteq> p
    | Some (sz, live) \<Rightarrow> \<exists>pre post. as = pre @ (sz, live) # post \<and> payload_of (a + log_size pre) sz = p
        \<and> kill a p as = pre @ (sz, False) # post)"
proof (induction a p as rule: find_alloc.induct)
  case (2 a p k l as)
  show ?case
  proof (cases "payload_of a k = p")
    case True
    then have "(k, l) # as = [] @ (k, l) # as \<and> payload_of (a + log_size []) k = p \<and> kill a p ((k, l) # as) = [] @ (k, False) # as" by simp
    moreover have found: "find_alloc a p ((k, l) # as) = Some (k, l)" using True by simp
    ultimately show ?thesis unfolding found option.case prod.case by blast
  next
    case False
    note ih = 2 [OF False]
    show ?thesis
    proof (cases "find_alloc (a + span k) p as")
      case None
      then show ?thesis using ih False by auto
    next
      case (Some r)
      obtain sz live where r: "r = (sz, live)" by (cases r)
      with ih Some obtain pre post where pp: "as = pre @ (sz, live) # post" "payload_of (a + span k + log_size pre) sz = p"
        "kill (a + span k) p as = pre @ (sz, False) # post" by auto
      then have "(k, l) # as = ((k, l) # pre) @ (sz, live) # post \<and> payload_of (a + log_size ((k, l) # pre)) sz = p
        \<and> kill a p ((k, l) # as) = ((k, l) # pre) @ (sz, False) # post" using False by (simp add: add.assoc)
      moreover have found: "find_alloc a p ((k, l) # as) = Some (sz, live)" using Some r False by simp
      ultimately show ?thesis unfolding found option.case prod.case by blast
    qed
  qed
qed simp

text \<open>
  The first byte of a header is \<^verbatim>\<open>0xEF\<close>. A program that never stores it as the first byte of a page cannot forge
  a header, whatever else it stores.
\<close>

definition careful :: "user_op \<Rightarrow> bool" where
  "careful c = (case c of Store x v \<Rightarrow> \<not> (PAGE_SIZE dvd x - START_PAGE \<and> v = 0xEF) | _ \<Rightarrow> True)"

definition unforged :: "asan \<Rightarrow> log \<Rightarrow> bool" where
  "unforged s as \<longleftrightarrow> (\<forall>h sz live g. (h, sz, live) \<in> placed START_PAGE as \<longrightarrow> PAGE_SIZE dvd g - START_PAGE \<longrightarrow> h + PAGE_SIZE \<le> g
     \<longrightarrow> g < h + span sz \<longrightarrow> bytes s g \<noteq> 0xEF)"

lemma unforgedD: "unforged s as \<Longrightarrow> (h, sz, live) \<in> placed START_PAGE as \<Longrightarrow> PAGE_SIZE dvd g - START_PAGE \<Longrightarrow> h + PAGE_SIZE \<le> g
    \<Longrightarrow> g < h + span sz \<Longrightarrow> bytes s g \<noteq> 0xEF"
  unfolding unforged_def by blast

lemma magic_first_byte: "get_le f g 8 = HEADER_MAGIC \<Longrightarrow> f g = 0xEF"
proof -
  assume m: "get_le f g 8 = HEADER_MAGIC"
  have "HEADER_MAGIC = uint (f g) + 256 * get_le f (g + 1) 7" using m get_le.simps(2) [of f g 7] by simp
  then have "HEADER_MAGIC mod 256 = uint (f g) mod 256" by (metis mod_mult_self2)
  also have "uint (f g) mod 256 = uint (f g)" using uint_lt2p [of "f g"] by (intro mod_pos_pos_trivial) simp_all
  finally have "uint (f g) = HEADER_MAGIC mod 256" by simp
  then show ?thesis by (simp add: HEADER_MAGIC_def word_uint_eq_iff)
qed

lemma unforged_no_forged_header: "unforged s as \<Longrightarrow> no_forged_header s as"
  using magic_first_byte unforgedD unfolding no_forged_header_def by blast

lemma malloc_unforged:
  assumes s: "sanitized s as" and f: "unforged s as" and "0 \<le> sz"
    and same: "\<And>x. x < current_page s \<or> current_page s + 17 \<le> x \<Longrightarrow> bytes t x = bytes s x"
  shows "unforged t (as @ [(sz, True)])"
  unfolding unforged_def
proof (intro allI impI)
  fix h k live g assume pl: "(h, k, live) \<in> placed START_PAGE (as @ [(sz, True)])" and g: "PAGE_SIZE dvd g - START_PAGE" "h + PAGE_SIZE \<le> g" "g < h + span k"
  note i = sanitizedD [OF s]
  show "bytes t g \<noteq> 0xEF"
  proof (cases "(h, k, live) \<in> placed START_PAGE as")
    case True
    then have "g < current_page s" using placed_bounds [OF i(2) True] i(3) g by simp
    then show ?thesis using same [of g] unforgedD [OF f True g] by simp
  next
    case False
    then have "h = current_page s" using pl i(3) by (auto simp: placed_append)
    then show ?thesis using same [of g] i(7) [of g] g(2) by (simp add: PAGE_SIZE_def)
  qed
qed

lemma free_unforged:
  assumes s: "sanitized s (pre @ (sz, True) # post)" and f: "unforged s (pre @ (sz, True) # post)"
    and same: "\<And>x. x < START_PAGE + log_size pre \<or> START_PAGE + log_size pre + 17 \<le> x \<Longrightarrow> bytes t x = bytes s x"
  shows "unforged t (pre @ (sz, False) # post)"
  unfolding unforged_def
proof (intro allI impI)
  fix h k live g assume pl: "(h, k, live) \<in> placed START_PAGE (pre @ (sz, False) # post)" and g: "PAGE_SIZE dvd g - START_PAGE" "h + PAGE_SIZE \<le> g" "g < h + span k"
  let ?as = "pre @ (sz, True) # post" and ?h = "START_PAGE + log_size pre"
  note i = sanitizedD [OF s]
  have me: "(?h, sz, True) \<in> placed START_PAGE ?as" by (simp add: placed_append)
  obtain l where l: "(h, k, l) \<in> placed START_PAGE ?as" using pl me placed_killed [OF i(2)] by (auto split: if_splits)
  have "g < ?h \<or> ?h + 17 \<le> g" using placed_disjoint [OF i(2) l me] g span_bounds(1) [OF placed_header(7) [OF s me]] by (auto simp: PAGE_SIZE_def)
  then show "bytes t g \<noteq> 0xEF" using same [of g] unforgedD [OF f l g] by simp
qed

text \<open>One operation of the checked program follows the contract.\<close>

lemma asan_step_ok:
  assumes s: "sanitized s as" and f: "unforged s as" and fits: "op_fits c as" and c: "careful c"
  shows "case spec_step c as of Inl r \<Rightarrow> asan_step c s = Some (Inl r)
    | Inr bs \<Rightarrow> \<exists>t. asan_step c s = Some (Inr (spec_value c as s, t)) \<and> sanitized t bs \<and> unforged t bs"
proof (cases c)
  case (Malloc sz)
  have "\<exists>t. asan_malloc sz s = Inr (payload_of (current_page s) sz, t) \<and> sanitized t (as @ [(sz, True)])
    \<and> (\<forall>x. x < current_page s \<or> current_page s + 17 \<le> x \<longrightarrow> bytes t x = bytes s x)"
    by (rule malloc_ok [OF s]) (use fits Malloc sanitizedD(3) [OF s] in \<open>auto simp: op_fits_def\<close>)
  then show ?thesis using malloc_unforged [OF s f] fits Malloc sanitizedD(3) [OF s]
    by (auto simp: spec_step_def asan_step_def spec_value_def op_fits_def)
next
  case (Free p)
  show ?thesis
  proof (cases "p = 0")
    case True
    then show ?thesis using Free s f sanitizedD(8) [OF s] by (simp add: spec_step_def asan_step_def spec_value_def asan_free_def)
  next
    case p: False
    note find = find_alloc_placed [where a = START_PAGE and p = p and as = as]
    show ?thesis
    proof (cases "find_alloc START_PAGE p as")
      case None
      then have "asan_free p s = Inl (Invalid_Free p)"
        using free_other [OF s unforged_no_forged_header [OF f] p] find fits Free unfolding op_fits_def by auto
      then show ?thesis using Free p None by (simp add: spec_step_def asan_step_def)
    next
      case (Some r)
      obtain sz live where r: "r = (sz, live)" by (cases r)
      with find Some obtain pre post where pp: "as = pre @ (sz, live) # post" "payload_of (START_PAGE + log_size pre) sz = p"
        "kill START_PAGE p as = pre @ (sz, False) # post" by auto
      show ?thesis
      proof (cases live)
        case True
        with pp(1) s f have s': "sanitized s (pre @ (sz, True) # post)" and f': "unforged s (pre @ (sz, True) # post)" by simp_all
        from free_live [OF s'] pp(2) obtain t where "asan_free p s = Inr t" "sanitized t (pre @ (sz, False) # post)"
          "\<And>x. x < START_PAGE + log_size pre \<or> START_PAGE + log_size pre + 17 \<le> x \<Longrightarrow> bytes t x = bytes s x" by auto
        then show ?thesis using Free p Some r True pp(3) free_unforged [OF s' f'] by (simp add: spec_step_def asan_step_def spec_value_def)
      next
        case False
        then have "(START_PAGE + log_size pre, sz, False) \<in> placed START_PAGE as" using pp(1) by (simp add: placed_append)
        from free_dead [OF s this] show ?thesis using Free p Some r False pp(2) by (simp add: spec_step_def asan_step_def)
      qed
    qed
  qed
next
  case (Load x)
  then show ?thesis using s f sanitizedD(1,3,6) [OF s] in_use_open [of START_PAGE x as] log_size_nonneg [OF sanitizedD(2) [OF s]]
    by (auto simp: spec_step_def asan_step_def spec_value_def user_read_def bad_access_def sigsegv_handler_def open_page_def START_PAGE_def)
next
  case (Store x v)
  show ?thesis
  proof (cases "in_use START_PAGE x as")
    case True
    then have "open_page as x" by (simp add: in_use_open open_page_def)
    from user_write_ok [OF s this] obtain t where t: "user_write x v s = Inr t" "sanitized t as" "bytes t = (bytes s)(x := v)" by blast
    have "unforged t as" using c Store f t(3) unfolding unforged_def careful_def by auto
    then show ?thesis using t Store True by (simp add: spec_step_def asan_step_def spec_value_def)
  next
    case False
    then show ?thesis using Store sanitizedD(1,3,6) [OF s] in_use_open [of START_PAGE x as] log_size_nonneg [OF sanitizedD(2) [OF s]]
      by (auto simp: spec_step_def asan_step_def user_write_def bad_access_def sigsegv_handler_def open_page_def START_PAGE_def)
  qed
next
  case Exit
  then show ?thesis using s f check_for_leaks_ok [OF s] fits sanitizedD(3) [OF s]
    by (cases "first_leak START_PAGE as") (auto simp: spec_step_def asan_step_def spec_value_def leak_report_def op_fits_def)
qed

section \<open>Runs of a checked program\<close>

fun asan_run :: "user_op list \<Rightarrow> asan \<Rightarrow> (report + asan) option" where
  "asan_run [] s = Some (Inr s)"
| "asan_run (c # cs) s = (case asan_step c s of None \<Rightarrow> None | Some (Inl r) \<Rightarrow> Some (Inl r) | Some (Inr (v, t)) \<Rightarrow> asan_run cs t)"

fun spec_run :: "user_op list \<Rightarrow> log \<Rightarrow> report + log" where
  "spec_run [] as = Inr as"
| "spec_run (c # cs) as = and_then (spec_step c as) (spec_run cs)"

fun run_fits :: "user_op list \<Rightarrow> log \<Rightarrow> bool" where
  "run_fits [] as = True"
| "run_fits (c # cs) as = (op_fits c as \<and> (case spec_step c as of Inl r \<Rightarrow> True | Inr bs \<Rightarrow> run_fits cs bs))"

lemma asan_run_ok:
  "sanitized s as \<Longrightarrow> unforged s as \<Longrightarrow> run_fits cs as \<Longrightarrow> list_all careful cs
    \<Longrightarrow> (case spec_run cs as of Inl r \<Rightarrow> asan_run cs s = Some (Inl r) | Inr bs \<Rightarrow> \<exists>t. asan_run cs s = Some (Inr t) \<and> sanitized t bs)"
proof (induction cs arbitrary: s as)
  case (Cons c cs)
  have step: "case spec_step c as of Inl r \<Rightarrow> asan_step c s = Some (Inl r)
    | Inr bs \<Rightarrow> \<exists>t. asan_step c s = Some (Inr (spec_value c as s, t)) \<and> sanitized t bs \<and> unforged t bs"
    using Cons.prems by (intro asan_step_ok) auto
  show ?case
  proof (cases "spec_step c as")
    case (Inl r)
    then show ?thesis using step by simp
  next
    case (Inr bs)
    with step obtain t where t: "asan_step c s = Some (Inr (spec_value c as s, t))" "sanitized t bs" "unforged t bs" by auto
    have "run_fits cs bs" "list_all careful cs" using Cons.prems(3,4) Inr by simp_all
    note ih = Cons.IH [OF t(2,3) this]
    have "asan_run (c # cs) s = asan_run cs t" "spec_run (c # cs) as = spec_run cs bs" using Inr t(1) by simp_all
    then show ?thesis using ih by (simp only:)
  qed
qed simp





text \<open>Where the sanitizer stops short of its contract: beyond the heap, and with a heap that is full.\<close>

theorem free_beyond_heap_seg_fault:
  assumes s: "sanitized s as" and p: "START_PAGE + MAX_HEAP_SIZE + 3 * PAGE_SIZE \<le> p" "p \<le> START_PAGE + MAX_HEAP_SIZE * PAGE_SIZE"
  shows "asan_free p s = Inl (Seg_Fault (header_of p + 8))"
proof -
  note i = sanitizedD [OF s]
  have h: "START_PAGE + MAX_HEAP_SIZE < header_of p" using header_of_bounds(4) [of p] p(1) by (auto simp: MAX_HEAP_SIZE_def PAGE_SIZE_def)
  have "\<not> rw (mprotect (header_of p) PAGE_SIZE True s) (header_of p + 8)"
    using h i(3,4,6) open_page_bounds [OF i(2), of "header_of p + 8"] by (auto simp: mprotect_def)
  then have "load_bytes (header_of p + 8) 8 (mprotect (header_of p) PAGE_SIZE True s) = Inl (Seg_Fault (header_of p + 8))" if "current_page s + PAGE_SIZE \<le> header_of p"
    using that by (simp add: load_bytes_def sigsegv_handler_def)
  moreover have "current_page s + PAGE_SIZE \<le> header_of p" using header_of_bounds(2,4) [of p] p(1) i(4) by (auto simp: MAX_HEAP_SIZE_def PAGE_SIZE_def)
  ultimately show ?thesis using p i(8) unfolding asan_free_def Let_def header_of_def [symmetric] by (auto simp: START_PAGE_def MAX_HEAP_SIZE_def PAGE_SIZE_def)
qed

theorem full_heap_reported_at_exit:
  assumes s: "sanitized s as" and "log_size as = MAX_HEAP_SIZE" and "\<forall>(sz, live) \<in> set as. \<not> live"
  shows "check_for_leaks s = Some (Inl (Invalid_Heap_Access (START_PAGE + MAX_HEAP_SIZE + 8)))"
proof -
  have "\<forall>(sz, live) \<in> set as. \<not> live \<Longrightarrow> first_leak a as = None" for a by (induction a as rule: first_leak.induct) auto
  then show ?thesis using check_for_leaks_ok [OF s] sanitizedD(3) [OF s] assms(2,3) by (simp add: leak_report_def)
qed

theorem malloc_full_heap_reported:
  assumes s: "sanitized s as" and "log_size as = MAX_HEAP_SIZE"
  shows "asan_malloc sz s = Inl (Invalid_Heap_Access (START_PAGE + MAX_HEAP_SIZE))"
proof -
  note i = sanitizedD [OF s]
  have c: "current_page s = START_PAGE + MAX_HEAP_SIZE" using i(3) assms(2) by simp
  have "\<not> rw s (START_PAGE + MAX_HEAP_SIZE)" using i(3,6) open_page_bounds [OF i(2)] assms(2) by auto
  then show ?thesis using i(1,8) c
    by (simp add: asan_malloc_def set_header_def store_bytes_def mprotect_def sigsegv_handler_def Let_def START_PAGE_def PAGE_SIZE_def MAX_HEAP_SIZE_def)
qed

end
