(* ===== verification/Page_Table.thy ===== *)
theory Page_Table
  imports Memlib
begin

text \<open>
  Page tables of the small operating system under \<^verbatim>\<open>src/mini-operating-system\<close>: the constants of \<^verbatim>\<open>x86-64.h\<close> and \<^verbatim>\<open>kernel.hh\<close>,
  the page allocator of \<^verbatim>\<open>kernel.c\<close>, the iterators of \<^verbatim>\<open>k-vmiter.cc\<close> and the helpers of \<^verbatim>\<open>util.c\<close>. Memory is a map from
  physical addresses to bytes with the reference counts of its pages; a failed assertion, a panic and a fault of the kernel are
  values. An iterator is shown to find what a walk from the root of the table finds.
\<close>

unbundle bit_operations_syntax

section \<open>Constants of the machine\<close>

definition PAGESIZE :: int where
  "PAGESIZE = 4096"

definition PTE_P :: int where
  "PTE_P = 0x1"

definition PTE_W :: int where
  "PTE_W = 0x2"

definition PTE_U :: int where
  "PTE_U = 0x4"

definition PTE_PWU :: int where
  "PTE_PWU = 0x7"

definition PTE_PS :: int where
  "PTE_PS = 0x80"

definition PTE_PAMASK :: int where
  "PTE_PAMASK = 0x000FFFFFFFFFF000"

lemmas pte_defs = PAGESIZE_def PTE_P_def PTE_W_def PTE_U_def PTE_PWU_def PTE_PS_def

definition pageindex :: "int \<Rightarrow> nat \<Rightarrow> int" where
  "pageindex addr level = drop_bit (12 + level * 9) addr AND 0x1FF"

definition pageoffmask :: "nat \<Rightarrow> int" where
  "pageoffmask level = push_bit (12 + level * 9) 1 - 1"

definition va_is_canonical :: "int \<Rightarrow> bool" where
  "va_is_canonical va \<longleftrightarrow> va \<le> 0x00007FFFFFFFFFFF \<or> va \<ge> 0xFFFF800000000000"

section \<open>Bits\<close>

lemma and_512: "(x :: int) AND 511 = x mod 512"
  using take_bit_eq_mask [of 9 x] by (simp add: take_bit_eq_mod mask_eq_exp_minus_1)

lemma pageindex_eq: "pageindex va l = va div 2 ^ (12 + l * 9) mod 512"
  by (simp add: pageindex_def drop_bit_eq_div and_512)

lemma pageindex_range: "0 \<le> pageindex va l" "pageindex va l < 512"
  by (simp_all add: pageindex_eq)

lemma pamask_eq: "e AND PTE_PAMASK = 4096 * (e div 4096 mod 2 ^ 40)"
proof -
  have "PTE_PAMASK = push_bit 12 (mask 40)" by (simp add: PTE_PAMASK_def push_bit_eq_mult mask_eq_exp_minus_1)
  then have "e AND PTE_PAMASK = push_bit 12 (take_bit 40 (drop_bit 12 e))"
    by (auto simp: bit_eq_iff bit_and_iff bit_push_bit_iff bit_mask_iff bit_drop_bit_eq bit_take_bit_iff)
  then show ?thesis by (simp add: push_bit_eq_mult take_bit_eq_mod drop_bit_eq_div)
qed

lemma low_and: "0 \<le> k \<Longrightarrow> k < 4096 \<Longrightarrow> (e :: int) AND k = (e mod 4096) AND k"
proof -
  assume k: "0 \<le> k" "k < 4096"
  have t: "take_bit 12 k = k" using k by (simp add: take_bit_eq_mod)
  have "e AND take_bit 12 k = take_bit 12 e AND take_bit 12 k"
    by (auto simp: bit_eq_iff bit_and_iff bit_take_bit_iff)
  then have "e AND k = take_bit 12 e AND k" unfolding t .
  then show ?thesis by (simp add: take_bit_eq_mod)
qed

lemma page_or:
  assumes "4096 dvd pa" and "0 \<le> k" and "k < 4096"
  shows "pa OR k = pa + (k :: int)"
proof -
  have "\<not> bit pa n \<or> \<not> bit k n" for n
  proof (cases "n < 12")
    case True
    obtain c where c: "pa = push_bit 12 c" using assms(1) by (auto simp: push_bit_eq_mult mult.commute)
    then show ?thesis using True by (simp add: bit_push_bit_iff)
  next
    case False
    have "take_bit 12 k = k" using assms(2,3) by (simp add: take_bit_eq_mod)
    then have "bit k n = bit (take_bit 12 k) n" by simp
    then show ?thesis using False by (simp add: bit_take_bit_iff)
  qed
  then show ?thesis by (simp add: disjunctive_add)
qed

section \<open>Physical memory\<close>

datatype kerror = Assertion_failed | Panic | Kernel_page_fault | Outside_process

type_synonym 'a kresult = "kerror + 'a"

definition kbind :: "'a kresult \<Rightarrow> ('a \<Rightarrow> 'b kresult) \<Rightarrow> 'b kresult" where
  "kbind r f = (case r of Inl e \<Rightarrow> Inl e | Inr x \<Rightarrow> f x)"

lemma kbind_simps [simp]: "kbind (Inl e) f = Inl e" "kbind (Inr x) f = f x"
  by (simp_all add: kbind_def)

lemma kbind_eq_Inr: "kbind r f = Inr y \<longleftrightarrow> (\<exists>x. r = Inr x \<and> f x = Inr y)"
  by (cases r) simp_all

record phys =
  ram :: "int \<Rightarrow> byte"
  pages :: "int \<Rightarrow> byte"

definition KERNEL_START_ADDR :: int where
  "KERNEL_START_ADDR = 0x40000"

definition KERNEL_STACK_TOP :: int where
  "KERNEL_STACK_TOP = 0x80000"

definition PROC_START_ADDR :: int where
  "PROC_START_ADDR = 0x100000"

definition MEMSIZE_PHYSICAL :: int where
  "MEMSIZE_PHYSICAL = 0x200000"

definition MEMSIZE_VIRTUAL :: int where
  "MEMSIZE_VIRTUAL = 0x300000"

definition round_down :: "int \<Rightarrow> int \<Rightarrow> int" where
  "round_down x m = x - x mod m"

definition round_up :: "int \<Rightarrow> int \<Rightarrow> int" where
  "round_up x m = round_down ((x + m - 1) mod 2 ^ 64) m"

definition reserved_physical_address :: "int \<Rightarrow> bool" where
  "reserved_physical_address pa \<longleftrightarrow> pa < PAGESIZE \<or> pa \<ge> 0x000A0000 \<and> pa < 0x00100000"

definition allocatable_physical_address :: "int \<Rightarrow> int \<Rightarrow> bool" where
  "allocatable_physical_address kernel_end pa \<longleftrightarrow> \<not> reserved_physical_address pa
     \<and> (pa < KERNEL_START_ADDR \<or> pa \<ge> round_up kernel_end PAGESIZE)
     \<and> (pa < KERNEL_STACK_TOP - PAGESIZE \<or> pa \<ge> KERNEL_STACK_TOP)
     \<and> pa < MEMSIZE_PHYSICAL"

definition mem_fill :: "int \<Rightarrow> byte \<Rightarrow> int \<Rightarrow> (int \<Rightarrow> byte) \<Rightarrow> int \<Rightarrow> byte" where
  "mem_fill v c n f = (\<lambda>x. if v \<le> x \<and> x < v + n then c else f x)"

definition kalloc :: "int \<Rightarrow> int \<Rightarrow> phys \<Rightarrow> int \<times> phys" where
  "kalloc kernel_end sz s =
     (if sz > PAGESIZE then (0, s)
      else case find (\<lambda>pa. allocatable_physical_address kernel_end pa \<and> pages s (pa div PAGESIZE) = 0)
             (map (\<lambda>i. int i * PAGESIZE) [0 ..< nat (MEMSIZE_PHYSICAL div PAGESIZE)]) of
        None \<Rightarrow> (0, s)
      | Some pa \<Rightarrow> (pa, s\<lparr>pages := (pages s)(pa div PAGESIZE := pages s (pa div PAGESIZE) + 1),
                          ram := mem_fill pa 0xCC PAGESIZE (ram s)\<rparr>))"

definition kalloc_pagetable :: "int \<Rightarrow> phys \<Rightarrow> int \<times> phys" where
  "kalloc_pagetable kernel_end s =
     (let (pt, s) = kalloc kernel_end PAGESIZE s in
      (pt, if pt \<noteq> 0 then s\<lparr>ram := mem_fill pt 0 (8 * 512) (ram s)\<rparr> else s))"

section \<open>Iterators over a page table\<close>

text \<open>\<open>it_pep\<close> is the address of the current entry; \<^const>\<open>None\<close> is the entry \<^verbatim>\<open>zero_pe\<close> of addresses that are not canonical.\<close>

record vmiter =
  it_pt :: int
  it_pep :: "int option"
  it_level :: nat
  it_perm :: int
  it_va :: int

definition entry :: "(int \<Rightarrow> byte) \<Rightarrow> int option \<Rightarrow> int" where
  "entry m a = (case a of None \<Rightarrow> 0 | Some a \<Rightarrow> get_le m a 8)"

definition initial_perm :: int where
  "initial_perm = 0xFFF"

text \<open>The kernel reads page tables through its own identity mapping of the memory; the page 0 is not mapped.\<close>

definition in_ram :: "int \<Rightarrow> bool" where
  "in_ram a \<longleftrightarrow> PAGESIZE \<le> a \<and> a < MEMSIZE_PHYSICAL"

function down :: "(int \<Rightarrow> byte) \<Rightarrow> vmiter \<Rightarrow> vmiter kresult" where
  "down m it =
     (let e = entry m (it_pep it) in
      if \<not> pred_option in_ram (it_pep it) then Inl Kernel_page_fault
      else if it_level it > 0 \<and> e AND (PTE_P OR PTE_PS) = PTE_P then
        down m (it\<lparr>it_perm := it_perm it AND (e OR NOT (PTE_P OR PTE_W OR PTE_U)), it_level := it_level it - 1,
                   it_pep := Some ((e AND PTE_PAMASK) + 8 * pageindex (it_va it) (it_level it - 1))\<rparr>)
      else if e AND PTE_PAMASK \<ge> 0x100000000 then Inl Panic
      else Inr it)"
  by pat_completeness auto
termination by (relation "measure (\<lambda>(m, it). it_level it)") auto

declare down.simps [simp del]

definition real_find :: "(int \<Rightarrow> byte) \<Rightarrow> vmiter \<Rightarrow> int \<Rightarrow> vmiter kresult" where
  "real_find m it va =
     (let it = (if it_level it = 3 \<or> (it_va it XOR va) AND NOT (pageoffmask (it_level it + 1)) \<noteq> 0 then
                  (if va_is_canonical va
                   then it\<lparr>it_level := 3, it_perm := initial_perm, it_pep := Some (it_pt it + 8 * pageindex va 3)\<rparr>
                   else it\<lparr>it_level := 3, it_perm := 0, it_pep := None\<rparr>)
                else
                  it\<lparr>it_pep := map_option (\<lambda>a. a + 8 * (pageindex va (it_level it) - a mod PAGESIZE div 8)) (it_pep it)\<rparr>) in
      down m (it\<lparr>it_va := va\<rparr>))"

definition vmiter_at :: "(int \<Rightarrow> byte) \<Rightarrow> int \<Rightarrow> int \<Rightarrow> vmiter kresult" where
  "vmiter_at m p va = real_find m \<lparr>it_pt = p, it_pep = Some p, it_level = 3, it_perm = initial_perm, it_va = 0\<rparr> va"

definition last_va :: "vmiter \<Rightarrow> int" where
  "last_va it = (it_va it OR pageoffmask (it_level it)) + 1"

definition vm_pa :: "(int \<Rightarrow> byte) \<Rightarrow> vmiter \<Rightarrow> int" where
  "vm_pa m it =
     (let e = entry m (it_pep it) in
      if e AND PTE_P \<noteq> 0 then
        (let pa = e AND PTE_PAMASK; pa = (if it_level it > 0 then pa AND NOT 0x1000 else pa) in
         pa + (it_va it AND pageoffmask (it_level it)))
      else 2 ^ 64 - 1)"

definition vm_perm :: "(int \<Rightarrow> byte) \<Rightarrow> vmiter \<Rightarrow> int" where
  "vm_perm m it = (let ph = entry m (it_pep it) AND it_perm it in ph AND (- (ph AND PTE_P)))"

definition put_entry :: "int option \<Rightarrow> int \<Rightarrow> phys \<Rightarrow> phys kresult" where
  "put_entry a v s = (case a of None \<Rightarrow> Inl Kernel_page_fault | Some a \<Rightarrow> Inr (s\<lparr>ram := put_le (ram s) a 8 v\<rparr>))"

lemma kbind_cong [fundef_cong]: "r = r' \<Longrightarrow> (\<And>x. r' = Inr x \<Longrightarrow> f x = g x) \<Longrightarrow> kbind r f = kbind r' g"
  by (cases r') simp_all

lemma put_entry_eq_Inr: "put_entry a v s = Inr t \<longleftrightarrow> (\<exists>b. a = Some b \<and> t = s\<lparr>ram := put_le (ram s) b 8 v\<rparr>)"
  by (auto simp: put_entry_def split: option.splits)

text \<open>What an allocation returns.\<close>

lemma kalloc_cases:
  obtains (none) "kalloc ke sz s = (0, s)"
  | (page) i where "i < 512" "kalloc ke sz s = (int i * 4096, s\<lparr>pages := (pages s)(int i := 1), ram := mem_fill (int i * 4096) 0xCC 4096 (ram s)\<rparr>)"
      "allocatable_physical_address ke (int i * 4096)" "pages s (int i) = 0"
proof (cases "sz > PAGESIZE")
  case True
  then show ?thesis using none by (simp add: kalloc_def)
next
  case False
  let ?P = "\<lambda>pa. allocatable_physical_address ke pa \<and> pages s (pa div PAGESIZE) = 0"
  let ?L = "map (\<lambda>i. int i * PAGESIZE) [0 ..< nat (MEMSIZE_PHYSICAL div PAGESIZE)]"
  show ?thesis
  proof (cases "find ?P ?L")
    case None
    then show ?thesis using none False by (simp add: kalloc_def)
  next
    case (Some q)
    then have "?P q" "q \<in> set ?L" by (auto simp: find_Some_iff)
    then obtain i where i: "q = int i * 4096" "i < 512" by (auto simp: PAGESIZE_def MEMSIZE_PHYSICAL_def)
    then show ?thesis using page [of i] \<open>?P q\<close> Some False by (simp add: kalloc_def PAGESIZE_def)
  qed
qed

lemma allocatable_bounds: "allocatable_physical_address ke a \<Longrightarrow> 4096 \<le> a \<and> a < 0x200000"
  by (auto simp: allocatable_physical_address_def reserved_physical_address_def PAGESIZE_def MEMSIZE_PHYSICAL_def)

lemma kalloc_page: "kalloc ke sz s = (p, t) \<Longrightarrow> p \<noteq> 0 \<Longrightarrow> 4096 dvd p \<and> 4096 \<le> p \<and> p < 0x200000"
  by (rule kalloc_cases [of ke sz s]) (use allocatable_bounds in auto)

text \<open>The entry that links a page of the page table.\<close>

lemma link_bits:
  assumes "4096 dvd p" and "0 \<le> p" and "p < 2 ^ 52"
  shows "p OR PTE_P OR PTE_W OR PTE_U = p + 7" "(p + 7) AND (PTE_P OR PTE_PS) = PTE_P" "(p + 7) AND PTE_PAMASK = p"
    "(p + 7) AND PTE_P \<noteq> 0"
proof -
  obtain k where k: "p = 4096 * k" using assms(1) by (elim dvdE)
  have m: "(p + 7) mod 4096 = 7" "(p + 7) div 4096 = k" by (simp_all add: k)
  show "p OR PTE_P OR PTE_W OR PTE_U = p + 7" using page_or [OF assms(1), of 7] by (simp add: pte_defs or.assoc)
  have "(p + 7) AND (PTE_P OR PTE_PS) = 7 AND (PTE_P OR PTE_PS)" using low_and [of "PTE_P OR PTE_PS" "p + 7"] m by (simp add: pte_defs)
  then show "(p + 7) AND (PTE_P OR PTE_PS) = PTE_P" by (simp add: pte_defs)
  have "(p + 7) AND PTE_P = 7 AND PTE_P" using low_and [of PTE_P "p + 7"] m by (simp add: pte_defs)
  then show "(p + 7) AND PTE_P \<noteq> 0" by (simp add: pte_defs)
  show "(p + 7) AND PTE_PAMASK = p" using m assms(2,3) k by (simp add: pamask_eq)
qed

lemma down_level: "down m it = Inr jt \<Longrightarrow> it_level jt \<le> it_level it"
proof (induction m it rule: down.induct)
  case (1 m it)
  show ?case
  proof (cases "it_level it > 0 \<and> entry m (it_pep it) AND (PTE_P OR PTE_PS) = PTE_P \<and> pred_option in_ram (it_pep it)")
    case True
    then have "it_level jt \<le> it_level it - 1" using 1 by (simp add: down.simps [of m it] Let_def)
    then show ?thesis by simp
  next
    case False
    then show ?thesis using 1(2) by (auto simp: down.simps [of m it] Let_def split: if_splits)
  qed
qed

lemma entry_put: "0 \<le> v \<Longrightarrow> v < 2 ^ 64 \<Longrightarrow> entry (put_le m a 8 v) (Some a) = v"
  by (simp add: entry_def get_put_le)

lemma down_link:
  assumes "it_level it > 0" and "it_pep it = Some a" and p: "4096 dvd p" "0 \<le> p" "p < 2 ^ 52" and "in_ram a"
  shows "down (put_le m a 8 (p + 7)) it = down (put_le m a 8 (p + 7)) (it\<lparr>it_perm := it_perm it AND ((p + 7) OR NOT 7),
    it_level := it_level it - 1, it_pep := Some (p + 8 * pageindex (it_va it) (it_level it - 1))\<rparr>)"
  using assms(1,2,6) entry_put [of "p + 7" m a] link_bits [OF p] p
  by (subst down.simps) (simp add: Let_def pte_defs)

lemma down_link_level:
  assumes "down (put_le m a 8 (p OR PTE_P OR PTE_W OR PTE_U)) it = Inr jt" and "kalloc ke sz s = (p, t)" and "p \<noteq> 0"
    and "it_level it > 0" and "it_pep it = Some a"
  shows "it_level jt < it_level it"
proof -
  have p: "4096 dvd p" "0 \<le> p" "p < 2 ^ 52" using kalloc_page [OF assms(2,3)] by auto
  have ram: "in_ram a" using assms(1,5) by (subst (asm) down.simps) (auto simp: Let_def split: if_splits)
  show ?thesis using down_level [OF assms(1) [unfolded link_bits(1) [OF p] down_link [OF assms(4,5) p ram]]] assms(4) by simp
qed

function try_map_loop :: "int \<Rightarrow> int \<Rightarrow> int \<Rightarrow> vmiter \<Rightarrow> phys \<Rightarrow> (int \<times> phys) kresult" where
  "try_map_loop kernel_end pa perm it s =
     (if it_level it > 0 \<and> perm \<noteq> 0 then
        if entry (ram s) (it_pep it) AND PTE_P \<noteq> 0 then Inl Assertion_failed
        else if fst (kalloc kernel_end PAGESIZE s) = 0 then Inr (- 1, snd (kalloc kernel_end PAGESIZE s))
        else let (pt, s) = kalloc kernel_end PAGESIZE s in
          kbind (put_entry (it_pep it) (pt OR PTE_P OR PTE_W OR PTE_U) (s\<lparr>ram := mem_fill pt 0 PAGESIZE (ram s)\<rparr>)) (\<lambda>s.
          kbind (down (ram s) it) (\<lambda>it. try_map_loop kernel_end pa perm it s))
      else if it_level it = 0 then kbind (put_entry (it_pep it) (pa OR perm) s) (\<lambda>s. Inr (0, s))
      else Inr (0, s))"
  by pat_completeness auto
termination
  apply (relation "measure (\<lambda>(ke, pa, perm, it, s). it_level it)")
   apply simp
  apply (clarsimp simp: put_entry_eq_Inr)
  apply (metis down_link_level fst_conv)
  done

declare try_map_loop.simps [simp del]

definition try_map :: "int \<Rightarrow> vmiter \<Rightarrow> int \<Rightarrow> int \<Rightarrow> phys \<Rightarrow> (int \<times> phys) kresult" where
  "try_map kernel_end it pa perm s =
     (let pa = (if pa = 2 ^ 64 - 1 \<and> perm = 0 then 0 else pa) in
      if it_va it mod PAGESIZE \<noteq> 0 then Inl Assertion_failed
      else if (if perm AND PTE_P \<noteq> 0 then pa = 2 ^ 64 - 1 \<or> pa AND PTE_PAMASK \<noteq> pa else pa AND PTE_P \<noteq> 0) then Inl Assertion_failed
      else if perm AND NOT (it_perm it) AND (PTE_P OR PTE_W OR PTE_U) \<noteq> 0 then Inl Assertion_failed
      else try_map_loop kernel_end pa perm it s)"

section \<open>The functions of \<^verbatim>\<open>util.c\<close>\<close>

definition memory_map :: "int \<Rightarrow> int \<Rightarrow> int \<Rightarrow> int \<Rightarrow> int \<Rightarrow> phys \<Rightarrow> (int \<times> phys) kresult" where
  "memory_map kernel_end table virtual_address physical_address permissions s =
     kbind (vmiter_at (ram s) table virtual_address) (\<lambda>it. try_map kernel_end it physical_address permissions s)"

definition memory_virtual_to_physical :: "int \<Rightarrow> int \<Rightarrow> phys \<Rightarrow> int kresult" where
  "memory_virtual_to_physical table virtual_address s =
     kbind (vmiter_at (ram s) table virtual_address) (\<lambda>it. Inr (vm_pa (ram s) it))"

definition memory_permissions :: "int \<Rightarrow> int \<Rightarrow> phys \<Rightarrow> int kresult" where
  "memory_permissions table virtual_address s =
     kbind (vmiter_at (ram s) table virtual_address) (\<lambda>it. Inr (vm_perm (ram s) it))"

definition map_to_nobody :: "int \<Rightarrow> int \<Rightarrow> int \<Rightarrow> phys \<Rightarrow> (bool \<times> phys) kresult" where
  "map_to_nobody kernel_end table va s = kbind (memory_map kernel_end table va va 0 s) (\<lambda>(r, s). Inr (True, s))"

definition map_to_kernel_space :: "int \<Rightarrow> int \<Rightarrow> int \<Rightarrow> phys \<Rightarrow> (bool \<times> phys) kresult" where
  "map_to_kernel_space kernel_end table va s =
     kbind (memory_map kernel_end table va va (PTE_P OR PTE_W) s) (\<lambda>(r, s). Inr (True, s))"

definition map_to_user_space :: "int \<Rightarrow> int \<Rightarrow> int \<Rightarrow> phys \<Rightarrow> (bool \<times> phys) kresult" where
  "map_to_user_space kernel_end table va s =
     kbind (memory_map kernel_end table va va (PTE_P OR PTE_W OR PTE_U) s) (\<lambda>(r, s). Inr (True, s))"

lemma down_keeps: "down m it = Inr jt \<Longrightarrow> it_va jt = it_va it \<and> it_pt jt = it_pt it"
proof (induction m it rule: down.induct)
  case (1 m it)
  then show ?case by (subst (asm) (2) down.simps) (auto simp: Let_def split: if_splits)
qed

lemma real_find_keeps: "real_find m it va = Inr jt \<Longrightarrow> it_va jt = va \<and> it_pt jt = it_pt it"
  unfolding real_find_def Let_def by (drule down_keeps) (auto split: if_splits)

text \<open>The loop of \<^verbatim>\<open>memory_foreach\<close>; the bounds are far below \<^verbatim>\<open>2^64\<close>, where \<^verbatim>\<open>it += PAGESIZE\<close> would wrap.\<close>

function foreach_loop :: "(int \<Rightarrow> phys \<Rightarrow> (bool \<times> phys) kresult) \<Rightarrow> int \<Rightarrow> vmiter \<Rightarrow> phys \<Rightarrow> phys kresult" where
  "foreach_loop iter upper_bound it s =
     (if it_va it < upper_bound then
        kbind (iter (it_va it) s) (\<lambda>(ret, s).
        if ret then kbind (real_find (ram s) it (it_va it + PAGESIZE)) (\<lambda>it. foreach_loop iter upper_bound it s)
        else Inr s)
      else Inr s)"
  by pat_completeness auto
termination
  by (relation "measure (\<lambda>(iter, ub, it, s). nat (ub - it_va it))") (auto dest!: real_find_keeps simp: PAGESIZE_def)

declare foreach_loop.simps [simp del]

definition memory_foreach :: "int \<Rightarrow> int \<Rightarrow> (int \<Rightarrow> int \<Rightarrow> phys \<Rightarrow> (bool \<times> phys) kresult) \<Rightarrow> phys \<Rightarrow> phys kresult" where
  "memory_foreach table upper_bound iter s =
     kbind (vmiter_at (ram s) table 0) (\<lambda>it. foreach_loop (iter table) upper_bound it s)"

section \<open>The walk through the tables\<close>

text \<open>What the processor does with a virtual address: the level and the address of the last entry, and the permissions on the way.\<close>

primrec walk :: "(int \<Rightarrow> byte) \<Rightarrow> nat \<Rightarrow> int \<Rightarrow> int \<Rightarrow> int \<Rightarrow> (nat \<times> int \<times> int) kresult" where
  "walk m 0 p va perm =
     (let a = p + 8 * pageindex va 0; e = entry m (Some a) in
      if \<not> in_ram a then Inl Kernel_page_fault
      else if e AND PTE_PAMASK \<ge> 0x100000000 then Inl Panic
      else Inr (0, a, perm))"
| "walk m (Suc l) p va perm =
     (let a = p + 8 * pageindex va (Suc l); e = entry m (Some a) in
      if \<not> in_ram a then Inl Kernel_page_fault
      else if e AND (PTE_P OR PTE_PS) = PTE_P
        then walk m l (e AND PTE_PAMASK) va (perm AND (e OR NOT (PTE_P OR PTE_W OR PTE_U)))
      else if e AND PTE_PAMASK \<ge> 0x100000000 then Inl Panic
      else Inr (Suc l, a, perm))"

definition placed_at :: "vmiter \<Rightarrow> (nat \<times> int \<times> int) \<Rightarrow> vmiter" where
  "placed_at it r = (case r of (l, a, perm) \<Rightarrow> it\<lparr>it_level := l, it_pep := Some a, it_perm := perm\<rparr>)"

lemma down_walk:
  "it_level it = l \<Longrightarrow> it_pep it = Some (p + 8 * pageindex (it_va it) l)
    \<Longrightarrow> down m it = kbind (walk m l p (it_va it) (it_perm it)) (\<lambda>r. Inr (placed_at it r))"
proof (induction l arbitrary: it p)
  case 0
  then show ?case by (subst down.simps) (cases it, auto simp: Let_def placed_at_def)
next
  case (Suc l)
  let ?a = "p + 8 * pageindex (it_va it) (Suc l)"
  let ?e = "entry m (Some ?a)"
  let ?it = "it\<lparr>it_perm := it_perm it AND (?e OR NOT (PTE_P OR PTE_W OR PTE_U)), it_level := l,
               it_pep := Some ((?e AND PTE_PAMASK) + 8 * pageindex (it_va it) l)\<rparr>"
  have "down m ?it = kbind (walk m l (?e AND PTE_PAMASK) (it_va ?it) (it_perm ?it)) (\<lambda>r. Inr (placed_at ?it r))"
    by (rule Suc.IH) simp_all
  moreover have "placed_at ?it = placed_at it" by (auto simp: placed_at_def fun_eq_iff)
  ultimately have "down m ?it = kbind (walk m l (?e AND PTE_PAMASK) (it_va it) (it_perm ?it)) (\<lambda>r. Inr (placed_at it r))" by simp
  then show ?case using Suc.prems by (subst down.simps) (cases it, auto simp: Let_def placed_at_def)
qed

section \<open>The cached search is the walk\<close>

lemma same_prefix: "(va XOR vb) AND NOT (pageoffmask (Suc l)) = (0 :: int) \<Longrightarrow> va div 2 ^ (21 + l * 9) = vb div 2 ^ (21 + l * 9)"
proof -
  assume a: "(va XOR vb) AND NOT (pageoffmask (Suc l)) = 0"
  let ?n = "21 + l * 9"
  have m: "pageoffmask (Suc l) = mask ?n" by (simp add: pageoffmask_def push_bit_eq_mult mask_eq_exp_minus_1 algebra_simps)
  have bits: "bit va k = bit vb k" if "?n \<le> k" for k
  proof -
    have "\<not> bit ((va XOR vb) AND NOT (mask ?n)) k" using a m by simp
    then show ?thesis using that by (simp add: bit_and_iff bit_xor_iff bit_not_iff bit_mask_iff)
  qed
  have "drop_bit ?n va = drop_bit ?n vb" using bits by (auto simp: bit_eq_iff bit_drop_bit_eq)
  then show ?thesis by (simp add: drop_bit_eq_div)
qed

lemma prefix_pageindex:
  assumes "va div 2 ^ (21 + l * 9) = vb div 2 ^ (21 + l * 9)" and "l < j"
  shows "pageindex va j = pageindex vb j"
proof -
  have "12 + j * 9 = (21 + l * 9) + (j - l - 1) * 9" using assms(2) by (cases j) (auto simp: diff_mult_distrib)
  then have "x div 2 ^ (12 + j * 9) = x div 2 ^ (21 + l * 9) div 2 ^ ((j - l - 1) * 9)" for x :: int
    by (simp only: power_add zdiv_zmult2_eq zero_le_power zero_le_numeral)
  then show ?thesis using assms(1) by (simp add: pageindex_eq)
qed

lemma canonical_prefix:
  assumes "l < 3" and "va div 2 ^ (21 + l * 9) = vb div 2 ^ (21 + l * 9)"
  shows "va_is_canonical va = va_is_canonical vb"
proof -
  have "va div 2 ^ 39 = va div 2 ^ (21 + l * 9) div 2 ^ (18 - l * 9)" "vb div 2 ^ 39 = vb div 2 ^ (21 + l * 9) div 2 ^ (18 - l * 9)"
    using assms(1) by (auto simp: less_Suc_eq numeral_3_eq_3 zdiv_zmult2_eq [symmetric] simp flip: power_add)
  then have "va div 2 ^ 39 = vb div 2 ^ 39" using assms(2) by simp
  moreover have "va_is_canonical x \<longleftrightarrow> x div 2 ^ 39 < 2 ^ 8 \<or> 2 ^ 25 - 2 ^ 8 \<le> x div 2 ^ 39" for x
    unfolding va_is_canonical_def by auto
  ultimately show ?thesis by simp
qed

lemma pamask_aligned: "4096 dvd e AND PTE_PAMASK"
  by (simp add: pamask_eq)

lemma walk_reaches:
  "walk m L p va perm = Inr (l, a, perm') \<Longrightarrow> 4096 dvd p \<Longrightarrow>
    l \<le> L \<and> (\<exists>q. 4096 dvd q \<and> a = q + 8 * pageindex va l
      \<and> (\<forall>vb. (\<forall>j. l < j \<longrightarrow> pageindex vb j = pageindex va j) \<longrightarrow> walk m L p vb perm = walk m l q vb perm'))"
proof (induction L arbitrary: p perm)
  case 0
  then show ?case by (auto simp: Let_def split: if_splits)
next
  case (Suc L)
  let ?e = "entry m (Some (p + 8 * pageindex va (Suc L)))"
  show ?case
  proof (cases "?e AND (PTE_P OR PTE_PS) = PTE_P")
    case True
    have ram: "in_ram (p + 8 * pageindex va (Suc L))" using Suc.prems(1) by (auto simp: Let_def split: if_splits)
    from Suc.prems(1) True have w: "walk m L (?e AND PTE_PAMASK) va (perm AND (?e OR NOT (PTE_P OR PTE_W OR PTE_U))) = Inr (l, a, perm')"
      by (auto simp: Let_def split: if_splits)
    from Suc.IH [OF this pamask_aligned] obtain q where q: "l \<le> L" "4096 dvd q" "a = q + 8 * pageindex va l"
      "\<And>vb. (\<forall>j. l < j \<longrightarrow> pageindex vb j = pageindex va j)
        \<Longrightarrow> walk m L (?e AND PTE_PAMASK) vb (perm AND (?e OR NOT (PTE_P OR PTE_W OR PTE_U))) = walk m l q vb perm'" by blast
    have "walk m (Suc L) p vb perm = walk m l q vb perm'" if "\<forall>j. l < j \<longrightarrow> pageindex vb j = pageindex va j" for vb
    proof -
      have "pageindex vb (Suc L) = pageindex va (Suc L)" using that q(1) by simp
      then show ?thesis using q(4) [OF that] True ram by (simp add: Let_def)
    qed
    then show ?thesis using q by (intro conjI exI [of _ q]) auto
  next
    case False
    then have "l = Suc L" "perm' = perm" "a = p + 8 * pageindex va l" using Suc.prems(1) by (auto simp: Let_def split: if_splits)
    then show ?thesis using Suc.prems(2) by auto
  qed
qed

text \<open>An iterator is in step with the memory when a walk to its address ends at its entry.\<close>

definition in_step :: "(int \<Rightarrow> byte) \<Rightarrow> vmiter \<Rightarrow> bool" where
  "in_step m it \<longleftrightarrow> 4096 dvd it_pt it \<and> (if va_is_canonical (it_va it)
     then \<exists>r. walk m 3 (it_pt it) (it_va it) initial_perm = Inr r \<and> it = placed_at it r else it_level it = 3)"

definition found_at :: "(int \<Rightarrow> byte) \<Rightarrow> int \<Rightarrow> int \<Rightarrow> vmiter kresult" where
  "found_at m p va =
     (if va_is_canonical va
      then kbind (walk m 3 p va initial_perm) (\<lambda>(l, a, perm). Inr \<lparr>it_pt = p, it_pep = Some a, it_level = l, it_perm = perm, it_va = va\<rparr>)
      else Inr \<lparr>it_pt = p, it_pep = None, it_level = 3, it_perm = 0, it_va = va\<rparr>)"

lemma placed_at_found: "kbind w (\<lambda>r. Inr (placed_at (it\<lparr>it_va := va\<rparr>) r))
    = kbind w (\<lambda>(l, a, perm). Inr \<lparr>it_pt = it_pt it, it_pep = Some a, it_level = l, it_perm = perm, it_va = va\<rparr>)"
  by (cases w; cases it) (auto simp: placed_at_def)

lemma real_find_restart:
  assumes "it_level it = 3 \<or> (it_va it XOR va) AND NOT (pageoffmask (it_level it + 1)) \<noteq> 0"
  shows "real_find m it va = found_at m (it_pt it) va"
proof (cases "va_is_canonical va")
  case True
  let ?it = "it\<lparr>it_level := 3, it_perm := initial_perm, it_pep := Some (it_pt it + 8 * pageindex va 3), it_va := va\<rparr>"
  have "real_find m it va = down m ?it" using assms True by (simp add: real_find_def Let_def)
  also have "\<dots> = kbind (walk m 3 (it_pt it) va initial_perm) (\<lambda>r. Inr (placed_at ?it r))" by (subst down_walk [of _ 3 "it_pt it"]) simp_all
  finally show ?thesis using placed_at_found [where w = "walk m 3 (it_pt it) va initial_perm" and it = ?it and va = va] True by (simp add: found_at_def)
next
  case False
  then show ?thesis using assms
    by (cases it) (simp add: real_find_def Let_def found_at_def down.simps entry_def pte_defs)
qed

text \<open>An iterator whose entry lies on the way of its address is enough for the search to start from there.\<close>

definition on_path :: "(int \<Rightarrow> byte) \<Rightarrow> vmiter \<Rightarrow> bool" where
  "on_path m it \<longleftrightarrow> (it_level it < 3 \<longrightarrow> va_is_canonical (it_va it) \<and>
     (\<exists>q. 4096 dvd q \<and> it_pep it = Some (q + 8 * pageindex (it_va it) (it_level it)) \<and>
       (\<forall>vb. it_va it div 2 ^ (21 + it_level it * 9) = vb div 2 ^ (21 + it_level it * 9)
         \<longrightarrow> walk m 3 (it_pt it) vb initial_perm = walk m (it_level it) q vb (it_perm it))))"

lemma in_step_on_path:
  assumes it: "in_step m it"
  shows "it_level it \<le> 3" "on_path m it"
proof -
  have "it_level it \<le> 3 \<and> on_path m it"
  proof (cases "va_is_canonical (it_va it)")
    case True
    with it obtain l a perm where w: "walk m 3 (it_pt it) (it_va it) initial_perm = Inr (l, a, perm)"
      "it = placed_at it (l, a, perm)" and al: "4096 dvd it_pt it" by (auto simp: in_step_def)
    have f: "it_level it = l" "it_pep it = Some a" "it_perm it = perm"
      using arg_cong [OF w(2), of it_level] arg_cong [OF w(2), of it_pep] arg_cong [OF w(2), of it_perm] by (simp_all add: placed_at_def)
    from walk_reaches [OF w(1) al] obtain q where q: "l \<le> 3" "4096 dvd q" "a = q + 8 * pageindex (it_va it) l"
      "\<And>vb. (\<forall>j. l < j \<longrightarrow> pageindex vb j = pageindex (it_va it) j) \<Longrightarrow> walk m 3 (it_pt it) vb initial_perm = walk m l q vb perm" by blast
    have "walk m 3 (it_pt it) vb initial_perm = walk m l q vb perm" if "it_va it div 2 ^ (21 + l * 9) = vb div 2 ^ (21 + l * 9)" for vb
      using prefix_pageindex [OF that] by (intro q(4)) auto
    then show ?thesis using True f q(1-3) unfolding on_path_def by auto
  next
    case False
    then show ?thesis using it by (auto simp: in_step_def on_path_def)
  qed
  then show "it_level it \<le> 3" "on_path m it" by auto
qed

lemma real_find_on_path:
  assumes lev: "it_level it \<le> 3" and on: "on_path m it"
  shows "real_find m it va = found_at m (it_pt it) va"
proof (cases "it_level it = 3 \<or> (it_va it XOR va) AND NOT (pageoffmask (it_level it + 1)) \<noteq> 0")
  case True
  then show ?thesis by (rule real_find_restart)
next
  case False
  let ?l = "it_level it"
  have l: "?l < 3" using False lev by simp
  have pre: "it_va it div 2 ^ (21 + ?l * 9) = va div 2 ^ (21 + ?l * 9)" using False by (intro same_prefix) simp
  from on l obtain q where q: "va_is_canonical (it_va it)" "4096 dvd q" "it_pep it = Some (q + 8 * pageindex (it_va it) ?l)"
    and wq: "walk m 3 (it_pt it) va initial_perm = walk m ?l q va (it_perm it)" using pre unfolding on_path_def by blast
  have can: "va_is_canonical va" using canonical_prefix [OF l pre] q(1) by simp
  let ?a = "q + 8 * pageindex (it_va it) ?l"
  have "?a mod 4096 = 8 * pageindex (it_va it) ?l"
    using q(2) pageindex_range [of "it_va it" ?l] by (auto simp: mod_pos_pos_trivial elim!: dvdE)
  then have idx: "?a + 8 * (pageindex va ?l - ?a mod PAGESIZE div 8) = q + 8 * pageindex va ?l" by (simp add: PAGESIZE_def)
  let ?it = "it\<lparr>it_pep := Some (q + 8 * pageindex va ?l), it_va := va\<rparr>"
  have "real_find m it va = down m ?it" using False q(3) unfolding idx [symmetric] by (simp add: real_find_def Let_def)
  also have "\<dots> = kbind (walk m ?l q va (it_perm it)) (\<lambda>r. Inr (placed_at ?it r))" by (subst down_walk [of _ ?l q]) simp_all
  finally show ?thesis using placed_at_found [where w = "walk m ?l q va (it_perm it)" and it = ?it and va = va] can wq by (simp add: found_at_def)
qed

lemma walk_zero: "walk (\<lambda>x. 0) 3 0x1000 va initial_perm = Inr (3, 0x1000 + 8 * pageindex va 3, initial_perm)"
proof -
  have "in_ram (0x1000 + 8 * pageindex va 3)" using pageindex_range [of va 3] by (simp add: in_ram_def PAGESIZE_def MEMSIZE_PHYSICAL_def)
  moreover have "entry (\<lambda>x. 0) (Some a) = 0" for a by (simp add: entry_def eval_nat_numeral)
  ultimately show ?thesis by (simp add: numeral_3_eq_3 pte_defs)
qed

text \<open>C21: moving an iterator that is in step with the tables finds the entry that a walk from the root finds.\<close>

theorem real_find_is_walk:
  assumes "in_step m it"
  shows "real_find m it va = found_at m (it_pt it) va"
  using real_find_on_path in_step_on_path [OF assms] by blast

theorem real_find_is_walk_witness:
  "real_find (\<lambda>x. 0) \<lparr>it_pt = 0x1000, it_pep = Some 0x1000, it_level = 3, it_perm = initial_perm, it_va = 0x3000\<rparr> 0x8000003000
     = Inr \<lparr>it_pt = 0x1000, it_pep = Some 0x1008, it_level = 3, it_perm = initial_perm, it_va = 0x8000003000\<rparr>"
proof -
  have i: "pageindex 0x3000 3 = 0" "pageindex 0x8000003000 3 = 1" by (simp_all add: pageindex_eq)
  have "in_step (\<lambda>x. 0) \<lparr>it_pt = 0x1000, it_pep = Some 0x1000, it_level = 3, it_perm = initial_perm, it_va = 0x3000\<rparr>"
    using walk_zero [of "0x3000"] by (simp add: in_step_def va_is_canonical_def placed_at_def i)
  from real_find_is_walk [OF this, of "0x8000003000"] show ?thesis using walk_zero [of "0x8000003000"] by (simp add: found_at_def va_is_canonical_def i)
qed
end
