(* ===== verification/Address_Space.thy ===== *)
theory Address_Space
  imports Page_Table
begin

text \<open>
  Well-formed page tables and what \<^verbatim>\<open>memory_map\<close> and \<^verbatim>\<open>memory_foreach\<close> of \<^verbatim>\<open>src/mini-operating-system/util.c\<close> do to the address
  spaces in them. Each page of a table has a role (its root, its level, the part of the addresses that it serves); an
  address that is mapped is found at its place, no other address of any table changes, and new tables take pages that were free.
\<close>

unbundle bit_operations_syntax

section \<open>The place of a table\<close>

text \<open>\<open>vpre va l\<close>: the part of an address that selects the table entry at level \<open>l\<close>, the bits above it included.\<close>

definition vpre :: "int \<Rightarrow> nat \<Rightarrow> int" where
  "vpre va l = va mod 2 ^ 48 div 2 ^ (12 + l * 9)"

lemma vpre_bits: "vpre va l = drop_bit (12 + l * 9) (take_bit 48 va)"
  by (simp add: vpre_def drop_bit_eq_div take_bit_eq_mod)

lemma pageindex_bits: "pageindex va l = take_bit 9 (drop_bit (12 + l * 9) va)"
  by (simp add: pageindex_eq drop_bit_eq_div take_bit_eq_mod)

lemma vpre_mod: "l \<le> 3 \<Longrightarrow> vpre va l mod 512 = pageindex va l"
proof -
  assume "l \<le> 3"
  then have "take_bit 9 (vpre va l) = pageindex va l"
    by (auto simp: vpre_bits pageindex_bits bit_eq_iff bit_take_bit_iff bit_drop_bit_eq)
  then show ?thesis by (simp add: take_bit_eq_mod)
qed

lemma vpre_Suc: "vpre va (Suc l) = vpre va l div 512"
proof -
  have "vpre va (Suc l) = va mod 2 ^ 48 div (2 ^ (12 + l * 9) * 512)"
    unfolding vpre_def by (simp add: power_add)
  then show ?thesis by (simp add: vpre_def zdiv_zmult2_eq)
qed

lemma vpre_split: "l \<le> 3 \<Longrightarrow> vpre va l = 512 * vpre va (Suc l) + pageindex va l"
  using vpre_mod [of l va] mult_div_mod_eq [of 512 "vpre va l"] by (simp add: vpre_Suc)

lemma vpre_4: "vpre va 4 = 0"
  by (simp add: vpre_def)

lemma vpre_inj:
  assumes "vpre va 0 = vpre vb 0"
  shows "vpre va l = vpre vb l"
  by (induction l) (simp_all add: assms vpre_Suc)

section \<open>Well-formed tables\<close>

text \<open>\<open>R p = Some (r, l, k)\<close>: the page \<open>p\<close> is the table of level \<open>l\<close> for the prefix \<open>k\<close> below the root \<open>r\<close>.\<close>

type_synonym roles = "int \<Rightarrow> (int \<times> nat \<times> int) option"

definition page_ok :: "int \<Rightarrow> bool" where
  "page_ok p \<longleftrightarrow> 4096 dvd p \<and> 4096 \<le> p \<and> p < 0x200000"

definition slot :: "int \<Rightarrow> int \<Rightarrow> int option" where
  "slot p i = Some (p + 8 * i)"

definition entry_ok :: "roles \<Rightarrow> int \<Rightarrow> nat \<Rightarrow> int \<Rightarrow> int \<Rightarrow> bool" where
  "entry_ok R r l k e \<longleftrightarrow> e AND PTE_PAMASK < 0x100000000 \<and>
     (l > 0 \<and> e AND (PTE_P OR PTE_PS) = PTE_P \<longrightarrow> (\<exists>q. e = q + 7 \<and> R q = Some (r, l - 1, k)))"

definition tables :: "(int \<Rightarrow> byte) \<Rightarrow> roles \<Rightarrow> bool" where
  "tables m R \<longleftrightarrow> (\<forall>p r l k. R p = Some (r, l, k) \<longrightarrow> page_ok p \<and> l \<le> 3
     \<and> (\<forall>i. 0 \<le> i \<and> i < 512 \<longrightarrow> entry_ok R r l (512 * k + i) (entry m (slot p i))))"

lemma tablesD:
  assumes "tables m R" and "R p = Some (r, l, k)"
  shows "page_ok p" "l \<le> 3" "0 \<le> i \<Longrightarrow> i < 512 \<Longrightarrow> entry_ok R r l (512 * k + i) (entry m (slot p i))"
  using assms unfolding tables_def by blast+

lemma page_ok_ram: "page_ok p \<Longrightarrow> 0 \<le> i \<Longrightarrow> i < 512 \<Longrightarrow> in_ram (p + 8 * i)"
proof -
  assume "page_ok p" and i: "0 \<le> i" "i < 512"
  then obtain k where k: "p = 4096 * k" "1 \<le> k" "k < 512" by (auto simp: page_ok_def elim!: dvdE)
  then show ?thesis using i by (simp add: in_ram_def PAGESIZE_def MEMSIZE_PHYSICAL_def)
qed

lemma page_slots:
  assumes "page_ok p" and "page_ok q" and "0 \<le> i" "i < 512" "0 \<le> j" "j < 512" and "p \<noteq> q \<or> i \<noteq> j"
  shows "p + 8 * i + 8 \<le> q + 8 * j \<or> q + 8 * j + 8 \<le> p + 8 * i"
proof -
  obtain a b where ab: "p = 4096 * a" "q = 4096 * b" using assms(1,2) by (auto simp: page_ok_def elim!: dvdE)
  have "512 * a + i \<noteq> 512 * b + j"
  proof
    assume eq: "512 * a + i = 512 * b + j"
    then have "a = b" using assms(3-6) by linarith
    then show False using eq ab assms(7) by simp
  qed
  then show ?thesis using ab by linarith
qed

lemma full_perm: "page_ok q \<Longrightarrow> (q + 7) OR NOT (PTE_P OR PTE_W OR PTE_U) = - 1"
proof -
  assume "page_ok q"
  then have "q + 7 = q OR 7" using page_or [of q 7] by (simp add: page_ok_def)
  moreover have "PTE_P OR PTE_W OR PTE_U = (7 :: int)" by (simp add: pte_defs)
  moreover have "(q OR 7) OR NOT 7 = (- 1 :: int)" by (simp add: or.assoc)
  ultimately show ?thesis by simp
qed

lemma link_entry: "page_ok q \<Longrightarrow> (q + 7) AND (PTE_P OR PTE_PS) = PTE_P \<and> (q + 7) AND PTE_PAMASK = q"
  using link_bits [of q] by (auto simp: page_ok_def)

text \<open>A walk from a table in its place ends at a table in its place.\<close>

lemma walk_tables:
  assumes "tables m R" and "R p = Some (r, l, vpre va (Suc l))"
  shows "\<exists>k q. walk m l p va perm = Inr (k, q + 8 * pageindex va k, perm) \<and> k \<le> l \<and> R q = Some (r, k, vpre va (Suc k))
    \<and> (k = 0 \<or> entry m (slot q (pageindex va k)) AND (PTE_P OR PTE_PS) \<noteq> PTE_P)"
  using assms(2)
proof (induction l arbitrary: p)
  case 0
  note d = tablesD [OF assms(1) 0]
  have "entry_ok R r 0 (512 * vpre va 1 + pageindex va 0) (entry m (slot p (pageindex va 0)))" using d(3) pageindex_range by simp
  then show ?case using 0 page_ok_ram [OF d(1) pageindex_range] by (auto simp: entry_ok_def slot_def Let_def)
next
  case (Suc l)
  note d = tablesD [OF assms(1) Suc.prems]
  let ?i = "pageindex va (Suc l)"
  have e: "entry_ok R r (Suc l) (vpre va (Suc l)) (entry m (slot p ?i))"
    using d(3) [OF pageindex_range] vpre_split [OF d(2), of va] by simp
  have ram: "in_ram (p + 8 * ?i)" by (rule page_ok_ram [OF d(1) pageindex_range])
  show ?case
  proof (cases "entry m (slot p ?i) AND (PTE_P OR PTE_PS) = PTE_P")
    case True
    with e obtain q where q: "entry m (slot p ?i) = q + 7" "R q = Some (r, l, vpre va (Suc l))" by (auto simp: entry_ok_def)
    have ok: "page_ok q" by (rule tablesD(1) [OF assms(1) q(2)])
    have "walk m (Suc l) p va perm = walk m l q va perm"
      using True q(1) ram link_entry [OF ok] full_perm [OF ok] by (simp add: slot_def Let_def)
    then show ?thesis using Suc.IH [OF q(2)] by (metis le_SucI)
  next
    case False
    then show ?thesis using e ram Suc.prems by (auto simp: entry_ok_def slot_def Let_def)
  qed
qed

text \<open>A walk depends on the entries in its way only.\<close>

lemma walk_agree:
  assumes "tables m R" and "R p = Some (r, l, vpre va (Suc l))"
    and "\<And>q k. R q = Some (r, k, vpre va (Suc k)) \<Longrightarrow> entry m' (slot q (pageindex va k)) = entry m (slot q (pageindex va k))"
  shows "walk m' l p va perm = walk m l p va perm"
  using assms(2)
proof (induction l arbitrary: p perm)
  case 0
  then show ?case using assms(3) [OF 0] by (simp add: slot_def Let_def)
next
  case (Suc l)
  let ?e = "entry m (slot p (pageindex va (Suc l)))"
  note d = tablesD [OF assms(1) Suc.prems]
  have e: "entry_ok R r (Suc l) (vpre va (Suc l)) ?e" using d(3) [OF pageindex_range] vpre_split [OF d(2), of va] by simp
  have same: "entry m' (slot p (pageindex va (Suc l))) = ?e" by (rule assms(3) [OF Suc.prems])
  show ?case
  proof (cases "?e AND (PTE_P OR PTE_PS) = PTE_P")
    case True
    with e obtain q where q: "?e = q + 7" "R q = Some (r, l, vpre va (Suc l))" by (auto simp: entry_ok_def)
    have "?e AND PTE_PAMASK = q" using link_entry [OF tablesD(1) [OF assms(1) q(2)]] q(1) by simp
    then show ?thesis using True same Suc.IH [OF q(2)] by (simp add: slot_def Let_def)
  next
    case False
    then show ?thesis using same by (simp add: slot_def Let_def)
  qed
qed

definition lookup :: "(int \<Rightarrow> byte) \<Rightarrow> int \<Rightarrow> int \<Rightarrow> (nat \<times> int \<times> int) option" where
  "lookup m r va = (case walk m 3 r va initial_perm of Inl err \<Rightarrow> None
     | Inr (l, a, perm) \<Rightarrow> (let e = entry m (Some a) in if e AND PTE_P = 0 then None else Some (l, e AND PTE_PAMASK, e AND perm)))"

definition wlevel :: "(int \<Rightarrow> byte) \<Rightarrow> int \<Rightarrow> int \<Rightarrow> nat" where
  "wlevel m r va = (case walk m 3 r va initial_perm of Inl err \<Rightarrow> 4 | Inr (l, a, perm) \<Rightarrow> l)"

definition root :: "roles \<Rightarrow> int \<Rightarrow> bool" where
  "root R r \<longleftrightarrow> R r = Some (r, 3, 0)"

lemma root_walk:
  assumes "tables m R" and "root R r"
  obtains k q where "walk m 3 r va perm = Inr (k, q + 8 * pageindex va k, perm)" "k \<le> 3" "R q = Some (r, k, vpre va (Suc k))"
    "k = 0 \<or> entry m (slot q (pageindex va k)) AND (PTE_P OR PTE_PS) \<noteq> PTE_P"
  using walk_tables [OF assms(1), of r r 3 va perm] assms(2) vpre_4 [of va] by (auto simp: root_def eval_nat_numeral)

lemma lookup_agree:
  assumes "tables m R" and "root R r"
    and same: "\<And>q k. R q = Some (r, k, vpre va (Suc k)) \<Longrightarrow> entry m' (slot q (pageindex va k)) = entry m (slot q (pageindex va k))"
  shows "walk m' 3 r va perm = walk m 3 r va perm" "lookup m' r va = lookup m r va"
proof -
  have R: "R r = Some (r, 3, vpre va (Suc 3))" using assms(2) vpre_4 [of va] by (simp add: root_def eval_nat_numeral)
  have w: "walk m' 3 r va perm = walk m 3 r va perm" for perm by (rule walk_agree [OF assms(1) R same])
  then show "walk m' 3 r va perm = walk m 3 r va perm" .
  obtain k q where "walk m 3 r va initial_perm = Inr (k, q + 8 * pageindex va k, initial_perm)" "R q = Some (r, k, vpre va (Suc k))"
    by (rule root_walk [OF assms(1,2)])
  then show "lookup m' r va = lookup m r va" using w same by (simp add: lookup_def slot_def)
qed

section \<open>Writing entries\<close>

lemma entry_slot_put:
  assumes "page_ok p" "page_ok q" "0 \<le> i" "i < 512" "0 \<le> j" "j < 512" "0 \<le> e" "e < 2 ^ 64"
  shows "entry (put_le m (q + 8 * j) 8 e) (slot p i) = (if p = q \<and> i = j then e else entry m (slot p i))"
proof (cases "p = q \<and> i = j")
  case True
  then show ?thesis using entry_put [OF assms(7,8)] by (simp add: slot_def)
next
  case False
  have "get_le (put_le m (q + 8 * j) 8 e) (p + 8 * i) 8 = get_le m (p + 8 * i) 8"
    by (rule get_put_disjoint) (use page_slots [OF assms(1-6)] False in auto)
  then show ?thesis using False by (auto simp: entry_def slot_def)
qed

lemma tables_put:
  assumes t: "tables m R" and q: "R q = Some (r, l, k)" and j: "0 \<le> j" "j < 512" and e: "0 \<le> e" "e < 2 ^ 64" "entry_ok R r l (512 * k + j) e"
  shows "tables (put_le m (q + 8 * j) 8 e) R"
  unfolding tables_def
proof (intro allI impI conjI)
  fix p r' l' k' assume p: "R p = Some (r', l', k')"
  show "page_ok p" "l' \<le> 3" using tablesD [OF t p] by auto
  fix i :: int assume i: "0 \<le> i \<and> i < 512"
  show "entry_ok R r' l' (512 * k' + i) (entry (put_le m (q + 8 * j) 8 e) (slot p i))"
    using entry_slot_put [OF tablesD(1) [OF t p] tablesD(1) [OF t q] _ _ j e(1,2), of i] i tablesD(3) [OF t p, of i] p q e(3) by auto
qed

lemma lookup_put:
  assumes t: "tables m R" and q: "R q = Some (r, l, k)" and j: "0 \<le> j" "j < 512" and e: "0 \<le> e" "e < 2 ^ 64"
    and "root R r'" and other: "r' \<noteq> r \<or> vpre va l \<noteq> 512 * k + j"
  shows "walk (put_le m (q + 8 * j) 8 e) 3 r' va perm = walk m 3 r' va perm" "lookup (put_le m (q + 8 * j) 8 e) r' va = lookup m r' va"
proof -
  have same: "entry (put_le m (q + 8 * j) 8 e) (slot p (pageindex va k')) = entry m (slot p (pageindex va k'))"
    if p: "R p = Some (r', k', vpre va (Suc k'))" for p k'
  proof -
    have "\<not> (p = q \<and> pageindex va k' = j)"
    proof
      assume a: "p = q \<and> pageindex va k' = j"
      then have "r' = r" "k' = l" "k = vpre va (Suc l)" using p q by auto
      then show False using other a vpre_split [OF tablesD(2) [OF t q], of va] by auto
    qed
    then show ?thesis using entry_slot_put [OF tablesD(1) [OF t p] tablesD(1) [OF t q] pageindex_range j e] by auto
  qed
  show "walk (put_le m (q + 8 * j) 8 e) 3 r' va perm = walk m 3 r' va perm" "lookup (put_le m (q + 8 * j) 8 e) r' va = lookup m r' va"
    by (rule lookup_agree [OF t assms(7) same]; assumption)+
qed

text \<open>A page that is not a table may be overwritten.\<close>

lemma entry_frame:
  assumes "page_ok p" "0 \<le> i" "i < 512" and same: "\<And>x. p \<le> x \<Longrightarrow> x < p + 4096 \<Longrightarrow> m' x = m x"
  shows "entry m' (slot p i) = entry m (slot p i)"
  using get_le_cong [of "p + 8 * i" 8 m' m] same assms(2,3) by (simp add: entry_def slot_def)

definition page_of :: "int \<Rightarrow> int" where
  "page_of x = x - x mod 4096"

lemma page_of_in: "4096 dvd p \<Longrightarrow> p \<le> x \<Longrightarrow> x < p + 4096 \<Longrightarrow> page_of x = p"
proof -
  assume "4096 dvd p" and b: "p \<le> x" "x < p + 4096"
  then obtain k where k: "p = 4096 * k" by (elim dvdE)
  have "x = 4096 * k + (x - p)" "0 \<le> x - p" "x - p < 4096" using b k by auto
  then have "x mod 4096 = x - p" by (metis mod_mult_self4 mod_pos_pos_trivial mult.commute)
  then show ?thesis by (simp add: page_of_def)
qed

lemma tables_frame:
  assumes t: "tables m R" and same: "\<And>x. R (page_of x) \<noteq> None \<Longrightarrow> m' x = m x"
  shows "tables m' R" "root R r \<Longrightarrow> walk m' 3 r va perm = walk m 3 r va perm" "root R r \<Longrightarrow> lookup m' r va = lookup m r va"
proof -
  have e: "entry m' (slot p i) = entry m (slot p i)" if p: "R p = Some x" and i: "0 \<le> i" "i < 512" for p x i
  proof (rule entry_frame [OF _ i])
    show ok: "page_ok p" using t p by (cases x) (auto dest: tablesD(1))
    show "m' y = m y" if "p \<le> y" "y < p + 4096" for y
      using page_of_in [OF _ that] ok p by (intro same) (simp add: page_ok_def)
  qed
  show "tables m' R" using t e unfolding tables_def by metis
  show "root R r \<Longrightarrow> walk m' 3 r va perm = walk m 3 r va perm" "root R r \<Longrightarrow> lookup m' r va = lookup m r va"
    using lookup_agree [OF t] e pageindex_range by blast+
qed

lemma entry_ok_mono: "entry_ok R r l k e \<Longrightarrow> R \<subseteq>\<^sub>m R' \<Longrightarrow> entry_ok R' r l k e"
  unfolding entry_ok_def map_le_def by (metis domI)

lemma zero_entry:
  assumes "\<And>x. q \<le> x \<Longrightarrow> x < q + 4096 \<Longrightarrow> m x = 0" and "0 \<le> i" "i < 512"
  shows "entry m (slot q i) = 0"
proof -
  have "get_le m (q + 8 * i) 8 = get_le (\<lambda>x. 0) (q + 8 * i) 8" using assms by (intro get_le_cong) auto
  then show ?thesis by (simp add: entry_def slot_def eval_nat_numeral)
qed

lemma tables_new:
  assumes t: "tables m R" and "page_ok q" and "R q = None" and "l \<le> 3" and z: "\<And>x. q \<le> x \<Longrightarrow> x < q + 4096 \<Longrightarrow> m x = 0"
  shows "tables m (R(q \<mapsto> (r, l, k)))"
  unfolding tables_def
proof (intro allI impI conjI)
  fix p r' l' k' assume p: "(R(q \<mapsto> (r, l, k))) p = Some (r', l', k')"
  have le: "R \<subseteq>\<^sub>m R(q \<mapsto> (r, l, k))" using assms(3) by (auto simp: map_le_def)
  show "page_ok p" "l' \<le> 3" using p assms(2,4) tablesD [OF t, of p] by (auto split: if_splits)
  fix i :: int assume i: "0 \<le> i \<and> i < 512"
  show "entry_ok (R(q \<mapsto> (r, l, k))) r' l' (512 * k' + i) (entry m (slot p i))"
  proof (cases "p = q")
    case True
    have "entry m (slot p i) = 0" using True zero_entry [OF z] i by simp
    then show ?thesis by (simp add: entry_ok_def pte_defs)
  next
    case False
    then show ?thesis using p tablesD(3) [OF t, of p] i entry_ok_mono [OF _ le] by auto
  qed
qed

section \<open>Mapping an address\<close>

definition pool :: "int \<Rightarrow> phys \<Rightarrow> roles \<Rightarrow> bool" where
  "pool ke s R \<longleftrightarrow> (\<forall>p. R p \<noteq> None \<longrightarrow> allocatable_physical_address ke p \<longrightarrow> pages s (p div 4096) \<noteq> 0)"

text \<open>The tables below \<open>r\<close> have grown from one state to another, on pages that were free, and nothing else was written.\<close>

definition extends :: "int \<Rightarrow> int \<Rightarrow> phys \<Rightarrow> roles \<Rightarrow> phys \<Rightarrow> roles \<Rightarrow> bool" where
  "extends ke r s R t T \<longleftrightarrow> R \<subseteq>\<^sub>m T \<and> tables (ram t) T \<and> pool ke t T
     \<and> (\<forall>q. pages s q \<noteq> 0 \<longrightarrow> pages t q \<noteq> 0)
     \<and> (\<forall>p x. R p = None \<and> T p = Some x \<longrightarrow> allocatable_physical_address ke p \<and> pages s (p div 4096) = 0 \<and> fst x = r)
     \<and> (\<forall>q. pages s q = 0 \<and> pages t q \<noteq> 0 \<longrightarrow> T (4096 * q) \<noteq> None)
     \<and> (\<forall>x. T (page_of x) = None \<longrightarrow> ram t x = ram s x)
     \<and> (\<forall>p x i. R p = Some x \<and> 0 \<le> i \<and> i < 512 \<and> 0 < fst (snd x) \<and> entry (ram s) (slot p i) AND (PTE_P OR PTE_PS) = PTE_P
          \<longrightarrow> entry (ram t) (slot p i) = entry (ram s) (slot p i))"

lemma extends_refl: "tables (ram s) R \<Longrightarrow> pool ke s R \<Longrightarrow> extends ke r s R s R"
  by (auto simp: extends_def)

lemma extends_trans:
  assumes "extends ke r s R t T" and "extends ke r t T u U"
  shows "extends ke r s R u U"
  unfolding extends_def
proof (intro conjI allI impI)
  have le: "R \<subseteq>\<^sub>m T" "T \<subseteq>\<^sub>m U" using assms by (auto simp: extends_def)
  then show "R \<subseteq>\<^sub>m U" by (rule map_le_trans)
  show "tables (ram u) U" "pool ke u U" using assms(2) by (auto simp: extends_def)
  fix q show "pages s q \<noteq> 0 \<Longrightarrow> pages u q \<noteq> 0" using assms by (auto simp: extends_def)
  show "U (4096 * q) \<noteq> None" if "pages s q = 0 \<and> pages u q \<noteq> 0"
    using assms that le(2) unfolding extends_def map_le_def by (metis domIff)
next
  fix p x assume p: "R p = None \<and> U p = Some x"
  have "allocatable_physical_address ke p \<and> pages s (p div 4096) = 0 \<and> fst x = r"
  proof (cases "T p")
    case None
    then show ?thesis using assms p unfolding extends_def by blast
  next
    case (Some y)
    then have "y = x" using p assms(2) unfolding extends_def map_le_def by (metis domI option.inject)
    then show ?thesis using Some assms(1) p unfolding extends_def by blast
  qed
  then show "allocatable_physical_address ke p" "pages s (p div 4096) = 0" "fst x = r" by auto
next
  fix x assume "U (page_of x) = None"
  moreover from this have "T (page_of x) = None" using assms(2) unfolding extends_def map_le_def by (metis domIff)
  ultimately show "ram u x = ram s x" using assms unfolding extends_def by metis
next
  fix p x i assume p: "R p = Some x \<and> 0 \<le> i \<and> i < 512 \<and> 0 < fst (snd x) \<and> entry (ram s) (slot p i) AND (PTE_P OR PTE_PS) = PTE_P"
  have "T p = Some x" using p assms(1) unfolding extends_def map_le_def by (metis domI)
  moreover have "entry (ram t) (slot p i) = entry (ram s) (slot p i)" using p assms(1) unfolding extends_def by blast
  ultimately show "entry (ram u) (slot p i) = entry (ram s) (slot p i)" using p assms(2) unfolding extends_def by metis
qed

lemma root_mono: "root R r \<Longrightarrow> R \<subseteq>\<^sub>m T \<Longrightarrow> root T r"
  unfolding root_def map_le_def by (metis domI)

lemma vpre_above:
  assumes "vpre vb l = vpre va l" and "l \<le> k"
  shows "vpre vb k = vpre va k"
  using assms(2)
proof (induction k)
  case (Suc k)
  then show ?case using assms(1) by (cases "l = Suc k") (simp_all add: vpre_Suc)
qed (use assms(1) in simp)

lemma pageindex_above: "vpre vb l = vpre va l \<Longrightarrow> l \<le> k \<Longrightarrow> k \<le> 3 \<Longrightarrow> pageindex vb k = pageindex va k"
  using vpre_above [of vb l va k] vpre_mod [of k va] vpre_mod [of k vb] by simp

lemma walk_descend:
  assumes t: "tables m R" and "R p = Some (r, L, vpre va (Suc L))"
    and "walk m L p va perm = Inr (l, q + 8 * pageindex va l, perm)" and q: "page_ok q"
    and same: "\<And>q k. l < k \<Longrightarrow> R q = Some (r, k, vpre va (Suc k)) \<Longrightarrow> entry m (slot q (pageindex va k)) AND (PTE_P OR PTE_PS) = PTE_P
      \<Longrightarrow> entry m' (slot q (pageindex va k)) = entry m (slot q (pageindex va k))"
    and pre: "vpre vb (Suc l) = vpre va (Suc l)"
  shows "walk m' L p vb perm = walk m' l q vb perm"
  using assms(2,3)
proof (induction L arbitrary: p)
  case 0
  then have "l = 0" "p + 8 * pageindex va 0 = q + 8 * pageindex va 0" by (auto simp: Let_def split: if_splits)
  then show ?case by simp
next
  case (Suc L)
  let ?e = "entry m (slot p (pageindex va (Suc L)))"
  note d = tablesD [OF t Suc.prems(1)]
  have e: "entry_ok R r (Suc L) (vpre va (Suc L)) ?e" using d(3) [OF pageindex_range] vpre_split [OF d(2), of va] by simp
  show ?case
  proof (cases "?e AND (PTE_P OR PTE_PS) = PTE_P")
    case True
    with e obtain q' where q': "?e = q' + 7" "R q' = Some (r, L, vpre va (Suc L))" by (auto simp: entry_ok_def)
    note ok = tablesD(1) [OF t q'(2)]
    have w: "walk m (Suc L) p va perm = walk m L q' va perm"
      using True q'(1) page_ok_ram [OF d(1) pageindex_range] link_entry [OF ok] full_perm [OF ok] by (simp add: slot_def Let_def)
    then have l: "l \<le> L" using walk_tables [OF t q'(2), of perm] Suc.prems(2) by auto
    have "pageindex vb (Suc L) = pageindex va (Suc L)" by (rule pageindex_above [OF pre]) (use l d(2) in auto)
    moreover have "entry m' (slot p (pageindex va (Suc L))) = ?e" using same [OF _ Suc.prems(1) True] l by simp
    ultimately have "walk m' (Suc L) p vb perm = walk m' L q' vb perm"
      using True q'(1) page_ok_ram [OF d(1) pageindex_range] link_entry [OF ok] full_perm [OF ok] by (simp add: slot_def Let_def)
    then show ?thesis using Suc.IH [OF q'(2)] w Suc.prems(2) by simp
  next
    case False
    then have "l = Suc L" "p + 8 * pageindex va l = q + 8 * pageindex va l" using Suc.prems(2) by (auto simp: slot_def Let_def split: if_splits)
    then show ?thesis by simp
  qed
qed

lemma walk_stops:
  assumes "page_ok q" and "entry m (slot q (pageindex va l)) = 0"
  shows "walk m l q va perm = Inr (l, q + 8 * pageindex va l, perm)"
  using page_ok_ram [OF assms(1) pageindex_range] assms(2) by (cases l) (simp_all add: slot_def Let_def pte_defs)

lemma mem_fill_simps: "v \<le> x \<Longrightarrow> x < v + n \<Longrightarrow> mem_fill v c n f x = c" "x < v \<or> v + n \<le> x \<Longrightarrow> mem_fill v c n f x = f x"
  by (auto simp: mem_fill_def)

lemma page_of_page: "page_of x \<le> x" "x < page_of x + 4096"
  by (simp_all add: page_of_def)

lemma page_index: "4096 dvd p \<Longrightarrow> 4096 * (p div 4096) = (p :: int)"
  by simp

text \<open>A page that the allocator returns is free and no table.\<close>

lemma kalloc_new:
  assumes "kalloc ke sz s = (p, t)" and "p \<noteq> 0" and "pool ke s R"
  shows "page_ok p" "R p = None" "allocatable_physical_address ke p" "pages s (p div 4096) = 0"
    "pages t = (pages s)(p div 4096 := 1)" "ram t = mem_fill p 0xCC 4096 (ram s)"
proof -
  obtain i where i: "i < 512" "p = int i * 4096" "t = s\<lparr>pages := (pages s)(int i := 1), ram := mem_fill p 0xCC 4096 (ram s)\<rparr>"
    "allocatable_physical_address ke p" "pages s (int i) = 0" using assms(1,2) by (cases rule: kalloc_cases [of ke sz s]) auto
  show "page_ok p" using i allocatable_bounds [OF i(4)] by (simp add: page_ok_def)
  show free: "allocatable_physical_address ke p" "pages s (p div 4096) = 0" using i by simp_all
  show "R p = None" using assms(3) free unfolding pool_def by blast
  show "pages t = (pages s)(p div 4096 := 1)" "ram t = mem_fill p 0xCC 4096 (ram s)" using i by simp_all
qed

lemma not_link: "e AND PTE_P = 0 \<Longrightarrow> e AND (PTE_P OR PTE_PS) \<noteq> PTE_P"
proof
  assume np: "e AND PTE_P = 0" and l: "e AND (PTE_P OR PTE_PS) = PTE_P"
  have "e AND PTE_P = (e AND (PTE_P OR PTE_PS)) AND PTE_P" by (simp add: pte_defs and.assoc)
  then show False using np l by (simp add: pte_defs)
qed

lemma link_step:
  assumes t: "tables (ram s) R" and pl: "pool ke s R" and r: "root R r"
    and w: "walk (ram s) 3 r va initial_perm = Inr (Suc l, q + 8 * pageindex va (Suc l), initial_perm)"
    and q: "R q = Some (r, Suc l, vpre va (Suc (Suc l)))" and np: "entry (ram s) (slot q (pageindex va (Suc l))) AND PTE_P = 0"
    and k: "kalloc ke PAGESIZE s = (p, s1)" "p \<noteq> 0"
  defines "s2 \<equiv> s1\<lparr>ram := put_le (mem_fill p 0 PAGESIZE (ram s1)) (q + 8 * pageindex va (Suc l)) 8 (p + 7)\<rparr>"
  shows "extends ke r s R s2 (R(p \<mapsto> (r, l, vpre va (Suc l))))"
    and "walk (ram s2) 3 r va initial_perm = Inr (l, p + 8 * pageindex va l, initial_perm)"
    and "walk (ram s2) (Suc l) q va initial_perm = Inr (l, p + 8 * pageindex va l, initial_perm)"
    and "entry (ram s2) (slot p (pageindex va l)) = 0"
    and "root R r' \<Longrightarrow> lookup (ram s2) r' vb = lookup (ram s) r' vb"
proof -
  let ?m = "mem_fill p 0 PAGESIZE (ram s1)" and ?i = "pageindex va (Suc l)" and ?T = "R(p \<mapsto> (r, l, vpre va (Suc l)))"
  note kn = kalloc_new [OF k pl]
  have p: "page_ok p" "R p = None" by (rule kn)+
  have l: "Suc l \<le> 3" by (rule tablesD(2) [OF t q])
  have okq: "page_ok q" by (rule tablesD(1) [OF t q])
  have pq: "p \<noteq> q" using p(2) q by auto
  have m: "?m x = ram s x" if "page_of x \<noteq> p" for x
  proof -
    have "x < p \<or> p + 4096 \<le> x" using that page_of_in [of p x] p(1) unfolding page_ok_def by (meson not_le)
    then show ?thesis by (simp add: mem_fill_simps kn(6) PAGESIZE_def)
  qed
  have z: "?m x = 0" if "p \<le> x" "x < p + 4096" for x using that by (simp add: mem_fill_def PAGESIZE_def)
  have frame: "?m x = ram s x" if "R (page_of x) \<noteq> None" for x using that p(2) by (intro m) auto
  have tm: "tables ?m R" "\<And>r va. root R r \<Longrightarrow> lookup ?m r va = lookup (ram s) r va"
    using tables_frame [OF t, of ?m] frame by blast+
  have T: "tables ?m ?T" by (rule tables_new [OF tm(1) p]) (use l z in auto)
  have qT: "?T q = Some (r, Suc l, vpre va (Suc (Suc l)))" using q pq by simp
  have pn: "p + 7 < 2 ^ 64" "0 \<le> p + 7" using p(1) by (auto simp: page_ok_def)
  have ek: "512 * vpre va (Suc (Suc l)) + ?i = vpre va (Suc l)" using vpre_split [OF l, of va] by simp
  have e: "entry_ok ?T r (Suc l) (512 * vpre va (Suc (Suc l)) + ?i) (p + 7)"
    unfolding ek using link_entry [OF p(1)] p(1) by (auto simp: entry_ok_def page_ok_def)
  have T2: "tables (ram s2) ?T" unfolding s2_def using tables_put [OF T qT pageindex_range pn(2,1) e] by simp
  have rT: "root ?T r" using r p(2) by (auto simp: root_def)
  have ent: "entry (ram s2) (slot x j) = (if x = q \<and> j = ?i then p + 7 else entry ?m (slot x j))" if "page_ok x" "0 \<le> j" "j < 512" for x j
    unfolding s2_def using entry_slot_put [OF that(1) okq that(2,3) pageindex_range pn(2,1)] by simp
  have zero: "entry (ram s2) (slot p j) = 0" if "0 \<le> j" "j < 512" for j
    using ent [OF p(1) that] pq zero_entry [OF z that] by auto
  then show "entry (ram s2) (slot p (pageindex va l)) = 0" using pageindex_range by simp
  have wq: "walk (ram s2) (Suc l) q vb perm = Inr (l, p + 8 * pageindex vb l, perm)" if "pageindex vb (Suc l) = ?i" for vb perm
  proof -
    have "walk (ram s2) (Suc l) q vb perm = walk (ram s2) l p vb perm"
      using ent [OF okq pageindex_range, of va "Suc l"] that page_ok_ram [OF okq pageindex_range] link_entry [OF p(1)] full_perm [OF p(1)]
      by (simp add: slot_def Let_def)
    then show ?thesis using walk_stops [OF p(1) zero [OF pageindex_range]] by simp
  qed
  then show "walk (ram s2) (Suc l) q va initial_perm = Inr (l, p + 8 * pageindex va l, initial_perm)" by simp
  have R3: "R r = Some (r, 3, vpre va (Suc 3))" using r vpre_4 [of va] by (simp add: root_def eval_nat_numeral)
  have desc: "walk (ram s2) 3 r vb initial_perm = walk (ram s2) (Suc l) q vb initial_perm" if "vpre vb (Suc (Suc l)) = vpre va (Suc (Suc l))" for vb
  proof (rule walk_descend [OF t R3 w okq _ that])
    fix x k assume k: "Suc l < k" "R x = Some (r, k, vpre va (Suc k))"
    then have "x \<noteq> q" "x \<noteq> p" using q p(2) by auto
    then show "entry (ram s2) (slot x (pageindex va k)) = entry (ram s) (slot x (pageindex va k))"
      using ent [OF tablesD(1) [OF t k(2)] pageindex_range] entry_frame [OF tablesD(1) [OF t k(2)] pageindex_range, of ?m "ram s"]
        m page_of_in tablesD(1) [OF t k(2)] by (auto simp: page_ok_def)
  qed
  show "walk (ram s2) 3 r va initial_perm = Inr (l, p + 8 * pageindex va l, initial_perm)" using desc [of va] wq [of va] by simp
  show "lookup (ram s2) r' vb = lookup (ram s) r' vb" if r': "root R r'"
  proof (cases "r' \<noteq> r \<or> vpre vb (Suc l) \<noteq> vpre va (Suc l)")
    case True
    have rT': "root ?T r'" using r' p(2) by (auto simp: root_def)
    have "lookup (put_le ?m (q + 8 * ?i) 8 (p + 7)) r' vb = lookup ?m r' vb"
      by (rule lookup_put(2) [OF T qT pageindex_range pn(2,1) rT']) (use True ek in auto)
    then have "lookup (ram s2) r' vb = lookup ?m r' vb" by (simp add: s2_def)
    then show ?thesis using tm(2) [OF r'] by simp
  next
    case False
    have pre: "vpre vb (Suc (Suc l)) = vpre va (Suc (Suc l))" by (rule vpre_above [of _ "Suc l"]) (use False in auto)
    have idx: "pageindex vb (Suc l) = ?i" by (rule pageindex_above [of _ "Suc l"]) (use False l in auto)
    have "lookup (ram s2) r' vb = None"
      using False desc [OF pre] wq [OF idx] zero [OF pageindex_range, of vb l] by (simp add: lookup_def slot_def pte_defs)
    moreover have "walk (ram s) 3 r vb initial_perm = walk (ram s) (Suc l) q vb initial_perm"
      by (rule walk_descend [OF t R3 w okq _ pre]) simp
    ultimately show ?thesis using False not_link [OF np] np idx by (simp add: lookup_def slot_def Let_def)
  qed
  show "extends ke r s R s2 ?T"
    unfolding extends_def
  proof (intro conjI allI impI)
    show "R \<subseteq>\<^sub>m ?T" using p(2) by (auto simp: map_le_def)
    show "tables (ram s2) ?T" by (rule T2)
    show "pool ke s2 ?T" using pl kn(5) by (auto simp: pool_def s2_def)
    fix x show "pages s x \<noteq> 0 \<Longrightarrow> pages s2 x \<noteq> 0" using kn(5) by (auto simp: s2_def)
    show "?T (4096 * x) \<noteq> None" if "pages s x = 0 \<and> pages s2 x \<noteq> 0"
      using that kn(5) page_index [of p] p(1) by (auto simp: s2_def page_ok_def split: if_splits)
  next
    fix x y assume x: "R x = None \<and> ?T x = Some y"
    then show "allocatable_physical_address ke x" "pages s (x div 4096) = 0" "fst y = r" using kn(3,4) by (auto split: if_splits)
  next
    fix x assume x: "?T (page_of x) = None"
    then have "page_of x \<noteq> p" "page_of x \<noteq> q" using q by (auto split: if_splits)
    then have "x < q + 8 * ?i \<or> q + 8 * ?i + 8 \<le> x"
      using page_of_in [of q x] okq pageindex_range [of va "Suc l"] by (force simp: page_ok_def)
    then have "ram s2 x = ?m x" unfolding s2_def by (simp add: put_le_other)
    then show "ram s2 x = ram s x" using m \<open>page_of x \<noteq> p\<close> by simp
  next
    fix x y j assume x: "R x = Some y \<and> 0 \<le> j \<and> j < 512 \<and> 0 < fst (snd y) \<and> entry (ram s) (slot x j) AND (PTE_P OR PTE_PS) = PTE_P"
    have ok: "page_ok x" using tablesD(1) [OF t, of x] x by (cases y) auto
    have "\<not> (x = q \<and> j = ?i)" using x not_link [OF np] by auto
    then have "entry (ram s2) (slot x j) = entry ?m (slot x j)" using ent [OF ok] x by auto
    moreover have "x \<noteq> p" using x p(2) by auto
    then have "?m y = ram s y" if "x \<le> y" "y < x + 4096" for y using m page_of_in [OF _ that] ok by (simp add: page_ok_def)
    then have "entry ?m (slot x j) = entry (ram s) (slot x j)" using x by (intro entry_frame [OF ok]) auto
    ultimately show "entry (ram s2) (slot x j) = entry (ram s) (slot x j)" by simp
  qed
qed

section \<open>Free pages\<close>

definition free_pages :: "int \<Rightarrow> phys \<Rightarrow> nat set" where
  "free_pages ke s = {i. i < 512 \<and> allocatable_physical_address ke (int i * 4096) \<and> pages s (int i) = 0}"

lemma finite_free_pages [simp]: "finite (free_pages ke s)"
  by (simp add: free_pages_def)

lemma kalloc_none: "kalloc ke PAGESIZE s = (0, t) \<Longrightarrow> t = s \<and> free_pages ke s = {}"
proof (rule kalloc_cases [of ke PAGESIZE s], goal_cases)
  case 1
  have "find (\<lambda>pa. allocatable_physical_address ke pa \<and> pages s (pa div PAGESIZE) = 0)
      (map (\<lambda>i. int i * PAGESIZE) [0 ..< nat (MEMSIZE_PHYSICAL div PAGESIZE)]) = None"
  proof (rule ccontr)
    assume "\<not> ?thesis"
    then obtain q where q: "find (\<lambda>pa. allocatable_physical_address ke pa \<and> pages s (pa div PAGESIZE) = 0)
      (map (\<lambda>i. int i * PAGESIZE) [0 ..< nat (MEMSIZE_PHYSICAL div PAGESIZE)]) = Some q" by auto
    then have "allocatable_physical_address ke q" by (auto simp: find_Some_iff)
    then show False using 1(2) q allocatable_bounds [of ke q] by (simp add: kalloc_def)
  qed
  then have "\<not> (allocatable_physical_address ke (int i * 4096) \<and> pages s (int i) = 0)" if "i < 512" for i
    using that by (force simp: find_None_iff PAGESIZE_def MEMSIZE_PHYSICAL_def)
  then show ?case using 1 by (auto simp: free_pages_def)
next
  case (2 i)
  then show ?case using allocatable_bounds [of ke "int i * 4096"] by auto
qed

lemma kalloc_free:
  assumes "kalloc ke sz s = (p, t)" and "p \<noteq> 0"
  shows "free_pages ke t = free_pages ke s - {nat (p div 4096)}" "nat (p div 4096) \<in> free_pages ke s"
proof -
  obtain i where i: "i < 512" "p = int i * 4096" "pages t = (pages s)(int i := 1)" "allocatable_physical_address ke p" "pages s (int i) = 0"
    using assms by (cases rule: kalloc_cases [of ke sz s]) auto
  then show "free_pages ke t = free_pages ke s - {nat (p div 4096)}" "nat (p div 4096) \<in> free_pages ke s"
    by (auto simp: free_pages_def)
qed

lemma kalloc_free_card: "kalloc ke sz s = (p, t) \<Longrightarrow> p \<noteq> 0 \<Longrightarrow> card (free_pages ke s) = Suc (card (free_pages ke t))"
  using kalloc_free [of ke sz s p t] by (metis card_Suc_Diff1 finite_free_pages)

section \<open>The law of the mapping\<close>

lemma perm_bits:
  assumes "4096 dvd pa" "0 \<le> pa" "pa < 2 ^ 32" "0 \<le> perm" "perm < 4096"
  shows "pa OR perm = pa + perm" "(pa + perm) AND PTE_PAMASK = pa" "(pa + perm) AND initial_perm = perm" "(pa + perm) AND PTE_P = perm AND PTE_P"
    "0 \<le> pa + perm" "pa + perm < 2 ^ 64"
proof -
  obtain k where k: "pa = 4096 * k" using assms(1) by (elim dvdE)
  have m: "(pa + perm) mod 4096 = perm" "(pa + perm) div 4096 = k" using assms(4,5) by (simp_all add: k)
  show "pa OR perm = pa + perm" by (rule page_or [OF assms(1,4,5)])
  show "(pa + perm) AND PTE_PAMASK = pa" using m(2) assms(2,3) k by (simp add: pamask_eq)
  have "perm AND 0xFFF = take_bit 12 perm" using take_bit_eq_mask [of 12 perm] by (simp add: mask_eq_exp_minus_1)
  then have "perm AND 0xFFF = perm" using assms(4,5) by (simp add: take_bit_eq_mod)
  then show "(pa + perm) AND initial_perm = perm" using low_and [of "0xFFF" "pa + perm"] m(1) by (simp add: initial_perm_def)
  show "(pa + perm) AND PTE_P = perm AND PTE_P" using low_and [of PTE_P "pa + perm"] m(1) by (simp add: pte_defs)
  show "0 \<le> pa + perm" "pa + perm < 2 ^ 64" using assms by simp_all
qed

lemma leaf_step:
  assumes t: "tables (ram s) R" and pl: "pool ke s R" and r: "root R r"
    and w: "walk (ram s) 3 r va initial_perm = Inr (0, q + 8 * pageindex va 0, initial_perm)"
    and q: "R q = Some (r, 0, vpre va (Suc 0))" and pa: "4096 dvd pa" "0 \<le> pa" "pa < 2 ^ 32" and perm: "0 \<le> perm" "perm < 4096"
  defines "s2 \<equiv> s\<lparr>ram := put_le (ram s) (q + 8 * pageindex va 0) 8 (pa OR perm)\<rparr>"
  shows "extends ke r s R s2 R"
    and "root R r' \<Longrightarrow> r' \<noteq> r \<or> vpre vb 0 \<noteq> vpre va 0 \<Longrightarrow> lookup (ram s2) r' vb = lookup (ram s) r' vb"
    and "lookup (ram s2) r va = (if perm AND PTE_P = 0 then None else Some (0, pa, perm))"
    and "wlevel (ram s2) r va = 0"
proof -
  note b = perm_bits [OF pa perm] and okq = tablesD(1) [OF t q]
  have ek: "512 * vpre va (Suc 0) + pageindex va 0 = vpre va 0" using vpre_split [of 0 va] by simp
  have e: "entry_ok R r 0 (512 * vpre va (Suc 0) + pageindex va 0) (pa + perm)" using b pa by (simp add: entry_ok_def)
  have s2: "ram s2 = put_le (ram s) (q + 8 * pageindex va 0) 8 (pa + perm)" by (simp add: s2_def b(1))
  have T: "tables (ram s2) R" unfolding s2 by (rule tables_put [OF t q pageindex_range b(5,6) e])
  show "lookup (ram s2) r' vb = lookup (ram s) r' vb" if "root R r'" "r' \<noteq> r \<or> vpre vb 0 \<noteq> vpre va 0"
    unfolding s2 by (rule lookup_put(2) [OF t q pageindex_range b(5,6) that(1)]) (use that(2) ek in auto)
  have ent: "entry (ram s2) (slot q (pageindex va 0)) = pa + perm" unfolding s2 using entry_slot_put [OF okq okq pageindex_range pageindex_range b(5,6)] by simp
  have R3: "R r = Some (r, 3, vpre va (Suc 3))" using r vpre_4 [of va] by (simp add: root_def eval_nat_numeral)
  have "walk (ram s2) 3 r va initial_perm = walk (ram s2) 0 q va initial_perm"
  proof (rule walk_descend [OF t R3 w okq])
    fix x k assume k: "0 < k" "R x = Some (r, k, vpre va (Suc k))"
    then have "x \<noteq> q" using q by auto
    then show "entry (ram s2) (slot x (pageindex va k)) = entry (ram s) (slot x (pageindex va k))"
      unfolding s2 using entry_slot_put [OF tablesD(1) [OF t k(2)] okq pageindex_range pageindex_range b(5,6)] by simp
  qed simp
  also have "\<dots> = Inr (0, q + 8 * pageindex va 0, initial_perm)"
    using ent page_ok_ram [OF okq pageindex_range, of va 0] b(2) pa(3) by (simp add: slot_def Let_def)
  finally show "lookup (ram s2) r va = (if perm AND PTE_P = 0 then None else Some (0, pa, perm))" "wlevel (ram s2) r va = 0"
    using ent b by (simp_all add: lookup_def wlevel_def slot_def Let_def)
  show "extends ke r s R s2 R"
    unfolding extends_def
  proof (intro conjI allI impI)
    show "pool ke s2 R" using pl by (simp add: pool_def s2_def)
    fix x assume "R (page_of x) = None"
    then have "page_of x \<noteq> q" using q by auto
    then have "x < q + 8 * pageindex va 0 \<or> q + 8 * pageindex va 0 + 8 \<le> x"
      using page_of_in [of q x] okq pageindex_range [of va 0] by (force simp: page_ok_def)
    then show "ram s2 x = ram s x" unfolding s2 by (simp add: put_le_other)
  next
    fix x y j assume x: "R x = Some y \<and> 0 \<le> j \<and> j < 512 \<and> 0 < fst (snd y) \<and> entry (ram s) (slot x j) AND (PTE_P OR PTE_PS) = PTE_P"
    have ok: "page_ok x" using tablesD(1) [OF t, of x] x by (cases y) auto
    have "x \<noteq> q" using x q by auto
    then show "entry (ram s2) (slot x j) = entry (ram s) (slot x j)"
      unfolding s2 using entry_slot_put [OF ok okq _ _ pageindex_range b(5,6)] x by auto
  qed (use T in \<open>auto simp: s2_def\<close>)
qed

text \<open>The outcome \<open>rv\<close> of mapping \<open>va\<close> below \<open>r\<close>: 0 with the mapping in place, or -1 with no page left.\<close>

definition mapped :: "int \<Rightarrow> int \<Rightarrow> int \<Rightarrow> int \<Rightarrow> int \<Rightarrow> phys \<Rightarrow> roles \<Rightarrow> int \<Rightarrow> phys \<Rightarrow> roles \<Rightarrow> bool" where
  "mapped ke r va pa perm s R rv t T \<longleftrightarrow> extends ke r s R t T
     \<and> (rv = 0 \<or> rv = - 1 \<and> free_pages ke t = {})
     \<and> (\<forall>r' vb. root R r' \<and> (r' \<noteq> r \<or> vpre vb 0 \<noteq> vpre va 0) \<longrightarrow> lookup (ram t) r' vb = lookup (ram s) r' vb)
     \<and> lookup (ram t) r va = (if rv = 0 then (if perm AND PTE_P = 0 then None else Some (0, pa, perm)) else lookup (ram s) r va)
     \<and> (rv = 0 \<and> perm \<noteq> 0 \<longrightarrow> wlevel (ram t) r va = 0) \<and> (wlevel (ram s) r va = 0 \<longrightarrow> rv = 0)
     \<and> card (free_pages ke s) \<le> card (free_pages ke t) + wlevel (ram s) r va"

lemma try_map_loop_ok:
  assumes "tables (ram s) R" and "pool ke s R" and "root R r"
    and "walk (ram s) 3 r va initial_perm = Inr (l, q + 8 * pageindex va l, initial_perm)"
    and "R q = Some (r, l, vpre va (Suc l))" and "l = 0 \<or> entry (ram s) (slot q (pageindex va l)) AND PTE_P = 0"
    and pa: "4096 dvd pa" "0 \<le> pa" "pa < 2 ^ 32" and perm: "0 \<le> perm" "perm < 4096" "perm \<noteq> 0"
  shows "\<exists>rv t T. try_map_loop ke pa perm \<lparr>it_pt = r, it_pep = Some (q + 8 * pageindex va l), it_level = l, it_perm = initial_perm, it_va = va\<rparr> s
      = Inr (rv, t) \<and> extends ke r s R t T \<and> (rv = 0 \<or> rv = - 1 \<and> free_pages ke t = {})
      \<and> (\<forall>r' vb. root R r' \<and> (r' \<noteq> r \<or> vpre vb 0 \<noteq> vpre va 0) \<longrightarrow> lookup (ram t) r' vb = lookup (ram s) r' vb)
      \<and> lookup (ram t) r va = (if rv = 0 then (if perm AND PTE_P = 0 then None else Some (0, pa, perm)) else lookup (ram s) r va)
      \<and> (rv = 0 \<longrightarrow> wlevel (ram t) r va = 0) \<and> (l = 0 \<longrightarrow> rv = 0) \<and> card (free_pages ke s) \<le> card (free_pages ke t) + l"
  using assms(1-6)
proof (induction l arbitrary: s R q)
  case 0
  let ?t = "s\<lparr>ram := put_le (ram s) (q + 8 * pageindex va 0) 8 (pa OR perm)\<rparr>"
  note leaf = leaf_step [OF 0(1,2,3,4,5) pa perm(1,2)]
  have "try_map_loop ke pa perm \<lparr>it_pt = r, it_pep = Some (q + 8 * pageindex va 0), it_level = 0, it_perm = initial_perm, it_va = va\<rparr> s
      = Inr (0, ?t)" by (subst try_map_loop.simps) (simp add: put_entry_def)
  moreover have "free_pages ke ?t = free_pages ke s" by (simp add: free_pages_def)
  ultimately show ?case using leaf by (intro exI [of _ 0] exI [of _ ?t] exI [of _ R]) simp
next
  case (Suc l)
  let ?it = "\<lambda>l q. \<lparr>it_pt = r, it_pep = Some (q + 8 * pageindex va l), it_level = l, it_perm = initial_perm, it_va = va\<rparr>"
  have np: "entry (ram s) (slot q (pageindex va (Suc l))) AND PTE_P = 0" using Suc.prems(6) by simp
  obtain p s1 where k: "kalloc ke PAGESIZE s = (p, s1)" by (cases "kalloc ke PAGESIZE s")
  show ?case
  proof (cases "p = 0")
    case True
    then have "s1 = s" "free_pages ke s = {}" using kalloc_none k by auto
    moreover have "try_map_loop ke pa perm (?it (Suc l) q) s = Inr (- 1, s1)"
      using np k True perm(3) by (subst try_map_loop.simps) (simp add: slot_def)
    ultimately show ?thesis using extends_refl [OF Suc.prems(1,2)] by (intro exI [of _ "- 1"] exI [of _ s] exI [of _ R]) simp
  next
    case False
    define s2 where "s2 = s1\<lparr>ram := put_le (mem_fill p 0 PAGESIZE (ram s1)) (q + 8 * pageindex va (Suc l)) 8 (p + 7)\<rparr>"
    note ls = link_step [OF Suc.prems(1,2,3,4,5) np k False, folded s2_def]
    let ?T = "R(p \<mapsto> (r, l, vpre va (Suc l)))"
    have okp: "page_ok p" "R p = None" using kalloc_new [OF k False Suc.prems(2)] by auto
    have lnk: "p OR PTE_P OR PTE_W OR PTE_U = p + 7" using link_bits(1) [of p] okp(1) by (simp add: page_ok_def)
    have dn: "down (ram s2) (?it (Suc l) q) = Inr (?it l p)"
      using ls(3) by (subst down_walk [of _ "Suc l" q]) (simp_all add: placed_at_def)
    have code: "try_map_loop ke pa perm (?it (Suc l) q) s = try_map_loop ke pa perm (?it l p) s2"
      using np k False perm(3) dn lnk by (subst try_map_loop.simps) (simp add: slot_def put_entry_def s2_def)
    have T: "tables (ram s2) ?T" "pool ke s2 ?T" "R \<subseteq>\<^sub>m ?T" using ls(1) by (auto simp: extends_def)
    have rT: "root ?T r'" if "root R r'" for r' using root_mono [OF that T(3)] .
    have z: "entry (ram s2) (slot p (pageindex va l)) AND PTE_P = 0" using ls(4) by simp
    have Tp: "?T p = Some (r, l, vpre va (Suc l))" by simp
    from Suc.IH [OF T(1,2) rT [OF Suc.prems(3)] ls(2) Tp disjI2 [OF z]]
    obtain rv t U where u: "try_map_loop ke pa perm (?it l p) s2 = Inr (rv, t)" "extends ke r s2 ?T t U" "rv = 0 \<or> rv = - 1 \<and> free_pages ke t = {}"
      "\<And>r' vb. root ?T r' \<Longrightarrow> r' \<noteq> r \<or> vpre vb 0 \<noteq> vpre va 0 \<Longrightarrow> lookup (ram t) r' vb = lookup (ram s2) r' vb"
      "lookup (ram t) r va = (if rv = 0 then (if perm AND PTE_P = 0 then None else Some (0, pa, perm)) else lookup (ram s2) r va)"
      "card (free_pages ke s2) \<le> card (free_pages ke t) + l" "rv = 0 \<Longrightarrow> wlevel (ram t) r va = 0" by blast
    have "card (free_pages ke s) \<le> card (free_pages ke t) + Suc l"
      using u(6) kalloc_free_card [OF k False] by (simp add: s2_def free_pages_def)
    moreover have "lookup (ram s2) r' vb = lookup (ram s) r' vb" if "root R r'" for r' vb by (rule ls(5) [OF that])
    ultimately show ?thesis using code u rT Suc.prems(3) extends_trans [OF ls(1) u(2)]
      by (intro exI [of _ rv] exI [of _ t] exI [of _ U]) simp
  qed
qed

lemma vmiter_at_found: "vmiter_at m p va = found_at m p va"
  unfolding vmiter_at_def by (subst real_find_restart) simp_all

lemma mask_bits: "0 \<le> perm \<Longrightarrow> perm < 8 \<Longrightarrow> perm AND NOT initial_perm AND (PTE_P OR PTE_W OR PTE_U) = 0"
  by (simp add: initial_perm_def pte_defs and.assoc)

lemma pa_asserts:
  assumes "4096 dvd pa" "0 \<le> pa" "pa < 2 ^ 32"
  shows "pa AND PTE_PAMASK = pa" "pa AND PTE_P = 0" "pa \<noteq> 2 ^ 64 - 1"
  using perm_bits [OF assms, of 0] assms by simp_all

theorem memory_map_ok:
  assumes t: "tables (ram s) R" and pl: "pool ke s R" and r: "root R r"
    and small: "\<And>l a p. lookup (ram s) r va = Some (l, a, p) \<Longrightarrow> l = 0"
    and va: "va_is_canonical va" "4096 dvd va"
    and pa: "4096 dvd pa" "0 \<le> pa" "pa < 2 ^ 32" and perm: "0 \<le> perm" "perm < 8"
  shows "\<exists>rv t T. memory_map ke r va pa perm s = Inr (rv, t) \<and> mapped ke r va pa perm s R rv t T"
proof -
  obtain l q where w: "walk (ram s) 3 r va initial_perm = Inr (l, q + 8 * pageindex va l, initial_perm)" "l \<le> 3"
    and q: "R q = Some (r, l, vpre va (Suc l))" by (rule root_walk [OF t r])
  let ?it = "\<lparr>it_pt = r, it_pep = Some (q + 8 * pageindex va l), it_level = l, it_perm = initial_perm, it_va = va\<rparr>"
  have e: "l = 0 \<or> entry (ram s) (slot q (pageindex va l)) AND PTE_P = 0"
    using small w(1) by (auto simp: lookup_def slot_def Let_def split: if_splits)
  have it: "vmiter_at (ram s) r va = Inr ?it" using va(1) w(1) by (simp add: vmiter_at_found found_at_def)
  have "va mod PAGESIZE = 0" using va(2) by (simp add: PAGESIZE_def)
  then have code: "memory_map ke r va pa perm s = try_map_loop ke pa perm ?it s"
    using it pa_asserts [OF pa] mask_bits [OF perm] by (simp add: memory_map_def try_map_def Let_def)
  show ?thesis
  proof (cases "perm = 0")
    case False
    from try_map_loop_ok [OF t pl r w(1) q e pa perm(1) _ False] perm(2)
    obtain rv u T where "try_map_loop ke pa perm ?it s = Inr (rv, u)" "extends ke r s R u T" "rv = 0 \<or> rv = - 1 \<and> free_pages ke u = {}"
      "\<And>r' vb. root R r' \<Longrightarrow> r' \<noteq> r \<or> vpre vb 0 \<noteq> vpre va 0 \<Longrightarrow> lookup (ram u) r' vb = lookup (ram s) r' vb"
      "lookup (ram u) r va = (if rv = 0 then (if perm AND PTE_P = 0 then None else Some (0, pa, perm)) else lookup (ram s) r va)"
      "card (free_pages ke s) \<le> card (free_pages ke u) + l" "rv = 0 \<Longrightarrow> wlevel (ram u) r va = 0" "l = 0 \<Longrightarrow> rv = 0" by fastforce
    then show ?thesis using code w(1) by (intro exI [of _ rv] exI [of _ u] exI [of _ T]) (auto simp: mapped_def wlevel_def)
  next
    case True
    show ?thesis
    proof (cases l)
      case 0
      note leaf = leaf_step [OF t pl r w(1) [unfolded 0] q [unfolded 0] pa, of 0]
      let ?u = "s\<lparr>ram := put_le (ram s) (q + 8 * pageindex va 0) 8 (pa OR 0)\<rparr>"
      have "memory_map ke r va pa perm s = Inr (0, ?u)" unfolding code using 0 True by (subst try_map_loop.simps) (simp add: put_entry_def)
      moreover have "free_pages ke ?u = free_pages ke s" by (simp add: free_pages_def)
      ultimately show ?thesis using leaf True by (intro exI [of _ 0] exI [of _ ?u] exI [of _ R]) (simp add: mapped_def)
    next
      case (Suc k)
      have "lookup (ram s) r va = None" using e w(1) Suc by (simp add: lookup_def slot_def)
      moreover have "memory_map ke r va pa perm s = Inr (0, s)" unfolding code using Suc True by (subst try_map_loop.simps) simp
      ultimately show ?thesis using True extends_refl [OF t pl] by (intro exI [of _ 0] exI [of _ s] exI [of _ R]) (simp add: mapped_def)
    qed
  qed
qed

text \<open>Addresses that are refused.\<close>

lemma memory_map_refused:
  assumes t: "tables (ram s) R" and r: "root R r" and "\<not> va_is_canonical va \<or> va mod 4096 \<noteq> 0" and "perm AND PTE_P \<noteq> 0"
  shows "memory_map ke r va pa perm s = Inl Assertion_failed"
proof (cases "va_is_canonical va")
  case True
  obtain l q where "walk (ram s) 3 r va initial_perm = Inr (l, q + 8 * pageindex va l, initial_perm)" by (rule root_walk [OF t r])
  then show ?thesis using assms(3) True by (simp add: memory_map_def vmiter_at_found found_at_def try_map_def Let_def PAGESIZE_def)
next
  case False
  have "perm AND (PTE_P OR PTE_W OR PTE_U) \<noteq> 0"
  proof
    assume "perm AND (PTE_P OR PTE_W OR PTE_U) = 0"
    then have "(perm AND (PTE_P OR PTE_W OR PTE_U)) AND PTE_P = 0" by simp
    then show False using assms(4) by (simp add: pte_defs and.assoc)
  qed
  then show ?thesis using False by (simp add: memory_map_def vmiter_at_found found_at_def try_map_def Let_def)
qed

lemma virtual_to_physical:
  assumes t: "tables (ram s) R" and r: "root R r" and "va_is_canonical va" and small: "\<And>l a p. lookup (ram s) r va = Some (l, a, p) \<Longrightarrow> l = 0"
  shows "memory_virtual_to_physical r va s = Inr (case lookup (ram s) r va of None \<Rightarrow> 2 ^ 64 - 1 | Some (l, a, p) \<Rightarrow> a + va mod 4096)"
proof -
  obtain l q where w: "walk (ram s) 3 r va initial_perm = Inr (l, q + 8 * pageindex va l, initial_perm)" by (rule root_walk [OF t r])
  have m: "va AND pageoffmask 0 = va mod 4096"
    using take_bit_eq_mask [of 12 va] by (simp add: pageoffmask_def push_bit_eq_mult take_bit_eq_mod mask_eq_exp_minus_1)
  show ?thesis
  proof (cases "lookup (ram s) r va")
    case None
    then show ?thesis using w assms(3)
      by (auto simp: memory_virtual_to_physical_def vmiter_at_found found_at_def vm_pa_def lookup_def Let_def split: if_splits)
  next
    case (Some x)
    then have "l = 0" using small w by (auto simp: lookup_def Let_def split: if_splits)
    then show ?thesis using Some w assms(3) m
      by (auto simp: memory_virtual_to_physical_def vmiter_at_found found_at_def vm_pa_def lookup_def Let_def split: if_splits)
  qed
qed

section \<open>Mapping a range\<close>

lemma walk_cong: "(\<And>k. k \<le> l \<Longrightarrow> pageindex va k = pageindex vb k) \<Longrightarrow> walk m l p va perm = walk m l p vb perm"
  by (induction l arbitrary: p perm) (simp_all add: Let_def)

lemma lookup_cong:
  assumes "vpre va 0 = vpre vb 0"
  shows "lookup m r va = lookup m r vb"
proof -
  have "walk m 3 r va initial_perm = walk m 3 r vb initial_perm" by (rule walk_cong) (rule pageindex_above [OF assms], auto)
  then show ?thesis by (simp add: lookup_def)
qed

lemma wlevel_zero:
  assumes t: "tables m R" and r: "root R r" and w: "wlevel m r va = 0" and T: "tables m' T" and le: "R \<subseteq>\<^sub>m T"
    and same: "\<And>p x i. R p = Some x \<Longrightarrow> 0 \<le> i \<Longrightarrow> i < 512 \<Longrightarrow> 0 < fst (snd x) \<Longrightarrow> entry m (slot p i) AND (PTE_P OR PTE_PS) = PTE_P
      \<Longrightarrow> entry m' (slot p i) = entry m (slot p i)"
    and pre: "vpre vb (Suc 0) = vpre va (Suc 0)"
  shows "wlevel m' r vb = 0"
proof -
  obtain l q where q: "walk m 3 r va initial_perm = Inr (l, q + 8 * pageindex va l, initial_perm)" "R q = Some (r, l, vpre va (Suc l))"
    by (rule root_walk [OF t r])
  then have l: "l = 0" using w by (simp add: wlevel_def)
  have R3: "R r = Some (r, 3, vpre va (Suc 3))" using r vpre_4 [of va] by (simp add: root_def eval_nat_numeral)
  have "walk m' 3 r vb initial_perm = walk m' 0 q vb initial_perm"
    by (rule walk_descend [OF t R3 q(1) [unfolded l] tablesD(1) [OF t q(2)] _ pre]) (rule same, use pageindex_range in auto)
  moreover have "T q = Some (r, 0, vpre vb (Suc 0))" using q(2) l le pre unfolding map_le_def by (metis domI)
  from walk_tables [OF T this, of initial_perm] have "\<exists>a. walk m' 0 q vb initial_perm = Inr (0, a, initial_perm)" by auto
  ultimately show ?thesis by (auto simp: wlevel_def)
qed

lemma extends_links:
  assumes "extends ke r s R t T" and "R p = Some (r', l, k)" and "0 \<le> i" "i < 512" "0 < l" "entry (ram s) (slot p i) AND (PTE_P OR PTE_PS) = PTE_P"
  shows "entry (ram t) (slot p i) = entry (ram s) (slot p i)"
proof -
  have "\<forall>p x i. R p = Some x \<and> 0 \<le> i \<and> i < 512 \<and> 0 < fst (snd x) \<and> entry (ram s) (slot p i) AND (PTE_P OR PTE_PS) = PTE_P
          \<longrightarrow> entry (ram t) (slot p i) = entry (ram s) (slot p i)" using assms(1) unfolding extends_def by blast
  from this [rule_format, of p "(r', l, k)" i] show ?thesis using assms(2-6) by simp
qed

lemma extends_wlevel:
  assumes "tables (ram s) R" and "root R r'" and "wlevel (ram s) r' va = 0" and e: "extends ke r s R t T" and "vpre vb (Suc 0) = vpre va (Suc 0)"
  shows "wlevel (ram t) r' vb = 0"
  by (rule wlevel_zero [OF assms(1,2,3) _ _ _ assms(5)]) (use e in \<open>auto simp: extends_def\<close>)

lemma extends_on_path:
  assumes t: "tables (ram s) R" and r: "root R (it_pt it)" and st: "in_step (ram s) it" and e: "extends ke (it_pt it) s R u T"
  shows "on_path (ram u) it"
  unfolding on_path_def
proof
  assume l3: "it_level it < 3"
  let ?l = "it_level it" and ?r = "it_pt it" and ?va = "it_va it"
  obtain l q where q: "walk (ram s) 3 ?r ?va initial_perm = Inr (l, q + 8 * pageindex ?va l, initial_perm)" "R q = Some (?r, l, vpre ?va (Suc l))"
    by (rule root_walk [OF t r])
  have can: "va_is_canonical ?va" using st l3 by (auto simp: in_step_def split: if_splits)
  then have pl: "it = placed_at it (l, q + 8 * pageindex ?va l, initial_perm)" using st q(1) by (simp add: in_step_def)
  have f: "?l = l" "it_pep it = Some (q + 8 * pageindex ?va l)" "it_perm it = initial_perm"
    using arg_cong [OF pl, of it_level] arg_cong [OF pl, of it_pep] arg_cong [OF pl, of it_perm] by (simp_all add: placed_at_def)
  have R3: "R ?r = Some (?r, 3, vpre ?va (Suc 3))" using r vpre_4 [of ?va] by (simp add: root_def eval_nat_numeral)
  have okq: "page_ok q" by (rule tablesD(1) [OF t q(2)])
  have "walk (ram u) 3 ?r vb initial_perm = walk (ram u) l q vb initial_perm" if "?va div 2 ^ (21 + l * 9) = vb div 2 ^ (21 + l * 9)" for vb
  proof (rule walk_descend [OF t R3 q(1) okq])
    show "vpre vb (Suc l) = vpre ?va (Suc l)"
    proof -
      have "vpre x (Suc l) = take_bit (48 - (21 + l * 9)) (drop_bit (21 + l * 9) x)" for x
        by (auto simp: vpre_bits bit_eq_iff bit_take_bit_iff bit_drop_bit_eq)
      then show ?thesis using that by (simp add: drop_bit_eq_div)
    qed
    fix x k assume x: "l < k" "R x = Some (?r, k, vpre ?va (Suc k))"
      "entry (ram s) (slot x (pageindex ?va k)) AND (PTE_P OR PTE_PS) = PTE_P"
    then show "entry (ram u) (slot x (pageindex ?va k)) = entry (ram s) (slot x (pageindex ?va k))"
      by (intro extends_links [OF e x(2) pageindex_range]) auto
  qed
  then show "va_is_canonical ?va \<and> (\<exists>q. 4096 dvd q \<and> it_pep it = Some (q + 8 * pageindex ?va ?l) \<and>
       (\<forall>vb. ?va div 2 ^ (21 + ?l * 9) = vb div 2 ^ (21 + ?l * 9)
         \<longrightarrow> walk (ram u) 3 ?r vb initial_perm = walk (ram u) ?l q vb (it_perm it)))"
    using can f okq by (auto simp: page_ok_def)
qed

lemma found_in_step:
  assumes "tables m R" and "root R r" and "va_is_canonical va"
  obtains it where "found_at m r va = Inr it" "in_step m it" "it_pt it = r" "it_va it = va"
proof -
  obtain l q where w: "walk m 3 r va initial_perm = Inr (l, q + 8 * pageindex va l, initial_perm)" by (rule root_walk [OF assms(1,2)])
  have "page_ok r" using tablesD(1) [OF assms(1)] assms(2) by (auto simp: root_def)
  then show ?thesis using that w assms(3) by (simp add: found_at_def in_step_def placed_at_def page_ok_def)
qed

text \<open>No large pages below the page number \<open>N\<close>.\<close>

definition small_pages :: "int \<Rightarrow> (int \<Rightarrow> byte) \<Rightarrow> int \<Rightarrow> bool" where
  "small_pages N m r \<longleftrightarrow> (\<forall>va l a p. vpre va 0 < N \<and> lookup m r va = Some (l, a, p) \<longrightarrow> l = 0)"

lemma mapped_small:
  assumes "mapped ke r va pa perm s R rv t T" and "root R r'" and "small_pages N (ram s) r'"
  shows "small_pages N (ram t) r'"
  unfolding small_pages_def
proof (intro allI impI)
  fix vb l a p assume "vpre vb 0 < N \<and> lookup (ram t) r' vb = Some (l, a, p)"
  then have N: "vpre vb 0 < N" and l: "lookup (ram t) r' vb = Some (l, a, p)" by auto
  show "l = 0"
  proof (cases "r' \<noteq> r \<or> vpre vb 0 \<noteq> vpre va 0")
    case True
    then have "lookup (ram s) r' vb = Some (l, a, p)" using l assms(1,2) unfolding mapped_def by metis
    then show ?thesis using assms(3) N unfolding small_pages_def by blast
  next
    case False
    then have "lookup (ram t) r va = Some (l, a, p)" using l lookup_cong [of vb va] by simp
    then have "l = 0 \<or> lookup (ram s) r va = Some (l, a, p)" using assms(1) by (auto simp: mapped_def split: if_splits)
    then show ?thesis using assms(3) False N unfolding small_pages_def by metis
  qed
qed

lemma extends_free:
  assumes "extends ke r s R t T"
  shows "free_pages ke t \<subseteq> free_pages ke s"
  using assms unfolding extends_def free_pages_def by blast

text \<open>The pages with numbers from \<open>a\<close> up to \<open>b\<close> are mapped to themselves below \<open>r\<close>, as far as there are pages for the tables.\<close>

definition ranged :: "int \<Rightarrow> int \<Rightarrow> int \<Rightarrow> int \<Rightarrow> int \<Rightarrow> int \<Rightarrow> phys \<Rightarrow> roles \<Rightarrow> phys \<Rightarrow> roles \<Rightarrow> bool" where
  "ranged ke N r a b perm s R t T \<longleftrightarrow> extends ke r s R t T \<and> small_pages N (ram t) r
     \<and> (\<forall>r' vb. root R r' \<and> (r' \<noteq> r \<or> \<not> (a \<le> vpre vb 0 \<and> vpre vb 0 < b)) \<longrightarrow> lookup (ram t) r' vb = lookup (ram s) r' vb)
     \<and> (\<forall>vb. a \<le> vpre vb 0 \<and> vpre vb 0 < b \<longrightarrow> lookup (ram t) r vb = Some (0, 4096 * vpre vb 0, perm)
          \<or> free_pages ke t = {} \<and> lookup (ram t) r vb = lookup (ram s) r vb)
     \<and> (b \<le> 512 \<and> a < b \<longrightarrow> card (free_pages ke s) \<le> card (free_pages ke t) + wlevel (ram s) r (4096 * a))
     \<and> (b \<le> a \<longrightarrow> card (free_pages ke s) \<le> card (free_pages ke t))"

lemma ranged_step:
  assumes t: "tables (ram s) R" and r: "root R r" and n: "0 \<le> n" "n < b" "b < 2 ^ 34" and P: "perm AND PTE_P \<noteq> 0"
    and m: "mapped ke r (4096 * n) (4096 * n) perm s R rv t T" and g: "ranged ke N r (n + 1) b perm t T u U"
  shows "ranged ke N r n b perm s R u U"
proof -
  have v: "vpre (4096 * n) 0 = n" using n by (simp add: vpre_def)
  have le: "R \<subseteq>\<^sub>m T" and e: "extends ke r s R t T" "extends ke r t T u U" using m g by (auto simp: mapped_def extends_def ranged_def)
  have m1: "lookup (ram t) r' vb = lookup (ram s) r' vb" if "root R r'" "r' \<noteq> r \<or> vpre vb 0 \<noteq> n" for r' vb
    using m that v unfolding mapped_def by auto
  have m2: "lookup (ram t) r vb = (if rv = 0 then Some (0, 4096 * n, perm) else lookup (ram s) r vb)" if "vpre vb 0 = n" for vb
    using m lookup_cong [of vb "4096 * n"] that v P unfolding mapped_def by auto
  have m3: "rv = 0 \<or> free_pages ke t = {}" using m unfolding mapped_def by blast
  have g1: "lookup (ram u) r' vb = lookup (ram t) r' vb" if "root T r'" "r' \<noteq> r \<or> \<not> (n + 1 \<le> vpre vb 0 \<and> vpre vb 0 < b)" for r' vb
    using g that unfolding ranged_def by blast
  have g2: "lookup (ram u) r vb = Some (0, 4096 * vpre vb 0, perm) \<or> free_pages ke u = {} \<and> lookup (ram u) r vb = lookup (ram t) r vb"
    if "n + 1 \<le> vpre vb 0" "vpre vb 0 < b" for vb using g that unfolding ranged_def by blast
  have fu: "free_pages ke t = {} \<Longrightarrow> free_pages ke u = {}" using extends_free [OF e(2)] by auto
  have tT: "tables (ram t) T" using e(1) by (simp add: extends_def)
  show ?thesis
    unfolding ranged_def
  proof (intro conjI allI impI)
    show "extends ke r s R u U" by (rule extends_trans [OF e])
    show "small_pages N (ram u) r" using g unfolding ranged_def by blast
    fix r' vb assume a: "root R r' \<and> (r' \<noteq> r \<or> \<not> (n \<le> vpre vb 0 \<and> vpre vb 0 < b))"
    then have "r' \<noteq> r \<or> vpre vb 0 \<noteq> n" "r' \<noteq> r \<or> \<not> (n + 1 \<le> vpre vb 0 \<and> vpre vb 0 < b)" using n(2) by auto
    then show "lookup (ram u) r' vb = lookup (ram s) r' vb" using g1 [OF root_mono [OF _ le]] m1 a by simp
  next
    fix vb assume a: "n \<le> vpre vb 0 \<and> vpre vb 0 < b"
    show "lookup (ram u) r vb = Some (0, 4096 * vpre vb 0, perm) \<or> free_pages ke u = {} \<and> lookup (ram u) r vb = lookup (ram s) r vb"
    proof (cases "vpre vb 0 = n")
      case True
      then show ?thesis using g1 [OF root_mono [OF r le], of vb] m2 [OF True] m3 fu by auto
    next
      case False
      then show ?thesis using g2 [of vb] m1 [OF r, of vb] a by auto
    qed
  next
    assume b: "b \<le> 512 \<and> n < b"
    have c1: "card (free_pages ke s) \<le> card (free_pages ke t) + wlevel (ram s) r (4096 * n)" using m unfolding mapped_def by simp
    show "card (free_pages ke s) \<le> card (free_pages ke u) + wlevel (ram s) r (4096 * n)"
    proof (cases "rv = 0 \<and> n + 1 < b")
      case True
      have "perm \<noteq> 0" using P by auto
      then have z: "wlevel (ram t) r (4096 * n) = 0" using True m unfolding mapped_def by blast
      have "vpre (4096 * (n + 1)) (Suc 0) = vpre (4096 * n) (Suc 0)" using True b n(1) by (simp add: vpre_def)
      then have "wlevel (ram t) r (4096 * (n + 1)) = 0"
        using wlevel_zero [OF tT root_mono [OF r le] z tT map_le_refl, of "4096 * (n + 1)"] by simp
      then have "card (free_pages ke t) \<le> card (free_pages ke u)" using g True b unfolding ranged_def by auto
      then show ?thesis using c1 by simp
    next
      case False
      then have "card (free_pages ke t) \<le> card (free_pages ke u)" using m3 g unfolding ranged_def by auto
      then show ?thesis using c1 by simp
    qed
  next
    assume "b \<le> n"
    then show "card (free_pages ke s) \<le> card (free_pages ke u)" using n(2) by simp
  qed
qed

lemma low_canonical: "0 \<le> va \<Longrightarrow> va < 2 ^ 47 \<Longrightarrow> va_is_canonical va"
  by (simp add: va_is_canonical_def)

lemma foreach_ok:
  assumes "tables (ram s) R" and "pool ke s R" and "root R r" and "small_pages N (ram s) r" and "in_step (ram s) it"
    and "it_pt it = r" and "it_va it = 4096 * n" and "0 \<le> n" "n \<le> b" and b: "b < 2 ^ 20" "b \<le> N" and perm: "0 \<le> perm" "perm < 8" "perm AND PTE_P \<noteq> 0"
    and iter: "\<And>va s. iter va s = kbind (memory_map ke r va va perm s) (\<lambda>(rv, s). Inr (True, s))"
  shows "\<exists>t T. foreach_loop iter (4096 * b) it s = Inr t \<and> ranged ke N r n b perm s R t T"
  using assms(1-9)
proof (induction "nat (b - n)" arbitrary: n it s R)
  case 0
  then have "n = b" by simp
  then have "foreach_loop iter (4096 * b) it s = Inr s" using 0(8) by (subst foreach_loop.simps) simp
  moreover have "ranged ke N r n b perm s R s R" using 0 extends_refl \<open>n = b\<close> unfolding ranged_def by auto
  ultimately show ?case by blast
next
  case (Suc k)
  note p = Suc.prems
  have nb: "n < b" using Suc.hyps(2) by simp
  have "vpre (4096 * n) 0 < N" using p(8) nb b by (simp add: vpre_def)
  then have small: "\<And>l a p. lookup (ram s) r (4096 * n) = Some (l, a, p) \<Longrightarrow> l = 0" using p(4) unfolding small_pages_def by blast
  have can: "va_is_canonical (4096 * n)" "va_is_canonical (4096 * (n + 1))" using p(8) nb b by (intro low_canonical; simp)+
  have "\<exists>rv t T. memory_map ke r (4096 * n) (4096 * n) perm s = Inr (rv, t) \<and> mapped ke r (4096 * n) (4096 * n) perm s R rv t T"
    by (rule memory_map_ok [OF p(1,2,3) small can(1) _ _ _ _ perm(1,2)]) (use p(8) nb b in auto)
  then obtain rv t T where m: "memory_map ke r (4096 * n) (4096 * n) perm s = Inr (rv, t)" "mapped ke r (4096 * n) (4096 * n) perm s R rv t T"
    by blast
  have T: "tables (ram t) T" "pool ke t T" "R \<subseteq>\<^sub>m T" "extends ke r s R t T" using m(2) by (auto simp: mapped_def extends_def)
  have rT: "root T r" by (rule root_mono [OF p(3) T(3)])
  have e: "extends ke (it_pt it) s R t T" using T(4) p(6) by simp
  have r': "root R (it_pt it)" using p(3,6) by simp
  have "real_find (ram t) it (4096 * (n + 1)) = found_at (ram t) r (4096 * (n + 1))"
    using real_find_on_path [OF in_step_on_path(1) [OF p(5)] extends_on_path [OF p(1) r' p(5) e]] p(6) by simp
  with found_in_step [OF T(1) rT can(2)] obtain jt where jt: "real_find (ram t) it (4096 * (n + 1)) = Inr jt" "in_step (ram t) jt"
    "it_pt jt = r" "it_va jt = 4096 * (n + 1)" by metis
  have code: "foreach_loop iter (4096 * b) it s = foreach_loop iter (4096 * b) jt t"
    using p(7) nb m(1) jt(1) by (subst foreach_loop.simps) (simp add: iter PAGESIZE_def algebra_simps)
  have "\<exists>u U. foreach_loop iter (4096 * b) jt t = Inr u \<and> ranged ke N r (n + 1) b perm t T u U"
    by (rule Suc.hyps(1) [OF _ T(1,2) rT mapped_small [OF m(2) p(3,4)] jt(2,3,4)]) (use Suc.hyps(2) p(8) nb in auto)
  then obtain u U where u: "foreach_loop iter (4096 * b) jt t = Inr u" "ranged ke N r (n + 1) b perm t T u U" by blast
  have "ranged ke N r n b perm s R u U" by (rule ranged_step [OF p(1,3,8) nb _ perm(3) m(2) u(2)]) (use b(1) in simp)
  then show ?case using code u(1) by auto
qed

section \<open>Pages are only taken\<close>

lemma kalloc_shrinks: "kalloc ke sz s = (p, t) \<Longrightarrow> free_pages ke t \<subseteq> free_pages ke s"
  by (rule kalloc_cases [of ke sz s]) (auto simp: free_pages_def split: if_splits)

lemma try_map_loop_shrinks: "try_map_loop ke pa perm it s = Inr (rv, t) \<Longrightarrow> free_pages ke t \<subseteq> free_pages ke s"
proof (induction ke pa perm it s arbitrary: rv t rule: try_map_loop.induct)
  case (1 ke pa perm it s)
  obtain p s1 where k: "kalloc ke PAGESIZE s = (p, s1)" by (cases "kalloc ke PAGESIZE s")
  note sh = kalloc_shrinks [OF k]
  have u: "(if it_level it > 0 \<and> perm \<noteq> 0 then
        if entry (ram s) (it_pep it) AND PTE_P \<noteq> 0 then Inl Assertion_failed
        else if p = 0 then Inr (- 1, s1)
        else kbind (put_entry (it_pep it) (p OR PTE_P OR PTE_W OR PTE_U) (s1\<lparr>ram := mem_fill p 0 PAGESIZE (ram s1)\<rparr>)) (\<lambda>s.
          kbind (down (ram s) it) (\<lambda>it. try_map_loop ke pa perm it s))
      else if it_level it = 0 then kbind (put_entry (it_pep it) (pa OR perm) s) (\<lambda>s. Inr (0, s))
      else Inr (0, s)) = Inr (rv, t)"
    using 1(2) by (simp only: try_map_loop.simps [of ke pa perm it s] k fst_conv snd_conv prod.case Let_def)
  show ?case
  proof (cases "it_level it > 0 \<and> perm \<noteq> 0 \<and> p \<noteq> 0")
    case True
    with u obtain s2 jt where e: "\<not> entry (ram s) (it_pep it) AND PTE_P \<noteq> 0"
      and s2: "put_entry (it_pep it) (p OR PTE_P OR PTE_W OR PTE_U) (s1\<lparr>ram := mem_fill p 0 PAGESIZE (ram s1)\<rparr>) = Inr s2"
        "down (ram s2) it = Inr jt" "try_map_loop ke pa perm jt s2 = Inr (rv, t)"
      by (auto simp: kbind_eq_Inr split: if_splits)
    have "free_pages ke t \<subseteq> free_pages ke s2"
      by (rule 1(1) [of "(p, s1)" p s1 s2 jt]) (use s2 True e k in auto)
    also have "free_pages ke s2 = free_pages ke s1" using s2(1) unfolding put_entry_eq_Inr free_pages_def by auto
    finally show ?thesis using sh by blast
  next
    case False
    then show ?thesis using u sh unfolding put_entry_eq_Inr free_pages_def by (auto simp: kbind_eq_Inr put_entry_eq_Inr split: if_splits)
  qed
qed

lemma memory_map_shrinks: "memory_map ke r va pa perm s = Inr (rv, t) \<Longrightarrow> free_pages ke t \<subseteq> free_pages ke s"
  unfolding memory_map_def try_map_def Let_def by (auto simp: kbind_eq_Inr split: if_splits dest!: try_map_loop_shrinks)

end
