(* ===== verification/Kernel.thy ===== *)
theory Kernel
  imports Page_Table
begin

text \<open>
  The kernel of the small operating system (\<^verbatim>\<open>src/mini-operating-system/kernel.c\<close> with the parts of
  \<^verbatim>\<open>k-hardware.cc\<close> that it calls): boot, the loading of programs, system calls, exceptions and the
  scheduler. What the linker decides (\<open>linked\<close>) and the program images that the build collects are
  parameters, as are the keys that \<^verbatim>\<open>keyboard_readc\<close> returns. Console output is not part of the state.
\<close>

unbundle bit_operations_syntax

section \<open>Processes\<close>

datatype proc_state = P_FREE | P_RUNNABLE | P_BLOCKED | P_BROKEN

record regstate =
  reg_rax :: int
  reg_rcx :: int
  reg_rdx :: int
  reg_rbx :: int
  reg_rbp :: int
  reg_rsi :: int
  reg_rdi :: int
  reg_r8 :: int
  reg_r9 :: int
  reg_r10 :: int
  reg_r11 :: int
  reg_r12 :: int
  reg_r13 :: int
  reg_r14 :: int
  reg_r15 :: int
  reg_fs :: int
  reg_gs :: int
  reg_intno :: int
  reg_swapgs :: int
  reg_errcode :: int
  reg_rip :: int
  reg_cs :: int
  reg_rflags :: int
  reg_rsp :: int
  reg_ss :: int

record proc =
  pagetable :: int
  pid :: int
  state :: proc_state
  regs :: regstate

definition NPROC :: nat where
  "NPROC = 16"

definition CONSOLE_ADDR :: int where
  "CONSOLE_ADDR = 0xB8000"

definition zero_regs :: regstate where
  "zero_regs = \<lparr>reg_rax = 0, reg_rcx = 0, reg_rdx = 0, reg_rbx = 0, reg_rbp = 0, reg_rsi = 0, reg_rdi = 0, reg_r8 = 0, reg_r9 = 0,
     reg_r10 = 0, reg_r11 = 0, reg_r12 = 0, reg_r13 = 0, reg_r14 = 0, reg_r15 = 0, reg_fs = 0, reg_gs = 0, reg_intno = 0,
     reg_swapgs = 0, reg_errcode = 0, reg_rip = 0, reg_cs = 0, reg_rflags = 0, reg_rsp = 0, reg_ss = 0\<rparr>"

definition init_process :: "int \<Rightarrow> proc \<Rightarrow> proc" where
  "init_process flags p =
     (let r = zero_regs\<lparr>reg_cs := 0x18 OR 3, reg_fs := 0x20 OR 3, reg_gs := 0x20 OR 3, reg_ss := 0x20 OR 3, reg_rflags := 0x200\<rparr>;
          r = (if flags AND 0x01 \<noteq> 0 then r\<lparr>reg_rflags := reg_rflags r OR 0x3000\<rparr> else r);
          r = (if flags AND 0x02 \<noteq> 0 then r\<lparr>reg_rflags := reg_rflags r AND NOT 0x200\<rparr> else r) in
      p\<lparr>regs := r\<rparr>)"

section \<open>Program images\<close>

record elf_program =
  p_type :: int
  p_flags :: int
  p_offset :: int
  p_va :: int
  p_filesz :: int
  p_memsz :: int

text \<open>An image: the header with its table of segments, and the bytes from the header on.\<close>

record elf_header =
  e_magic :: int
  e_entry :: int
  e_programs :: "elf_program list"
  e_bytes :: "int \<Rightarrow> byte"

type_synonym ramimages = "(string \<times> elf_header) list"

definition ELF_MAGIC :: int where
  "ELF_MAGIC = 0x464C457F"

definition ELF_PTYPE_LOAD :: int where
  "ELF_PTYPE_LOAD = 1"

fun program_number_from :: "nat \<Rightarrow> ramimages \<Rightarrow> string \<Rightarrow> int" where
  "program_number_from i [] name = - 1"
| "program_number_from i (img # imgs) name = (if name = fst img then int i else program_number_from (Suc i) imgs name)"

definition program_number :: "ramimages \<Rightarrow> string \<Rightarrow> int" where
  "program_number imgs name = program_number_from 0 imgs name"

definition program_image :: "ramimages \<Rightarrow> int \<Rightarrow> elf_header option kresult" where
  "program_image imgs n =
     (if n \<ge> 0 \<and> n < int (length imgs) then
        (let elf = snd (imgs ! nat n) in if e_magic elf \<noteq> ELF_MAGIC then Inl Assertion_failed else Inr (Some elf))
      else Inr None)"

definition image_entry :: "elf_header option \<Rightarrow> int" where
  "image_entry img = (case img of None \<Rightarrow> 0 | Some elf \<Rightarrow> e_entry elf)"

definition image_empty :: "elf_header option \<Rightarrow> bool" where
  "image_empty img = (case img of None \<Rightarrow> True | Some elf \<Rightarrow> e_programs elf = [])"

text \<open>A segment iterator is the part of the table that it has not passed; the end is the empty list.\<close>

fun seg_fix :: "elf_program list \<Rightarrow> elf_program list" where
  "seg_fix [] = []"
| "seg_fix (ph # phs) = (if p_type ph \<noteq> ELF_PTYPE_LOAD then seg_fix phs else ph # phs)"

definition seg_begin :: "elf_header option \<Rightarrow> elf_program list" where
  "seg_begin img = (case img of None \<Rightarrow> [] | Some elf \<Rightarrow> seg_fix (e_programs elf))"

lemma seg_fix_length: "length (seg_fix phs) \<le> length phs"
  by (induction phs) auto

section \<open>The state of the kernel\<close>

record linked =
  kernel_end :: int
  exception_entry :: int
  kernel_pagetable :: int
  images :: ramimages
  tick_limit :: int

record kernel =
  memory :: phys
  ptable :: "proc list"
  current :: nat
  ticks :: int
  last_ticks :: int
  showing :: nat

definition set_proc :: "nat \<Rightarrow> proc \<Rightarrow> kernel \<Rightarrow> kernel" where
  "set_proc i p s = s\<lparr>ptable := (ptable s)[i := p]\<rparr>"

section \<open>Boot\<close>

definition put64 :: "int \<Rightarrow> int \<Rightarrow> phys \<Rightarrow> phys" where
  "put64 a v s = s\<lparr>ram := put_le (ram s) a 8 v\<rparr>"

function init_map_loop :: "int \<Rightarrow> vmiter \<Rightarrow> phys \<Rightarrow> phys kresult" where
  "init_map_loop ke it s =
     (if it_va it < MEMSIZE_PHYSICAL then
        kbind (if it_va it \<noteq> 0 then
                 kbind (try_map ke it (it_va it) (PTE_P OR PTE_W OR PTE_U) s) (\<lambda>(r, s). if r = 0 then Inr s else Inl Assertion_failed)
               else Inr s) (\<lambda>s.
        kbind (real_find (ram s) it (it_va it + PAGESIZE)) (\<lambda>it. init_map_loop ke it s))
      else Inr s)"
  by pat_completeness auto
termination
  by (relation "measure (\<lambda>(ke, it, s). nat (MEMSIZE_PHYSICAL - it_va it))") (auto dest!: real_find_keeps simp: PAGESIZE_def MEMSIZE_PHYSICAL_def)

declare init_map_loop.simps [simp del]

definition init_kernel_memory :: "linked \<Rightarrow> phys \<Rightarrow> phys kresult" where
  "init_kernel_memory ld s =
     (let kp = kernel_pagetable ld;
          s = s\<lparr>ram := mem_fill kp 0 (5 * PAGESIZE) (ram s)\<rparr>;
          s = put64 kp ((kp + PAGESIZE) OR PTE_P OR PTE_W OR PTE_U) s;
          s = put64 (kp + PAGESIZE) ((kp + 2 * PAGESIZE) OR PTE_P OR PTE_W OR PTE_U) s;
          s = put64 (kp + 2 * PAGESIZE) ((kp + 3 * PAGESIZE) OR PTE_P OR PTE_W OR PTE_U) s;
          s = put64 (kp + 2 * PAGESIZE + 8) ((kp + 4 * PAGESIZE) OR PTE_P OR PTE_W OR PTE_U) s;
          s = put64 (kp + PAGESIZE + 8) (push_bit 30 1 OR PTE_P OR PTE_W OR PTE_PS) s;
          s = put64 (kp + PAGESIZE + 2 * 8) (push_bit 30 2 OR PTE_P OR PTE_W OR PTE_PS) s;
          s = put64 (kp + PAGESIZE + 3 * 8) (push_bit 30 3 OR PTE_P OR PTE_W OR PTE_PS) s in
      kbind (vmiter_at (ram s) kp 0) (\<lambda>it. init_map_loop (kernel_end ld) it s))"

section \<open>Loading a program\<close>

text \<open>
  The pages of a segment. The results of \<^verbatim>\<open>kalloc\<close> and \<^verbatim>\<open>memory_map\<close> are not tested; the pages that were
  allocated are collected for the accesses below. Segments end below the last page of the address space.
\<close>

function load_pages :: "int \<Rightarrow> int \<Rightarrow> int \<Rightarrow> int \<Rightarrow> int list \<Rightarrow> phys \<Rightarrow> (int list \<times> phys) kresult" where
  "load_pages ke pt a e own s =
     (if a < e then
        (let (p, s) = kalloc ke PAGESIZE s in
         kbind (memory_map ke pt a p PTE_PWU s) (\<lambda>(r, s). load_pages ke pt (a + PAGESIZE) e (p # own) s))
      else Inr (own, s))"
  by pat_completeness auto
termination
  by (relation "measure (\<lambda>(ke, pt, a, e, own, s). nat (e - a))") (auto simp: PAGESIZE_def)

declare load_pages.simps [simp del]

function load_segments :: "int \<Rightarrow> int \<Rightarrow> elf_program list \<Rightarrow> int list \<Rightarrow> phys \<Rightarrow> (int list \<times> phys) kresult" where
  "load_segments ke pt [] own s = Inr (own, s)"
| "load_segments ke pt (seg # segs) own s =
     kbind (load_pages ke pt (round_down (p_va seg) PAGESIZE) ((p_va seg + p_memsz seg) mod 2 ^ 64) own s) (\<lambda>(own, s).
     load_segments ke pt (seg_fix segs) own s)"
  by pat_completeness auto
termination
  by (relation "measure (\<lambda>(ke, pt, segs, own, s). length segs)") (auto simp: seg_fix_length less_Suc_eq_le)

text \<open>
  The kernel writes \<open>n\<close> bytes from a physical address on. The bytes have to lie in the pages that were
  allocated for the process: outside of them the source overwrites memory of someone else, which is an error here.
\<close>

definition write_own :: "int list \<Rightarrow> int \<Rightarrow> int \<Rightarrow> (int \<Rightarrow> byte) \<Rightarrow> phys \<Rightarrow> phys kresult" where
  "write_own own dst n f s =
     (if list_all (\<lambda>k. k * PAGESIZE \<in> set own \<and> k \<noteq> 0) (if 0 < n then [dst div PAGESIZE .. (dst + n - 1) div PAGESIZE] else [])
      then Inr (s\<lparr>ram := (\<lambda>x. if dst \<le> x \<and> x < dst + n then f (x - dst) else ram s x)\<rparr>)
      else Inl Outside_process)"

function copy_segments :: "elf_header option \<Rightarrow> int \<Rightarrow> int list \<Rightarrow> elf_program list \<Rightarrow> phys \<Rightarrow> phys kresult" where
  "copy_segments img pt own [] s = Inr s"
| "copy_segments img pt own (seg # segs) s =
     kbind (memory_virtual_to_physical pt (p_va seg) s) (\<lambda>dst.
     kbind (write_own own dst (p_memsz seg) (\<lambda>i. 0) s) (\<lambda>s.
     kbind (memory_virtual_to_physical pt (p_va seg) s) (\<lambda>dst.
     kbind (write_own own dst (p_filesz seg) (\<lambda>i. case img of None \<Rightarrow> 0 | Some elf \<Rightarrow> e_bytes elf (p_offset seg + i)) s) (\<lambda>s.
     copy_segments img pt own (seg_fix segs) s))))"
  by pat_completeness auto
termination
  by (relation "measure (\<lambda>(img, pt, own, segs, s). length segs)") (auto simp: seg_fix_length less_Suc_eq_le)

definition process_setup :: "linked \<Rightarrow> nat \<Rightarrow> string \<Rightarrow> kernel \<Rightarrow> kernel kresult" where
  "process_setup ld i program_name s =
     (let ke = kernel_end ld;
          p = init_process 0 (ptable s ! i);
          (pt, m) = kalloc_pagetable ke (memory s);
          p = p\<lparr>pagetable := pt\<rparr> in
      kbind (memory_foreach pt PROC_START_ADDR (map_to_kernel_space ke) m) (\<lambda>m.
      kbind (map_to_nobody ke pt 0 m) (\<lambda>(r, m).
      kbind (map_to_user_space ke pt CONSOLE_ADDR m) (\<lambda>(r, m).
      kbind (program_image (images ld) (program_number (images ld) program_name)) (\<lambda>pgm.
      kbind (load_segments ke pt (seg_begin pgm) [] m) (\<lambda>(own, m).
      kbind (copy_segments pgm pt own (seg_begin pgm) m) (\<lambda>m.
      let p = p\<lparr>regs := (regs p)\<lparr>reg_rip := image_entry pgm\<rparr>\<rparr>;
          stack_addr = MEMSIZE_VIRTUAL - PAGESIZE;
          (q, m) = kalloc ke PAGESIZE m in
      kbind (memory_map ke pt stack_addr q PTE_PWU m) (\<lambda>(r, m).
      let p = p\<lparr>regs := (regs p)\<lparr>reg_rsp := stack_addr + PAGESIZE\<rparr>, state := P_RUNNABLE\<rparr> in
      Inr (set_proc i p (s\<lparr>memory := m\<rparr>))))))))))"

section \<open>Running processes\<close>

text \<open>How a visit to the kernel ends: the process continues with a result, \<^verbatim>\<open>current\<close> is started, or the machine stops.\<close>

datatype outcome = Return int | Start | Power_off | Soft_reboot string

definition check_pagetable :: "linked \<Rightarrow> int \<Rightarrow> phys \<Rightarrow> unit kresult" where
  "check_pagetable ld pt s =
     (if pt mod PAGESIZE \<noteq> 0 then Inl Assertion_failed
      else kbind (vmiter_at (ram s) pt (exception_entry ld)) (\<lambda>it.
        if vm_pa (ram s) it \<noteq> exception_entry ld then Inl Assertion_failed
        else kbind (vmiter_at (ram s) (kernel_pagetable ld) pt) (\<lambda>it.
          if vm_pa (ram s) it \<noteq> pt then Inl Assertion_failed
          else kbind (vmiter_at (ram s) pt (kernel_pagetable ld)) (\<lambda>it.
            if vm_pa (ram s) it \<noteq> kernel_pagetable ld then Inl Assertion_failed
            else Inr ()))))"

definition run :: "linked \<Rightarrow> nat \<Rightarrow> kernel \<Rightarrow> (outcome \<times> kernel) kresult" where
  "run ld i s =
     (if state (ptable s ! i) \<noteq> P_RUNNABLE then Inl Assertion_failed
      else let s = s\<lparr>current := i\<rparr> in
        kbind (check_pagetable ld (pagetable (ptable s ! i)) (memory s)) (\<lambda>u. Inr (Start, s)))"

text \<open>The memory viewer chooses the process that it shows; \<^verbatim>\<open>ticks\<close> is an \<^verbatim>\<open>unsigned long\<close>, \<^verbatim>\<open>last_ticks\<close> an \<^verbatim>\<open>unsigned\<close>.\<close>

primrec show_search :: "nat \<Rightarrow> proc list \<Rightarrow> nat \<Rightarrow> nat option \<times> nat" where
  "show_search 0 pt i = (None, i)"
| "show_search (Suc n) pt i =
     (if state (pt ! i) \<noteq> P_FREE \<and> pagetable (pt ! i) \<noteq> 0 then (Some i, i) else show_search n pt ((i + 1) mod NPROC))"

definition memshow :: "kernel \<Rightarrow> kernel" where
  "memshow s =
     (let s = (if last_ticks s = 0 \<or> (ticks s - last_ticks s) mod 2 ^ 64 \<ge> 100 div 2
               then s\<lparr>last_ticks := ticks s mod 2 ^ 32, showing := (showing s + 1) mod NPROC\<rparr> else s) in
      s\<lparr>showing := snd (show_search NPROC (ptable s) (showing s))\<rparr>)"

text \<open>What a key does; \<^const>\<open>None\<close> when the kernel goes on.\<close>

definition check_keyboard :: "int \<Rightarrow> outcome option" where
  "check_keyboard c =
     (if c = 97 then Some (Soft_reboot ''allocators'')
      else if c = 101 then Some (Soft_reboot ''forkexit'')
      else if c = 102 then Some (Soft_reboot ''fork'')
      else if c = 3 \<or> c = 113 then Some Power_off
      else None)"

partial_function (option) schedule_loop :: "linked \<Rightarrow> (nat \<Rightarrow> int) \<Rightarrow> nat \<Rightarrow> nat \<Rightarrow> kernel \<Rightarrow> (outcome \<times> kernel) kresult option" where
  "schedule_loop ld keys spins i s =
     (let i = (i + 1) mod NPROC in
      if state (ptable s ! i) = P_RUNNABLE then Some (run ld i s)
      else case check_keyboard (keys spins) of
        Some out \<Rightarrow> Some (Inr (out, s))
      | None \<Rightarrow> schedule_loop ld keys (Suc spins) i (if spins mod 2 ^ 12 = 0 then memshow s else s))"

definition schedule :: "linked \<Rightarrow> (nat \<Rightarrow> int) \<Rightarrow> kernel \<Rightarrow> (outcome \<times> kernel) kresult option" where
  "schedule ld keys s = schedule_loop ld keys 1 (nat (pid (ptable s ! current s))) s"

section \<open>Exceptions and system calls\<close>

definition kexception :: "linked \<Rightarrow> (nat \<Rightarrow> int) \<Rightarrow> regstate \<Rightarrow> kernel \<Rightarrow> (outcome \<times> kernel) kresult option" where
  "kexception ld keys r s =
     (let i = current s;
          s = set_proc i ((ptable s ! i)\<lparr>regs := r\<rparr>) s;
          shown = (reg_intno r \<noteq> 14 \<or> reg_errcode r AND 0x4 \<noteq> 0);
          s = (if shown then memshow s else s) in
      if shown \<and> tick_limit ld \<noteq> 0 \<and> ticks s \<ge> tick_limit ld then Some (Inr (Power_off, s))
      else case check_keyboard (keys 0) of Some out \<Rightarrow> Some (Inr (out, s))
      | None \<Rightarrow>
          if reg_intno r = 32 then schedule ld keys (s\<lparr>ticks := (ticks s + 1) mod 2 ^ 64\<rparr>)
          else if reg_intno r = 14 then
            (if reg_errcode r AND 0x4 = 0 then Some (Inl Panic)
             else let s = set_proc i ((ptable s ! i)\<lparr>state := P_BROKEN\<rparr>) s in
               if state (ptable s ! i) = P_RUNNABLE then Some (run ld i s) else schedule ld keys s)
          else Some (Inl Panic))"

definition syscall_page_alloc :: "linked \<Rightarrow> int \<Rightarrow> kernel \<Rightarrow> (int \<times> kernel) kresult" where
  "syscall_page_alloc ld addr s =
     (let ke = kernel_end ld; pt = pagetable (ptable s ! current s); (p, m) = kalloc ke PAGESIZE (memory s) in
      if p = 0 then Inr (- 1, s\<lparr>memory := m\<rparr>)
      else kbind (memory_map ke pt addr p PTE_PWU m) (\<lambda>(r, m).
        kbind (memory_virtual_to_physical pt addr m) (\<lambda>dst.
        if in_ram dst \<and> in_ram (dst + PAGESIZE - 1)
        then Inr (0, s\<lparr>memory := m\<lparr>ram := mem_fill dst 0 PAGESIZE (ram m)\<rparr>\<rparr>)
        else Inl Kernel_page_fault)))"

definition syscall :: "linked \<Rightarrow> (nat \<Rightarrow> int) \<Rightarrow> regstate \<Rightarrow> kernel \<Rightarrow> (outcome \<times> kernel) kresult option" where
  "syscall ld keys r s =
     (let i = current s;
          s = memshow (set_proc i ((ptable s ! i)\<lparr>regs := r\<rparr>) s) in
      case check_keyboard (keys 0) of Some out \<Rightarrow> Some (Inr (out, s))
      | None \<Rightarrow>
          if reg_rax r = 3 then Some (Inl Panic)
          else if reg_rax r = 1 then Some (Inr (Return (pid (ptable s ! i)), s))
          else if reg_rax r = 2 then
            schedule ld keys (set_proc i ((ptable s ! i)\<lparr>regs := (regs (ptable s ! i))\<lparr>reg_rax := 0\<rparr>\<rparr>) s)
          else if reg_rax r = 4 then
            Some (kbind (syscall_page_alloc ld (reg_rdi r) s) (\<lambda>(v, s). Inr (Return v, s)))
          else Some (Inl Panic))"

text \<open>\<^verbatim>\<open>kfree\<close> is not implemented: it fails an assertion.\<close>

definition kfree :: "int \<Rightarrow> phys \<Rightarrow> phys kresult" where
  "kfree kptr s = Inl Assertion_failed"

section \<open>The start of the kernel\<close>

primrec setup_all :: "linked \<Rightarrow> (nat \<times> string) list \<Rightarrow> kernel \<Rightarrow> kernel kresult" where
  "setup_all ld [] s = Inr s"
| "setup_all ld (x # xs) s = kbind (process_setup ld (fst x) (snd x) s) (\<lambda>s. setup_all ld xs s)"

definition kernel_start :: "linked \<Rightarrow> string option \<Rightarrow> phys \<Rightarrow> (outcome \<times> kernel) kresult" where
  "kernel_start ld command m =
     kbind (init_kernel_memory ld m) (\<lambda>m.
     kbind (memory_foreach (kernel_pagetable ld) PROC_START_ADDR (map_to_kernel_space (kernel_end ld)) m) (\<lambda>m.
     kbind (map_to_nobody (kernel_end ld) (kernel_pagetable ld) 0 m) (\<lambda>(r, m).
     kbind (map_to_user_space (kernel_end ld) (kernel_pagetable ld) CONSOLE_ADDR m) (\<lambda>(r, m).
     let s = \<lparr>memory = m, ptable = map (\<lambda>i. \<lparr>pagetable = 0, pid = int i, state = P_FREE, regs = zero_regs\<rparr>) [0 ..< NPROC],
              current = 0, ticks = 1, last_ticks = 0, showing = 0\<rparr> in
     kbind (case command of None \<Rightarrow> Inr True
            | Some c \<Rightarrow> kbind (program_image (images ld) (program_number (images ld) c)) (\<lambda>img. Inr (image_empty img))) (\<lambda>none.
     kbind (setup_all ld (if \<not> none then [(1, the command)]
                          else [(1, ''allocator''), (2, ''allocator2''), (3, ''allocator3''), (4, ''allocator4'')]) s) (\<lambda>s.
     run ld 1 s))))))"

end
