(* ===== verification/Isolation.thy ===== *)
theory Isolation
  imports Address_Space Kernel
begin

text \<open>
  Isolation of address spaces: the pages that a process can reach in user mode are its own and the console.
  The operations on page tables and pages keep this, and they spare the mappings and the pages of other processes.
\<close>

unbundle bit_operations_syntax

section \<open>Isolation\<close>

text \<open>
  \<open>roots\<close> gives the page table of a process, \<open>own\<close> the process that a page of memory belongs to. The pages
  that a process can reach in user mode are its own and the console.
\<close>

definition isolated :: "int \<Rightarrow> phys \<Rightarrow> roles \<Rightarrow> (nat \<Rightarrow> int option) \<Rightarrow> (int \<Rightarrow> nat option) \<Rightarrow> bool" where
  "isolated ke m R roots own \<longleftrightarrow> tables (ram m) R \<and> pool ke m R \<and> R CONSOLE_ADDR = None
     \<and> (\<forall>i r. roots i = Some r \<longrightarrow> root R r \<and> small_pages (2 ^ 36) (ram m) r)
     \<and> (\<forall>i j r. roots i = Some r \<and> roots j = Some r \<longrightarrow> i = j)
     \<and> (\<forall>p i. own p = Some i \<longrightarrow> allocatable_physical_address ke p \<and> pages m (p div 4096) \<noteq> 0 \<and> R p = None)
     \<and> (\<forall>i r va l pa perm. roots i = Some r \<and> lookup (ram m) r va = Some (l, pa, perm) \<and> perm AND PTE_U \<noteq> 0
          \<longrightarrow> pa = CONSOLE_ADDR \<or> own pa = Some i)"

lemma isolatedD:
  assumes "isolated ke m R roots own"
  shows "tables (ram m) R" "pool ke m R" "R CONSOLE_ADDR = None"
    "roots i = Some r \<Longrightarrow> root R r" "roots i = Some r \<Longrightarrow> small_pages (2 ^ 36) (ram m) r"
    "roots i = Some r \<Longrightarrow> roots j = Some r \<Longrightarrow> i = j"
    "own p = Some i \<Longrightarrow> allocatable_physical_address ke p" "own p = Some i \<Longrightarrow> pages m (p div 4096) \<noteq> 0" "own p = Some i \<Longrightarrow> R p = None"
    "roots i = Some r \<Longrightarrow> lookup (ram m) r va = Some (l, pa, perm) \<Longrightarrow> perm AND PTE_U \<noteq> 0 \<Longrightarrow> pa = CONSOLE_ADDR \<or> own pa = Some i"
  using assms unfolding isolated_def by blast+

lemma isolatedI:
  assumes "tables (ram m) R" "pool ke m R" "R CONSOLE_ADDR = None"
    "\<And>i r. roots i = Some r \<Longrightarrow> root R r" "\<And>i r. roots i = Some r \<Longrightarrow> small_pages (2 ^ 36) (ram m) r"
    "\<And>i j r. roots i = Some r \<Longrightarrow> roots j = Some r \<Longrightarrow> i = j"
    "\<And>p i. own p = Some i \<Longrightarrow> allocatable_physical_address ke p \<and> pages m (p div 4096) \<noteq> 0 \<and> R p = None"
    "\<And>i r va l pa perm. roots i = Some r \<Longrightarrow> lookup (ram m) r va = Some (l, pa, perm) \<Longrightarrow> perm AND PTE_U \<noteq> 0
      \<Longrightarrow> pa = CONSOLE_ADDR \<or> own pa = Some i"
  shows "isolated ke m R roots own"
  using assms unfolding isolated_def by blast

lemma console_reserved: "\<not> allocatable_physical_address ke CONSOLE_ADDR"
  by (simp add: allocatable_physical_address_def reserved_physical_address_def CONSOLE_ADDR_def)

text \<open>Writing outside of the page tables changes no mapping.\<close>

lemma iso_frame:
  assumes i: "isolated ke m R roots own" and "pages t = pages m" and same: "\<And>x. R (page_of x) \<noteq> None \<Longrightarrow> ram t x = ram m x"
  shows "isolated ke t R roots own" "root R r \<Longrightarrow> lookup (ram t) r va = lookup (ram m) r va"
proof -
  show l: "root R r \<Longrightarrow> lookup (ram t) r va = lookup (ram m) r va" for r va using tables_frame(3) [OF isolatedD(1) [OF i]] same by blast
  have "tables (ram t) R" using tables_frame(1) [OF isolatedD(1) [OF i]] same by blast
  moreover have "small_pages (2 ^ 36) (ram t) r" if "roots j = Some r" for j r
    using isolatedD(5) [OF i that] l [OF isolatedD(4) [OF i that]] by (simp add: small_pages_def)
  moreover have "pa = CONSOLE_ADDR \<or> own pa = Some j"
    if "roots j = Some r'" "lookup (ram t) r' va = Some (x, pa, perm)" "perm AND PTE_U \<noteq> 0" for j r' va x pa perm
    using isolatedD(10) [OF i that(1) _ that(3)] that(2) l [OF isolatedD(4) [OF i that(1)]] by metis
  moreover have "pool ke t R" using isolatedD(2) [OF i] by (simp add: pool_def assms(2))
  ultimately show "isolated ke t R roots own"
    by (intro isolatedI) (use isolatedD [OF i] assms(2) in auto)
qed

text \<open>Tables that grow, with new mappings that give the process nothing of others.\<close>

lemma iso_extends:
  assumes i: "isolated ke s R roots own" and e: "extends ke r s R t T"
    and small: "\<And>i r'. roots i = Some r' \<Longrightarrow> small_pages (2 ^ 36) (ram t) r'"
    and user: "\<And>i r' va l pa perm. roots i = Some r' \<Longrightarrow> lookup (ram t) r' va = Some (l, pa, perm) \<Longrightarrow> perm AND PTE_U \<noteq> 0
      \<Longrightarrow> lookup (ram s) r' va = Some (l, pa, perm) \<or> pa = CONSOLE_ADDR \<or> own pa = Some i"
  shows "isolated ke t T roots own"
proof -
  have e': "R \<subseteq>\<^sub>m T" "tables (ram t) T" "pool ke t T" "\<And>q. pages s q \<noteq> 0 \<Longrightarrow> pages t q \<noteq> 0"
    "\<And>p x. R p = None \<Longrightarrow> T p = Some x \<Longrightarrow> allocatable_physical_address ke p \<and> pages s (p div 4096) = 0"
    using e unfolding extends_def by blast+
  have "T CONSOLE_ADDR = None" using e'(5) [of CONSOLE_ADDR] isolatedD(3) [OF i] console_reserved by (cases "T CONSOLE_ADDR") auto
  moreover have "T p = None" if "own p = Some j" for p j
    using e'(5) [of p] isolatedD(8,9) [OF i that] by (cases "T p") auto
  moreover have "root T r'" if "roots j = Some r'" for j r' using root_mono [OF isolatedD(4) [OF i that] e'(1)] .
  moreover have "pa = CONSOLE_ADDR \<or> own pa = Some j"
    if "roots j = Some r'" "lookup (ram t) r' va = Some (l, pa, perm)" "perm AND PTE_U \<noteq> 0" for j r' va l pa perm
    using user [OF that] isolatedD(10) [OF i that(1) _ that(3)] by blast
  ultimately show ?thesis by (intro isolatedI) (use isolatedD [OF i] e' small in auto)
qed

lemma iso_mapped:
  assumes i: "isolated ke s R roots own" and r: "roots i = Some r" and m: "mapped ke r va pa perm s R rv t T"
    and user: "perm AND PTE_U \<noteq> 0 \<Longrightarrow> pa = CONSOLE_ADDR \<or> own pa = Some i"
  shows "isolated ke t T roots own"
proof (rule iso_extends [OF i])
  show "extends ke r s R t T" using m by (simp add: mapped_def)
  fix j r' assume j: "roots j = Some r'"
  note rj = isolatedD(4) [OF i j]
  show "small_pages (2 ^ 36) (ram t) r'" by (rule mapped_small [OF m rj isolatedD(5) [OF i j]])
  fix vb l a p assume l: "lookup (ram t) r' vb = Some (l, a, p)" and p: "p AND PTE_U \<noteq> 0"
  show "lookup (ram s) r' vb = Some (l, a, p) \<or> a = CONSOLE_ADDR \<or> own a = Some j"
  proof (cases "r' \<noteq> r \<or> vpre vb 0 \<noteq> vpre va 0")
    case True
    then show ?thesis using l m rj unfolding mapped_def by metis
  next
    case False
    then have "i = j" using isolatedD(6) [OF i r] j by simp
    moreover have "lookup (ram t) r va = Some (l, a, p)" "lookup (ram s) r' vb = lookup (ram s) r va" using l False lookup_cong [of vb va] by auto
    ultimately show ?thesis using m user p by (auto simp: mapped_def split: if_splits)
  qed
qed

lemma iso_ranged:
  assumes i: "isolated ke s R roots own" and r: "roots i = Some r" and m: "ranged ke (2 ^ 36) r a b perm s R t T"
    and user: "perm AND PTE_U = 0"
  shows "isolated ke t T roots own"
proof (rule iso_extends [OF i])
  show "extends ke r s R t T" using m by (simp add: ranged_def)
  fix j r' assume j: "roots j = Some r'"
  note rj = isolatedD(4) [OF i j]
  have other: "lookup (ram t) r' vb = lookup (ram s) r' vb" if "r' \<noteq> r" for vb using m rj that unfolding ranged_def by blast
  show "small_pages (2 ^ 36) (ram t) r'"
  proof (cases "r' = r")
    case True
    then show ?thesis using m by (simp add: ranged_def)
  next
    case False
    then show ?thesis using other isolatedD(5) [OF i j] unfolding small_pages_def by simp
  qed
  fix vb l x p assume l: "lookup (ram t) r' vb = Some (l, x, p)" and p: "p AND PTE_U \<noteq> 0"
  have "lookup (ram t) r' vb = lookup (ram s) r' vb"
  proof (cases "r' = r \<and> a \<le> vpre vb 0 \<and> vpre vb 0 < b")
    case True
    then have "lookup (ram t) r vb = Some (0, 4096 * vpre vb 0, perm) \<or> lookup (ram t) r vb = lookup (ram s) r vb"
      using m unfolding ranged_def by blast
    then show ?thesis using True l p user by auto
  next
    case False
    then show ?thesis using m rj unfolding ranged_def by blast
  qed
  then show "lookup (ram s) r' vb = Some (l, x, p) \<or> x = CONSOLE_ADDR \<or> own x = Some j" using l by simp
qed

section \<open>Taking pages\<close>

lemma kalloc_lookup:
  assumes t: "tables (ram s) R" and pl: "pool ke s R" and k: "kalloc ke sz s = (p, u)" "p \<noteq> 0"
  shows "tables (ram u) R" "root R r \<Longrightarrow> lookup (ram u) r va = lookup (ram s) r va" "pool ke u R"
proof -
  note n = kalloc_new [OF k pl]
  have same: "ram u x = ram s x" if "R (page_of x) \<noteq> None" for x
  proof -
    have "4096 dvd p" using n(1) by (simp add: page_ok_def)
    then have "\<not> (p \<le> x \<and> x < p + 4096)" using that n(2) page_of_in by auto
    then show ?thesis by (auto simp: n(6) mem_fill_def)
  qed
  show "tables (ram u) R" "root R r \<Longrightarrow> lookup (ram u) r va = lookup (ram s) r va" using tables_frame [OF t same] by blast+
  show "pool ke u R" using pl by (simp add: pool_def n(5))
qed

lemma iso_kalloc:
  assumes i: "isolated ke s R roots own" and k: "kalloc ke sz s = (p, u)" "p \<noteq> 0"
  shows "isolated ke u R roots (own(p \<mapsto> i))"
proof -
  note n = kalloc_new [OF k isolatedD(2) [OF i]] and l = kalloc_lookup [OF isolatedD(1,2) [OF i] k]
  have "own p = None" using isolatedD(8) [OF i, of p] n(4) by (cases "own p") auto
  then have o: "own q = Some j \<Longrightarrow> (own(p \<mapsto> i)) q = Some j" for q j by auto
  have "small_pages (2 ^ 36) (ram u) r" if "roots j = Some r" for j r
    using isolatedD(5) [OF i that] l(2) [OF isolatedD(4) [OF i that]] by (simp add: small_pages_def)
  moreover have "pages u q \<noteq> 0" if "pages s q \<noteq> 0" for q using that by (simp add: n(5))
  moreover have "pa = CONSOLE_ADDR \<or> (own(p \<mapsto> i)) pa = Some j"
    if "roots j = Some r'" "lookup (ram u) r' va = Some (x, pa, perm)" "perm AND PTE_U \<noteq> 0" for j r' va x pa perm
    using isolatedD(10) [OF i that(1) _ that(3)] that(2) l(2) [OF isolatedD(4) [OF i that(1)]] o by metis
  moreover have "allocatable_physical_address ke q \<and> pages u (q div 4096) \<noteq> 0 \<and> R q = None" if "(own(p \<mapsto> i)) q = Some j" for q j
    using that isolatedD(7,8,9) [OF i, of q j] n by (cases "q = p") auto
  ultimately show ?thesis by (intro isolatedI) (use isolatedD(1-6) [OF i] l in auto)
qed

lemma lookup_zero:
  assumes "page_ok r" and "\<And>x. r \<le> x \<Longrightarrow> x < r + 4096 \<Longrightarrow> m x = 0"
  shows "lookup m r va = None"
proof -
  have "entry m (slot r (pageindex va 3)) = 0" by (rule zero_entry [OF assms(2)]) (use pageindex_range in auto)
  then show ?thesis using walk_stops [OF assms(1), of m va 3 initial_perm] by (simp add: lookup_def Let_def slot_def)
qed

lemma iso_new_root:
  assumes i: "isolated ke s R roots own" and k: "kalloc_pagetable ke s = (r, u)" "r \<noteq> 0"
  shows "isolated ke u (R(r \<mapsto> (r, 3, 0))) (roots(i \<mapsto> r)) own" "lookup (ram u) r va = None"
    "R r = None" "page_ok r" "allocatable_physical_address ke r" "root R r' \<Longrightarrow> lookup (ram u) r' va = lookup (ram s) r' va"
    "free_pages ke u = free_pages ke s - {nat (r div 4096)}"
proof -
  obtain u1 where k1: "kalloc ke PAGESIZE s = (r, u1)" and u: "u = u1\<lparr>ram := mem_fill r 0 4096 (ram u1)\<rparr>"
    using k by (auto simp: kalloc_pagetable_def split: prod.splits if_splits)
  note n = kalloc_new [OF k1 k(2) isolatedD(2) [OF i]] and l = kalloc_lookup [OF isolatedD(1,2) [OF i] k1 k(2)]
  have z: "ram u x = 0" if "r \<le> x" "x < r + 4096" for x using that by (simp add: u mem_fill_def)
  have same: "ram u x = ram u1 x" if "R (page_of x) \<noteq> None" for x
  proof -
    have "4096 dvd r" using n(1) by (simp add: page_ok_def)
    then have "\<not> (r \<le> x \<and> x < r + 4096)" using that n(2) page_of_in by auto
    then show ?thesis by (auto simp: u mem_fill_def)
  qed
  have f: "tables (ram u) R" "\<And>r va. root R r \<Longrightarrow> lookup (ram u) r va = lookup (ram u1) r va"
    using tables_frame [OF l(1)] same by blast+
  have T: "tables (ram u) (R(r \<mapsto> (r, 3, 0)))" by (rule tables_new [OF f(1) n(1,2) _ z]) simp
  show none: "lookup (ram u) r va = None" for va by (rule lookup_zero [OF n(1) z])
  show lo: "root R r' \<Longrightarrow> lookup (ram u) r' va = lookup (ram s) r' va" for r' va using f(2) l(2) by simp
  show "R r = None" "page_ok r" "allocatable_physical_address ke r" using n by auto
  show "free_pages ke u = free_pages ke s - {nat (r div 4096)}" using kalloc_free(1) [OF k1 k(2)] by (simp add: u free_pages_def)
  have old: "root R r'" "r' \<noteq> r" if "roots j = Some r'" for j r' using isolatedD(4) [OF i that] n(2) by (auto simp: root_def)
  have P: "pages u q \<noteq> 0" if "pages s q \<noteq> 0" for q using that by (simp add: u n(5))
  show "isolated ke u (R(r \<mapsto> (r, 3, 0))) (roots(i \<mapsto> r)) own"
    unfolding isolated_def
  proof (intro conjI allI impI)
    show "tables (ram u) (R(r \<mapsto> (r, 3, 0)))" by (rule T)
    show "pool ke u (R(r \<mapsto> (r, 3, 0)))" using l(3) n(5) unfolding pool_def u by (auto split: if_splits)
    show "(R(r \<mapsto> (r, 3, 0))) CONSOLE_ADDR = None" using isolatedD(3) [OF i] n(3) console_reserved by auto
  next
    fix j r' assume j: "(roots(i \<mapsto> r)) j = Some r'"
    show "root (R(r \<mapsto> (r, 3, 0))) r'" using j old by (auto simp: root_def split: if_splits)
    show "small_pages (2 ^ 36) (ram u) r'"
      using j old none lo isolatedD(5) [OF i, of j r'] by (auto simp: small_pages_def split: if_splits)
  next
    fix j j' r' assume "(roots(i \<mapsto> r)) j = Some r' \<and> (roots(i \<mapsto> r)) j' = Some r'"
    then show "j = j'" using old isolatedD(6) [OF i] by (auto split: if_splits)
  next
    fix p j assume p: "own p = Some j"
    show "allocatable_physical_address ke p" "pages u (p div 4096) \<noteq> 0" "(R(r \<mapsto> (r, 3, 0))) p = None"
      using isolatedD(7,8,9) [OF i p] n(4) P by auto
  next
    fix j r' va x pa perm assume "(roots(i \<mapsto> r)) j = Some r' \<and> lookup (ram u) r' va = Some (x, pa, perm) \<and> perm AND PTE_U \<noteq> 0"
    then show "pa = CONSOLE_ADDR \<or> own pa = Some j" using none lo old isolatedD(10) [OF i, of j r' va x pa perm] by (cases "j = i") auto
  qed
qed

section \<open>What a process leaves alone\<close>

text \<open>From one state to another, the process \<open>i\<close> with the table \<open>r\<close> gets pages; the mappings and the pages of others stay.\<close>

definition spares :: "nat \<Rightarrow> int \<Rightarrow> phys \<Rightarrow> roles \<Rightarrow> (int \<Rightarrow> nat option) \<Rightarrow> phys \<Rightarrow> roles \<Rightarrow> (int \<Rightarrow> nat option) \<Rightarrow> bool" where
  "spares i r s R own t T own' \<longleftrightarrow> R \<subseteq>\<^sub>m T \<and> own \<subseteq>\<^sub>m own'
     \<and> (\<forall>r' va. root R r' \<and> r' \<noteq> r \<longrightarrow> lookup (ram t) r' va = lookup (ram s) r' va)
     \<and> (\<forall>x j. own (page_of x) = Some j \<and> j \<noteq> i \<longrightarrow> ram t x = ram s x)"

lemma sparesD:
  assumes "spares i r s R own t T own'"
  shows "R \<subseteq>\<^sub>m T" "own \<subseteq>\<^sub>m own'" "root R r' \<Longrightarrow> r' \<noteq> r \<Longrightarrow> lookup (ram t) r' va = lookup (ram s) r' va"
    "own (page_of x) = Some j \<Longrightarrow> j \<noteq> i \<Longrightarrow> ram t x = ram s x"
  using assms unfolding spares_def by blast+

lemma spares_refl: "spares i r s R own s R own"
  by (simp add: spares_def)

lemma spares_trans:
  assumes a: "spares i r s R own t T own'" and b: "spares i r t T own' u U own''"
  shows "spares i r s R own u U own''"
  unfolding spares_def
proof (intro conjI allI impI)
  show "R \<subseteq>\<^sub>m U" "own \<subseteq>\<^sub>m own''" using sparesD(1,2) [OF a] sparesD(1,2) [OF b] by (auto intro: map_le_trans)
  show "lookup (ram u) r' va = lookup (ram s) r' va" if "root R r' \<and> r' \<noteq> r" for r' va
    using that sparesD(3) [OF a, of r' va] sparesD(3) [OF b, of r' va] root_mono sparesD(1) [OF a] by metis
  fix x j assume j: "own (page_of x) = Some j \<and> j \<noteq> i"
  then have "own' (page_of x) = Some j" using sparesD(2) [OF a] by (metis domI map_le_def)
  then show "ram u x = ram s x" using j sparesD(4) [OF a] sparesD(4) [OF b] by metis
qed

lemma spares_extends:
  assumes i: "isolated ke s R roots own" and j: "isolated ke t T roots' own" and e: "extends ke r s R t T"
    and l: "\<And>r' va. root R r' \<Longrightarrow> r' \<noteq> r \<Longrightarrow> lookup (ram t) r' va = lookup (ram s) r' va"
  shows "spares i r s R own t T own" "own (page_of x) \<noteq> None \<Longrightarrow> ram t x = ram s x"
proof -
  have "\<forall>x. T (page_of x) = None \<longrightarrow> ram t x = ram s x" and "R \<subseteq>\<^sub>m T" using e unfolding extends_def by blast+
  then show "own (page_of x) \<noteq> None \<Longrightarrow> ram t x = ram s x" for x using isolatedD(9) [OF j] by auto
  then show "spares i r s R own t T own" using l \<open>R \<subseteq>\<^sub>m T\<close> unfolding spares_def by auto
qed

lemma spares_mapped:
  assumes i: "isolated ke s R roots own" and j: "isolated ke t T roots' own" and m: "mapped ke r va pa perm s R rv t T"
  shows "spares i r s R own t T own" "own (page_of x) \<noteq> None \<Longrightarrow> ram t x = ram s x"
  using spares_extends [OF i j, of r] m unfolding mapped_def by blast+

lemma spares_ranged:
  assumes i: "isolated ke s R roots own" and j: "isolated ke t T roots' own" and m: "ranged ke N r a b perm s R t T"
  shows "spares i r s R own t T own"
  using spares_extends [OF i j, of r] m unfolding ranged_def by blast

lemma kalloc_keeps:
  assumes i: "isolated ke s R roots own" and k: "kalloc ke sz s = (p, u)" "p \<noteq> 0"
  shows "own (page_of x) \<noteq> None \<Longrightarrow> ram u x = ram s x" "own p = None"
proof -
  note n = kalloc_new [OF k isolatedD(2) [OF i]]
  show o: "own p = None" using isolatedD(8) [OF i, of p] n(4) by (cases "own p") auto
  show "ram u x = ram s x" if "own (page_of x) \<noteq> None"
  proof -
    have "4096 dvd p" using n(1) by (simp add: page_ok_def)
    then have "\<not> (p \<le> x \<and> x < p + 4096)" using that o page_of_in by auto
    then show ?thesis by (auto simp: n(6) mem_fill_def)
  qed
qed

lemma spares_kalloc:
  assumes i: "isolated ke s R roots own" and k: "kalloc ke sz s = (p, u)" "p \<noteq> 0"
  shows "spares i r s R own u R (own(p \<mapsto> j))"
  using kalloc_keeps [OF i k] kalloc_lookup(2) [OF isolatedD(1,2) [OF i] k] unfolding spares_def by (auto simp: map_le_def)

section \<open>A mapping succeeds or is refused\<close>

lemma isolated_map:
  assumes i: "isolated ke s R roots own" and r: "roots i = Some r" and c: "memory_map ke r va pa perm s = Inr (rv, t)"
    and pa: "4096 dvd pa" "0 \<le> pa" "pa < 2 ^ 32" and perm: "0 \<le> perm" "perm < 8" "perm AND PTE_P \<noteq> 0"
  shows "va_is_canonical va" "4096 dvd va" "\<exists>T. mapped ke r va pa perm s R rv t T"
proof -
  note d = isolatedD(1,2) [OF i] isolatedD(4) [OF i r] isolatedD(5) [OF i r]
  show va: "va_is_canonical va" "4096 dvd va"
    using memory_map_refused [OF d(1,3) _ perm(3), of va ke pa] c by (auto simp: dvd_eq_mod_eq_0)
  have "vpre va 0 < 2 ^ 36" by (simp add: vpre_def)
  then have small: "\<And>l a p. lookup (ram s) r va = Some (l, a, p) \<Longrightarrow> l = 0" using d(4) unfolding small_pages_def by blast
  show "\<exists>T. mapped ke r va pa perm s R rv t T" using memory_map_ok [OF d(1,2,3) small va pa perm(1,2)] c by auto
qed

lemma isolated_map_ok:
  assumes i: "isolated ke s R roots own" and r: "roots i = Some r" and va: "va_is_canonical va" "4096 dvd va"
    and pa: "4096 dvd pa" "0 \<le> pa" "pa < 2 ^ 32" and perm: "0 \<le> perm" "perm < 8"
  obtains rv t T where "memory_map ke r va pa perm s = Inr (rv, t)" "mapped ke r va pa perm s R rv t T"
proof -
  note d = isolatedD(1,2) [OF i] isolatedD(4) [OF i r] isolatedD(5) [OF i r]
  have "vpre va 0 < 2 ^ 36" by (simp add: vpre_def)
  then have small: "\<And>l a p. lookup (ram s) r va = Some (l, a, p) \<Longrightarrow> l = 0" using d(4) unfolding small_pages_def by blast
  have "\<exists>rv t T. memory_map ke r va pa perm s = Inr (rv, t) \<and> mapped ke r va pa perm s R rv t T"
    by (rule memory_map_ok [OF d(1,2,3) _ va pa perm]) (use small in blast)
  then show thesis using that by blast
qed

lemma allocated_page:
  assumes "kalloc ke sz s = (p, u)" "p \<noteq> 0"
  shows "4096 dvd p" "0 \<le> p" "p < 2 ^ 32"
  using kalloc_page [OF assms] by auto

lemma PWU_bits: "0 \<le> PTE_PWU" "PTE_PWU < 8" "PTE_PWU AND PTE_P \<noteq> 0"
  by (simp_all add: pte_defs)

text \<open>A page is taken and mapped for the process.\<close>

lemma own_page:
  assumes i: "isolated ke s R roots own" and r: "roots i = Some r" and k: "kalloc ke PAGESIZE s = (p, u)" "p \<noteq> 0"
    and c: "memory_map ke r va p PTE_PWU u = Inr (rv, t)"
  shows "\<exists>T. mapped ke r va p PTE_PWU u R rv t T \<and> isolated ke t T roots (own(p \<mapsto> i)) \<and> spares i r s R own t T (own(p \<mapsto> i))"
proof -
  note u = iso_kalloc [OF i k, of i]
  obtain T where m: "mapped ke r va p PTE_PWU u R rv t T" using isolated_map(3) [OF u r c allocated_page [OF k] PWU_bits] by blast
  have t: "isolated ke t T roots (own(p \<mapsto> i))" by (rule iso_mapped [OF u r m]) simp
  have "spares i r s R own t T (own(p \<mapsto> i))" by (rule spares_trans [OF spares_kalloc [OF i k] spares_mapped(1) [OF u t m]])
  then show ?thesis using m t by blast
qed

text \<open>The part of an address space below \<^const>\<open>PROC_START_ADDR\<close> belongs to the kernel; other addresses leave it.\<close>

definition low_kept :: "int \<Rightarrow> phys \<Rightarrow> phys \<Rightarrow> bool" where
  "low_kept r s t \<longleftrightarrow> (\<forall>va. vpre va 0 < 256 \<longrightarrow> lookup (ram t) r va = lookup (ram s) r va)"

lemma low_kept_refl: "low_kept r s s"
  by (simp add: low_kept_def)

lemma low_kept_trans: "low_kept r s t \<Longrightarrow> low_kept r t u \<Longrightarrow> low_kept r s u"
  by (simp add: low_kept_def)

lemma high_page:
  assumes "va_is_canonical va" and "0x100000 \<le> va" and "va < 2 ^ 64"
  shows "256 \<le> vpre va 0"
proof (cases "va < 2 ^ 47")
  case True
  then show ?thesis using assms(2) by (simp add: vpre_def)
next
  case False
  then have "va mod 2 ^ 48 = va - (2 ^ 64 - 2 ^ 48)"
    using assms(1,3) mod_pos_pos_trivial [of "va - (2 ^ 64 - 2 ^ 48)" "2 ^ 48"] mod_mult_self2 [of "va - (2 ^ 64 - 2 ^ 48)" "2 ^ 48" "2 ^ 16 - 1"]
    by (auto simp: va_is_canonical_def)
  then show ?thesis using False assms(1) by (simp add: vpre_def va_is_canonical_def)
qed

lemma low_kept_map:
  assumes i: "isolated ke s R roots own" and k: "kalloc ke sz s = (p, u)" "p \<noteq> 0" and r: "roots i = Some r"
    and m: "mapped ke r va pa perm u R rv t T" and va: "256 \<le> vpre va 0"
  shows "low_kept r s t"
  unfolding low_kept_def
proof (intro allI impI)
  fix vb assume "vpre vb 0 < 256"
  then have "lookup (ram t) r vb = lookup (ram u) r vb" using m va isolatedD(4) [OF i r] unfolding mapped_def by auto
  then show "lookup (ram t) r vb = lookup (ram s) r vb" using kalloc_lookup(2) [OF isolatedD(1,2) [OF i] k isolatedD(4) [OF i r]] by simp
qed

end
