(* ===== verification/Process_Setup.thy ===== *)
theory Process_Setup
  imports Isolation
begin

text \<open>
  Loading a program (\<^verbatim>\<open>process_setup\<close> of \<^verbatim>\<open>src/mini-operating-system/kernel.c\<close>): whatever the image is, the new
  process is isolated as long as pages are left, and an image with small segments is loaded.
\<close>

unbundle bit_operations_syntax

section \<open>Loading a program\<close>

lemma load_pages_shrinks: "load_pages ke r a e os s = Inr (os', t) \<Longrightarrow> free_pages ke t \<subseteq> free_pages ke s"
proof (induction ke r a e os s arbitrary: os' t rule: load_pages.induct)
  case (1 ke r a e os s)
  show ?case
  proof (cases "a < e")
    case True
    obtain p s1 where k: "kalloc ke PAGESIZE s = (p, s1)" by (cases "kalloc ke PAGESIZE s")
    with 1(2) True obtain rv s2 where m: "memory_map ke r a p PTE_PWU s1 = Inr (rv, s2)" "load_pages ke r (a + PAGESIZE) e (p # os) s2 = Inr (os', t)"
      by (subst (asm) load_pages.simps) (auto simp: kbind_eq_Inr)
    have "free_pages ke t \<subseteq> free_pages ke s2" by (rule 1(1) [OF True k [symmetric] refl m(1) refl m(2)])
    then show ?thesis using memory_map_shrinks [OF m(1)] kalloc_shrinks [OF k] by blast
  next
    case False
    then show ?thesis using 1(2) by (subst (asm) load_pages.simps) simp
  qed
qed

text \<open>No two addresses of a process share a page in user mode, the console apart.\<close>

definition uniq :: "int \<Rightarrow> phys \<Rightarrow> bool" where
  "uniq r s \<longleftrightarrow> (\<forall>va vb p. p \<noteq> CONSOLE_ADDR \<and> lookup (ram s) r va = Some (0, p, PTE_PWU) \<and> lookup (ram s) r vb = Some (0, p, PTE_PWU)
     \<longrightarrow> vpre va 0 = vpre vb 0)"

lemma uniq_same: "(\<And>va. lookup (ram t) r va = lookup (ram s) r va) \<Longrightarrow> uniq r s \<Longrightarrow> uniq r t"
  by (simp add: uniq_def)

lemma own_page_uniq:
  assumes i: "isolated ke s R roots own" and r: "roots i = Some r" and k: "kalloc ke PAGESIZE s = (p, u)" "p \<noteq> 0"
    and m: "mapped ke r va p PTE_PWU u R rv t T" and q: "uniq r s"
  shows "uniq r t"
proof -
  note ri = isolatedD(4) [OF i r]
  have new: "lookup (ram s) r vb \<noteq> Some (0, p, PTE_PWU)" if "p \<noteq> CONSOLE_ADDR" for vb
    using isolatedD(10) [OF i r, of vb 0 p PTE_PWU] kalloc_keeps(2) [OF i k] that by (auto simp: pte_defs)
  have l: "lookup (ram t) r vb = lookup (ram s) r vb" if "vpre vb 0 \<noteq> vpre va 0" for vb
    using m ri that kalloc_lookup(2) [OF isolatedD(1,2) [OF i] k ri, of vb] unfolding mapped_def by metis
  have h: "lookup (ram t) r vb = Some (0, p, PTE_PWU) \<or> lookup (ram t) r vb = lookup (ram s) r vb" for vb
  proof (cases "vpre vb 0 = vpre va 0")
    case True
    then show ?thesis using m lookup_cong [OF True] kalloc_lookup(2) [OF isolatedD(1,2) [OF i] k ri, of va] PWU_bits(3) unfolding mapped_def by auto
  qed (use l in auto)
  show ?thesis
    unfolding uniq_def
  proof (intro allI impI)
    fix vb vc x assume a: "x \<noteq> CONSOLE_ADDR \<and> lookup (ram t) r vb = Some (0, x, PTE_PWU) \<and> lookup (ram t) r vc = Some (0, x, PTE_PWU)"
    show "vpre vb 0 = vpre vc 0"
    proof (cases "x = p")
      case True
      then have "vpre vb 0 = vpre va 0" "vpre vc 0 = vpre va 0" using a new l by metis+
      then show ?thesis by simp
    next
      case False
      then have "lookup (ram s) r vb = Some (0, x, PTE_PWU)" "lookup (ram s) r vc = Some (0, x, PTE_PWU)" using a h by (metis Pair_inject option.inject)+
      then show ?thesis using q a unfolding uniq_def by blast
    qed
  qed
qed

lemma load_pages_iso:
  assumes "isolated ke s R roots own" and "roots i = Some r" and "load_pages ke r a e os s = Inr (os', t)" and "free_pages ke t \<noteq> {}"
    and "\<And>p. p \<in> set os \<Longrightarrow> own p = Some i"
  shows "\<exists>T own'. isolated ke t T roots own' \<and> spares i r s R own t T own' \<and> (\<forall>p. p \<in> set os' \<longrightarrow> own' p = Some i)
    \<and> (0x100000 \<le> a \<and> e \<le> 2 ^ 64 \<longrightarrow> low_kept r s t) \<and> (uniq r s \<longrightarrow> uniq r t)"
  using assms
proof (induction ke r a e os s arbitrary: os' t R own rule: load_pages.induct)
  case (1 ke r a e os s)
  show ?case
  proof (cases "a < e")
    case True
    obtain p s1 where k: "kalloc ke PAGESIZE s = (p, s1)" by (cases "kalloc ke PAGESIZE s")
    with 1(4) True obtain rv s2 where m: "memory_map ke r a p PTE_PWU s1 = Inr (rv, s2)" "load_pages ke r (a + PAGESIZE) e (p # os) s2 = Inr (os', t)"
      by (subst (asm) load_pages.simps) (auto simp: kbind_eq_Inr)
    have "free_pages ke t \<subseteq> free_pages ke s" using load_pages_shrinks [OF 1(4)] .
    then have p: "p \<noteq> 0" using kalloc_none k 1(5) by blast
    obtain T where T: "isolated ke s2 T roots (own(p \<mapsto> i))" "spares i r s R own s2 T (own(p \<mapsto> i))" "mapped ke r a p PTE_PWU s1 R rv s2 T"
      using own_page [OF 1(2,3) k p m(1)] by blast
    have can: "va_is_canonical a" using isolated_map(1) [OF iso_kalloc [OF 1(2) k p] 1(3) m(1) allocated_page [OF k p] PWU_bits] .
    have low: "low_kept r s s2" if "0x100000 \<le> a" "e \<le> 2 ^ 64"
      using low_kept_map [OF 1(2) k p 1(3) T(3) high_page [OF can]] that True by simp
    have os: "(own(p \<mapsto> i)) q = Some i" if "q \<in> set (p # os)" for q using that 1(6) by auto
    have "\<exists>U own'. isolated ke t U roots own' \<and> spares i r s2 T (own(p \<mapsto> i)) t U own' \<and> (\<forall>p. p \<in> set os' \<longrightarrow> own' p = Some i)
      \<and> (0x100000 \<le> a + PAGESIZE \<and> e \<le> 2 ^ 64 \<longrightarrow> low_kept r s2 t) \<and> (uniq r s2 \<longrightarrow> uniq r t)"
      by (rule 1(1) [OF True k [symmetric] refl m(1) refl T(1) 1(3) m(2) 1(5) os])
    then obtain U own' where U: "isolated ke t U roots own'" "spares i r s2 T (own(p \<mapsto> i)) t U own'" "\<forall>p. p \<in> set os' \<longrightarrow> own' p = Some i"
      "0x100000 \<le> a + PAGESIZE \<and> e \<le> 2 ^ 64 \<longrightarrow> low_kept r s2 t" "uniq r s2 \<longrightarrow> uniq r t" by blast
    have "low_kept r s t" if "0x100000 \<le> a \<and> e \<le> 2 ^ 64" using low U(4) that low_kept_trans by (auto simp: PAGESIZE_def)
    then show ?thesis using spares_trans [OF T(2) U(2)] U(1,3,5) own_page_uniq [OF 1(2,3) k p T(3)] by blast
  next
    case False
    then have "os' = os" "t = s" using 1(4) by (auto simp: load_pages.simps)
    then show ?thesis using 1(2,6) spares_refl low_kept_refl by blast
  qed
qed

lemma seg_fix_set: "set (seg_fix segs) \<subseteq> set segs"
  by (induction segs) auto

lemma seg_fix_loads:
  "seg_fix segs = [] \<or> p_type (hd (seg_fix segs)) = ELF_PTYPE_LOAD"
  "filter (\<lambda>ph. p_type ph = ELF_PTYPE_LOAD) (seg_fix segs) = filter (\<lambda>ph. p_type ph = ELF_PTYPE_LOAD) segs"
  by (induction segs) auto

lemma load_segments_shrinks: "load_segments ke r segs os s = Inr (os', t) \<Longrightarrow> free_pages ke t \<subseteq> free_pages ke s"
  by (induction ke r segs os s arbitrary: os' t rule: load_segments.induct) (fastforce simp: kbind_eq_Inr dest: load_pages_shrinks)+

lemma load_segments_iso:
  assumes "isolated ke s R roots own" and "roots i = Some r" and "load_segments ke r segs os s = Inr (os', t)" and "free_pages ke t \<noteq> {}"
    and "\<And>p. p \<in> set os \<Longrightarrow> own p = Some i"
  shows "\<exists>T own'. isolated ke t T roots own' \<and> spares i r s R own t T own' \<and> (\<forall>p. p \<in> set os' \<longrightarrow> own' p = Some i)
    \<and> ((segs = [] \<or> p_type (hd segs) = ELF_PTYPE_LOAD) \<and> (\<forall>seg \<in> set segs. p_type seg = ELF_PTYPE_LOAD \<longrightarrow> 0x100000 \<le> p_va seg) \<longrightarrow> low_kept r s t)
    \<and> (uniq r s \<longrightarrow> uniq r t)"
  using assms
proof (induction ke r segs os s arbitrary: os' t R own rule: load_segments.induct)
  case (1 ke pt os s)
  then have "os' = os" "t = s" by auto
  then show ?case using 1 spares_refl low_kept_refl by blast
next
  case (2 ke r seg segs os s)
  from 2(4) obtain os1 s1 where l: "load_pages ke r (round_down (p_va seg) PAGESIZE) ((p_va seg + p_memsz seg) mod 2 ^ 64) os s = Inr (os1, s1)"
    "load_segments ke r (seg_fix segs) os1 s1 = Inr (os', t)" by (auto simp: kbind_eq_Inr)
  have "free_pages ke s1 \<noteq> {}" using load_segments_shrinks [OF l(2)] 2(5) by blast
  from load_pages_iso [OF 2(2,3) l(1) this 2(6)] obtain T own' where T: "isolated ke s1 T roots own'" "spares i r s R own s1 T own'"
    "\<And>p. p \<in> set os1 \<Longrightarrow> own' p = Some i"
    "0x100000 \<le> round_down (p_va seg) PAGESIZE \<and> (p_va seg + p_memsz seg) mod 2 ^ 64 \<le> 2 ^ 64 \<longrightarrow> low_kept r s s1"
    "uniq r s \<longrightarrow> uniq r s1" by blast
  have low: "low_kept r s s1" if "0x100000 \<le> p_va seg"
  proof -
    have "0x100000 \<le> round_down (p_va seg) PAGESIZE" using that by (simp add: round_down_def PAGESIZE_def minus_mod_eq_mult_div)
    moreover have "(p_va seg + p_memsz seg) mod 2 ^ 64 \<le> 2 ^ 64" using pos_mod_bound [of "2 ^ 64" "p_va seg + p_memsz seg"] by simp
    ultimately show ?thesis using T(4) by blast
  qed
  have "\<exists>U own''. isolated ke t U roots own'' \<and> spares i r s1 T own' t U own'' \<and> (\<forall>p. p \<in> set os' \<longrightarrow> own'' p = Some i)
    \<and> ((seg_fix segs = [] \<or> p_type (hd (seg_fix segs)) = ELF_PTYPE_LOAD)
      \<and> (\<forall>seg \<in> set (seg_fix segs). p_type seg = ELF_PTYPE_LOAD \<longrightarrow> 0x100000 \<le> p_va seg) \<longrightarrow> low_kept r s1 t) \<and> (uniq r s1 \<longrightarrow> uniq r t)"
    by (rule 2(1) [OF l(1) refl T(1) 2(3) l(2) 2(5) T(3)])
  then obtain U own'' where U: "isolated ke t U roots own''" "spares i r s1 T own' t U own''" "\<forall>p. p \<in> set os' \<longrightarrow> own'' p = Some i"
    "(\<forall>seg \<in> set (seg_fix segs). p_type seg = ELF_PTYPE_LOAD \<longrightarrow> 0x100000 \<le> p_va seg) \<longrightarrow> low_kept r s1 t" "uniq r s1 \<longrightarrow> uniq r t" using seg_fix_loads(1) [of segs] by blast
  have "low_kept r s t" if "p_type seg = ELF_PTYPE_LOAD" "\<forall>seg \<in> set (seg # segs). p_type seg = ELF_PTYPE_LOAD \<longrightarrow> 0x100000 \<le> p_va seg"
    using low U(4) that seg_fix_set [of segs] low_kept_trans by (metis list.set_intros(1,2) subsetD)
  then show ?case using spares_trans [OF T(2) U(2)] U(1,3,5) T(5) by auto
qed

lemma write_own_pages:
  assumes "write_own os dst n f s = Inr t"
  shows "pages t = pages s" "page_of x \<notin> set os \<Longrightarrow> ram t x = ram s x"
proof -
  have w: "\<And>k. dst div 4096 \<le> k \<Longrightarrow> k \<le> (dst + n - 1) div 4096 \<Longrightarrow> 0 < n \<Longrightarrow> k * 4096 \<in> set os"
    and t: "t = s\<lparr>ram := (\<lambda>x. if dst \<le> x \<and> x < dst + n then f (x - dst) else ram s x)\<rparr>"
    using assms by (auto simp: write_own_def PAGESIZE_def list_all_iff split: if_splits)
  show "pages t = pages s" by (simp add: t)
  show "page_of x \<notin> set os \<Longrightarrow> ram t x = ram s x"
  proof (cases "dst \<le> x \<and> x < dst + n")
    case True
    then have "dst div 4096 \<le> x div 4096" "x div 4096 \<le> (dst + n - 1) div 4096" by (auto intro: zdiv_mono1)
    then have "x div 4096 * 4096 \<in> set os" using w True by simp
    moreover have "page_of x = x div 4096 * 4096" by (simp add: page_of_def minus_mod_eq_div_mult)
    ultimately show "page_of x \<notin> set os \<Longrightarrow> ram t x = ram s x" by simp
  qed (auto simp: t)
qed

lemma write_own_iso:
  assumes i: "isolated ke s R roots own" and os: "\<And>p. p \<in> set os \<Longrightarrow> own p = Some i" and w: "write_own os dst n f s = Inr t"
  shows "isolated ke t R roots own" "spares i r s R own t R own" "root R r' \<Longrightarrow> lookup (ram t) r' va = lookup (ram s) r' va"
proof -
  note wp = write_own_pages [OF w]
  have "ram t x = ram s x" if "R (page_of x) \<noteq> None" for x using wp(2) [of x] that os [of "page_of x"] isolatedD(9) [OF i, of "page_of x" i] by (cases "page_of x \<in> set os") simp_all
  then show "isolated ke t R roots own" and l: "root R r' \<Longrightarrow> lookup (ram t) r' va = lookup (ram s) r' va" for r' va
    using iso_frame [OF i wp(1)] by blast+
  have "ram t x = ram s x" if "own (page_of x) = Some j" "j \<noteq> i" for x j using wp(2) [of x] os [of "page_of x"] that by auto
  then show "spares i r s R own t R own" using l unfolding spares_def by auto
qed

lemma copy_segments_iso:
  assumes "isolated ke s R roots own" and "\<And>p. p \<in> set os \<Longrightarrow> own p = Some i" and "copy_segments img r os segs s = Inr t"
  shows "isolated ke t R roots own \<and> spares i r s R own t R own \<and> free_pages ke t = free_pages ke s
    \<and> (\<forall>r' va. root R r' \<longrightarrow> lookup (ram t) r' va = lookup (ram s) r' va)"
  using assms
proof (induction img r os segs s rule: copy_segments.induct)
  case (1 img r os s)
  then show ?case using spares_refl by auto
next
  case (2 img r os seg segs s)
  from 2(4) obtain d1 s1 d2 s2 where w: "memory_virtual_to_physical r (p_va seg) s = Inr d1" "write_own os d1 (p_memsz seg) (\<lambda>i. 0) s = Inr s1"
    "memory_virtual_to_physical r (p_va seg) s1 = Inr d2"
    "write_own os d2 (p_filesz seg) (\<lambda>i. case img of None \<Rightarrow> 0 | Some elf \<Rightarrow> e_bytes elf (p_offset seg + i)) s1 = Inr s2"
    "copy_segments img r os (seg_fix segs) s2 = Inr t" by (auto simp: kbind_eq_Inr)
  note a = write_own_iso [OF 2(2,3) w(2)]
  note b = write_own_iso [OF a(1) 2(3) w(4)]
  note c = 2(1) [OF w(1-4) b(1) 2(3) w(5)]
  have "free_pages ke s2 = free_pages ke s" using write_own_pages(1) [OF w(2)] write_own_pages(1) [OF w(4)] by (simp add: free_pages_def)
  moreover have "spares i r s R own t R own" using a(2) b(2) c spares_trans by metis
  ultimately show ?case using c a(3) b(3) by auto
qed

lemma copy_segments_pages: "copy_segments img r os segs s = Inr t \<Longrightarrow> pages t = pages s"
proof (induction img r os segs s rule: copy_segments.induct)
  case (2 img r os seg segs s)
  from 2(2) obtain d1 s1 d2 s2 where w: "memory_virtual_to_physical r (p_va seg) s = Inr d1" "write_own os d1 (p_memsz seg) (\<lambda>i. 0) s = Inr s1"
    "memory_virtual_to_physical r (p_va seg) s1 = Inr d2"
    "write_own os d2 (p_filesz seg) (\<lambda>i. case img of None \<Rightarrow> 0 | Some elf \<Rightarrow> e_bytes elf (p_offset seg + i)) s1 = Inr s2"
    "copy_segments img r os (seg_fix segs) s2 = Inr t" by (auto simp: kbind_eq_Inr)
  show ?case using 2(1) [OF w] write_own_pages(1) [OF w(2)] write_own_pages(1) [OF w(4)] by simp
qed simp

section \<open>A new address space\<close>

text \<open>The kernel's pages are mapped to themselves, out of reach for the process.\<close>

definition kernel_mapped :: "(int \<Rightarrow> byte) \<Rightarrow> int \<Rightarrow> bool" where
  "kernel_mapped m r \<longleftrightarrow> (\<forall>va. 1 \<le> vpre va 0 \<and> vpre va 0 < 256 \<and> vpre va 0 \<noteq> 0xB8 \<longrightarrow> lookup m r va = Some (0, 4096 * vpre va 0, 3))"

lemma kernel_mapped_low: "low_kept r s t \<Longrightarrow> kernel_mapped (ram s) r \<Longrightarrow> kernel_mapped (ram t) r"
  by (simp add: kernel_mapped_def low_kept_def)

lemma wlevel_lookup: "lookup m r va = Some (l, a, p) \<Longrightarrow> wlevel m r va = l"
  by (auto simp: lookup_def wlevel_def Let_def split: sum.splits if_splits)

lemma wlevel_bound: "tables m R \<Longrightarrow> root R r \<Longrightarrow> wlevel m r va \<le> 3"
  by (rule root_walk [of m R r va initial_perm]) (auto simp: wlevel_def)

lemma foreach_shrinks:
  "foreach_loop (map_to_kernel_space ke r) ub it s = Inr t \<Longrightarrow> free_pages ke t \<subseteq> free_pages ke s"
proof (induction "map_to_kernel_space ke r" ub it s arbitrary: t rule: foreach_loop.induct)
  case (1 ub it s)
  show ?case
  proof (cases "it_va it < ub")
    case True
    with 1(2) obtain rv u jt where u: "memory_map ke r (it_va it) (it_va it) (PTE_P OR PTE_W) s = Inr (rv, u)"
      "real_find (ram u) it (it_va it + PAGESIZE) = Inr jt" "foreach_loop (map_to_kernel_space ke r) ub jt u = Inr t"
      by (subst (asm) foreach_loop.simps) (auto simp: kbind_eq_Inr map_to_kernel_space_def)
    have "free_pages ke t \<subseteq> free_pages ke u"
      by (rule 1(1) [OF True _ refl TrueI u(2,3)]) (simp add: map_to_kernel_space_def u(1))
    then show ?thesis using memory_map_shrinks [OF u(1)] by blast
  next
    case False
    then show ?thesis using 1(2) by (subst (asm) foreach_loop.simps) simp
  qed
qed

lemma memory_foreach_shrinks:
  "memory_foreach r ub (map_to_kernel_space ke) s = Inr t \<Longrightarrow> free_pages ke t \<subseteq> free_pages ke s"
  unfolding memory_foreach_def by (auto simp: kbind_eq_Inr dest!: foreach_shrinks)

lemma map_to_shrinks:
  "map_to_nobody ke r va s = Inr (b, t) \<Longrightarrow> free_pages ke t \<subseteq> free_pages ke s"
  "map_to_user_space ke r va s = Inr (b, t) \<Longrightarrow> free_pages ke t \<subseteq> free_pages ke s"
  unfolding map_to_nobody_def map_to_user_space_def by (auto simp: kbind_eq_Inr dest!: memory_map_shrinks)

lemma kernel_range:
  assumes t: "tables (ram s) R" and pl: "pool ke s R" and r: "root R r" and small: "small_pages N (ram s) r" and N: "256 \<le> N"
  shows "\<exists>t T. memory_foreach r PROC_START_ADDR (map_to_kernel_space ke) s = Inr t \<and> ranged ke N r 0 256 3 s R t T"
proof -
  have can: "va_is_canonical 0" by (simp add: va_is_canonical_def)
  obtain it where it: "found_at (ram s) r 0 = Inr it" "in_step (ram s) it" "it_pt it = r" "it_va it = 0"
    using found_in_step [OF t r can] by metis
  have "\<exists>t T. foreach_loop (map_to_kernel_space ke r) (4096 * 256) it s = Inr t \<and> ranged ke N r 0 256 3 s R t T"
    by (rule foreach_ok [OF t pl r small it(2,3), where n = 0]) (use it(4) N in \<open>auto simp: map_to_kernel_space_def pte_defs\<close>)
  then show ?thesis by (simp add: memory_foreach_def vmiter_at_found it(1) PROC_START_ADDR_def)
qed

lemma ranged_mapped:
  assumes "ranged ke N r 0 b perm s R t T" and "free_pages ke t \<noteq> {}" and "vpre va 0 < b"
  shows "lookup (ram t) r va = Some (0, 4096 * vpre va 0, perm)"
proof -
  have "0 \<le> vpre va 0" by (simp add: vpre_def)
  then show ?thesis using assms unfolding ranged_def by blast
qed

lemma mapped_card:
  assumes "mapped ke r va pa perm s R rv t T" and "free_pages ke s \<noteq> {} \<Longrightarrow> wlevel (ram s) r va = 0"
  shows "card (free_pages ke s) \<le> card (free_pages ke t)"
  using assms unfolding mapped_def by (cases "free_pages ke s = {}") auto

lemma mapped_free: "mapped ke r va pa perm s R rv t T \<Longrightarrow> free_pages ke t \<subseteq> free_pages ke s"
  unfolding mapped_def by (auto dest: extends_free)

text \<open>What \<^verbatim>\<open>process_setup\<close> and \<^verbatim>\<open>kernel_start\<close> do first with an address space.\<close>

lemma low_space:
  assumes t: "tables (ram s) R" and pl: "pool ke s R" and r: "root R r" and small: "small_pages N (ram s) r" and N: "256 \<le> N"
  obtains s1 s2 s3 R1 R2 R3 rv2 rv3 where
    "memory_foreach r PROC_START_ADDR (map_to_kernel_space ke) s = Inr s1" "ranged ke N r 0 256 3 s R s1 R1"
    "memory_map ke r 0 0 0 s1 = Inr (rv2, s2)" "mapped ke r 0 0 0 s1 R1 rv2 s2 R2"
    "memory_map ke r CONSOLE_ADDR CONSOLE_ADDR PTE_PWU s2 = Inr (rv3, s3)" "mapped ke r CONSOLE_ADDR CONSOLE_ADDR PTE_PWU s2 R2 rv3 s3 R3"
    "card (free_pages ke s) \<le> card (free_pages ke s3) + wlevel (ram s) r 0" "free_pages ke s3 \<noteq> {} \<Longrightarrow> kernel_mapped (ram s3) r"
proof -
  obtain s1 R1 where s1: "memory_foreach r PROC_START_ADDR (map_to_kernel_space ke) s = Inr s1" "ranged ke N r 0 256 3 s R s1 R1"
    using kernel_range [OF assms] by blast
  have d1: "tables (ram s1) R1" "pool ke s1 R1" "root R1 r" "small_pages N (ram s1) r"
    using s1(2) root_mono [OF r] by (auto simp: ranged_def extends_def)
  have v: "vpre 0 0 = 0" "vpre CONSOLE_ADDR 0 = 0xB8" by (simp_all add: vpre_def CONSOLE_ADDR_def)
  have lv: "l = 0" if "vpre va 0 < 256" "lookup (ram s1) r va = Some (l, a, p)" for va l a p
    using d1(4) that N unfolding small_pages_def by (meson less_le_trans)
  have "\<exists>rv t T. memory_map ke r 0 0 0 s1 = Inr (rv, t) \<and> mapped ke r 0 0 0 s1 R1 rv t T"
    by (rule memory_map_ok [OF d1(1-3)]) (use lv [of 0] v in \<open>auto simp: va_is_canonical_def\<close>)
  then obtain rv2 s2 R2 where s2: "memory_map ke r 0 0 0 s1 = Inr (rv2, s2)" "mapped ke r 0 0 0 s1 R1 rv2 s2 R2" by blast
  have d2: "tables (ram s2) R2" "pool ke s2 R2" "root R2 r" using s2(2) root_mono [OF d1(3)] by (auto simp: mapped_def extends_def)
  have "vpre CONSOLE_ADDR 0 < N" using v N by simp
  then have lv2: "l = 0" if "lookup (ram s2) r CONSOLE_ADDR = Some (l, a, p)" for l a p
    using mapped_small [OF s2(2) d1(3,4)] that unfolding small_pages_def by blast
  have "\<exists>rv t T. memory_map ke r CONSOLE_ADDR CONSOLE_ADDR PTE_PWU s2 = Inr (rv, t) \<and> mapped ke r CONSOLE_ADDR CONSOLE_ADDR PTE_PWU s2 R2 rv t T"
    by (rule memory_map_ok [OF d2]) (use lv2 in \<open>auto simp: va_is_canonical_def CONSOLE_ADDR_def pte_defs\<close>)
  then obtain rv3 s3 R3 where s3: "memory_map ke r CONSOLE_ADDR CONSOLE_ADDR PTE_PWU s2 = Inr (rv3, s3)"
    "mapped ke r CONSOLE_ADDR CONSOLE_ADDR PTE_PWU s2 R2 rv3 s3 R3" by blast
  note f2 = mapped_free [OF s2(2)] and f3 = mapped_free [OF s3(2)]
  have keep2: "lookup (ram s2) r va = lookup (ram s1) r va" if "vpre va 0 \<noteq> 0" for va using s2(2) d1(3) v that unfolding mapped_def by auto
  have "card (free_pages ke s) \<le> card (free_pages ke s1) + wlevel (ram s) r 0" using s1(2) by (simp add: ranged_def)
  also have "card (free_pages ke s1) \<le> card (free_pages ke s2)"
    by (rule mapped_card [OF s2(2)]) (use ranged_mapped [OF s1(2), of 0] wlevel_lookup v in auto)
  also have "card (free_pages ke s2) \<le> card (free_pages ke s3)"
    by (rule mapped_card [OF s3(2)]) (use ranged_mapped [OF s1(2), of CONSOLE_ADDR] keep2 [of CONSOLE_ADDR] wlevel_lookup v f2 in fastforce)
  finally have c: "card (free_pages ke s) \<le> card (free_pages ke s3) + wlevel (ram s) r 0" by simp
  have "kernel_mapped (ram s3) r" if "free_pages ke s3 \<noteq> {}"
    unfolding kernel_mapped_def
  proof (intro allI impI)
    fix va assume va: "1 \<le> vpre va 0 \<and> vpre va 0 < 256 \<and> vpre va 0 \<noteq> 0xB8"
    then have "lookup (ram s3) r va = lookup (ram s2) r va" using s3(2) d2(3) v unfolding mapped_def by auto
    moreover have "free_pages ke s1 \<noteq> {}" using that f2 f3 by blast
    ultimately show "lookup (ram s3) r va = Some (0, 4096 * vpre va 0, 3)" using keep2 [of va] ranged_mapped [OF s1(2)] va by simp
  qed
  then show thesis using that s1 s2 s3 c by blast
qed

lemma spares_new_root:
  assumes i: "isolated ke s R roots own" and k: "kalloc_pagetable ke s = (r, u)" "r \<noteq> 0"
  shows "spares i r s R own u (R(r \<mapsto> (r, 3, 0))) own"
proof -
  obtain u1 where k1: "kalloc ke PAGESIZE s = (r, u1)" and u: "u = u1\<lparr>ram := mem_fill r 0 4096 (ram u1)\<rparr>"
    using k by (auto simp: kalloc_pagetable_def split: prod.splits if_splits)
  note keep = kalloc_keeps [OF i k1 k(2)] and n = iso_new_root [OF i k]
  have "ram u x = ram s x" if "own (page_of x) = Some j" for x j
  proof -
    have "4096 dvd r" using n(4) by (simp add: page_ok_def)
    then have "\<not> (r \<le> x \<and> x < r + 4096)" using that keep(2) page_of_in by auto
    then show ?thesis using keep(1) that by (auto simp: u mem_fill_def)
  qed
  then show ?thesis using n(3,6) unfolding spares_def by (auto simp: map_le_def)
qed

lemma kernel_space_bits: "PTE_P OR PTE_W OR PTE_U = PTE_PWU" "PTE_P OR PTE_W = (3 :: int)" "(3 :: int) AND PTE_U = 0" "(0 :: int) AND PTE_U = 0"
  by (simp_all add: pte_defs)

lemma new_space:
  assumes i: "isolated ke s R roots own" and k: "kalloc_pagetable ke s = (r, u)" "r \<noteq> 0"
  obtains s1 s2 s3 T where
    "memory_foreach r PROC_START_ADDR (map_to_kernel_space ke) u = Inr s1" "map_to_nobody ke r 0 s1 = Inr (True, s2)"
    "map_to_user_space ke r CONSOLE_ADDR s2 = Inr (True, s3)" "isolated ke s3 T (roots(i \<mapsto> r)) own" "spares i r s R own s3 T own"
    "card (free_pages ke s) \<le> card (free_pages ke s3) + 4" "free_pages ke s3 \<noteq> {} \<Longrightarrow> kernel_mapped (ram s3) r"
proof -
  let ?R = "R(r \<mapsto> (r, 3, 0))" and ?roots = "roots(i \<mapsto> r)"
  note n = iso_new_root [OF i k]
  have d: "tables (ram u) ?R" "pool ke u ?R" "root ?R r" "small_pages (2 ^ 36) (ram u) r"
    using isolatedD(1,2) [OF n(1) [of i]] isolatedD(4,5) [OF n(1) [of i], of i r] by auto
  obtain s1 s2 s3 R1 R2 R3 rv2 rv3 where s:
    "memory_foreach r PROC_START_ADDR (map_to_kernel_space ke) u = Inr s1" "ranged ke (2 ^ 36) r 0 256 3 u ?R s1 R1"
    "memory_map ke r 0 0 0 s1 = Inr (rv2, s2)" "mapped ke r 0 0 0 s1 R1 rv2 s2 R2"
    "memory_map ke r CONSOLE_ADDR CONSOLE_ADDR PTE_PWU s2 = Inr (rv3, s3)" "mapped ke r CONSOLE_ADDR CONSOLE_ADDR PTE_PWU s2 R2 rv3 s3 R3"
    "card (free_pages ke u) \<le> card (free_pages ke s3) + wlevel (ram u) r 0" "free_pages ke s3 \<noteq> {} \<Longrightarrow> kernel_mapped (ram s3) r"
    by (rule low_space [OF d]) auto
  have ri: "?roots i = Some r" by simp
  note i1 = iso_ranged [OF n(1) ri s(2) kernel_space_bits(3)]
  have i2: "isolated ke s2 R2 ?roots own" by (rule iso_mapped [OF i1 ri s(4)]) (simp add: kernel_space_bits)
  have i3: "isolated ke s3 R3 ?roots own" by (rule iso_mapped [OF i2 ri s(6)]) simp
  have sp: "spares i r s R own s3 R3 own"
    by (rule spares_trans [OF spares_new_root [OF i k] spares_trans [OF spares_ranged [OF n(1) i1 s(2)]
        spares_trans [OF spares_mapped(1) [OF i1 i2 s(4)] spares_mapped(1) [OF i2 i3 s(6)]]]])
  obtain u1 where "kalloc ke PAGESIZE s = (r, u1)" "u = u1\<lparr>ram := mem_fill r 0 4096 (ram u1)\<rparr>"
    using k by (auto simp: kalloc_pagetable_def split: prod.splits if_splits)
  then have "card (free_pages ke s) = Suc (card (free_pages ke u))" using kalloc_free_card [of ke PAGESIZE s r u1] k(2) by (simp add: free_pages_def)
  then have "card (free_pages ke s) \<le> card (free_pages ke s3) + 4" using s(7) wlevel_bound [OF d(1,3), of 0] by simp
  then show thesis using that [OF s(1) _ _ i3 sp _ s(8)] s(3,5) by (simp add: map_to_nobody_def map_to_user_space_def kernel_space_bits)
qed

section \<open>The safety of \<^verbatim>\<open>process_setup\<close>\<close>

text \<open>The linker scripts of the programs place them from \<^const>\<open>PROC_START_ADDR\<close> on.\<close>

definition user_images :: "ramimages \<Rightarrow> bool" where
  "user_images imgs \<longleftrightarrow> list_all (\<lambda>img. list_all (\<lambda>ph. p_type ph = ELF_PTYPE_LOAD \<longrightarrow> PROC_START_ADDR \<le> p_va ph) (e_programs (snd img))) imgs"

lemma program_number_from:
  "program_number_from i imgs name = - 1 \<or> (\<exists>k < length imgs. program_number_from i imgs name = int (i + k) \<and> fst (imgs ! k) = name)"
proof (induction i imgs name rule: program_number_from.induct)
  case (2 i img imgs name)
  show ?case
  proof (cases "name = fst img")
    case False
    then consider "program_number_from i (img # imgs) name = - 1"
      | k where "k < length imgs" "program_number_from i (img # imgs) name = int (Suc i + k)" "fst (imgs ! k) = name" using 2 by auto
    then show ?thesis
    proof cases
      case (2 k)
      then show ?thesis by (intro disjI2 exI [of _ "Suc k"]) auto
    qed simp
  qed (auto intro!: exI [of _ 0])
qed simp

lemma program_image_found:
  assumes "program_image imgs (program_number imgs name) = Inr pgm"
  shows "pgm = None \<or> (\<exists>elf. pgm = Some elf \<and> (name, elf) \<in> set imgs)"
  using assms program_number_from [of 0 imgs name] unfolding program_image_def program_number_def
  by (auto simp: Let_def split: if_splits)

lemma process_setup_cases:
  assumes "process_setup ld i name s = Inr s'"
  obtains pt m0 m1 m2 m3 b2 b3 pgm os m4 m5 q m6 rv m7 p where
    "kalloc_pagetable (kernel_end ld) (memory s) = (pt, m0)"
    "memory_foreach pt PROC_START_ADDR (map_to_kernel_space (kernel_end ld)) m0 = Inr m1"
    "map_to_nobody (kernel_end ld) pt 0 m1 = Inr (b2, m2)" "map_to_user_space (kernel_end ld) pt CONSOLE_ADDR m2 = Inr (b3, m3)"
    "program_image (images ld) (program_number (images ld) name) = Inr pgm"
    "load_segments (kernel_end ld) pt (seg_begin pgm) [] m3 = Inr (os, m4)" "copy_segments pgm pt os (seg_begin pgm) m4 = Inr m5"
    "kalloc (kernel_end ld) PAGESIZE m5 = (q, m6)" "memory_map (kernel_end ld) pt (MEMSIZE_VIRTUAL - PAGESIZE) q PTE_PWU m6 = Inr (rv, m7)"
    "s' = set_proc i p (s\<lparr>memory := m7\<rparr>)" "pagetable p = pt" "state p = P_RUNNABLE" "pid p = pid (ptable s ! i)"
proof -
  obtain pt m0 where k: "kalloc_pagetable (kernel_end ld) (memory s) = (pt, m0)" by (cases "kalloc_pagetable (kernel_end ld) (memory s)")
  from assms [unfolded process_setup_def Let_def k prod.case] obtain m1 b2 m2 b3 m3 pgm os m4 m5 where a:
    "memory_foreach pt PROC_START_ADDR (map_to_kernel_space (kernel_end ld)) m0 = Inr m1"
    "map_to_nobody (kernel_end ld) pt 0 m1 = Inr (b2, m2)" "map_to_user_space (kernel_end ld) pt CONSOLE_ADDR m2 = Inr (b3, m3)"
    "program_image (images ld) (program_number (images ld) name) = Inr pgm"
    "load_segments (kernel_end ld) pt (seg_begin pgm) [] m3 = Inr (os, m4)" "copy_segments pgm pt os (seg_begin pgm) m4 = Inr m5"
    by (auto simp: kbind_eq_Inr)
  obtain q m6 where q: "kalloc (kernel_end ld) PAGESIZE m5 = (q, m6)" by (cases "kalloc (kernel_end ld) PAGESIZE m5")
  from assms [unfolded process_setup_def Let_def k prod.case] a q obtain rv m7 where b:
    "memory_map (kernel_end ld) pt (MEMSIZE_VIRTUAL - PAGESIZE) q PTE_PWU m6 = Inr (rv, m7)" by (auto simp: kbind_eq_Inr)
  from assms [unfolded process_setup_def Let_def k prod.case] a q b obtain p where "s' = set_proc i p (s\<lparr>memory := m7\<rparr>)" "pagetable p = pt"
    "state p = P_RUNNABLE" "pid p = pid (ptable s ! i)" by (auto simp: init_process_def Let_def)
  then show thesis using that k a q b by blast
qed

lemma seg_begin_loads: "seg_begin pgm = [] \<or> p_type (hd (seg_begin pgm)) = ELF_PTYPE_LOAD"
  using seg_fix_loads(1) by (auto simp: seg_begin_def split: option.splits)

lemma setup_segments:
  assumes "program_image imgs (program_number imgs name) = Inr pgm" and "user_images imgs"
  shows "\<forall>seg \<in> set (seg_begin pgm). p_type seg = ELF_PTYPE_LOAD \<longrightarrow> 0x100000 \<le> p_va seg"
  using program_image_found [OF assms(1)] assms(2) seg_fix_set
  by (fastforce simp: seg_begin_def user_images_def list_all_iff PROC_START_ADDR_def)

text \<open>An address space that a process can run in: the kernel is mapped, and the stack.\<close>

definition space_ok :: "(int \<Rightarrow> byte) \<Rightarrow> int \<Rightarrow> bool" where
  "space_ok m r \<longleftrightarrow> kernel_mapped m r \<and> (\<exists>a. lookup m r (MEMSIZE_VIRTUAL - PAGESIZE) = Some (0, a, PTE_PWU) \<and> a \<noteq> CONSOLE_ADDR)"

lemma space_ok_same: "(\<And>va. lookup m' r va = lookup m r va) \<Longrightarrow> space_ok m r \<Longrightarrow> space_ok m' r"
  by (simp add: space_ok_def kernel_mapped_def)

lemma process_setup_iso:
  assumes i: "isolated (kernel_end ld) (memory s) R roots own" and c: "process_setup ld i name s = Inr s'"
    and f: "free_pages (kernel_end ld) (memory s') \<noteq> {}" and img: "user_images (images ld)"
  obtains r T own' p where "isolated (kernel_end ld) (memory s') T (roots(i \<mapsto> r)) own'" "spares i r (memory s) R own (memory s') T own'"
    "space_ok (ram (memory s')) r" "s' = set_proc i p (s\<lparr>memory := memory s'\<rparr>)" "pagetable p = r" "state p = P_RUNNABLE"
    "pid p = pid (ptable s ! i)" "allocatable_physical_address (kernel_end ld) r"
proof -
  let ?ke = "kernel_end ld"
  from c obtain r m0 m1 m2 m3 b2 b3 pgm os m4 m5 q m6 rv m7 p where m:
    "kalloc_pagetable ?ke (memory s) = (r, m0)" "memory_foreach r PROC_START_ADDR (map_to_kernel_space ?ke) m0 = Inr m1"
    "map_to_nobody ?ke r 0 m1 = Inr (b2, m2)" "map_to_user_space ?ke r CONSOLE_ADDR m2 = Inr (b3, m3)"
    "program_image (images ld) (program_number (images ld) name) = Inr pgm"
    "load_segments ?ke r (seg_begin pgm) [] m3 = Inr (os, m4)" "copy_segments pgm r os (seg_begin pgm) m4 = Inr m5"
    "kalloc ?ke PAGESIZE m5 = (q, m6)" "memory_map ?ke r (MEMSIZE_VIRTUAL - PAGESIZE) q PTE_PWU m6 = Inr (rv, m7)"
    "s' = set_proc i p (s\<lparr>memory := m7\<rparr>)" "pagetable p = r" "state p = P_RUNNABLE" "pid p = pid (ptable s ! i)"
    by (rule process_setup_cases)
  have m7: "memory s' = m7" using m(10) by (simp add: set_proc_def)
  note f6 = memory_map_shrinks [OF m(9)] and f5 = kalloc_shrinks [OF m(8)] and f4 = load_segments_shrinks [OF m(6)]
  have fc: "free_pages ?ke m5 = free_pages ?ke m4" using copy_segments_pages [OF m(7)] by (simp add: free_pages_def)
  have f3: "free_pages ?ke m3 \<subseteq> free_pages ?ke m0"
    by (rule subset_trans [OF map_to_shrinks(2) [OF m(4)] subset_trans [OF map_to_shrinks(1) [OF m(3)] memory_foreach_shrinks [OF m(2)]]])
  have r0: "r \<noteq> 0"
  proof
    assume "r = 0"
    then have "free_pages ?ke m0 = {}" using m(1) kalloc_none [of ?ke "memory s" m0]
      by (auto simp: kalloc_pagetable_def split: prod.splits)
    then show False using f m7 f6 f5 f4 f3 fc by blast
  qed
  obtain T3 where i3: "isolated ?ke m3 T3 (roots(i \<mapsto> r)) own" "spares i r (memory s) R own m3 T3 own" "free_pages ?ke m3 \<noteq> {} \<Longrightarrow> kernel_mapped (ram m3) r"
    using new_space [OF i m(1) r0, of i] m(2,3,4) by (metis Inr_inject prod.inject)
  have ri: "(roots(i \<mapsto> r)) i = Some r" by simp
  have f4': "free_pages ?ke m4 \<noteq> {}" using f m7 f6 f5 fc by blast
  have nil: "p \<in> set [] \<Longrightarrow> own p = Some i" for p :: int by simp
  obtain T4 own4 where i4: "isolated ?ke m4 T4 (roots(i \<mapsto> r)) own4" "spares i r m3 T3 own m4 T4 own4" "\<forall>p. p \<in> set os \<longrightarrow> own4 p = Some i"
    "low_kept r m3 m4" using load_segments_iso [OF i3(1) ri m(6) f4' nil] setup_segments [OF m(5) img] seg_begin_loads [of pgm] by blast
  from copy_segments_iso [OF i4(1) _ m(7)] i4(3) have i5: "isolated ?ke m5 T4 (roots(i \<mapsto> r)) own4" "spares i r m4 T4 own4 m5 T4 own4"
    and l5: "\<And>r' va. root T4 r' \<Longrightarrow> lookup (ram m5) r' va = lookup (ram m4) r' va" by blast+
  have q: "q \<noteq> 0" using m(8) kalloc_none f m7 f6 f5 by blast
  obtain T where T: "mapped ?ke r (MEMSIZE_VIRTUAL - PAGESIZE) q PTE_PWU m6 T4 rv m7 T" "isolated ?ke m7 T (roots(i \<mapsto> r)) (own4(q \<mapsto> i))"
    "spares i r m5 T4 own4 m7 T (own4(q \<mapsto> i))" using own_page [OF i5(1) ri m(8) q m(9)] by blast
  have "low_kept r m5 m7" by (rule low_kept_map [OF i5(1) m(8) q ri T(1)]) (simp add: vpre_def MEMSIZE_VIRTUAL_def PAGESIZE_def)
  moreover have "low_kept r m4 m5" using l5 isolatedD(4) [OF i4(1) ri] by (simp add: low_kept_def)
  moreover have "kernel_mapped (ram m3) r" using i3(3) f4' f4 by blast
  ultimately have k7: "kernel_mapped (ram m7) r" using kernel_mapped_low i4(4) by blast
  have "rv = 0" using T(1) f m7 unfolding mapped_def by blast
  then have "lookup (ram m7) r (MEMSIZE_VIRTUAL - PAGESIZE) = Some (0, q, PTE_PWU)" using T(1) PWU_bits(3) unfolding mapped_def by simp
  moreover have "q \<noteq> CONSOLE_ADDR" using kalloc_new(3) [OF m(8) q isolatedD(2) [OF i5(1)]] console_reserved by auto
  ultimately have "space_ok (ram m7) r" using k7 by (simp add: space_ok_def)
  moreover have "spares i r (memory s) R own m7 T (own4(q \<mapsto> i))"
    by (rule spares_trans [OF i3(2) spares_trans [OF i4(2) spares_trans [OF i5(2) T(3)]]])
  ultimately show thesis using that [of T r "own4(q \<mapsto> i)" p] T(2) m m7 iso_new_root(5) [OF i m(1) r0] by simp
qed

section \<open>Programs that load\<close>

text \<open>Programs whose segments each lie in a page below the stack.\<close>

definition small_segment :: "elf_program \<Rightarrow> bool" where
  "small_segment ph \<longleftrightarrow> PROC_START_ADDR \<le> p_va ph \<and> p_va ph + p_memsz ph \<le> MEMSIZE_VIRTUAL - PAGESIZE \<and> 0 < p_memsz ph
     \<and> p_va ph mod 4096 + p_memsz ph \<le> 4096 \<and> 0 \<le> p_filesz ph \<and> p_filesz ph \<le> p_memsz ph"

definition small_image :: "nat \<Rightarrow> elf_header \<Rightarrow> bool" where
  "small_image n elf \<longleftrightarrow> e_magic elf = ELF_MAGIC
     \<and> list_all (\<lambda>ph. p_type ph = ELF_PTYPE_LOAD \<longrightarrow> small_segment ph) (e_programs elf)
     \<and> length (filter (\<lambda>ph. p_type ph = ELF_PTYPE_LOAD) (e_programs elf)) \<le> n"

text \<open>The page of an address is one that was taken for the process.\<close>

definition backed :: "int \<Rightarrow> int list \<Rightarrow> phys \<Rightarrow> int \<Rightarrow> bool" where
  "backed r os s va \<longleftrightarrow> (\<exists>p \<in> set os. 4096 dvd p \<and> 4096 \<le> p \<and> lookup (ram s) r va = Some (0, p, PTE_PWU))"

lemma own_page_ok:
  assumes i: "isolated ke s R roots own" and r: "roots i = Some r" and va: "va_is_canonical va" "4096 dvd va" and f: "4 < card (free_pages ke s)"
  obtains p u t T where "kalloc ke PAGESIZE s = (p, u)" "p \<noteq> 0" "memory_map ke r va p PTE_PWU u = Inr (0, t)"
    "mapped ke r va p PTE_PWU u R 0 t T" "isolated ke t T roots (own(p \<mapsto> i))" "card (free_pages ke s) \<le> card (free_pages ke t) + 4"
    "lookup (ram t) r va = Some (0, p, PTE_PWU)" "\<forall>vb. vpre vb 0 \<noteq> vpre va 0 \<longrightarrow> lookup (ram t) r vb = lookup (ram s) r vb"
proof -
  obtain p u where k: "kalloc ke PAGESIZE s = (p, u)" by (cases "kalloc ke PAGESIZE s")
  have p: "p \<noteq> 0" using kalloc_none [of ke s u] k f by auto
  note u = iso_kalloc [OF i k p, of i]
  obtain rv t T where m: "memory_map ke r va p PTE_PWU u = Inr (rv, t)" "mapped ke r va p PTE_PWU u R rv t T"
    by (rule isolated_map_ok [OF u r va allocated_page [OF k p] PWU_bits(1,2)])
  have ri: "root R r" by (rule isolatedD(4) [OF i r])
  have "card (free_pages ke u) \<le> card (free_pages ke t) + wlevel (ram u) r va" using m(2) unfolding mapped_def by blast
  then have c: "card (free_pages ke s) \<le> card (free_pages ke t) + 4"
    using kalloc_free_card [OF k p] wlevel_bound [OF isolatedD(1) [OF u] ri, of va] by simp
  then have "free_pages ke t \<noteq> {}" using f by auto
  then have rv: "rv = 0" using m(2) unfolding mapped_def by blast
  have l: "lookup (ram t) r va = Some (0, p, PTE_PWU)" using m(2) rv PWU_bits(3) unfolding mapped_def by simp
  have o: "lookup (ram t) r vb = lookup (ram s) r vb" if "vpre vb 0 \<noteq> vpre va 0" for vb
    using m(2) ri that kalloc_lookup(2) [OF isolatedD(1,2) [OF i] k p ri, of vb] unfolding mapped_def by metis
  have "isolated ke t T roots (own(p \<mapsto> i))" by (rule iso_mapped [OF u r m(2)]) simp
  then show thesis using that k p m rv c l o by blast
qed

lemma page_number:
  assumes "4096 dvd a" and "0 \<le> a" and "a \<le> va" "va < a + 4096" and "va < 2 ^ 47"
  shows "vpre va 0 = vpre a 0"
proof -
  have "4096 * (va div 4096) = a" using page_of_in [OF assms(1,3,4)] by (simp add: page_of_def minus_mod_eq_mult_div)
  then show ?thesis using assms by (simp add: vpre_def)
qed

lemma segment_page:
  assumes "small_segment seg"
  defines "a \<equiv> round_down (p_va seg) PAGESIZE"
  shows "va_is_canonical a" "4096 dvd a" "a < p_va seg + p_memsz seg" "(p_va seg + p_memsz seg) mod 2 ^ 64 = p_va seg + p_memsz seg"
    "p_va seg + p_memsz seg \<le> a + PAGESIZE" "vpre (p_va seg) 0 = vpre a 0" "va_is_canonical (p_va seg)"
proof -
  have b: "0x100000 \<le> p_va seg" "p_va seg + p_memsz seg \<le> 0x2FF000" "0 < p_memsz seg" "p_va seg mod 4096 + p_memsz seg \<le> 4096"
    using assms(1) by (auto simp: small_segment_def PROC_START_ADDR_def MEMSIZE_VIRTUAL_def PAGESIZE_def)
  have a: "a = p_va seg - p_va seg mod 4096" by (simp add: a_def round_down_def PAGESIZE_def)
  have m: "0 \<le> p_va seg mod 4096" "p_va seg mod 4096 < 4096" by simp_all
  show d: "4096 dvd a" unfolding a by (simp add: minus_mod_eq_mult_div)
  show "(p_va seg + p_memsz seg) mod 2 ^ 64 = p_va seg + p_memsz seg" using b by simp
  show "va_is_canonical a" "va_is_canonical (p_va seg)" using b a m by (auto simp: va_is_canonical_def)
  show "a < p_va seg + p_memsz seg" "p_va seg + p_memsz seg \<le> a + PAGESIZE" using b a m by (auto simp: PAGESIZE_def)
  show "vpre (p_va seg) 0 = vpre a 0" by (rule page_number [OF d]) (use a b m in auto)
qed

lemma segment_address:
  assumes "small_segment seg" and "0 \<le> k" "k < p_memsz seg"
  shows "vpre (p_va seg + k) 0 = vpre (round_down (p_va seg) PAGESIZE) 0" "(p_va seg + k) mod 4096 = p_va seg mod 4096 + k"
proof -
  have b: "0x100000 \<le> p_va seg" "p_va seg + p_memsz seg \<le> 0x2FF000" "p_va seg mod 4096 + p_memsz seg \<le> 4096"
    using assms(1) by (auto simp: small_segment_def PROC_START_ADDR_def MEMSIZE_VIRTUAL_def PAGESIZE_def)
  have a: "round_down (p_va seg) PAGESIZE = p_va seg - p_va seg mod 4096" by (simp add: round_down_def PAGESIZE_def)
  have m: "0 \<le> p_va seg mod 4096" by simp
  have d: "4096 dvd round_down (p_va seg) PAGESIZE" by (rule segment_page(2) [OF assms(1)])
  show "vpre (p_va seg + k) 0 = vpre (round_down (p_va seg) PAGESIZE) 0" by (rule page_number [OF d]) (use a b m assms(2,3) in auto)
  have "page_of (p_va seg + k) = round_down (p_va seg) PAGESIZE" by (rule page_of_in [OF d]) (use a b m assms(2,3) in auto)
  then show "(p_va seg + k) mod 4096 = p_va seg mod 4096 + k" by (simp add: page_of_def a)
qed

lemma load_segment_ok:
  assumes i: "isolated ke s R roots own" and r: "roots i = Some r" and seg: "small_segment seg" and f: "4 < card (free_pages ke s)"
  obtains p t T own' where
    "load_pages ke r (round_down (p_va seg) PAGESIZE) ((p_va seg + p_memsz seg) mod 2 ^ 64) os s = Inr (p # os, t)"
    "isolated ke t T roots own'" "card (free_pages ke s) \<le> card (free_pages ke t) + 4" "backed r (p # os) t (p_va seg)"
    "\<forall>va. backed r os s va \<longrightarrow> backed r (p # os) t va" "\<forall>q. own q = Some i \<longrightarrow> own' q = Some i" "own' p = Some i"
proof -
  let ?a = "round_down (p_va seg) PAGESIZE"
  note sp = segment_page [OF seg]
  obtain p u t T where o: "kalloc ke PAGESIZE s = (p, u)" "p \<noteq> 0" "memory_map ke r ?a p PTE_PWU u = Inr (0, t)"
    "mapped ke r ?a p PTE_PWU u R 0 t T" "isolated ke t T roots (own(p \<mapsto> i))" "card (free_pages ke s) \<le> card (free_pages ke t) + 4"
    "lookup (ram t) r ?a = Some (0, p, PTE_PWU)" "\<forall>vb. vpre vb 0 \<noteq> vpre ?a 0 \<longrightarrow> lookup (ram t) r vb = lookup (ram s) r vb"
    by (rule own_page_ok [OF i r sp(1,2) f])
  have stop: "load_pages ke r (?a + PAGESIZE) (p_va seg + p_memsz seg) (p # os) t = Inr (p # os, t)" using sp(5) by (subst load_pages.simps) simp
  have code: "load_pages ke r ?a ((p_va seg + p_memsz seg) mod 2 ^ 64) os s = Inr (p # os, t)"
    unfolding sp(4) using sp(3) o(1,3) stop by (subst load_pages.simps) simp
  have here: "lookup (ram t) r vb = Some (0, p, PTE_PWU)" if "vpre vb 0 = vpre ?a 0" for vb using o(7) lookup_cong [OF that] by simp
  have p: "4096 dvd p" "4096 \<le> p" using kalloc_page [OF o(1,2)] by auto
  have "backed r (p # os) t (p_va seg)" using here sp(6) p by (auto simp: backed_def)
  moreover have "backed r (p # os) t va" if "backed r os s va" for va
  proof (cases "vpre va 0 = vpre ?a 0")
    case True
    then show ?thesis using here p by (auto simp: backed_def)
  next
    case False
    then show ?thesis using that o(8) by (auto simp: backed_def)
  qed
  ultimately show thesis by (intro that [OF code o(5,6)]) auto
qed

lemma load_segments_ok:
  assumes "isolated ke s R roots own" and "roots i = Some r" and "segs = [] \<or> p_type (hd segs) = ELF_PTYPE_LOAD"
    and "list_all (\<lambda>ph. p_type ph = ELF_PTYPE_LOAD \<longrightarrow> small_segment ph) segs"
    and "4 * length (filter (\<lambda>ph. p_type ph = ELF_PTYPE_LOAD) segs) < card (free_pages ke s)"
    and "\<And>p. p \<in> set os \<Longrightarrow> own p = Some i"
  shows "\<exists>os' t T own'. load_segments ke r segs os s = Inr (os', t) \<and> isolated ke t T roots own'
    \<and> card (free_pages ke s) \<le> card (free_pages ke t) + 4 * length (filter (\<lambda>ph. p_type ph = ELF_PTYPE_LOAD) segs)
    \<and> (\<forall>va. backed r os s va \<longrightarrow> backed r os' t va) \<and> (\<forall>ph \<in> set segs. p_type ph = ELF_PTYPE_LOAD \<longrightarrow> backed r os' t (p_va ph))
    \<and> (\<forall>p \<in> set os'. own' p = Some i)"
  using assms
proof (induction ke r segs os s arbitrary: R own rule: load_segments.induct)
  case (1 ke r os s)
  then show ?case by auto
next
  case (2 ke r seg segs os s)
  let ?n = "length (filter (\<lambda>ph. p_type ph = ELF_PTYPE_LOAD) segs)"
  have seg: "p_type seg = ELF_PTYPE_LOAD" "small_segment seg" using 2(4,5) by auto
  have f: "4 * ?n + 4 < card (free_pages ke s)" using 2(6) seg by simp
  obtain p t T own' where l: "load_pages ke r (round_down (p_va seg) PAGESIZE) ((p_va seg + p_memsz seg) mod 2 ^ 64) os s = Inr (p # os, t)"
    "isolated ke t T roots own'" "card (free_pages ke s) \<le> card (free_pages ke t) + 4" "backed r (p # os) t (p_va seg)"
    "\<forall>va. backed r os s va \<longrightarrow> backed r (p # os) t va" "\<forall>q. own q = Some i \<longrightarrow> own' q = Some i" "own' p = Some i"
    by (rule load_segment_ok [OF 2(2,3) seg(2), of os]) (use f in auto)
  have n: "length (filter (\<lambda>ph. p_type ph = ELF_PTYPE_LOAD) (seg_fix segs)) = ?n" by (simp add: seg_fix_loads(2))
  have all: "list_all (\<lambda>ph. p_type ph = ELF_PTYPE_LOAD \<longrightarrow> small_segment ph) (seg_fix segs)"
    using 2(5) seg_fix_set [of segs] by (auto simp: list_all_iff)
  have f': "4 * length (filter (\<lambda>ph. p_type ph = ELF_PTYPE_LOAD) (seg_fix segs)) < card (free_pages ke t)" unfolding n using f l(3) by simp
  have os: "own' q = Some i" if "q \<in> set (p # os)" for q using that 2(7) l(6,7) by auto
  from 2(1) [OF l(1) refl l(2) 2(3) seg_fix_loads(1) all f' os] obtain os' u U own'' where u: "load_segments ke r (seg_fix segs) (p # os) t = Inr (os', u)"
    "isolated ke u U roots own''" "card (free_pages ke t) \<le> card (free_pages ke u) + 4 * ?n"
    "\<forall>va. backed r (p # os) t va \<longrightarrow> backed r os' u va" "\<forall>ph \<in> set (seg_fix segs). p_type ph = ELF_PTYPE_LOAD \<longrightarrow> backed r os' u (p_va ph)"
    "\<forall>p \<in> set os'. own'' p = Some i" unfolding n by blast
  have "backed r os' u (p_va ph)" if "ph \<in> set (seg # segs)" "p_type ph = ELF_PTYPE_LOAD" for ph
  proof (cases "ph = seg")
    case False
    then have "ph \<in> set (filter (\<lambda>ph. p_type ph = ELF_PTYPE_LOAD) segs)" using that by auto
    then show ?thesis using u(5) by (subst (asm) seg_fix_loads(2) [symmetric]) auto
  qed (use l(4) u(4) in auto)
  then show ?case using u l(1,3,5) seg(1) by (intro exI [of _ os'] exI [of _ u] exI [of _ U] exI [of _ own'']) auto
qed

lemma write_own_ok:
  assumes "p \<in> set os" "4096 dvd p" "4096 \<le> p" and "0 \<le> o'" "o' + n \<le> 4096" and "0 \<le> n"
  shows "\<exists>t. write_own os (p + o') n f s = Inr t"
proof (cases "0 < n")
  case True
  obtain k where k: "p = 4096 * k" using assms(2) by (elim dvdE)
  have "(p + o') div 4096 = k" "(p + o' + n - 1) div 4096 = k" using assms True k by (auto intro!: int_div_pos_eq [where r = "o'"] int_div_pos_eq [where r = "o' + n - 1"])
  moreover have "k * 4096 \<in> set os" "k \<noteq> 0" using assms k by (auto simp: mult.commute)
  ultimately show ?thesis using True by (simp add: write_own_def PAGESIZE_def)
qed (simp add: write_own_def)

lemma copy_segments_ok:
  assumes "isolated ke s R roots own" and "roots i = Some r" and "\<And>p. p \<in> set os \<Longrightarrow> own p = Some i"
    and "segs = [] \<or> p_type (hd segs) = ELF_PTYPE_LOAD" and "list_all (\<lambda>ph. p_type ph = ELF_PTYPE_LOAD \<longrightarrow> small_segment ph) segs"
    and "\<forall>ph \<in> set segs. p_type ph = ELF_PTYPE_LOAD \<longrightarrow> backed r os s (p_va ph)"
  shows "\<exists>t. copy_segments img r os segs s = Inr t"
  using assms
proof (induction img r os segs s rule: copy_segments.induct)
  case (1 img r os s)
  then show ?case by simp
next
  case (2 img r os seg segs s)
  have seg: "p_type seg = ELF_PTYPE_LOAD" "small_segment seg" using 2(5,6) by auto
  have size: "0 \<le> p_memsz seg" "p_va seg mod 4096 + p_memsz seg \<le> 4096" "0 \<le> p_filesz seg" "p_va seg mod 4096 + p_filesz seg \<le> 4096"
    using seg(2) by (auto simp: small_segment_def)
  obtain p where p: "p \<in> set os" "4096 dvd p" "4096 \<le> p" "lookup (ram s) r (p_va seg) = Some (0, p, PTE_PWU)"
    using 2(7) seg(1) by (auto simp: backed_def)
  note ri = isolatedD(4) [OF 2(2,3)]
  have v: "memory_virtual_to_physical r (p_va seg) u = Inr (p + p_va seg mod 4096)"
    if "isolated ke u R roots own" "lookup (ram u) r (p_va seg) = Some (0, p, PTE_PWU)" for u
    using virtual_to_physical [OF isolatedD(1) [OF that(1)] ri segment_page(7) [OF seg(2)]] that(2) by simp
  obtain s1 where s1: "write_own os (p + p_va seg mod 4096) (p_memsz seg) (\<lambda>i. 0) s = Inr s1"
    using write_own_ok [OF p(1-3) _ size(2,1)] by (metis pos_mod_sign zero_less_numeral)
  have w1: "isolated ke s1 R roots own" "\<And>va. lookup (ram s1) r va = lookup (ram s) r va" using write_own_iso [OF 2(2) _ s1] 2(4) ri by blast+
  let ?f = "\<lambda>i. case img of None \<Rightarrow> 0 | Some elf \<Rightarrow> e_bytes elf (p_offset seg + i)"
  obtain s2 where s2: "write_own os (p + p_va seg mod 4096) (p_filesz seg) ?f s1 = Inr s2"
    using write_own_ok [OF p(1-3) _ size(4,3)] by (metis pos_mod_sign zero_less_numeral)
  have w2: "isolated ke s2 R roots own" "\<And>va. lookup (ram s2) r va = lookup (ram s1) r va" using write_own_iso [OF w1(1) _ s2] 2(4) ri by blast+
  have l: "lookup (ram s1) r va = lookup (ram s) r va" "lookup (ram s2) r va = lookup (ram s) r va" for va
    using w1(2) w2(2) by auto
  have v1: "memory_virtual_to_physical r (p_va seg) s1 = Inr (p + p_va seg mod 4096)" by (rule v [OF w1(1)]) (use l(1) [of "p_va seg"] p(4) in simp)
  have b: "\<forall>ph \<in> set (seg_fix segs). p_type ph = ELF_PTYPE_LOAD \<longrightarrow> backed r os s2 (p_va ph)"
    using 2(7) seg_fix_set [of segs] unfolding backed_def l by auto
  have all: "list_all (\<lambda>ph. p_type ph = ELF_PTYPE_LOAD \<longrightarrow> small_segment ph) (seg_fix segs)"
    using 2(6) seg_fix_set [of segs] by (auto simp: list_all_iff)
  have "\<exists>t. copy_segments img r os (seg_fix segs) s2 = Inr t"
    by (rule 2(1) [OF v [OF 2(2) p(4)] s1 v1 s2 w2(1) 2(3,4) seg_fix_loads(1) all b])
  then show ?case using v [OF 2(2) p(4)] s1 v1 s2 by simp
qed

lemma program_image_ok:
  assumes "\<And>elf. (name, elf) \<in> set imgs \<Longrightarrow> small_image n elf"
  obtains pgm where "program_image imgs (program_number imgs name) = Inr pgm" "pgm = None \<or> (\<exists>elf. pgm = Some elf \<and> small_image n elf)"
proof -
  consider "program_number imgs name = - 1" | k where "k < length imgs" "program_number imgs name = int k" "fst (imgs ! k) = name"
    using program_number_from [of 0 imgs name] unfolding program_number_def by auto
  then show thesis
  proof cases
    case 1
    then show ?thesis using that [of None] by (simp add: program_image_def)
  next
    case (2 k)
    then have "(name, snd (imgs ! k)) \<in> set imgs" by (metis nth_mem prod.collapse)
    from assms [OF this] show ?thesis using that [of "Some (snd (imgs ! k))"] 2 by (simp add: program_image_def small_image_def)
  qed
qed

lemma process_setup_ok:
  assumes i: "isolated (kernel_end ld) (memory s) R roots own" and f: "4 * n + 8 < card (free_pages (kernel_end ld) (memory s))"
    and img: "\<And>elf. (name, elf) \<in> set (images ld) \<Longrightarrow> small_image n elf"
  shows "\<exists>s'. process_setup ld i name s = Inr s' \<and> card (free_pages (kernel_end ld) (memory s)) \<le> card (free_pages (kernel_end ld) (memory s')) + 4 * n + 8"
proof -
  let ?ke = "kernel_end ld"
  obtain r m0 where k: "kalloc_pagetable ?ke (memory s) = (r, m0)" by (cases "kalloc_pagetable ?ke (memory s)")
  have r0: "r \<noteq> 0"
  proof
    assume "r = 0"
    then have "free_pages ?ke (memory s) = {}" using k kalloc_none [of ?ke "memory s"]
      by (auto simp: kalloc_pagetable_def split: prod.splits)
    then show False using f by simp
  qed
  obtain m1 m2 m3 T3 where m: "memory_foreach r PROC_START_ADDR (map_to_kernel_space ?ke) m0 = Inr m1" "map_to_nobody ?ke r 0 m1 = Inr (True, m2)"
    "map_to_user_space ?ke r CONSOLE_ADDR m2 = Inr (True, m3)" "isolated ?ke m3 T3 (roots(i \<mapsto> r)) own"
    "card (free_pages ?ke (memory s)) \<le> card (free_pages ?ke m3) + 4"
    by (rule new_space [OF i k r0, of i]) blast
  have ri: "(roots(i \<mapsto> r)) i = Some r" by simp
  obtain pgm where pgm: "program_image (images ld) (program_number (images ld) name) = Inr pgm" "pgm = None \<or> (\<exists>elf. pgm = Some elf \<and> small_image n elf)"
    by (rule program_image_ok [OF img])
  define loads where "loads = filter (\<lambda>ph. p_type ph = ELF_PTYPE_LOAD) (seg_begin pgm)"
  have segs: "list_all (\<lambda>ph. p_type ph = ELF_PTYPE_LOAD \<longrightarrow> small_segment ph) (seg_begin pgm)" "length loads \<le> n"
    using pgm(2) seg_fix_set seg_fix_loads(2) unfolding loads_def by (fastforce simp: seg_begin_def small_image_def list_all_iff)+
  have f3: "4 * length loads < card (free_pages ?ke m3)" using f m(5) segs(2) by simp
  have nil: "p \<in> set [] \<Longrightarrow> own p = Some i" for p :: int by simp
  from load_segments_ok [OF m(4) ri seg_begin_loads segs(1) f3 [unfolded loads_def] nil] obtain os m4 T4 own4 where m4: "load_segments ?ke r (seg_begin pgm) [] m3 = Inr (os, m4)"
    "isolated ?ke m4 T4 (roots(i \<mapsto> r)) own4" "card (free_pages ?ke m3) \<le> card (free_pages ?ke m4) + 4 * length loads"
    "\<forall>ph \<in> set (seg_begin pgm). p_type ph = ELF_PTYPE_LOAD \<longrightarrow> backed r os m4 (p_va ph)" "\<And>p. p \<in> set os \<Longrightarrow> own4 p = Some i"
    unfolding loads_def by blast
  obtain m5 where m5: "copy_segments pgm r os (seg_begin pgm) m4 = Inr m5" using copy_segments_ok [OF m4(2) ri m4(5) seg_begin_loads segs(1) m4(4)] by blast
  have i5: "isolated ?ke m5 T4 (roots(i \<mapsto> r)) own4" "free_pages ?ke m5 = free_pages ?ke m4" using copy_segments_iso [OF m4(2,5) m5] by blast+
  have f5: "4 < card (free_pages ?ke m5)" using f m(5) m4(3) i5(2) segs(2) by simp
  have va: "va_is_canonical (MEMSIZE_VIRTUAL - PAGESIZE)" "4096 dvd MEMSIZE_VIRTUAL - PAGESIZE"
    by (simp_all add: va_is_canonical_def MEMSIZE_VIRTUAL_def PAGESIZE_def)
  obtain q m6 m7 where m7: "kalloc ?ke PAGESIZE m5 = (q, m6)" "memory_map ?ke r (MEMSIZE_VIRTUAL - PAGESIZE) q PTE_PWU m6 = Inr (0, m7)"
    "card (free_pages ?ke m5) \<le> card (free_pages ?ke m7) + 4"
    by (rule own_page_ok [OF i5(1) ri va f5]) blast
  have "card (free_pages ?ke (memory s)) \<le> card (free_pages ?ke m7) + 4 * n + 8" using m(5) m4(3) i5(2) m7(3) segs(2) by simp
  then show ?thesis unfolding process_setup_def Let_def using k m(1-3) pgm(1) m4(1) m5 m7(1,2) by (simp add: set_proc_def)
qed

end
