(* ===== verification/Process_Image.thy ===== *)
theory Process_Image
  imports Process_Setup
begin

text \<open>
  What \<^verbatim>\<open>process_setup\<close> of \<^verbatim>\<open>src/mini-operating-system/kernel.c\<close> leaves in the memory of the new process: the bytes of the
  segments of its image, when no two of them share a page.
\<close>

unbundle bit_operations_syntax

section \<open>What is loaded\<close>

text \<open>The byte of a segment: from the file, and zero after it.\<close>

definition segment_byte :: "elf_header option \<Rightarrow> elf_program \<Rightarrow> int \<Rightarrow> byte" where
  "segment_byte img ph k = (if k < p_filesz ph then (case img of None \<Rightarrow> 0 | Some elf \<Rightarrow> e_bytes elf (p_offset ph + k)) else 0)"

definition segment_at :: "elf_header option \<Rightarrow> (int \<Rightarrow> byte) \<Rightarrow> int \<Rightarrow> elf_program \<Rightarrow> bool" where
  "segment_at img m p ph \<longleftrightarrow> (\<forall>k. 0 \<le> k \<and> k < p_memsz ph \<longrightarrow> m (p + p_va ph mod 4096 + k) = segment_byte img ph k)"

lemma write_own_ram:
  "write_own os d n f s = Inr t \<Longrightarrow> ram t x = (if d \<le> x \<and> x < d + n then f (x - d) else ram s x)"
  by (auto simp: write_own_def split: if_splits)

text \<open>One segment: the two writes fill it and touch no other page.\<close>

lemma segment_written:
  assumes seg: "small_segment seg" and p: "4096 dvd p"
    and w: "write_own os (p + p_va seg mod 4096) (p_memsz seg) (\<lambda>i. 0) s = Inr s1"
      "write_own os (p + p_va seg mod 4096) (p_filesz seg) (\<lambda>i. case img of None \<Rightarrow> 0 | Some elf \<Rightarrow> e_bytes elf (p_offset seg + i)) s1 = Inr s2"
  shows "segment_at img (ram s2) p seg" "page_of x \<noteq> p \<Longrightarrow> ram s2 x = ram s x"
proof -
  have b: "0 \<le> p_filesz seg" "p_filesz seg \<le> p_memsz seg" "p_va seg mod 4096 + p_memsz seg \<le> 4096" "0 \<le> p_va seg mod 4096"
    using seg by (auto simp: small_segment_def)
  show "segment_at img (ram s2) p seg"
    by (auto simp: segment_at_def segment_byte_def write_own_ram [OF w(2)] write_own_ram [OF w(1)] split: option.splits)
  show "ram s2 x = ram s x" if "page_of x \<noteq> p"
  proof -
    have "\<not> (p \<le> x \<and> x < p + 4096)" using that page_of_in [OF p] by blast
    then show ?thesis using b by (auto simp: write_own_ram [OF w(2)] write_own_ram [OF w(1)])
  qed
qed

lemma segment_page_of:
  assumes "small_segment ph" and "4096 dvd p" and "0 \<le> k" "k < p_memsz ph"
  shows "page_of (p + p_va ph mod 4096 + k) = p"
proof (rule page_of_in [OF assms(2)])
  have "p_va ph mod 4096 + p_memsz ph \<le> 4096" "0 \<le> p_va ph mod 4096" using assms(1) by (auto simp: small_segment_def)
  then show "p \<le> p + p_va ph mod 4096 + k" "p + p_va ph mod 4096 + k < p + 4096" using assms(3,4) by auto
qed

lemma segment_at_frame:
  assumes "segment_at img m p ph" and "small_segment ph" and "4096 dvd p" and "\<And>x. page_of x = p \<Longrightarrow> m' x = m x"
  shows "segment_at img m' p ph"
  using assms segment_page_of [OF assms(2,3)] unfolding segment_at_def by metis

definition own_pages :: "elf_program list \<Rightarrow> bool" where
  "own_pages phs \<longleftrightarrow> distinct (map (\<lambda>ph. vpre (p_va ph) 0) (filter (\<lambda>ph. p_type ph = ELF_PTYPE_LOAD) phs))"

lemma copy_segments_loads:
  assumes "isolated ke s R roots own" and "roots i = Some r" and "\<And>p. p \<in> set os \<Longrightarrow> own p = Some i"
    and "segs = [] \<or> p_type (hd segs) = ELF_PTYPE_LOAD" and "list_all (\<lambda>ph. p_type ph = ELF_PTYPE_LOAD \<longrightarrow> small_segment ph) segs"
    and "\<forall>ph \<in> set segs. p_type ph = ELF_PTYPE_LOAD \<longrightarrow> backed r os s (p_va ph)" and "uniq r s" and "own_pages segs"
    and "copy_segments img r os segs s = Inr t"
  shows "(\<forall>x. (\<forall>ph \<in> set segs. p_type ph = ELF_PTYPE_LOAD \<longrightarrow> lookup (ram s) r (p_va ph) \<noteq> Some (0, page_of x, PTE_PWU)) \<longrightarrow> ram t x = ram s x)
    \<and> (\<forall>ph \<in> set segs. \<forall>p. p_type ph = ELF_PTYPE_LOAD \<and> lookup (ram s) r (p_va ph) = Some (0, p, PTE_PWU) \<longrightarrow> segment_at img (ram t) p ph)"
  using assms
proof (induction img r os segs s rule: copy_segments.induct)
  case (1 img r os s)
  then show ?case by simp
next
  case (2 img r os seg segs s)
  have seg: "p_type seg = ELF_PTYPE_LOAD" "small_segment seg" using 2(5,6) by auto
  obtain p where p: "p \<in> set os" "4096 dvd p" "lookup (ram s) r (p_va seg) = Some (0, p, PTE_PWU)" using 2(7) seg(1) by (auto simp: backed_def)
  note ri = isolatedD(4) [OF 2(2,3)]
  have v: "memory_virtual_to_physical r (p_va seg) u = Inr (p + p_va seg mod 4096)"
    if "isolated ke u R roots own" "lookup (ram u) r (p_va seg) = Some (0, p, PTE_PWU)" for u
    using virtual_to_physical [OF isolatedD(1) [OF that(1)] ri segment_page(7) [OF seg(2)]] that(2) by simp
  let ?f = "\<lambda>i. case img of None \<Rightarrow> 0 | Some elf \<Rightarrow> e_bytes elf (p_offset seg + i)"
  from 2(10) v [OF 2(2) p(3)] obtain s1 d where s1: "write_own os (p + p_va seg mod 4096) (p_memsz seg) (\<lambda>i. 0) s = Inr s1"
    and d: "memory_virtual_to_physical r (p_va seg) s1 = Inr d" by (auto simp: kbind_eq_Inr)
  have w1: "isolated ke s1 R roots own" "\<And>va. lookup (ram s1) r va = lookup (ram s) r va" using write_own_iso [OF 2(2) _ s1] 2(4) ri by blast+
  have v1: "memory_virtual_to_physical r (p_va seg) s1 = Inr (p + p_va seg mod 4096)" by (rule v [OF w1(1)]) (use w1(2) p(3) in simp)
  from 2(10) v [OF 2(2) p(3)] s1 v1 obtain s2 where s2: "write_own os (p + p_va seg mod 4096) (p_filesz seg) ?f s1 = Inr s2"
    and rest: "copy_segments img r os (seg_fix segs) s2 = Inr t" by (auto simp: kbind_eq_Inr)
  have w2: "isolated ke s2 R roots own" "\<And>va. lookup (ram s2) r va = lookup (ram s1) r va" using write_own_iso [OF w1(1) _ s2] 2(4) ri by blast+
  have l: "lookup (ram s2) r va = lookup (ram s) r va" for va using w1(2) w2(2) by simp
  note here = segment_written [OF seg(2) p(2) s1 s2]
  have b: "\<forall>ph \<in> set (seg_fix segs). p_type ph = ELF_PTYPE_LOAD \<longrightarrow> backed r os s2 (p_va ph)"
    using 2(7) seg_fix_set [of segs] unfolding backed_def l by auto
  have all: "list_all (\<lambda>ph. p_type ph = ELF_PTYPE_LOAD \<longrightarrow> small_segment ph) (seg_fix segs)"
    using 2(6) seg_fix_set [of segs] by (auto simp: list_all_iff)
  have own: "own_pages (seg_fix segs)" and new: "\<forall>ph \<in> set segs. p_type ph = ELF_PTYPE_LOAD \<longrightarrow> vpre (p_va ph) 0 \<noteq> vpre (p_va seg) 0"
    using 2(9) seg(1) by (auto simp: own_pages_def seg_fix_loads(2) image_iff)
  have IH: "(\<forall>x. (\<forall>ph \<in> set (seg_fix segs). p_type ph = ELF_PTYPE_LOAD \<longrightarrow> lookup (ram s2) r (p_va ph) \<noteq> Some (0, page_of x, PTE_PWU)) \<longrightarrow> ram t x = ram s2 x)
    \<and> (\<forall>ph \<in> set (seg_fix segs). \<forall>p. p_type ph = ELF_PTYPE_LOAD \<and> lookup (ram s2) r (p_va ph) = Some (0, p, PTE_PWU) \<longrightarrow> segment_at img (ram t) p ph)"
    by (rule 2(1) [OF v [OF 2(2) p(3)] s1 v1 s2 w2(1) 2(3,4) seg_fix_loads(1) all b uniq_same [OF l 2(8)] own rest])
  have in_fix: "ph \<in> set (seg_fix segs)" if "ph \<in> set segs" "p_type ph = ELF_PTYPE_LOAD" for ph
  proof -
    have "ph \<in> set (filter (\<lambda>ph. p_type ph = ELF_PTYPE_LOAD) (seg_fix segs))" unfolding seg_fix_loads(2) using that by simp
    then show ?thesis by simp
  qed
  have con: "p \<noteq> CONSOLE_ADDR" using isolatedD(7) [OF 2(2) 2(4) [OF p(1)]] console_reserved by auto
  have "segment_at img (ram t) p seg"
  proof (rule segment_at_frame [OF here(1) seg(2) p(2)])
    fix x assume x: "page_of x = p"
    have "lookup (ram s2) r (p_va ph) \<noteq> Some (0, p, PTE_PWU)" if "ph \<in> set (seg_fix segs)" "p_type ph = ELF_PTYPE_LOAD" for ph
      using new that seg_fix_set [of segs] 2(8) p(3) con unfolding uniq_def l by blast
    then show "ram t x = ram s2 x" using IH x by blast
  qed
  then have "segment_at img (ram t) q ph" if "ph \<in> set (seg # segs)" "p_type ph = ELF_PTYPE_LOAD" "lookup (ram s) r (p_va ph) = Some (0, q, PTE_PWU)" for ph q
    using that p(3) IH in_fix unfolding l by (cases "ph = seg") auto
  moreover have "ram t x = ram s x"
    if "\<forall>ph \<in> set (seg # segs). p_type ph = ELF_PTYPE_LOAD \<longrightarrow> lookup (ram s) r (p_va ph) \<noteq> Some (0, page_of x, PTE_PWU)" for x
  proof -
    have "ram t x = ram s2 x" using that IH seg_fix_set [of segs] unfolding l by (meson list.set_intros(2) subsetD)
    moreover have "page_of x \<noteq> p" using that seg(1) p(3) by auto
    ultimately show ?thesis using here(2) by simp
  qed
  ultimately show ?case by blast
qed

lemma PWU_user: "PTE_PWU AND PTE_U \<noteq> 0"
  by (simp add: pte_defs)

lemma uniq_new:
  assumes "isolated ke s R roots own" and "roots i = Some r" and "\<And>p. own p \<noteq> Some i"
  shows "uniq r s"
  unfolding uniq_def using isolatedD(10) [OF assms(1,2)] assms(3) PWU_user by blast

lemma process_setup_regs:
  assumes c: "process_setup ld i name s = Inr s'" and pgm: "program_image (images ld) (program_number (images ld) name) = Inr (Some elf)"
    and len: "i < length (ptable s)"
  shows "reg_rip (regs (ptable s' ! i)) = e_entry elf \<and> reg_rsp (regs (ptable s' ! i)) = MEMSIZE_VIRTUAL"
  using c unfolding process_setup_def Let_def case_prod_beta
  by (auto simp: kbind_eq_Inr pgm image_entry_def set_proc_def len PAGESIZE_def)

lemma process_setup_loads:
  assumes i: "isolated (kernel_end ld) (memory s) R roots own" and fresh: "\<And>p. own p \<noteq> Some i" and len: "i < length (ptable s)"
    and f: "4 * n + 8 < card (free_pages (kernel_end ld) (memory s))" and img: "\<And>elf. (name, elf) \<in> set (images ld) \<Longrightarrow> small_image n elf"
    and pgm: "program_image (images ld) (program_number (images ld) name) = Inr (Some elf)" and own: "own_pages (e_programs elf)"
    and c: "process_setup ld i name s = Inr s'" and ph: "ph \<in> set (e_programs elf)" "p_type ph = ELF_PTYPE_LOAD"
  shows "\<exists>p. lookup (ram (memory s')) (pagetable (ptable s' ! i)) (p_va ph) = Some (0, p, PTE_PWU) \<and> p \<noteq> CONSOLE_ADDR
      \<and> segment_at (Some elf) (ram (memory s')) p ph
    \<and> reg_rip (regs (ptable s' ! i)) = e_entry elf \<and> reg_rsp (regs (ptable s' ! i)) = MEMSIZE_VIRTUAL"
proof -
  let ?ke = "kernel_end ld"
  let ?segs = "seg_begin (Some elf)"
  from c obtain r m0 m1 m2 m3 b2 b3 pgm' os m4 m5 q m6 rv m7 p where m:
    "kalloc_pagetable ?ke (memory s) = (r, m0)" "memory_foreach r PROC_START_ADDR (map_to_kernel_space ?ke) m0 = Inr m1"
    "map_to_nobody ?ke r 0 m1 = Inr (b2, m2)" "map_to_user_space ?ke r CONSOLE_ADDR m2 = Inr (b3, m3)"
    "program_image (images ld) (program_number (images ld) name) = Inr pgm'"
    "load_segments ?ke r (seg_begin pgm') [] m3 = Inr (os, m4)" "copy_segments pgm' r os (seg_begin pgm') m4 = Inr m5"
    "kalloc ?ke PAGESIZE m5 = (q, m6)" "memory_map ?ke r (MEMSIZE_VIRTUAL - PAGESIZE) q PTE_PWU m6 = Inr (rv, m7)"
    "s' = set_proc i p (s\<lparr>memory := m7\<rparr>)" "pagetable p = r" "state p = P_RUNNABLE" "pid p = pid (ptable s ! i)"
    by (rule process_setup_cases)
  have e: "pgm' = Some elf" using m(5) pgm by simp
  have small: "small_image n elf" using program_image_found [OF pgm] img by auto
  have r0: "r \<noteq> 0"
  proof
    assume "r = 0"
    then have "free_pages ?ke (memory s) = {}" using m(1) kalloc_none [of ?ke "memory s"] by (auto simp: kalloc_pagetable_def split: prod.splits)
    then show False using f by simp
  qed
  let ?roots = "roots(i \<mapsto> r)"
  obtain T3 where i3: "isolated ?ke m3 T3 ?roots own" "card (free_pages ?ke (memory s)) \<le> card (free_pages ?ke m3) + 4"
    using new_space [OF i m(1) r0, of i] m(2,3,4) by (metis Inr_inject prod.inject)
  have ri: "?roots i = Some r" by simp
  have loads: "filter (\<lambda>ph. p_type ph = ELF_PTYPE_LOAD) ?segs = filter (\<lambda>ph. p_type ph = ELF_PTYPE_LOAD) (e_programs elf)"
    by (simp add: seg_begin_def seg_fix_loads(2))
  have segs: "list_all (\<lambda>ph. p_type ph = ELF_PTYPE_LOAD \<longrightarrow> small_segment ph) ?segs" "length (filter (\<lambda>ph. p_type ph = ELF_PTYPE_LOAD) ?segs) \<le> n"
    "own_pages ?segs" using small seg_fix_set own unfolding loads own_pages_def by (fastforce simp: seg_begin_def small_image_def list_all_iff)+
  have f3: "4 * length (filter (\<lambda>ph. p_type ph = ELF_PTYPE_LOAD) ?segs) < card (free_pages ?ke m3)" using f i3(2) segs(2) by simp
  have nil: "p \<in> set [] \<Longrightarrow> own p = Some i" for p :: int by simp
  from load_segments_ok [OF i3(1) ri seg_begin_loads segs(1) f3 nil] obtain os1 t1 T4 own4 where l: "load_segments ?ke r ?segs [] m3 = Inr (os1, t1)"
    "isolated ?ke t1 T4 ?roots own4"
    "card (free_pages ?ke m3) \<le> card (free_pages ?ke t1) + 4 * length (filter (\<lambda>ph. p_type ph = ELF_PTYPE_LOAD) ?segs)"
    "\<forall>ph \<in> set ?segs. p_type ph = ELF_PTYPE_LOAD \<longrightarrow> backed r os1 t1 (p_va ph)" "\<And>p. p \<in> set os1 \<Longrightarrow> own4 p = Some i" by blast
  have "os1 = os" "t1 = m4" using l(1) m(6) e by auto
  note m4 = l(2-5) [unfolded this]
  have f4: "4 < card (free_pages ?ke m4)" using f i3(2) m4(2) segs(2) by simp
  then have "free_pages ?ke m4 \<noteq> {}" by auto
  then have u4: "uniq r m4" using load_segments_iso [OF i3(1) ri m(6) _ nil] uniq_new [OF i3(1) ri fresh] by blast
  have phs: "ph \<in> set ?segs"
  proof -
    have "ph \<in> set (filter (\<lambda>ph. p_type ph = ELF_PTYPE_LOAD) ?segs)" unfolding loads using ph by simp
    then show ?thesis by simp
  qed
  then obtain x where x: "x \<in> set os" "lookup (ram m4) r (p_va ph) = Some (0, x, PTE_PWU)" "4096 dvd x" using m4(3) ph(2) by (auto simp: backed_def)
  have seg: "small_segment ph" using segs(1) phs ph(2) by (auto simp: list_all_iff)
  have at5: "segment_at (Some elf) (ram m5) x ph"
    using copy_segments_loads [OF m4(1) ri _ seg_begin_loads segs(1) m4(3) u4 segs(3) m(7) [unfolded e]] m4(4) phs ph(2) x(2) by blast
  from copy_segments_iso [OF m4(1) _ m(7)] m4(4) have i5: "isolated ?ke m5 T4 ?roots own4" "free_pages ?ke m5 = free_pages ?ke m4"
    and l5: "\<And>r' va. root T4 r' \<Longrightarrow> lookup (ram m5) r' va = lookup (ram m4) r' va" by blast+
  have q: "q \<noteq> 0" using m(8) kalloc_none f4 i5(2) by auto
  obtain T where T: "mapped ?ke r (MEMSIZE_VIRTUAL - PAGESIZE) q PTE_PWU m6 T4 rv m7 T" "isolated ?ke m7 T ?roots (own4(q \<mapsto> i))"
    using own_page [OF i5(1) ri m(8) q m(9)] by blast
  note i6 = iso_kalloc [OF i5(1) m(8) q, of i]
  have same: "ram m7 y = ram m5 y" if "page_of y = x" for y
    using spares_mapped(2) [OF i6 T(2,1), of y] kalloc_keeps(1) [OF i5(1) m(8) q, of y] m4(4) [OF x(1)] that by simp
  have at7: "segment_at (Some elf) (ram m7) x ph" by (rule segment_at_frame [OF at5 seg x(3) same])
  have "vpre (p_va ph) 0 \<noteq> vpre (MEMSIZE_VIRTUAL - PAGESIZE) 0"
    using seg by (auto simp: small_segment_def vpre_def MEMSIZE_VIRTUAL_def PAGESIZE_def PROC_START_ADDR_def)
  then have "lookup (ram m7) r (p_va ph) = lookup (ram m6) r (p_va ph)" using T(1) isolatedD(4) [OF i5(1) ri] unfolding mapped_def by auto
  also have "\<dots> = lookup (ram m5) r (p_va ph)" by (rule kalloc_lookup(2) [OF isolatedD(1,2) [OF i5(1)] m(8) q isolatedD(4) [OF i5(1) ri]])
  also have "\<dots> = Some (0, x, PTE_PWU)" using l5 isolatedD(4) [OF m4(1) ri] x(2) by simp
  finally have l7: "lookup (ram m7) r (p_va ph) = Some (0, x, PTE_PWU)" .
  have "x \<noteq> CONSOLE_ADDR" using isolatedD(7) [OF m4(1) m4(4) [OF x(1)]] console_reserved by auto
  moreover have "reg_rip (regs (ptable s' ! i)) = e_entry elf \<and> reg_rsp (regs (ptable s' ! i)) = MEMSIZE_VIRTUAL"
    by (rule process_setup_regs [OF c pgm len])
  ultimately show ?thesis using l7 at7 m(10,11) len by (auto simp: set_proc_def)
qed

end
