(* ===== verification/Kernel_Boot.thy ===== *)
theory Kernel_Boot
  imports Process_Image
begin

text \<open>
  The boot of the kernel (\<^verbatim>\<open>init_kernel_memory\<close> of \<^verbatim>\<open>src/mini-operating-system/k-hardware.cc\<close> and \<^verbatim>\<open>kernel_start\<close> of
  \<^verbatim>\<open>kernel.c\<close>): the page table of the kernel, the invariant of the kernel, and that programs with small segments are started.
\<close>

unbundle bit_operations_syntax

section \<open>The page table of the kernel\<close>

text \<open>Where the linker script puts the kernel: between its start and its stack.\<close>

definition link_ok :: "linked \<Rightarrow> bool" where
  "link_ok ld \<longleftrightarrow> KERNEL_START_ADDR \<le> kernel_pagetable ld \<and> 4096 dvd kernel_pagetable ld
     \<and> kernel_pagetable ld + 5 * PAGESIZE \<le> kernel_end ld \<and> kernel_end ld \<le> KERNEL_STACK_TOP - PAGESIZE
     \<and> KERNEL_START_ADDR \<le> exception_entry ld \<and> exception_entry ld < kernel_end ld"

definition kernel_roles :: "int \<Rightarrow> roles" where
  "kernel_roles kp = [kp \<mapsto> (kp, 3, 0), kp + 4096 \<mapsto> (kp, 2, 0), kp + 8192 \<mapsto> (kp, 1, 0), kp + 12288 \<mapsto> (kp, 0, 0), kp + 16384 \<mapsto> (kp, 0, 1)]"

lemma link_bounds:
  assumes "link_ok ld"
  shows "0x40000 \<le> kernel_pagetable ld" "kernel_pagetable ld + 5 * 4096 \<le> kernel_end ld" "kernel_end ld \<le> 0x7F000"
    "4096 dvd kernel_pagetable ld" "0x40000 \<le> exception_entry ld" "exception_entry ld < kernel_end ld"
  using assms by (auto simp: link_ok_def KERNEL_START_ADDR_def KERNEL_STACK_TOP_def PAGESIZE_def)

lemma link_pages:
  assumes "link_ok ld" and "0 \<le> j" "j < 5"
  shows "page_ok (kernel_pagetable ld + 4096 * j)" "\<not> allocatable_physical_address (kernel_end ld) (kernel_pagetable ld + 4096 * j)"
proof -
  note b = link_bounds [OF assms(1)]
  show "page_ok (kernel_pagetable ld + 4096 * j)" using b assms(2,3) by (simp add: page_ok_def)
  have "kernel_end ld \<le> round_up (kernel_end ld) PAGESIZE"
    using b by (simp add: round_up_def round_down_def PAGESIZE_def)
  then show "\<not> allocatable_physical_address (kernel_end ld) (kernel_pagetable ld + 4096 * j)"
    using b assms(2,3) by (simp add: allocatable_physical_address_def KERNEL_START_ADDR_def)
qed

lemma kernel_page:
  assumes "link_ok ld"
  shows "page_ok (kernel_pagetable ld)" "page_ok (kernel_pagetable ld + 4096)" "page_ok (kernel_pagetable ld + 8192)"
    "page_ok (kernel_pagetable ld + 12288)" "page_ok (kernel_pagetable ld + 16384)"
  using link_pages(1) [OF assms, of 0] link_pages(1) [OF assms, of 1] link_pages(1) [OF assms, of 2] link_pages(1) [OF assms, of 3]
    link_pages(1) [OF assms, of 4] by simp_all

lemma kernel_roles_pages: "kernel_roles kp p \<noteq> None \<Longrightarrow> \<exists>j. 0 \<le> j \<and> j < 5 \<and> p = kp + 4096 * j"
  by (auto simp: kernel_roles_def split: if_splits intro: exI [of _ 0] exI [of _ 1] exI [of _ 2] exI [of _ 3] exI [of _ 4])

lemma kernel_tables_new:
  assumes ld: "link_ok ld" and z: "\<And>x. kernel_pagetable ld \<le> x \<Longrightarrow> x < kernel_pagetable ld + 5 * 4096 \<Longrightarrow> m x = 0"
  shows "tables m (kernel_roles (kernel_pagetable ld))"
proof -
  let ?kp = "kernel_pagetable ld"
  have e: "tables m Map.empty" by (simp add: tables_def)
  have "tables m [?kp \<mapsto> (?kp, 3, 0)]" by (rule tables_new [OF e kernel_page(1) [OF ld]]) (auto intro: z)
  then have "tables m [?kp \<mapsto> (?kp, 3, 0), ?kp + 4096 \<mapsto> (?kp, 2, 0)]"
    by (rule tables_new [OF _ kernel_page(2) [OF ld]]) (auto intro: z)
  then have "tables m [?kp \<mapsto> (?kp, 3, 0), ?kp + 4096 \<mapsto> (?kp, 2, 0), ?kp + 8192 \<mapsto> (?kp, 1, 0)]"
    by (rule tables_new [OF _ kernel_page(3) [OF ld]]) (auto intro: z)
  then have "tables m [?kp \<mapsto> (?kp, 3, 0), ?kp + 4096 \<mapsto> (?kp, 2, 0), ?kp + 8192 \<mapsto> (?kp, 1, 0), ?kp + 12288 \<mapsto> (?kp, 0, 0)]"
    by (rule tables_new [OF _ kernel_page(4) [OF ld]]) (auto intro: z)
  then show ?thesis unfolding kernel_roles_def by (rule tables_new [OF _ kernel_page(5) [OF ld]]) (auto intro: z)
qed

lemma roles_at:
  "kernel_roles kp kp = Some (kp, 3, 0)" "kernel_roles kp (kp + 4096) = Some (kp, 2, 0)" "kernel_roles kp (kp + 8192) = Some (kp, 1, 0)"
  "kernel_roles kp (kp + 12288) = Some (kp, 0, 0)" "kernel_roles kp (kp + 16384) = Some (kp, 0, 1)"
  by (simp_all add: kernel_roles_def)

lemma link_ok_entry:
  assumes "page_ok q" and "R q = Some (r, l - 1, k)"
  shows "entry_ok R r l k (q + 7)" "0 \<le> q + 7" "q + 7 < 2 ^ 64"
  using assms link_entry [OF assms(1)] by (auto simp: entry_ok_def page_ok_def)

text \<open>The tables after the assignments of \<^verbatim>\<open>init_kernel_memory\<close>.\<close>

definition kernel_links :: "int \<Rightarrow> phys \<Rightarrow> phys" where
  "kernel_links kp s =
     (let s = s\<lparr>ram := mem_fill kp 0 (5 * 4096) (ram s)\<rparr>;
          s = put64 kp (kp + 4096 + 7) s; s = put64 (kp + 4096) (kp + 8192 + 7) s; s = put64 (kp + 8192) (kp + 12288 + 7) s;
          s = put64 (kp + 8192 + 8) (kp + 16384 + 7) s; s = put64 (kp + 4096 + 8) 0x40000083 s; s = put64 (kp + 4096 + 16) 0x80000083 s
      in put64 (kp + 4096 + 24) 0xC0000083 s)"

lemma large_entry: "v \<in> {0x40000083, 0x80000083, 0xC0000083} \<Longrightarrow> entry_ok R r l k v"
  by (auto simp: entry_ok_def pte_defs)

lemma kernel_links_ok:
  assumes ld: "link_ok ld"
  defines "kp \<equiv> kernel_pagetable ld"
  shows "tables (ram (kernel_links kp s)) (kernel_roles kp)" "pages (kernel_links kp s) = pages s"
    "entry (ram (kernel_links kp s)) (slot kp 0) = kp + 4096 + 7" "entry (ram (kernel_links kp s)) (slot (kp + 4096) 0) = kp + 8192 + 7"
    "entry (ram (kernel_links kp s)) (slot (kp + 8192) 0) = kp + 12288 + 7" "entry (ram (kernel_links kp s)) (slot (kp + 8192) 1) = kp + 16384 + 7"
proof -
  let ?R = "kernel_roles kp"
  note pg = kernel_page [OF ld, folded kp_def]
  define m0 where "m0 = mem_fill kp 0 (5 * 4096) (ram s)"
  define m1 where "m1 = put_le m0 (kp + 8 * 0) 8 (kp + 4096 + 7)"
  define m2 where "m2 = put_le m1 (kp + 4096 + 8 * 0) 8 (kp + 8192 + 7)"
  define m3 where "m3 = put_le m2 (kp + 8192 + 8 * 0) 8 (kp + 12288 + 7)"
  define m4 where "m4 = put_le m3 (kp + 8192 + 8 * 1) 8 (kp + 16384 + 7)"
  define m5 where "m5 = put_le m4 (kp + 4096 + 8 * 1) 8 0x40000083"
  define m6 where "m6 = put_le m5 (kp + 4096 + 8 * 2) 8 0x80000083"
  define m7 where "m7 = put_le m6 (kp + 4096 + 8 * 3) 8 0xC0000083"
  have m: "ram (kernel_links kp s) = m7"
    by (simp add: kernel_links_def Let_def put64_def m7_def m6_def m5_def m4_def m3_def m2_def m1_def m0_def)
  show "pages (kernel_links kp s) = pages s" by (simp add: kernel_links_def Let_def put64_def)
  have r: "0 \<le> q + 7" "q + 7 < 2 ^ 64" if "page_ok q" for q using that by (auto simp: page_ok_def)
  have "tables m0 ?R" using kernel_tables_new [OF ld, folded kp_def, of m0] by (simp add: m0_def mem_fill_def)
  then have "tables m1 ?R" unfolding m1_def
    by (rule tables_put [where q = "kp" and r = kp and l = 3 and k = 0]) (use roles_at [of kp] r [OF pg(2)] link_ok_entry(1) [OF pg(2), of ?R kp 3 0] in auto)
  then have "tables m2 ?R" unfolding m2_def
    by (rule tables_put [where q = "kp + 4096" and r = kp and l = 2 and k = 0]) (use roles_at [of kp] r [OF pg(3)] link_ok_entry(1) [OF pg(3), of ?R kp 2 0] in auto)
  then have "tables m3 ?R" unfolding m3_def
    by (rule tables_put [where q = "kp + 8192" and r = kp and l = 1 and k = 0]) (use roles_at [of kp] r [OF pg(4)] link_ok_entry(1) [OF pg(4), of ?R kp 1 0] in auto)
  then have "tables m4 ?R" unfolding m4_def
    by (rule tables_put [where q = "kp + 8192" and r = kp and l = 1 and k = 0]) (use roles_at [of kp] r [OF pg(5)] link_ok_entry(1) [OF pg(5), of ?R kp 1 1] in auto)
  then have "tables m5 ?R" unfolding m5_def by (rule tables_put [where q = "kp + 4096" and r = kp and l = 2 and k = 0]) (use roles_at [of kp] in \<open>auto intro: large_entry\<close>)
  then have "tables m6 ?R" unfolding m6_def by (rule tables_put [where q = "kp + 4096" and r = kp and l = 2 and k = 0]) (use roles_at [of kp] in \<open>auto intro: large_entry\<close>)
  then have "tables m7 ?R" unfolding m7_def by (rule tables_put [where q = "kp + 4096" and r = kp and l = 2 and k = 0]) (use roles_at [of kp] in \<open>auto intro: large_entry\<close>)
  then show "tables (ram (kernel_links kp s)) ?R" by (simp add: m)
have e1: "entry m1 (slot p i) = (if p = kp \<and> i = 0 then kp + 4096 + 7 else entry m0 (slot p i))" if "page_ok p" "0 \<le> i" "i < 512" for p i
    unfolding m1_def by (rule entry_slot_put [OF that(1) pg(1) that(2,3)]) (use r [OF pg(2)] in auto)
  have e2: "entry m2 (slot p i) = (if p = kp + 4096 \<and> i = 0 then kp + 8192 + 7 else entry m1 (slot p i))" if "page_ok p" "0 \<le> i" "i < 512" for p i
    unfolding m2_def by (rule entry_slot_put [OF that(1) pg(2) that(2,3)]) (use r [OF pg(3)] in auto)
  have e3: "entry m3 (slot p i) = (if p = kp + 8192 \<and> i = 0 then kp + 12288 + 7 else entry m2 (slot p i))" if "page_ok p" "0 \<le> i" "i < 512" for p i
    unfolding m3_def by (rule entry_slot_put [OF that(1) pg(3) that(2,3)]) (use r [OF pg(4)] in auto)
  have e4: "entry m4 (slot p i) = (if p = kp + 8192 \<and> i = 1 then kp + 16384 + 7 else entry m3 (slot p i))" if "page_ok p" "0 \<le> i" "i < 512" for p i
    unfolding m4_def by (rule entry_slot_put [OF that(1) pg(3) that(2,3)]) (use r [OF pg(5)] in auto)
  have e5: "entry m5 (slot p i) = (if p = kp + 4096 \<and> i = 1 then 0x40000083 else entry m4 (slot p i))" if "page_ok p" "0 \<le> i" "i < 512" for p i
    unfolding m5_def by (rule entry_slot_put [OF that(1) pg(2) that(2,3)]) simp_all
  have e6: "entry m6 (slot p i) = (if p = kp + 4096 \<and> i = 2 then 0x80000083 else entry m5 (slot p i))" if "page_ok p" "0 \<le> i" "i < 512" for p i
    unfolding m6_def by (rule entry_slot_put [OF that(1) pg(2) that(2,3)]) simp_all
  have e7: "entry m7 (slot p i) = (if p = kp + 4096 \<and> i = 3 then 0xC0000083 else entry m6 (slot p i))" if "page_ok p" "0 \<le> i" "i < 512" for p i
    unfolding m7_def by (rule entry_slot_put [OF that(1) pg(2) that(2,3)]) simp_all
  show "entry (ram (kernel_links kp s)) (slot kp 0) = kp + 4096 + 7" "entry (ram (kernel_links kp s)) (slot (kp + 4096) 0) = kp + 8192 + 7"
    "entry (ram (kernel_links kp s)) (slot (kp + 8192) 0) = kp + 12288 + 7" "entry (ram (kernel_links kp s)) (slot (kp + 8192) 1) = kp + 16384 + 7"
    unfolding m using pg by (simp_all add: e7 e6 e5 e4 e3 e2 e1)
qed

lemma walk_link:
  assumes "page_ok p" and "page_ok q" and "entry m (slot p (pageindex va (Suc l))) = q + 7"
  shows "walk m (Suc l) p va perm = walk m l q va perm"
  using assms page_ok_ram [OF assms(1) pageindex_range] link_entry [OF assms(2)] full_perm [OF assms(2)] by (simp add: slot_def Let_def)

lemma low_index:
  assumes "vpre va 0 < 1024"
  shows "pageindex va 3 = 0" "pageindex va 2 = 0" "pageindex va 1 = vpre va 0 div 512" "vpre va 0 div 512 = 0 \<or> vpre va 0 div 512 = 1"
proof -
  have n: "0 \<le> vpre va 0" by (simp add: vpre_def)
  have v: "vpre va 1 = vpre va 0 div 512" "vpre va 2 = vpre va 0 div 512 div 512" "vpre va 3 = vpre va 0 div 512 div 512 div 512"
    by (simp_all add: vpre_Suc numeral_eq_Suc)
  show "vpre va 0 div 512 = 0 \<or> vpre va 0 div 512 = 1" using n assms by linarith
  then show "pageindex va 3 = 0" "pageindex va 2 = 0" "pageindex va 1 = vpre va 0 div 512"
    using v vpre_mod [of 3 va] vpre_mod [of 2 va] vpre_mod [of 1 va] by auto
qed

lemma kernel_links_wlevel:
  assumes ld: "link_ok ld" and va: "vpre va 0 < 1024"
  shows "wlevel (ram (kernel_links (kernel_pagetable ld) s)) (kernel_pagetable ld) va = 0"
proof -
  let ?kp = "kernel_pagetable ld" and ?m = "ram (kernel_links (kernel_pagetable ld) s)" and ?i = "vpre va 0 div 512"
  note k = kernel_links_ok [OF ld, of s] and pg = kernel_page [OF ld] and ix = low_index [OF va]
  define q where "q = (if ?i = 0 then ?kp + 12288 else ?kp + 16384)"
  have q: "page_ok q" "kernel_roles ?kp q = Some (?kp, 0, vpre va (Suc 0))" "entry ?m (slot (?kp + 8192) ?i) = q + 7"
    using ix(4) pg k(5,6) roles_at(4,5) [of ?kp] vpre_Suc [of va 0] by (auto simp: q_def)
  have "walk ?m 3 ?kp va initial_perm = walk ?m 2 (?kp + 4096) va initial_perm"
    using walk_link [OF pg(1,2), of ?m va 2] k(3) ix(1) by (simp add: numeral_eq_Suc)
  also have "\<dots> = walk ?m 1 (?kp + 8192) va initial_perm" using walk_link [OF pg(2,3), of ?m va 1] k(4) ix(2) by (simp add: numeral_eq_Suc)
  also have "\<dots> = walk ?m 0 q va initial_perm" using walk_link [OF pg(3) q(1), of ?m va 0] q(3) ix(3) by simp
  finally show ?thesis using walk_tables [OF k(1) q(2), of initial_perm] by (auto simp: wlevel_def)
qed

section \<open>The first mapping\<close>

lemma vmiter_in_step:
  assumes "in_step m it" and "va_is_canonical (it_va it)"
  shows "vmiter_at m (it_pt it) (it_va it) = Inr it"
proof -
  obtain l a perm where w: "walk m 3 (it_pt it) (it_va it) initial_perm = Inr (l, a, perm)" "it = placed_at it (l, a, perm)"
    using assms by (auto simp: in_step_def)
  have "it_level it = l" "it_pep it = Some a" "it_perm it = perm"
    using arg_cong [OF w(2), of it_level] arg_cong [OF w(2), of it_pep] arg_cong [OF w(2), of it_perm] by (simp_all add: placed_at_def)
  then show ?thesis using w(1) assms(2) by (cases it) (simp add: vmiter_at_found found_at_def)
qed

definition low_tables :: "(int \<Rightarrow> byte) \<Rightarrow> int \<Rightarrow> bool" where
  "low_tables m r \<longleftrightarrow> (\<forall>va. vpre va 0 < 1024 \<longrightarrow> wlevel m r va = 0)"

lemma low_tables_small: "low_tables m r \<Longrightarrow> small_pages 1024 m r"
  unfolding low_tables_def small_pages_def using wlevel_lookup by metis

lemma low_tables_extends:
  assumes "tables (ram s) R" and "root R r'" and "low_tables (ram s) r'" and "extends ke r s R t T"
  shows "low_tables (ram t) r'"
  using extends_wlevel [OF assms(1,2) _ assms(4) refl] assms(3) unfolding low_tables_def by blast

lemma init_map_loop_ok:
  assumes "tables (ram s) R" and "pool ke s R" and "root R r" and "low_tables (ram s) r" and "in_step (ram s) it"
    and "it_pt it = r" and "it_va it = 4096 * n" and "0 \<le> n" "n \<le> 512"
  shows "\<exists>t T. init_map_loop ke it s = Inr t \<and> extends ke r s R t T \<and> free_pages ke t = free_pages ke s
    \<and> (\<forall>va. 1 \<le> vpre va 0 \<and> n \<le> vpre va 0 \<and> vpre va 0 < 512 \<longrightarrow> lookup (ram t) r va = Some (0, 4096 * vpre va 0, PTE_PWU))
    \<and> (\<forall>va. vpre va 0 < n \<longrightarrow> lookup (ram t) r va = lookup (ram s) r va)"
  using assms
proof (induction "nat (512 - n)" arbitrary: n it s R)
  case 0
  then have "n = 512" by simp
  then have "init_map_loop ke it s = Inr s" using 0(8) by (subst init_map_loop.simps) (simp add: MEMSIZE_PHYSICAL_def)
  then show ?case using 0 extends_refl \<open>n = 512\<close> by (intro exI [of _ s] exI [of _ R]) auto
next
  case (Suc k)
  note p = Suc.prems
  have n: "n < 512" using Suc.hyps(2) by simp
  have can: "va_is_canonical (4096 * n)" "va_is_canonical (4096 * (n + 1))" using p(8) n by (intro low_canonical; simp)+
  have v: "vpre (4096 * n) 0 = n" using p(8) n by (simp add: vpre_def)
  have w0: "wlevel (ram s) r (4096 * n) = 0" using p(4) v n unfolding low_tables_def by simp
  obtain t T where t: "(if it_va it \<noteq> 0 then kbind (try_map ke it (it_va it) (PTE_P OR PTE_W OR PTE_U) s) (\<lambda>(r, s). if r = 0 then Inr s else Inl Assertion_failed)
      else Inr s) = Inr t" "extends ke r s R t T" "free_pages ke t = free_pages ke s"
    "\<forall>va. vpre va 0 \<noteq> n \<longrightarrow> lookup (ram t) r va = lookup (ram s) r va"
    "n \<noteq> 0 \<Longrightarrow> lookup (ram t) r (4096 * n) = Some (0, 4096 * n, PTE_PWU)"
  proof (cases "n = 0")
    case True
    show ?thesis by (rule that [of s R]) (use True p extends_refl in auto)
  next
    case False
    have "\<exists>rv t T. memory_map ke r (4096 * n) (4096 * n) PTE_PWU s = Inr (rv, t) \<and> mapped ke r (4096 * n) (4096 * n) PTE_PWU s R rv t T"
      by (rule memory_map_ok [OF p(1,2,3) _ can(1) _ _ _ _ PWU_bits(1,2)]) (use w0 wlevel_lookup p(8) n in fastforce)+
    then obtain rv t T where m: "memory_map ke r (4096 * n) (4096 * n) PTE_PWU s = Inr (rv, t)" "mapped ke r (4096 * n) (4096 * n) PTE_PWU s R rv t T" by blast
    have rv: "rv = 0" "extends ke r s R t T" "card (free_pages ke s) \<le> card (free_pages ke t)" using m(2) w0 unfolding mapped_def by auto
    have "free_pages ke t = free_pages ke s" by (rule card_seteq [OF finite_free_pages extends_free [OF rv(2)] rv(3)])
    moreover have "try_map ke it (it_va it) PTE_PWU s = Inr (0, t)"
      using m(1) vmiter_in_step [OF p(5)] can(1) p(6,7) rv(1) by (simp add: memory_map_def)
    moreover have "lookup (ram t) r (4096 * n) = Some (0, 4096 * n, PTE_PWU)" using m(2) rv(1) PWU_bits(3) unfolding mapped_def by simp
    moreover have "\<forall>va. vpre va 0 \<noteq> n \<longrightarrow> lookup (ram t) r va = lookup (ram s) r va" using m(2) p(3) v unfolding mapped_def by auto
    ultimately show ?thesis using that [of t T] rv(2) p(7) False by (simp add: kernel_space_bits)
  qed
  have T: "tables (ram t) T" "pool ke t T" "R \<subseteq>\<^sub>m T" using t(2) by (auto simp: extends_def)
  have rT: "root T r" by (rule root_mono [OF p(3) T(3)])
  have e: "extends ke (it_pt it) s R t T" and r': "root R (it_pt it)" using t(2) p(3,6) by simp_all
  have "real_find (ram t) it (4096 * (n + 1)) = found_at (ram t) r (4096 * (n + 1))"
    using real_find_on_path [OF in_step_on_path(1) [OF p(5)] extends_on_path [OF p(1) r' p(5) e]] p(6) by simp
  with found_in_step [OF T(1) rT can(2)] obtain jt where jt: "real_find (ram t) it (4096 * (n + 1)) = Inr jt" "in_step (ram t) jt"
    "it_pt jt = r" "it_va jt = 4096 * (n + 1)" by metis
  have code: "init_map_loop ke it s = init_map_loop ke jt t"
    using p(7) n t(1) jt(1) by (subst init_map_loop.simps) (simp add: PAGESIZE_def MEMSIZE_PHYSICAL_def algebra_simps)
  have "\<exists>u U. init_map_loop ke jt t = Inr u \<and> extends ke r t T u U \<and> free_pages ke u = free_pages ke t
      \<and> (\<forall>va. 1 \<le> vpre va 0 \<and> n + 1 \<le> vpre va 0 \<and> vpre va 0 < 512 \<longrightarrow> lookup (ram u) r va = Some (0, 4096 * vpre va 0, PTE_PWU))
      \<and> (\<forall>va. vpre va 0 < n + 1 \<longrightarrow> lookup (ram u) r va = lookup (ram t) r va)"
    by (rule Suc.hyps(1) [OF _ T(1,2) rT low_tables_extends [OF p(1,3,4) t(2)] jt(2,3,4)]) (use Suc.hyps(2) p(8) n in auto)
  then obtain u U where u: "init_map_loop ke jt t = Inr u" "extends ke r t T u U" "free_pages ke u = free_pages ke t"
    "\<forall>va. 1 \<le> vpre va 0 \<and> n + 1 \<le> vpre va 0 \<and> vpre va 0 < 512 \<longrightarrow> lookup (ram u) r va = Some (0, 4096 * vpre va 0, PTE_PWU)"
    "\<forall>va. vpre va 0 < n + 1 \<longrightarrow> lookup (ram u) r va = lookup (ram t) r va" by blast
  have "lookup (ram u) r va = Some (0, 4096 * vpre va 0, PTE_PWU)" if "1 \<le> vpre va 0" "n \<le> vpre va 0" "vpre va 0 < 512" for va
  proof (cases "vpre va 0 = n")
    case True
    then show ?thesis using u(5) t(5) lookup_cong [of va "4096 * n"] v that by auto
  qed (use u(4) that in auto)
  moreover have "lookup (ram u) r va = lookup (ram s) r va" if "vpre va 0 < n" for va using u(5) t(4) that by auto
  ultimately show ?case using code u(1,3) t(3) extends_trans [OF t(2) u(2)] by auto
qed

lemma init_kernel_memory_links:
  assumes "link_ok ld"
  shows "init_kernel_memory ld s = kbind (vmiter_at (ram (kernel_links (kernel_pagetable ld) s)) (kernel_pagetable ld) 0)
    (\<lambda>it. init_map_loop (kernel_end ld) it (kernel_links (kernel_pagetable ld) s))"
proof -
  have l: "q OR PTE_P OR PTE_W OR PTE_U = q + 7" if "page_ok q" for q using that by (intro link_bits(1)) (auto simp: page_ok_def)
  have "push_bit 30 1 OR PTE_P OR PTE_W OR PTE_PS = (0x40000083 :: int)" "push_bit 30 2 OR PTE_P OR PTE_W OR PTE_PS = (0x80000083 :: int)"
    "push_bit 30 3 OR PTE_P OR PTE_W OR PTE_PS = (0xC0000083 :: int)" by (simp_all add: pte_defs push_bit_eq_mult)
  then show ?thesis unfolding init_kernel_memory_def kernel_links_def Let_def PAGESIZE_def
    using l [OF kernel_page(2) [OF assms]] l [OF kernel_page(3) [OF assms]] l [OF kernel_page(4) [OF assms]] l [OF kernel_page(5) [OF assms]] by simp
qed

lemma init_kernel_memory_ok:
  assumes ld: "link_ok ld"
  obtains t T where "init_kernel_memory ld s = Inr t" "tables (ram t) T" "pool (kernel_end ld) t T" "root T (kernel_pagetable ld)" "T CONSOLE_ADDR = None"
    "low_tables (ram t) (kernel_pagetable ld)" "free_pages (kernel_end ld) t = free_pages (kernel_end ld) s"
    "\<forall>va. 1 \<le> vpre va 0 \<and> vpre va 0 < 512 \<longrightarrow> lookup (ram t) (kernel_pagetable ld) va = Some (0, 4096 * vpre va 0, PTE_PWU)"
proof -
  let ?kp = "kernel_pagetable ld" and ?ke = "kernel_end ld"
  let ?s = "kernel_links ?kp s" and ?R = "kernel_roles ?kp"
  note k = kernel_links_ok [OF ld, of s]
  have r: "root ?R ?kp" by (simp add: root_def roles_at)
  have pl: "pool ?ke ?s ?R" using kernel_roles_pages [of ?kp] link_pages(2) [OF ld] unfolding pool_def by metis
  have can: "va_is_canonical 0" by (simp add: va_is_canonical_def)
  have low: "low_tables (ram ?s) ?kp" using kernel_links_wlevel [OF ld] by (simp add: low_tables_def)
  obtain it where it: "found_at (ram ?s) ?kp 0 = Inr it" "in_step (ram ?s) it" "it_pt it = ?kp" "it_va it = 0" using found_in_step [OF k(1) r can] by metis
  have "\<exists>t T. init_map_loop ?ke it ?s = Inr t \<and> extends ?ke ?kp ?s ?R t T \<and> free_pages ?ke t = free_pages ?ke ?s
    \<and> (\<forall>va. 1 \<le> vpre va 0 \<and> 0 \<le> vpre va 0 \<and> vpre va 0 < 512 \<longrightarrow> lookup (ram t) ?kp va = Some (0, 4096 * vpre va 0, PTE_PWU))
    \<and> (\<forall>va. vpre va 0 < 0 \<longrightarrow> lookup (ram t) ?kp va = lookup (ram ?s) ?kp va)"
    by (rule init_map_loop_ok [OF k(1) pl r low it(2,3)]) (use it(4) in auto)
  then obtain t T where t: "init_map_loop ?ke it ?s = Inr t" "extends ?ke ?kp ?s ?R t T" "free_pages ?ke t = free_pages ?ke ?s"
    "\<forall>va. 1 \<le> vpre va 0 \<and> 0 \<le> vpre va 0 \<and> vpre va 0 < 512 \<longrightarrow> lookup (ram t) ?kp va = Some (0, 4096 * vpre va 0, PTE_PWU)" by blast
  have e: "?R \<subseteq>\<^sub>m T" "tables (ram t) T" "pool ?ke t T" "\<And>p x. ?R p = None \<Longrightarrow> T p = Some x \<Longrightarrow> allocatable_physical_address ?ke p"
    using t(2) unfolding extends_def by blast+
  have "?R CONSOLE_ADDR = None"
  proof (rule ccontr)
    assume "?R CONSOLE_ADDR \<noteq> None"
    then show False using kernel_roles_pages [of ?kp CONSOLE_ADDR] link_bounds [OF ld] by (auto simp: CONSOLE_ADDR_def)
  qed
  then have "T CONSOLE_ADDR = None" using e(4) [of CONSOLE_ADDR] console_reserved [of ?ke] by (cases "T CONSOLE_ADDR") blast+
  moreover have "free_pages ?ke t = free_pages ?ke s" using t(3) k(2) by (simp add: free_pages_def)
  moreover have "init_kernel_memory ld s = Inr t" using init_kernel_memory_links [OF ld, of s] it(1) t(1) by (simp add: vmiter_at_found)
  ultimately show thesis using that e root_mono [OF r e(1)] low_tables_extends [OF k(1) r low t(2)] t(4) by auto
qed

section \<open>The invariant of the kernel\<close>

definition proc_roots :: "proc list \<Rightarrow> nat \<Rightarrow> int option" where
  "proc_roots pt i = (if i < length pt \<and> state (pt ! i) \<noteq> P_FREE then Some (pagetable (pt ! i)) else None)"

definition kernel_ok :: "linked \<Rightarrow> kernel \<Rightarrow> roles \<Rightarrow> (int \<Rightarrow> nat option) \<Rightarrow> bool" where
  "kernel_ok ld s R own \<longleftrightarrow> isolated (kernel_end ld) (memory s) R (proc_roots (ptable s)) own
     \<and> length (ptable s) = NPROC \<and> (\<forall>i < NPROC. pid (ptable s ! i) = int i)
     \<and> (\<forall>i r. proc_roots (ptable s) i = Some r \<longrightarrow> space_ok (ram (memory s)) r \<and> allocatable_physical_address (kernel_end ld) r)
     \<and> root R (kernel_pagetable ld)
     \<and> (\<forall>va. 1 \<le> vpre va 0 \<and> vpre va 0 < 512 \<longrightarrow> (\<exists>p. lookup (ram (memory s)) (kernel_pagetable ld) va = Some (0, 4096 * vpre va 0, p)))"

lemma kernel_okD:
  assumes "kernel_ok ld s R own"
  shows "isolated (kernel_end ld) (memory s) R (proc_roots (ptable s)) own" "length (ptable s) = NPROC" "i < NPROC \<Longrightarrow> pid (ptable s ! i) = int i"
    "proc_roots (ptable s) i = Some r \<Longrightarrow> space_ok (ram (memory s)) r"
    "proc_roots (ptable s) i = Some r \<Longrightarrow> allocatable_physical_address (kernel_end ld) r" "root R (kernel_pagetable ld)"
    "1 \<le> vpre va 0 \<Longrightarrow> vpre va 0 < 512 \<Longrightarrow> \<exists>p. lookup (ram (memory s)) (kernel_pagetable ld) va = Some (0, 4096 * vpre va 0, p)"
  using assms unfolding kernel_ok_def by blast+

lemma kernel_okI:
  assumes "isolated (kernel_end ld) (memory s) R (proc_roots (ptable s)) own" "length (ptable s) = NPROC" "\<And>i. i < NPROC \<Longrightarrow> pid (ptable s ! i) = int i"
    "\<And>i r. proc_roots (ptable s) i = Some r \<Longrightarrow> space_ok (ram (memory s)) r"
    "\<And>i r. proc_roots (ptable s) i = Some r \<Longrightarrow> allocatable_physical_address (kernel_end ld) r" "root R (kernel_pagetable ld)"
    "\<And>va. 1 \<le> vpre va 0 \<Longrightarrow> vpre va 0 < 512 \<Longrightarrow> \<exists>p. lookup (ram (memory s)) (kernel_pagetable ld) va = Some (0, 4096 * vpre va 0, p)"
  shows "kernel_ok ld s R own"
  using assms unfolding kernel_ok_def by blast

lemma kernel_table_reserved: "link_ok ld \<Longrightarrow> \<not> allocatable_physical_address (kernel_end ld) (kernel_pagetable ld)"
  using link_pages(2) [of ld 0] by simp

text \<open>A step of one process that spares the others.\<close>

lemma kernel_ok_step:
  assumes ok: "kernel_ok ld s R own" and ld: "link_ok ld" and iso: "isolated (kernel_end ld) (memory s') T (proc_roots (ptable s')) own'"
    and sp: "spares i r (memory s) R own (memory s') T own'" and ri: "proc_roots (ptable s') i = Some r"
    and others: "\<And>j. j \<noteq> i \<Longrightarrow> proc_roots (ptable s') j = proc_roots (ptable s) j"
    and here: "space_ok (ram (memory s')) r" "allocatable_physical_address (kernel_end ld) r"
    and pt: "length (ptable s') = NPROC" "\<And>i. i < NPROC \<Longrightarrow> pid (ptable s' ! i) = int i"
  shows "kernel_ok ld s' T own'"
proof (rule kernel_okI [OF iso pt])
  fix j r' assume j: "proc_roots (ptable s') j = Some r'"
  show "space_ok (ram (memory s')) r'"
  proof (cases "j = i")
    case False
    then have o: "proc_roots (ptable s) j = Some r'" using others j by simp
    moreover have "r' \<noteq> r" using isolatedD(6) [OF iso, of i r j] ri j False by auto
    ultimately have "lookup (ram (memory s')) r' va = lookup (ram (memory s)) r' va" for va
      using sparesD(3) [OF sp] isolatedD(4) [OF kernel_okD(1) [OF ok]] by blast
    then show ?thesis using space_ok_same kernel_okD(4) [OF ok o] by blast
  qed (use here ri j in simp)
  show "allocatable_physical_address (kernel_end ld) r'" using here ri j others kernel_okD(5) [OF ok, of j r'] by (cases "j = i") auto
next
  show "root T (kernel_pagetable ld)" by (rule root_mono [OF kernel_okD(6) [OF ok] sparesD(1) [OF sp]])
  fix va assume "1 \<le> vpre va 0" "vpre va 0 < 512"
  moreover have "kernel_pagetable ld \<noteq> r" using here(2) kernel_table_reserved [OF ld] by auto
  ultimately show "\<exists>p. lookup (ram (memory s')) (kernel_pagetable ld) va = Some (0, 4096 * vpre va 0, p)"
    using sparesD(3) [OF sp kernel_okD(6) [OF ok]] kernel_okD(7) [OF ok] by metis
qed

lemma process_setup_kernel:
  assumes ok: "kernel_ok ld s R own" and ld: "link_ok ld" "user_images (images ld)" and c: "process_setup ld i name s = Inr s'"
    and f: "free_pages (kernel_end ld) (memory s') \<noteq> {}" and i: "i < NPROC"
  obtains T own' where "kernel_ok ld s' T own'" "state (ptable s' ! i) = P_RUNNABLE" "\<forall>j. j \<noteq> i \<longrightarrow> ptable s' ! j = ptable s ! j"
proof -
  obtain r T own' p where n: "isolated (kernel_end ld) (memory s') T ((proc_roots (ptable s))(i \<mapsto> r)) own'" "spares i r (memory s) R own (memory s') T own'"
    "space_ok (ram (memory s')) r" "s' = set_proc i p (s\<lparr>memory := memory s'\<rparr>)" "pagetable p = r" "state p = P_RUNNABLE"
    "pid p = pid (ptable s ! i)" "allocatable_physical_address (kernel_end ld) r"
    by (rule process_setup_iso [OF kernel_okD(1) [OF ok] c f ld(2)])
  have pt: "ptable s' = (ptable s)[i := p]" using arg_cong [OF n(4), of ptable] by (simp add: set_proc_def)
  have len: "length (ptable s) = NPROC" by (rule kernel_okD(2) [OF ok])
  have roots: "proc_roots (ptable s') = (proc_roots (ptable s))(i \<mapsto> r)" using i len n(5,6) by (auto simp: pt proc_roots_def nth_list_update)
  have "kernel_ok ld s' T own'"
  proof (rule kernel_ok_step [OF ok ld(1) _ n(2)])
    show "isolated (kernel_end ld) (memory s') T (proc_roots (ptable s')) own'" using n(1) by (simp add: roots)
    show "pid (ptable s' ! j) = int j" if "j < NPROC" for j using that kernel_okD(3) [OF ok] n(7) i len by (simp add: pt nth_list_update)
  qed (use n roots pt len in auto)
  then show thesis using that pt n(6) i len by (auto simp: nth_list_update)
qed

section \<open>Starting processes\<close>

lemma address_pa:
  fixes s :: phys
  assumes t: "tables (ram s) R" and r: "root R r" and l: "lookup (ram s) r va = Some (0, 4096 * vpre va 0, p)" and va: "0 \<le> va" "va < 2 ^ 47"
  obtains it where "vmiter_at (ram s) r va = Inr it" "vm_pa (ram s) it = va"
proof -
  have "memory_virtual_to_physical r va s = Inr (4096 * vpre va 0 + va mod 4096)"
    using virtual_to_physical [OF t r low_canonical [OF va]] l by simp
  moreover have "4096 * vpre va 0 + va mod 4096 = va" using va by (simp add: vpre_def)
  ultimately show thesis using that by (auto simp: memory_virtual_to_physical_def kbind_eq_Inr)
qed

lemma check_pagetable_ok:
  assumes ok: "kernel_ok ld s R own" and ld: "link_ok ld" and r: "proc_roots (ptable s) i = Some r"
  shows "check_pagetable ld r (memory s) = Inr ()"
proof -
  let ?kp = "kernel_pagetable ld"
  note b = link_bounds [OF ld] and t = isolatedD(1) [OF kernel_okD(1) [OF ok]] and ri = isolatedD(4) [OF kernel_okD(1) [OF ok] r]
  have m: "lookup (ram (memory s)) r va = Some (0, 4096 * vpre va 0, 3)" if "0x40000 \<le> va" "va < 0x7F000" for va
  proof -
    have "1 \<le> vpre va 0" "vpre va 0 < 0xB8" using that by (auto simp: vpre_def)
    then show ?thesis using kernel_okD(4) [OF ok r] unfolding space_ok_def kernel_mapped_def by auto
  qed
  obtain i1 where i1: "vmiter_at (ram (memory s)) r (exception_entry ld) = Inr i1" "vm_pa (ram (memory s)) i1 = exception_entry ld"
    by (rule address_pa [where va = "exception_entry ld", OF t ri m]) (use b in auto)
  have a: "4096 \<le> r" "r < 0x200000" using allocatable_bounds [OF kernel_okD(5) [OF ok r]] by auto
  then have "1 \<le> vpre r 0" "vpre r 0 < 512" by (auto simp: vpre_def)
  then obtain p where p: "lookup (ram (memory s)) ?kp r = Some (0, 4096 * vpre r 0, p)" using kernel_okD(7) [OF ok] by blast
  obtain i2 where i2: "vmiter_at (ram (memory s)) ?kp r = Inr i2" "vm_pa (ram (memory s)) i2 = r"
    by (rule address_pa [OF t kernel_okD(6) [OF ok] p]) (use a in auto)
  obtain i3 where i3: "vmiter_at (ram (memory s)) r ?kp = Inr i3" "vm_pa (ram (memory s)) i3 = ?kp"
    by (rule address_pa [where va = ?kp, OF t ri m]) (use b in auto)
  have "page_ok r" using tablesD(1) [OF t] ri by (simp add: root_def)
  then have "r mod PAGESIZE = 0" by (simp add: page_ok_def PAGESIZE_def)
  then show ?thesis using i1 i2 i3 by (simp add: check_pagetable_def)
qed

lemma run_ok:
  assumes ok: "kernel_ok ld s R own" and ld: "link_ok ld" and i: "i < NPROC" "state (ptable s ! i) = P_RUNNABLE"
  shows "run ld i s = Inr (Start, s\<lparr>current := i\<rparr>)"
proof -
  have "proc_roots (ptable s) i = Some (pagetable (ptable s ! i))" using i kernel_okD(2) [OF ok] by (simp add: proc_roots_def)
  from check_pagetable_ok [OF ok ld this] show ?thesis using i by (simp add: run_def)
qed

lemma run_cases: "run ld i s = Inr (out, t) \<Longrightarrow> out = Start \<and> t = s\<lparr>current := i\<rparr> \<and> state (ptable s ! i) = P_RUNNABLE"
  by (auto simp: run_def Let_def kbind_eq_Inr split: if_splits)

section \<open>Boot\<close>

lemma process_setup_shrinks:
  assumes "process_setup ld i name s = Inr s'"
  shows "free_pages (kernel_end ld) (memory s') \<subseteq> free_pages (kernel_end ld) (memory s)"
proof -
  let ?ke = "kernel_end ld"
  from assms obtain r m0 m1 m2 m3 b2 b3 pgm os m4 m5 q m6 rv m7 p where m:
    "kalloc_pagetable ?ke (memory s) = (r, m0)" "memory_foreach r PROC_START_ADDR (map_to_kernel_space ?ke) m0 = Inr m1"
    "map_to_nobody ?ke r 0 m1 = Inr (b2, m2)" "map_to_user_space ?ke r CONSOLE_ADDR m2 = Inr (b3, m3)"
    "program_image (images ld) (program_number (images ld) name) = Inr pgm"
    "load_segments ?ke r (seg_begin pgm) [] m3 = Inr (os, m4)" "copy_segments pgm r os (seg_begin pgm) m4 = Inr m5"
    "kalloc ?ke PAGESIZE m5 = (q, m6)" "memory_map ?ke r (MEMSIZE_VIRTUAL - PAGESIZE) q PTE_PWU m6 = Inr (rv, m7)"
    "s' = set_proc i p (s\<lparr>memory := m7\<rparr>)" "pagetable p = r" "state p = P_RUNNABLE" "pid p = pid (ptable s ! i)"
    by (rule process_setup_cases)
  have "free_pages ?ke m0 \<subseteq> free_pages ?ke (memory s)"
    using m(1) kalloc_shrinks [of ?ke PAGESIZE "memory s"] by (auto simp: kalloc_pagetable_def free_pages_def split: prod.splits if_splits)
  moreover have "free_pages ?ke m5 = free_pages ?ke m4" using copy_segments_pages [OF m(7)] by (simp add: free_pages_def)
  ultimately have "free_pages ?ke m7 \<subseteq> free_pages ?ke (memory s)"
    using memory_map_shrinks [OF m(9)] kalloc_shrinks [OF m(8)] load_segments_shrinks [OF m(6)] map_to_shrinks(2) [OF m(4)] map_to_shrinks(1) [OF m(3)]
      memory_foreach_shrinks [OF m(2)] by blast
  then show ?thesis using m(10) by (simp add: set_proc_def)
qed

lemma setup_all_shrinks: "setup_all ld xs s = Inr s' \<Longrightarrow> free_pages (kernel_end ld) (memory s') \<subseteq> free_pages (kernel_end ld) (memory s)"
  by (induction xs arbitrary: s) (fastforce simp: kbind_eq_Inr dest: process_setup_shrinks)+

lemma setup_all_iso:
  assumes "kernel_ok ld s R own" and ld: "link_ok ld" "user_images (images ld)" and "setup_all ld xs s = Inr s'"
    and f: "free_pages (kernel_end ld) (memory s') \<noteq> {}" and "\<forall>x \<in> set xs. fst x < NPROC"
  shows "\<exists>T own'. kernel_ok ld s' T own' \<and> (\<forall>j. j \<in> fst ` set xs \<or> state (ptable s ! j) = P_RUNNABLE \<longrightarrow> state (ptable s' ! j) = P_RUNNABLE)"
  using assms(1,4,6)
proof (induction xs arbitrary: s R own)
  case Nil
  then show ?case by auto
next
  case (Cons x xs)
  from Cons.prems(2) obtain s1 where s1: "process_setup ld (fst x) (snd x) s = Inr s1" "setup_all ld xs s1 = Inr s'" by (auto simp: kbind_eq_Inr)
  have f1: "free_pages (kernel_end ld) (memory s1) \<noteq> {}" using setup_all_shrinks [OF s1(2)] f by blast
  have x: "fst x < NPROC" using Cons.prems(3) by simp
  obtain T own' where T: "kernel_ok ld s1 T own'" "state (ptable s1 ! fst x) = P_RUNNABLE" "\<forall>j. j \<noteq> fst x \<longrightarrow> ptable s1 ! j = ptable s ! j"
    by (rule process_setup_kernel [OF Cons.prems(1) ld s1(1) f1 x])
  from Cons.IH [OF T(1) s1(2)] Cons.prems(3) obtain U own'' where U: "kernel_ok ld s' U own''"
    "\<forall>j. j \<in> fst ` set xs \<or> state (ptable s1 ! j) = P_RUNNABLE \<longrightarrow> state (ptable s' ! j) = P_RUNNABLE" by auto
  have "state (ptable s' ! j) = P_RUNNABLE" if "j \<in> fst ` set (x # xs) \<or> state (ptable s ! j) = P_RUNNABLE" for j
    using that U(2) T(2,3) by (cases "j = fst x") auto
  then show ?case using U(1) by blast
qed

lemma setup_all_ok:
  assumes "kernel_ok ld s R own" and ld: "link_ok ld" "user_images (images ld)" and "length xs * (4 * n + 8) < card (free_pages (kernel_end ld) (memory s))"
    and "\<forall>x \<in> set xs. fst x < NPROC" and img: "\<And>name elf. (name, elf) \<in> set (images ld) \<Longrightarrow> small_image n elf"
  shows "\<exists>s'. setup_all ld xs s = Inr s'
    \<and> card (free_pages (kernel_end ld) (memory s)) \<le> card (free_pages (kernel_end ld) (memory s')) + length xs * (4 * n + 8)"
  using assms(1,4,5)
proof (induction xs arbitrary: s R own)
  case Nil
  then show ?case by simp
next
  case (Cons x xs)
  have "\<exists>s'. process_setup ld (fst x) (snd x) s = Inr s'
      \<and> card (free_pages (kernel_end ld) (memory s)) \<le> card (free_pages (kernel_end ld) (memory s')) + 4 * n + 8"
    by (rule process_setup_ok [OF kernel_okD(1) [OF Cons.prems(1)] _ img]) (use Cons.prems(2) in auto)
  then obtain s1 where s1: "process_setup ld (fst x) (snd x) s = Inr s1"
    "card (free_pages (kernel_end ld) (memory s)) \<le> card (free_pages (kernel_end ld) (memory s1)) + 4 * n + 8" by blast
  have f1: "length xs * (4 * n + 8) < card (free_pages (kernel_end ld) (memory s1))" using s1(2) Cons.prems(2) by simp
  then have f2: "free_pages (kernel_end ld) (memory s1) \<noteq> {}" by auto
  have x: "fst x < NPROC" using Cons.prems(3) by simp
  obtain T own' where T: "kernel_ok ld s1 T own'" by (rule process_setup_kernel [OF Cons.prems(1) ld s1(1) f2 x])
  from Cons.IH [OF T f1] Cons.prems(3) obtain s' where "setup_all ld xs s1 = Inr s'"
    "card (free_pages (kernel_end ld) (memory s1)) \<le> card (free_pages (kernel_end ld) (memory s')) + length xs * (4 * n + 8)" by auto
  then show ?case using s1 by simp
qed

definition boot_state :: "phys \<Rightarrow> kernel" where
  "boot_state m = \<lparr>memory = m, ptable = map (\<lambda>i. \<lparr>pagetable = 0, pid = int i, state = P_FREE, regs = zero_regs\<rparr>) [0 ..< NPROC],
     current = 0, ticks = 1, last_ticks = 0, showing = 0\<rparr>"

lemma kernel_space_ok:
  assumes ld: "link_ok ld" and f: "free_pages (kernel_end ld) m \<noteq> {}"
  obtains m1 m2 m3 m4 R where "init_kernel_memory ld m = Inr m1"
    "memory_foreach (kernel_pagetable ld) PROC_START_ADDR (map_to_kernel_space (kernel_end ld)) m1 = Inr m2"
    "map_to_nobody (kernel_end ld) (kernel_pagetable ld) 0 m2 = Inr (True, m3)"
    "map_to_user_space (kernel_end ld) (kernel_pagetable ld) CONSOLE_ADDR m3 = Inr (True, m4)" "kernel_ok ld (boot_state m4) R Map.empty"
    "card (free_pages (kernel_end ld) m) \<le> card (free_pages (kernel_end ld) m4)"
proof -
  let ?ke = "kernel_end ld" and ?kp = "kernel_pagetable ld"
  obtain m1 R1 where m1: "init_kernel_memory ld m = Inr m1" "tables (ram m1) R1" "pool ?ke m1 R1" "root R1 ?kp" "R1 CONSOLE_ADDR = None"
    "low_tables (ram m1) ?kp" "free_pages ?ke m1 = free_pages ?ke m"
    "\<forall>va. 1 \<le> vpre va 0 \<and> vpre va 0 < 512 \<longrightarrow> lookup (ram m1) ?kp va = Some (0, 4096 * vpre va 0, PTE_PWU)"
    by (rule init_kernel_memory_ok [OF ld])
  obtain m2 m3 m4 R2 R3 R4 rv3 rv4 where m:
    "memory_foreach ?kp PROC_START_ADDR (map_to_kernel_space ?ke) m1 = Inr m2" "ranged ?ke 1024 ?kp 0 256 3 m1 R1 m2 R2"
    "memory_map ?ke ?kp 0 0 0 m2 = Inr (rv3, m3)" "mapped ?ke ?kp 0 0 0 m2 R2 rv3 m3 R3"
    "memory_map ?ke ?kp CONSOLE_ADDR CONSOLE_ADDR PTE_PWU m3 = Inr (rv4, m4)" "mapped ?ke ?kp CONSOLE_ADDR CONSOLE_ADDR PTE_PWU m3 R3 rv4 m4 R4"
    "card (free_pages ?ke m1) \<le> card (free_pages ?ke m4) + wlevel (ram m1) ?kp 0" "free_pages ?ke m4 \<noteq> {} \<Longrightarrow> kernel_mapped (ram m4) ?kp"
    by (rule low_space [OF m1(2,3,4) low_tables_small [OF m1(6)]]) auto
  have w0: "wlevel (ram m1) ?kp 0 = 0" using m1(6) by (simp add: low_tables_def vpre_def)
  have c: "card (free_pages ?ke m) \<le> card (free_pages ?ke m4)" using m(7) w0 m1(7) by simp
  then have f4: "free_pages ?ke m4 \<noteq> {}" using f by (metis card_eq_0_iff card_gt_0_iff finite_free_pages le_zero_eq)
  have iso: "isolated ?ke m1 R1 Map.empty Map.empty" using m1(2,3,5) by (intro isolatedI) auto
  have i2: "isolated ?ke m2 R2 Map.empty Map.empty" by (rule iso_extends [OF iso, of ?kp]) (use m(2) in \<open>auto simp: ranged_def\<close>)
  have i3: "isolated ?ke m3 R3 Map.empty Map.empty" by (rule iso_extends [OF i2, of ?kp]) (use m(4) in \<open>auto simp: mapped_def\<close>)
  have i4: "isolated ?ke m4 R4 Map.empty Map.empty" by (rule iso_extends [OF i3, of ?kp]) (use m(6) in \<open>auto simp: mapped_def\<close>)
  have r2: "root R2 ?kp" using root_mono [OF m1(4)] m(2) by (auto simp: ranged_def extends_def)
  have r3: "root R3 ?kp" using root_mono [OF r2] m(4) by (auto simp: mapped_def extends_def)
  have r4: "root R4 ?kp" using root_mono [OF r3] m(6) by (auto simp: mapped_def extends_def)
  have v: "vpre 0 0 = 0" "vpre CONSOLE_ADDR 0 = 0xB8" by (simp_all add: vpre_def CONSOLE_ADDR_def)
  have id: "\<exists>p. lookup (ram m4) ?kp va = Some (0, 4096 * vpre va 0, p)" if va: "1 \<le> vpre va 0" "vpre va 0 < 512" for va
  proof (cases "vpre va 0 < 256")
    case True
    show ?thesis
    proof (cases "vpre va 0 = 0xB8")
      case con: True
      have "rv4 = 0" using m(6) f4 unfolding mapped_def by blast
      then have "lookup (ram m4) ?kp CONSOLE_ADDR = Some (0, CONSOLE_ADDR, PTE_PWU)" using m(6) PWU_bits(3) unfolding mapped_def by simp
      then show ?thesis using lookup_cong [of va CONSOLE_ADDR "ram m4" ?kp] con v by (simp add: CONSOLE_ADDR_def)
    next
      case False
      then show ?thesis using m(8) [OF f4] va True unfolding kernel_mapped_def by auto
    qed
  next
    case False
    have "lookup (ram m4) ?kp va = lookup (ram m3) ?kp va" using m(6) r3 v False unfolding mapped_def by auto
    also have "\<dots> = lookup (ram m2) ?kp va" using m(4) r2 v False unfolding mapped_def by auto
    also have "\<dots> = lookup (ram m1) ?kp va" using m(2) m1(4) False unfolding ranged_def by blast
    finally show ?thesis using m1(8) va by auto
  qed
  have nr: "proc_roots (ptable (boot_state m4)) = Map.empty" by (auto simp: proc_roots_def boot_state_def)
  have "kernel_ok ld (boot_state m4) R4 Map.empty"
    by (rule kernel_okI) (use i4 nr r4 id in \<open>auto simp: boot_state_def\<close>)
  then show thesis using that [OF m1(1) m(1)] m(3,5) c by (simp add: map_to_nobody_def map_to_user_space_def kernel_space_bits)
qed

definition boot_list :: "linked \<Rightarrow> string option \<Rightarrow> (nat \<times> string) list kresult" where
  "boot_list ld command = kbind (case command of None \<Rightarrow> Inr True
            | Some c \<Rightarrow> kbind (program_image (images ld) (program_number (images ld) c)) (\<lambda>img. Inr (image_empty img))) (\<lambda>none.
     Inr (if \<not> none then [(1, the command)] else [(1, ''allocator''), (2, ''allocator2''), (3, ''allocator3''), (4, ''allocator4'')]))"

lemma boot_list_pids: "boot_list ld command = Inr xs \<Longrightarrow> 1 \<in> fst ` set xs \<and> (\<forall>x \<in> set xs. fst x < NPROC) \<and> length xs \<le> 4"
  by (auto simp: boot_list_def kbind_eq_Inr NPROC_def split: if_splits)

lemma kernel_start_split:
  assumes ld: "link_ok ld" and f: "free_pages (kernel_end ld) m \<noteq> {}"
  obtains m4 R where "kernel_ok ld (boot_state m4) R Map.empty" "card (free_pages (kernel_end ld) m) \<le> card (free_pages (kernel_end ld) m4)"
    "\<forall>command. kernel_start ld command m = kbind (boot_list ld command) (\<lambda>xs. kbind (setup_all ld xs (boot_state m4)) (run ld 1))"
proof -
  obtain m1 m2 m3 m4 R where m: "init_kernel_memory ld m = Inr m1"
    "memory_foreach (kernel_pagetable ld) PROC_START_ADDR (map_to_kernel_space (kernel_end ld)) m1 = Inr m2"
    "map_to_nobody (kernel_end ld) (kernel_pagetable ld) 0 m2 = Inr (True, m3)"
    "map_to_user_space (kernel_end ld) (kernel_pagetable ld) CONSOLE_ADDR m3 = Inr (True, m4)" "kernel_ok ld (boot_state m4) R Map.empty"
    "card (free_pages (kernel_end ld) m) \<le> card (free_pages (kernel_end ld) m4)"
    by (rule kernel_space_ok [OF ld f])
  have "kernel_start ld command m = kbind (boot_list ld command) (\<lambda>xs. kbind (setup_all ld xs (boot_state m4)) (run ld 1))" for command
    unfolding kernel_start_def m kbind_simps prod.case Let_def boot_list_def boot_state_def [symmetric]
    by (auto simp: kbind_def split: sum.splits)
  then show thesis using that m(5,6) by blast
qed

lemma fresh_pages:
  assumes ld: "link_ok ld" and m: "\<And>q. pages m q = 0"
  shows "256 \<le> card (free_pages (kernel_end ld) m)"
proof -
  have "round_up (kernel_end ld) PAGESIZE \<le> 0x80000"
    using link_bounds [OF ld] by (simp add: round_up_def round_down_def PAGESIZE_def minus_mod_eq_mult_div)
  then have "{256 ..< 512} \<subseteq> free_pages (kernel_end ld) m"
    using m by (auto simp: free_pages_def allocatable_physical_address_def reserved_physical_address_def PAGESIZE_def KERNEL_STACK_TOP_def MEMSIZE_PHYSICAL_def)
  from card_mono [OF finite_free_pages this] show ?thesis by simp
qed

lemma kernel_start_iso:
  assumes ld: "link_ok ld" "user_images (images ld)" and m: "\<And>q. pages m q = 0" and c: "kernel_start ld command m = Inr (out, s)"
    and f: "free_pages (kernel_end ld) (memory s) \<noteq> {}"
  obtains R own where "kernel_ok ld s R own" "out = Start" "current s = 1"
    "\<forall>xs. boot_list ld command = Inr xs \<longrightarrow> (\<forall>j \<in> fst ` set xs. state (ptable s ! j) = P_RUNNABLE)"
proof -
  have fm: "free_pages (kernel_end ld) m \<noteq> {}" using fresh_pages [OF ld(1) m] by auto
  obtain m4 R where b: "kernel_ok ld (boot_state m4) R Map.empty"
    "\<forall>command. kernel_start ld command m = kbind (boot_list ld command) (\<lambda>xs. kbind (setup_all ld xs (boot_state m4)) (run ld 1))"
    by (rule kernel_start_split [OF ld(1) fm])
  with c obtain xs s1 where x: "boot_list ld command = Inr xs" "setup_all ld xs (boot_state m4) = Inr s1" "run ld 1 s1 = Inr (out, s)"
    by (auto simp: kbind_eq_Inr)
  note p = boot_list_pids [OF x(1)] and r = run_cases [OF x(3)]
  have f1: "free_pages (kernel_end ld) (memory s1) \<noteq> {}" using f r by simp
  from setup_all_iso [OF b(1) ld x(2) f1] p obtain T own' where T: "kernel_ok ld s1 T own'" "\<forall>j \<in> fst ` set xs. state (ptable s1 ! j) = P_RUNNABLE" by blast
  have "kernel_ok ld s T own'" using T(1) r by (simp add: kernel_ok_def)
  then show thesis using that r T(2) x(1) by auto
qed

text \<open>Programs with at most twelve small segments leave pages.\<close>

definition small_images :: "ramimages \<Rightarrow> bool" where
  "small_images imgs \<longleftrightarrow> list_all (\<lambda>img. small_image 12 (snd img)) imgs"

lemma small_user_images: "small_images imgs \<Longrightarrow> user_images imgs"
  by (auto simp: small_images_def user_images_def small_image_def small_segment_def list_all_iff)

lemma small_images_in: "small_images imgs \<Longrightarrow> (name, elf) \<in> set imgs \<Longrightarrow> small_image 12 elf"
  by (auto simp: small_images_def list_all_iff)

lemma boot_list_ok: "small_images (images ld) \<Longrightarrow> \<exists>xs. boot_list ld command = Inr xs"
proof (cases command)
  case (Some c)
  assume "small_images (images ld)"
  then obtain pgm where "program_image (images ld) (program_number (images ld) c) = Inr pgm" using program_image_ok small_images_in by metis
  then show ?thesis using Some by (simp add: boot_list_def)
qed (simp add: boot_list_def)

lemma kernel_start_ok:
  assumes ld: "link_ok ld" "small_images (images ld)" and m: "\<And>q. pages m q = 0"
  obtains s where "kernel_start ld command m = Inr (Start, s)" "free_pages (kernel_end ld) (memory s) \<noteq> {}"
proof -
  note img = small_user_images [OF ld(2)]
  have fm: "free_pages (kernel_end ld) m \<noteq> {}" "256 \<le> card (free_pages (kernel_end ld) m)" using fresh_pages [OF ld(1) m] by auto
  obtain m4 R where b: "kernel_ok ld (boot_state m4) R Map.empty" "card (free_pages (kernel_end ld) m) \<le> card (free_pages (kernel_end ld) m4)"
    "\<forall>command. kernel_start ld command m = kbind (boot_list ld command) (\<lambda>xs. kbind (setup_all ld xs (boot_state m4)) (run ld 1))"
    by (rule kernel_start_split [OF ld(1) fm(1)])
  obtain xs where xs: "boot_list ld command = Inr xs" using boot_list_ok [OF ld(2)] by blast
  note p = boot_list_pids [OF xs]
  have "length xs * (4 * 12 + 8) \<le> 4 * (4 * 12 + 8)" using p by (intro mult_le_mono1) simp
  then have n: "length xs * (4 * 12 + 8) < card (free_pages (kernel_end ld) (memory (boot_state m4)))" using b(2) fm(2) by (simp add: boot_state_def)
  have "\<exists>s'. setup_all ld xs (boot_state m4) = Inr s' \<and> card (free_pages (kernel_end ld) (memory (boot_state m4)))
      \<le> card (free_pages (kernel_end ld) (memory s')) + length xs * (4 * 12 + 8)"
    by (rule setup_all_ok [OF b(1) ld(1) img n]) (use p small_images_in [OF ld(2)] in auto)
  then obtain s1 where s1: "setup_all ld xs (boot_state m4) = Inr s1"
    "card (free_pages (kernel_end ld) (memory (boot_state m4))) \<le> card (free_pages (kernel_end ld) (memory s1)) + length xs * (4 * 12 + 8)" by blast
  have f1: "free_pages (kernel_end ld) (memory s1) \<noteq> {}" using s1(2) n by auto
  from setup_all_iso [OF b(1) ld(1) img s1(1) f1] p obtain T own' where T: "kernel_ok ld s1 T own'" "state (ptable s1 ! 1) = P_RUNNABLE" by blast
  have "run ld 1 s1 = Inr (Start, s1\<lparr>current := 1\<rparr>)" by (rule run_ok [OF T(1) ld(1) _ T(2)]) (simp add: NPROC_def)
  then show thesis using that b(3) xs s1(1) f1 by simp
qed

end
