(* ===== verification/Kernel_Steps.thy ===== *)
theory Kernel_Steps
  imports Kernel_Boot
begin

text \<open>
  What runs after the boot (\<^verbatim>\<open>exception\<close>, \<^verbatim>\<open>syscall\<close>, \<^verbatim>\<open>syscall_page_alloc\<close>, \<^verbatim>\<open>schedule\<close> and \<^verbatim>\<open>run\<close> of
  \<^verbatim>\<open>src/mini-operating-system/kernel.c\<close>, and the writes of processes): the invariant of the kernel is kept, and a step of a
  process spares the others.
\<close>

unbundle bit_operations_syntax

section \<open>The scheduler\<close>

text \<open>The memory viewer changes only what it shows.\<close>

definition same_but_viewer :: "kernel \<Rightarrow> kernel \<Rightarrow> bool" where
  "same_but_viewer s t \<longleftrightarrow> memory t = memory s \<and> ptable t = ptable s \<and> current t = current s \<and> ticks t = ticks s"

lemma memshow_viewer: "same_but_viewer s (memshow s)"
  by (simp add: same_but_viewer_def memshow_def Let_def)

lemma same_but_viewer_refl: "same_but_viewer s s"
  by (simp add: same_but_viewer_def)

lemma same_but_viewer_trans: "same_but_viewer s t \<Longrightarrow> same_but_viewer t u \<Longrightarrow> same_but_viewer s u"
  by (simp add: same_but_viewer_def)

lemma kernel_ok_viewer: "kernel_ok ld s R own \<Longrightarrow> memory t = memory s \<Longrightarrow> ptable t = ptable s \<Longrightarrow> kernel_ok ld t R own"
  by (simp add: kernel_ok_def)

text \<open>The next runnable process after \<open>i\<close>, in the order of the table.\<close>

definition next_runnable :: "proc list \<Rightarrow> nat \<Rightarrow> nat \<Rightarrow> bool" where
  "next_runnable pt i j \<longleftrightarrow> (\<exists>d. 1 \<le> d \<and> d \<le> NPROC \<and> j = (i + d) mod NPROC \<and> state (pt ! j) = P_RUNNABLE
     \<and> (\<forall>e. 1 \<le> e \<and> e < d \<longrightarrow> state (pt ! ((i + e) mod NPROC)) \<noteq> P_RUNNABLE))"

lemma next_runnable_ex:
  assumes "j < NPROC" and "state (pt ! j) = P_RUNNABLE"
  shows "\<exists>k. next_runnable pt i k"
proof -
  let ?P = "\<lambda>d. 1 \<le> d \<and> state (pt ! ((i + d) mod NPROC)) = P_RUNNABLE"
  define d where "d = (LEAST d. ?P d)"
  let ?d = "NPROC - i mod NPROC + j"
  have "(i + ?d) mod NPROC = j"
  proof -
    obtain q m where i: "i = 16 * q + m" "m < 16" by (metis mod_less_divisor mult_div_mod_eq zero_less_numeral)
    then have "i mod 16 = m" by simp
    then have "i + ?d = j + 16 * (q + 1)" using i by (simp add: NPROC_def)
    then show ?thesis using assms(1) mod_mult_self2 [of j 16 "q + 1"] by (simp only: NPROC_def mod_less)
  qed
  moreover have "1 \<le> ?d" using mod_less_divisor [of NPROC i] by (simp add: NPROC_def)
  ultimately have ex: "?P ?d" using assms(2) by simp
  have d: "?P d" unfolding d_def by (rule LeastI [of ?P, OF ex])
  have low: "\<not> ?P e" if "e < d" for e using not_less_Least that unfolding d_def by blast
  have "d \<le> NPROC"
  proof (rule ccontr)
    assume a: "\<not> d \<le> NPROC"
    then have "(i + (d - NPROC)) mod NPROC = (i + d) mod NPROC" by (metis (no_types) add.assoc le_add_diff_inverse2 linear mod_add_self2)
    moreover have "1 \<le> d - NPROC" "d - NPROC < d" using a by (auto simp: NPROC_def)
    ultimately show False using low [of "d - NPROC"] d by simp
  qed
  then show ?thesis using d low unfolding next_runnable_def by blast
qed

lemma schedule_loop_next:
  assumes "1 \<le> d" and "state (ptable s ! ((i + d) mod NPROC)) = P_RUNNABLE"
    and "\<forall>e. 1 \<le> e \<and> e < d \<longrightarrow> state (ptable s ! ((i + e) mod NPROC)) \<noteq> P_RUNNABLE" and keys: "\<And>n. check_keyboard (keys n) = None"
  shows "\<exists>t. same_but_viewer s t \<and> schedule_loop ld keys spins i s = Some (run ld ((i + d) mod NPROC) t)"
  using assms(1-3)
proof (induction d arbitrary: i spins s)
  case 0
  then show ?case by simp
next
  case (Suc d)
  let ?s = "if spins mod 2 ^ 12 = 0 then memshow s else s"
  have v: "same_but_viewer s ?s" using memshow_viewer same_but_viewer_refl by simp
  show ?case
  proof (cases "d = 0")
    case True
    then show ?thesis using Suc.prems(2) same_but_viewer_refl by (subst schedule_loop.simps) (auto simp: Let_def)
  next
    case False
    have shift: "((i + 1) mod NPROC + e) mod NPROC = (i + Suc e) mod NPROC" for e by (simp add: mod_simps)
    have pt: "ptable ?s = ptable s" using v by (simp add: same_but_viewer_def)
    have not: "state (ptable s ! ((i + 1) mod NPROC)) \<noteq> P_RUNNABLE" using Suc.prems(3) False by auto
    have later: "state (ptable s ! ((i + Suc e) mod NPROC)) \<noteq> P_RUNNABLE" if "e < d" for e
      using Suc.prems(3) [rule_format, of "Suc e"] that by simp
    have "\<exists>t. same_but_viewer ?s t \<and> schedule_loop ld keys (Suc spins) ((i + 1) mod NPROC) ?s = Some (run ld (((i + 1) mod NPROC + d) mod NPROC) t)"
      by (rule Suc.IH) (use False Suc.prems(2) later in \<open>auto simp only: pt shift\<close>)
    then obtain t where t: "same_but_viewer ?s t" "schedule_loop ld keys (Suc spins) ((i + 1) mod NPROC) ?s = Some (run ld ((i + Suc d) mod NPROC) t)"
      unfolding shift by blast
    have "schedule_loop ld keys spins i s = schedule_loop ld keys (Suc spins) ((i + 1) mod NPROC) ?s"
      using not keys by (subst schedule_loop.simps) (simp add: Let_def)
    then show ?thesis using t same_but_viewer_trans [OF v t(1)] by auto
  qed
qed

lemma schedule_loop_cases:
  "schedule_loop ld keys spins i s = Some res \<Longrightarrow> \<exists>t. same_but_viewer s t
    \<and> ((\<exists>j < NPROC. res = run ld j t) \<or> (\<exists>n out. check_keyboard (keys n) = Some out \<and> res = Inr (out, t)))"
proof (rule schedule_loop.raw_induct [where P = "\<lambda>ld keys spins i s res. \<exists>t. same_but_viewer s t
    \<and> ((\<exists>j < NPROC. res = run ld j t) \<or> (\<exists>n out. check_keyboard (keys n) = Some out \<and> res = Inr (out, t)))"], goal_cases)
  case (1 loop ld keys spins i s res)
  let ?s = "if spins mod 2 ^ 12 = 0 then memshow s else s"
  have v: "same_but_viewer s ?s" using memshow_viewer same_but_viewer_refl by simp
  show ?case
  proof (cases "state (ptable s ! ((i + 1) mod NPROC)) = P_RUNNABLE")
    case True
    then have "res = run ld ((i + 1) mod NPROC) s" "(i + 1) mod NPROC < NPROC" using 1(3) by (auto simp: Let_def NPROC_def)
    then show ?thesis using same_but_viewer_refl by blast
  next
    case False
    show ?thesis
    proof (cases "check_keyboard (keys spins)")
      case None
      then have "loop ld keys (Suc spins) ((i + 1) mod NPROC) ?s = Some res" using 1(3) False by (simp add: Let_def)
      from 1(2) [OF this] show ?thesis using same_but_viewer_trans [OF v] by blast
    next
      case (Some out)
      then show ?thesis using 1(3) False same_but_viewer_refl by (auto simp: Let_def)
    qed
  qed
qed simp

section \<open>Allocating a page\<close>

lemma space_wlevel:
  assumes t: "tables m R" and r: "root R r" and sp: "space_ok m r" and va: "vpre va 0 < 1024"
  shows "wlevel m r va = 0"
proof -
  have same: "wlevel m r va = 0" if "wlevel m r vb = 0" "vpre va (Suc 0) = vpre vb (Suc 0)" for vb
    using wlevel_zero [OF t r that(1) t map_le_refl _ that(2)] by simp
  have k: "wlevel m r 4096 = 0"
  proof (rule wlevel_lookup)
    show "lookup m r 4096 = Some (0, 4096 * vpre 4096 0, 3)" using sp unfolding space_ok_def kernel_mapped_def by (simp add: vpre_def)
  qed
  have "wlevel m r (MEMSIZE_VIRTUAL - PAGESIZE) = 0" using sp wlevel_lookup unfolding space_ok_def by blast
  moreover have "vpre (MEMSIZE_VIRTUAL - PAGESIZE) (Suc 0) = 1" "vpre 4096 (Suc 0) = 0"
    by (simp_all add: vpre_def MEMSIZE_VIRTUAL_def PAGESIZE_def)
  ultimately show ?thesis using same k low_index(4) [OF va] vpre_Suc [of va 0] by metis
qed

lemma page_alloc_cases:
  assumes ok: "kernel_ok ld s R own" and r: "proc_roots (ptable s) (current s) = Some r" and c: "syscall_page_alloc ld addr s = Inr (v, s')"
  obtains "v = - 1" "s' = s" "free_pages (kernel_end ld) (memory s) = {}"
  | p u m T where "v = 0" "kalloc (kernel_end ld) PAGESIZE (memory s) = (p, u)" "p \<noteq> 0" "mapped (kernel_end ld) r addr p PTE_PWU u R 0 m T"
      "s' = s\<lparr>memory := m\<lparr>ram := mem_fill p 0 4096 (ram m)\<rparr>\<rparr>" "va_is_canonical addr" "4096 dvd addr"
      "isolated (kernel_end ld) m T (proc_roots (ptable s)) (own(p \<mapsto> current s))"
      "spares (current s) r (memory s) R own m T (own(p \<mapsto> current s))"
proof -
  let ?ke = "kernel_end ld"
  note iso = kernel_okD(1) [OF ok]
  have pt: "pagetable (ptable s ! current s) = r" using r by (auto simp: proc_roots_def split: if_splits)
  obtain p u where k: "kalloc ?ke PAGESIZE (memory s) = (p, u)" by (cases "kalloc ?ke PAGESIZE (memory s)")
  show thesis
  proof (cases "p = 0")
    case True
    with kalloc_none [of ?ke "memory s" u] k have "u = memory s" "free_pages ?ke (memory s) = {}" by auto
    then show thesis using that(1) c k True by (simp add: syscall_page_alloc_def)
  next
    case False
    with c k pt obtain rv m dst where m: "memory_map ?ke r addr p PTE_PWU u = Inr (rv, m)" "memory_virtual_to_physical r addr m = Inr dst"
      "in_ram dst" "v = 0" "s' = s\<lparr>memory := m\<lparr>ram := mem_fill dst 0 PAGESIZE (ram m)\<rparr>\<rparr>"
      by (auto simp: syscall_page_alloc_def Let_def kbind_eq_Inr split: if_splits)
    note iu = iso_kalloc [OF iso k False, of "current s"]
    note va = isolated_map(1,2) [OF iu r m(1) allocated_page [OF k False] PWU_bits]
    obtain T where T: "mapped ?ke r addr p PTE_PWU u R rv m T" "isolated ?ke m T (proc_roots (ptable s)) (own(p \<mapsto> current s))"
      "spares (current s) r (memory s) R own m T (own(p \<mapsto> current s))" using own_page [OF iso r k False m(1)] by blast
    have "vpre addr 0 < 2 ^ 36" by (simp add: vpre_def)
    then have small: "l = 0" if "lookup (ram m) r addr = Some (l, a, q)" for l a q
      using isolatedD(5) [OF T(2) r] that unfolding small_pages_def by blast
    have dst: "dst = (case lookup (ram m) r addr of None \<Rightarrow> 2 ^ 64 - 1 | Some (l, a, p) \<Rightarrow> a + addr mod 4096)"
      using virtual_to_physical [OF isolatedD(1) [OF T(2)] isolatedD(4) [OF T(2) r] va(1)] small m(2) by simp
    have rv: "rv = 0"
    proof (rule ccontr)
      assume n: "rv \<noteq> 0"
      then have "lookup (ram m) r addr = lookup (ram u) r addr" using T(1) unfolding mapped_def by simp
      moreover have "lookup (ram u) r addr = None"
      proof (rule ccontr)
        assume "lookup (ram u) r addr \<noteq> None"
        then obtain l a q where "lookup (ram u) r addr = Some (l, a, q)" by auto
        moreover from this have "l = 0" using isolatedD(5) [OF iu r] \<open>vpre addr 0 < 2 ^ 36\<close> unfolding small_pages_def by blast
        ultimately show False using wlevel_lookup [of "ram u" r addr] T(1) n unfolding mapped_def by auto
      qed
      ultimately show False using dst m(3) by (simp add: in_ram_def MEMSIZE_PHYSICAL_def)
    qed
    then have "dst = p" using dst T(1) va(2) PWU_bits(3) unfolding mapped_def by simp
    then show thesis using that(2) m(4,5) k False T va rv by (simp add: PAGESIZE_def)
  qed
qed

text \<open>Filling a page of the process.\<close>

lemma fill_own_page:
  assumes iso: "isolated ke m T roots own" and p: "own p = Some i" "4096 dvd p"
  defines "t \<equiv> m\<lparr>ram := mem_fill p 0 4096 (ram m)\<rparr>"
  shows "isolated ke t T roots own" "root T r' \<Longrightarrow> lookup (ram t) r' va = lookup (ram m) r' va" "spares i r m T own t T own"
proof -
  have f: "ram t x = ram m x" if "page_of x \<noteq> p" for x using that page_of_in [OF p(2), of x] by (auto simp: t_def mem_fill_def)
  have "ram t x = ram m x" if "T (page_of x) \<noteq> None" for x using f isolatedD(9) [OF iso p(1)] that by metis
  then show "isolated ke t T roots own" and l: "root T r' \<Longrightarrow> lookup (ram t) r' va = lookup (ram m) r' va" for r' va
    using iso_frame [OF iso, of t] by (auto simp: t_def)
  have "ram t x = ram m x" if "own (page_of x) = Some j" "j \<noteq> i" for x j using f p(1) that by (metis option.inject)
  then show "spares i r m T own t T own" using l unfolding spares_def by auto
qed

lemma page_alloc_step:
  assumes ok: "kernel_ok ld s R own" and ld: "link_ok ld" and r: "proc_roots (ptable s) (current s) = Some r"
    and c: "syscall_page_alloc ld addr s = Inr (v, s')" and addr: "PROC_START_ADDR \<le> addr" "addr < 2 ^ 64"
  shows "\<exists>T own'. kernel_ok ld s' T own' \<and> spares (current s) r (memory s) R own (memory s') T own' \<and> ptable s' = ptable s \<and> current s' = current s"
proof (rule page_alloc_cases [OF ok r c], goal_cases)
  case 1
  then show ?case using ok spares_refl by blast
next
  case (2 p u m T)
  let ?own = "own(p \<mapsto> current s)"
  have d: "4096 dvd p" using kalloc_page [OF 2(2,3)] by simp
  have o: "?own p = Some (current s)" by simp
  note f = fill_own_page [OF 2(8) o d]
  note iso = kernel_okD(1) [OF ok] and rT = isolatedD(4) [OF 2(8) r]
  have high: "256 \<le> vpre addr 0" using high_page [OF 2(6)] addr by (simp add: PROC_START_ADDR_def)
  have "low_kept r (memory s) m" by (rule low_kept_map [OF iso 2(2,3) r 2(4) high])
  then have "kernel_mapped (ram m) r" using kernel_mapped_low kernel_okD(4) [OF ok r] by (simp add: space_ok_def)
  moreover have "\<exists>a. lookup (ram m) r (MEMSIZE_VIRTUAL - PAGESIZE) = Some (0, a, PTE_PWU) \<and> a \<noteq> CONSOLE_ADDR"
  proof (cases "vpre (MEMSIZE_VIRTUAL - PAGESIZE) 0 = vpre addr 0")
    case True
    have "p \<noteq> CONSOLE_ADDR" using kalloc_new(3) [OF 2(2,3) isolatedD(2) [OF iso]] console_reserved by auto
    then show ?thesis using lookup_cong [OF True, of "ram m" r] 2(4) PWU_bits(3) unfolding mapped_def by simp
  next
    case False
    then have "lookup (ram m) r (MEMSIZE_VIRTUAL - PAGESIZE) = lookup (ram u) r (MEMSIZE_VIRTUAL - PAGESIZE)"
      using 2(4) isolatedD(4) [OF iso r] unfolding mapped_def by auto
    also have "\<dots> = lookup (ram (memory s)) r (MEMSIZE_VIRTUAL - PAGESIZE)"
      by (rule kalloc_lookup(2) [OF isolatedD(1,2) [OF iso] 2(2,3) isolatedD(4) [OF iso r]])
    finally show ?thesis using kernel_okD(4) [OF ok r] by (simp add: space_ok_def)
  qed
  ultimately have "space_ok (ram m) r" by (simp add: space_ok_def)
  then have sp: "space_ok (ram (memory s')) r" using space_ok_same f(2) [OF rT] 2(5) by auto
  have s': "memory s' = m\<lparr>ram := mem_fill p 0 4096 (ram m)\<rparr>" "ptable s' = ptable s" using 2(5) by simp_all
  have spares: "spares (current s) r (memory s) R own (memory s') T ?own" unfolding s' by (rule spares_trans [OF 2(9) f(3)])
  have "kernel_ok ld s' T ?own"
    by (rule kernel_ok_step [OF ok ld _ spares _ _ sp]) (use f(1) r kernel_okD [OF ok] in \<open>simp_all only: s' refl\<close>)
  then show ?case using spares 2(5) by auto
qed

section \<open>Runs of the machine\<close>

text \<open>
  What happens while a process runs: it writes through its page table in user mode, it makes a system call, or the processor
  takes an exception. The arguments of \<^verbatim>\<open>sys_page_alloc\<close> are as \<^verbatim>\<open>u-lib.hh\<close> asks.
\<close>

inductive kstep :: "linked \<Rightarrow> nat \<Rightarrow> kernel \<Rightarrow> kernel \<Rightarrow> bool" for ld where
  user_write: "i = current s \<Longrightarrow> lookup (ram (memory s)) (pagetable (ptable s ! i)) va = Some (l, pa, perm)
    \<Longrightarrow> perm AND PTE_U \<noteq> 0 \<Longrightarrow> perm AND PTE_W \<noteq> 0
    \<Longrightarrow> kstep ld i s (s\<lparr>memory := (memory s)\<lparr>ram := (ram (memory s))(pa + va mod 4096 := b)\<rparr>\<rparr>)"
| system_call: "i = current s \<Longrightarrow> syscall ld keys r s = Some (Inr (out, t)) \<Longrightarrow> out = Start \<or> out = Return v
    \<Longrightarrow> reg_rax r = 4 \<longrightarrow> PROC_START_ADDR \<le> reg_rdi r \<and> reg_rdi r < MEMSIZE_VIRTUAL \<Longrightarrow> kstep ld i s t"
| exception: "i = current s \<Longrightarrow> kexception ld keys r s = Some (Inr (Start, t)) \<Longrightarrow> kstep ld i s t"

inductive_cases kstepE: "kstep ld i s t"

inductive reachable :: "linked \<Rightarrow> kernel \<Rightarrow> bool" for ld where
  booted: "link_ok ld \<Longrightarrow> user_images (images ld) \<Longrightarrow> (\<And>q. pages m q = 0) \<Longrightarrow> kernel_start ld command m = Inr (out, s)
    \<Longrightarrow> free_pages (kernel_end ld) (memory s) \<noteq> {} \<Longrightarrow> reachable ld s"
| stepped: "reachable ld s \<Longrightarrow> kstep ld i s t \<Longrightarrow> reachable ld t"

inductive runs :: "('d \<Rightarrow> 's \<Rightarrow> 's \<Rightarrow> bool) \<Rightarrow> 'd list \<Rightarrow> 's \<Rightarrow> 's \<Rightarrow> bool" for step where
  runs_nil: "runs step [] s s"
| runs_cons: "step d s t \<Longrightarrow> runs step ds t u \<Longrightarrow> runs step (d # ds) s u"

text \<open>Domains that act on a state, and what each of them sees of it.\<close>

locale noninterference =
  fixes inv :: "'s \<Rightarrow> bool" and step :: "'d \<Rightarrow> 's \<Rightarrow> 's \<Rightarrow> bool" and view :: "'s \<Rightarrow> 'd \<Rightarrow> 'v"
  assumes step_inv: "inv s \<Longrightarrow> step d s t \<Longrightarrow> inv t"
    and respects: "inv s \<Longrightarrow> step d s t \<Longrightarrow> e \<noteq> d \<Longrightarrow> view t e = view s e"
begin

lemma runs_inv: "runs step ds s t \<Longrightarrow> inv s \<Longrightarrow> inv t"
  by (induction rule: runs.induct) (auto intro: step_inv)

lemma unseen: "runs step ds s t \<Longrightarrow> inv s \<Longrightarrow> e \<notin> set ds \<Longrightarrow> view t e = view s e"
  by (induction rule: runs.induct) (simp_all, metis step_inv respects)

end

definition running :: "linked \<Rightarrow> kernel \<Rightarrow> roles \<Rightarrow> (int \<Rightarrow> nat option) \<Rightarrow> bool" where
  "running ld s R own \<longleftrightarrow> kernel_ok ld s R own \<and> current s < NPROC \<and> state (ptable s ! current s) = P_RUNNABLE"

definition kernel_inv :: "linked \<Rightarrow> kernel \<Rightarrow> bool" where
  "kernel_inv ld s \<longleftrightarrow> link_ok ld \<and> (\<exists>R own. running ld s R own)"

text \<open>What a process reads at an address in user mode, apart from the console.\<close>

definition view :: "kernel \<Rightarrow> nat \<Rightarrow> int \<Rightarrow> (int \<times> byte) option" where
  "view s i va = (case proc_roots (ptable s) i of None \<Rightarrow> None
     | Some r \<Rightarrow> (case lookup (ram (memory s)) r va of None \<Rightarrow> None
       | Some (l, pa, perm) \<Rightarrow> if perm AND PTE_U = 0 \<or> pa = CONSOLE_ADDR then None else Some (perm, ram (memory s) (pa + va mod 4096))))"

definition user_page :: "kernel \<Rightarrow> nat \<Rightarrow> int \<Rightarrow> bool" where
  "user_page s i pa \<longleftrightarrow> (\<exists>r va l perm. proc_roots (ptable s) i = Some r \<and> lookup (ram (memory s)) r va = Some (l, pa, perm) \<and> perm AND PTE_U \<noteq> 0)"

lemma running_root:
  assumes "running ld s R own"
  shows "proc_roots (ptable s) (current s) = Some (pagetable (ptable s ! current s))"
  using assms kernel_okD(2) [of ld s R own] by (simp add: running_def proc_roots_def)

lemma lookup_aligned: "lookup m r va = Some (l, pa, perm) \<Longrightarrow> 4096 dvd pa"
  by (auto simp: lookup_def Let_def pamask_eq split: sum.splits if_splits)

lemma page_of_offset: "4096 dvd pa \<Longrightarrow> page_of (pa + va mod 4096) = pa"
  by (rule page_of_in) auto

section \<open>Steps keep the invariant\<close>

text \<open>What a step of the process \<open>i\<close> keeps.\<close>

definition kept :: "linked \<Rightarrow> nat \<Rightarrow> kernel \<Rightarrow> roles \<Rightarrow> (int \<Rightarrow> nat option) \<Rightarrow> kernel \<Rightarrow> bool" where
  "kept ld i s R own t \<longleftrightarrow> (\<exists>T own'. running ld t T own' \<and> spares i (pagetable (ptable s ! i)) (memory s) R own (memory t) T own'
     \<and> (\<forall>j. proc_roots (ptable t) j = proc_roots (ptable s) j))"

lemma kernel_ok_proc:
  assumes ok: "kernel_ok ld s R own" and i: "i < NPROC" "state (ptable s ! i) \<noteq> P_FREE"
    and p: "pagetable p = pagetable (ptable s ! i)" "state p \<noteq> P_FREE" "pid p = pid (ptable s ! i)"
  shows "kernel_ok ld (set_proc i p s) R own" "proc_roots (ptable (set_proc i p s)) = proc_roots (ptable s)"
proof -
  have len: "length (ptable s) = NPROC" by (rule kernel_okD(2) [OF ok])
  show r: "proc_roots (ptable (set_proc i p s)) = proc_roots (ptable s)"
    using i p len by (auto simp: proc_roots_def set_proc_def nth_list_update)
  have "pid (ptable (set_proc i p s) ! j) = int j" if "j < NPROC" for j
    using that kernel_okD(3) [OF ok] p(3) i len by (simp add: set_proc_def nth_list_update)
  then show "kernel_ok ld (set_proc i p s) R own" using ok unfolding kernel_ok_def r by (simp add: set_proc_def)
qed

lemma keyboard_stops: "check_keyboard c \<noteq> Some Start" "check_keyboard c \<noteq> Some (Return v)"
  by (simp_all add: check_keyboard_def)

lemma schedule_keeps:
  assumes ok: "kernel_ok ld s R own" and c: "schedule ld keys s = Some (Inr (out, t))" and out: "out = Start \<or> out = Return v"
  shows "running ld t R own" "memory t = memory s" "ptable t = ptable s"
proof -
  obtain u where u: "same_but_viewer s u" "(\<exists>j < NPROC. Inr (out, t) = run ld j u) \<or> (\<exists>n o'. check_keyboard (keys n) = Some o' \<and> Inr (out, t) = Inr (o', u))"
    using schedule_loop_cases c unfolding schedule_def by blast
  then obtain j where j: "j < NPROC" "run ld j u = Inr (out, t)" using out keyboard_stops by (metis Inr_inject prod.inject)
  note r = run_cases [OF j(2)]
  show m: "memory t = memory s" "ptable t = ptable s" using u(1) r by (auto simp: same_but_viewer_def)
  then show "running ld t R own" using kernel_ok_viewer [OF ok m] j(1) r by (simp add: running_def)
qed

lemma kept_quiet:
  assumes "running ld t R own" and "memory t = memory s" and "proc_roots (ptable t) = proc_roots (ptable s)"
  shows "kept ld i s R own t"
  using assms spares_refl unfolding kept_def by metis

lemma kexception_keeps:
  assumes run: "running ld s R own" and c: "kexception ld keys r s = Some (Inr (Start, t))"
  shows "kept ld (current s) s R own t"
proof -
  let ?i = "current s"
  let ?p = "(ptable s ! ?i)\<lparr>regs := r\<rparr>"
  define s1 where "s1 = set_proc ?i ?p s"
  define s2 where "s2 = (if reg_intno r \<noteq> 14 \<or> reg_errcode r AND 0x4 \<noteq> 0 then memshow s1 else s1)"
  have ok: "kernel_ok ld s R own" and i: "?i < NPROC" "state (ptable s ! ?i) = P_RUNNABLE" using run by (auto simp: running_def)
  have ok1: "kernel_ok ld s1 R own" "proc_roots (ptable s1) = proc_roots (ptable s)"
    unfolding s1_def by (rule kernel_ok_proc [OF ok i(1)]; simp add: i)+
  have v: "same_but_viewer s1 s2" using memshow_viewer same_but_viewer_refl by (simp add: s2_def)
  then have e2: "memory s2 = memory s" "ptable s2 = ptable s1" "current s2 = ?i" by (auto simp: same_but_viewer_def s1_def set_proc_def)
  have ok2: "kernel_ok ld s2 R own" using kernel_ok_viewer [OF ok1(1)] v by (simp add: same_but_viewer_def)
  have key: "check_keyboard (keys 0) = None" and lim: "\<not> ((reg_intno r \<noteq> 14 \<or> reg_errcode r AND 0x4 \<noteq> 0) \<and> tick_limit ld \<noteq> 0 \<and> ticks s2 \<ge> tick_limit ld)"
    using c keyboard_stops(1) [of "keys 0"] unfolding kexception_def Let_def s1_def [symmetric] s2_def [symmetric] by (auto split: if_splits option.splits)
  let ?q = "(ptable s2 ! ?i)\<lparr>state := P_BROKEN\<rparr>"
  have c2: "(if reg_intno r = 32 then schedule ld keys (s2\<lparr>ticks := (ticks s2 + 1) mod 2 ^ 64\<rparr>)
      else if reg_intno r = 14 then (if reg_errcode r AND 0x4 = 0 then Some (Inl Panic)
        else if state (ptable (set_proc ?i ?q s2) ! ?i) = P_RUNNABLE then Some (run ld ?i (set_proc ?i ?q s2)) else schedule ld keys (set_proc ?i ?q s2))
      else Some (Inl Panic)) = Some (Inr (Start, t))"
    using c unfolding kexception_def Let_def s1_def [symmetric] s2_def [symmetric] by (simp only: key lim option.case if_False)
  show ?thesis
  proof (cases "reg_intno r = 32")
    case True
    then have "schedule ld keys (s2\<lparr>ticks := (ticks s2 + 1) mod 2 ^ 64\<rparr>) = Some (Inr (Start, t))" using c2 by simp
    from schedule_keeps [OF kernel_ok_viewer [OF ok2] this, of 0] show ?thesis using kept_quiet ok1(2) e2 by simp
  next
    case False
    from False c2 have c': "(if state (ptable (set_proc ?i ?q s2) ! ?i) = P_RUNNABLE then Some (run ld ?i (set_proc ?i ?q s2)) else schedule ld keys (set_proc ?i ?q s2)) = Some (Inr (Start, t))"
      by (auto split: if_splits)
    have len: "length (ptable s2) = NPROC" by (rule kernel_okD(2) [OF ok2])
    have st: "state (ptable s2 ! ?i) = P_RUNNABLE" using i len kernel_okD(2) [OF ok] by (simp add: e2 s1_def set_proc_def)
    have ok3: "kernel_ok ld (set_proc ?i ?q s2) R own" "proc_roots (ptable (set_proc ?i ?q s2)) = proc_roots (ptable s2)"
      by (rule kernel_ok_proc [OF ok2 i(1)]; simp add: st)+
    have "state (ptable (set_proc ?i ?q s2) ! ?i) \<noteq> P_RUNNABLE" using i len by (simp add: set_proc_def)
    then have "schedule ld keys (set_proc ?i ?q s2) = Some (Inr (Start, t))" using c' by simp
    from schedule_keeps [OF ok3(1) this, of 0] show ?thesis using kept_quiet ok3(2) ok1(2) e2 by (simp add: set_proc_def)
  qed
qed

lemma syscall_keeps:
  assumes run: "running ld s R own" and ld: "link_ok ld" and c: "syscall ld keys r s = Some (Inr (out, t))" and out: "out = Start \<or> out = Return v"
    and addr: "reg_rax r = 4 \<longrightarrow> PROC_START_ADDR \<le> reg_rdi r \<and> reg_rdi r < MEMSIZE_VIRTUAL"
  shows "kept ld (current s) s R own t"
proof -
  let ?i = "current s"
  define s1 where "s1 = set_proc ?i ((ptable s ! ?i)\<lparr>regs := r\<rparr>) s"
  define s2 where "s2 = memshow s1"
  have ok: "kernel_ok ld s R own" and i: "?i < NPROC" "state (ptable s ! ?i) = P_RUNNABLE" using run by (auto simp: running_def)
  have ok1: "kernel_ok ld s1 R own" "proc_roots (ptable s1) = proc_roots (ptable s)"
    unfolding s1_def by (rule kernel_ok_proc [OF ok i(1)]; simp add: i)+
  have v: "same_but_viewer s1 s2" using memshow_viewer by (simp add: s2_def)
  then have e2: "memory s2 = memory s" "ptable s2 = ptable s1" "current s2 = ?i" by (auto simp: same_but_viewer_def s1_def set_proc_def)
  have ok2: "kernel_ok ld s2 R own" using kernel_ok_viewer [OF ok1(1)] v by (simp add: same_but_viewer_def)
  have len: "length (ptable s2) = NPROC" by (rule kernel_okD(2) [OF ok2])
  have st: "state (ptable s2 ! ?i) = P_RUNNABLE" "pagetable (ptable s2 ! ?i) = pagetable (ptable s ! ?i)"
    using i len kernel_okD(2) [OF ok] by (simp_all add: e2 s1_def set_proc_def)
  have key: "check_keyboard (keys 0) = None"
    using c out keyboard_stops [of "keys 0"] unfolding syscall_def Let_def by (auto split: option.splits)
  have c2: "(if reg_rax r = 3 then Some (Inl Panic) else if reg_rax r = 1 then Some (Inr (Return (pid (ptable s2 ! ?i)), s2))
      else if reg_rax r = 2 then schedule ld keys (set_proc ?i ((ptable s2 ! ?i)\<lparr>regs := (regs (ptable s2 ! ?i))\<lparr>reg_rax := 0\<rparr>\<rparr>) s2)
      else if reg_rax r = 4 then Some (kbind (syscall_page_alloc ld (reg_rdi r) s2) (\<lambda>(v, s). Inr (Return v, s)))
      else Some (Inl Panic)) = Some (Inr (out, t))"
    using c unfolding syscall_def Let_def s1_def [symmetric] s2_def [symmetric] by (simp only: key option.case)
  consider "t = s2" | "schedule ld keys (set_proc ?i ((ptable s2 ! ?i)\<lparr>regs := (regs (ptable s2 ! ?i))\<lparr>reg_rax := 0\<rparr>\<rparr>) s2) = Some (Inr (out, t))"
    | w where "reg_rax r = 4" "syscall_page_alloc ld (reg_rdi r) s2 = Inr (w, t)"
    using c2 by (auto simp: kbind_eq_Inr split: if_splits)
  then show ?thesis
  proof cases
    case 1
    then have "running ld t R own" using ok2 i st e2 by (simp add: running_def)
    then show ?thesis using 1 kept_quiet ok1(2) e2 by simp
  next
    case 2
    let ?q = "(ptable s2 ! ?i)\<lparr>regs := (regs (ptable s2 ! ?i))\<lparr>reg_rax := 0\<rparr>\<rparr>"
    have ok3: "kernel_ok ld (set_proc ?i ?q s2) R own" "proc_roots (ptable (set_proc ?i ?q s2)) = proc_roots (ptable s2)"
      by (rule kernel_ok_proc [OF ok2 i(1)]; simp add: st)+
    from schedule_keeps [OF ok3(1) 2 out] show ?thesis using kept_quiet ok3(2) ok1(2) e2 by (simp add: set_proc_def)
  next
    case (3 w)
    have r: "proc_roots (ptable s2) (current s2) = Some (pagetable (ptable s ! ?i))" using running_root [OF run] ok1(2) e2 by simp
    have a: "PROC_START_ADDR \<le> reg_rdi r" "reg_rdi r < 2 ^ 64" using addr 3(1) by (auto simp: MEMSIZE_VIRTUAL_def)
    obtain T own' where T: "kernel_ok ld t T own'" "spares ?i (pagetable (ptable s ! ?i)) (memory s) R own (memory t) T own'"
      "ptable t = ptable s2" "current t = ?i" using page_alloc_step [OF ok2 ld r 3(2) a] e2 by auto
    have "running ld t T own'" using T(1,3,4) i st by (simp add: running_def)
    then show ?thesis using T(2,3) ok1(2) e2 unfolding kept_def by auto
  qed
qed

lemma write_keeps_lookup:
  assumes run: "running ld s R own" and l: "lookup (ram (memory s)) (pagetable (ptable s ! current s)) va = Some (l, pa, perm)" "perm AND PTE_U \<noteq> 0"
    and r: "root R r"
  shows "lookup ((ram (memory s))(pa + va mod 4096 := b)) r vb = lookup (ram (memory s)) r vb"
proof (rule tables_frame(3) [OF _ _ r])
  have "kernel_ok ld s R own" using run by (simp add: running_def)
  note iso = kernel_okD(1) [OF this]
  show "tables (ram (memory s)) R" by (rule isolatedD(1) [OF iso])
  have "R pa = None" using isolatedD(10) [OF iso running_root [OF run] l] isolatedD(3,9) [OF iso] by auto
  moreover have "page_of (pa + va mod 4096) = pa" by (rule page_of_offset [OF lookup_aligned [OF l(1)]])
  ultimately show "((ram (memory s))(pa + va mod 4096 := b)) x = ram (memory s) x" if "R (page_of x) \<noteq> None" for x using that by auto
qed

lemma user_write_keeps:
  assumes run: "running ld s R own" and l: "lookup (ram (memory s)) (pagetable (ptable s ! current s)) va = Some (l, pa, perm)" "perm AND PTE_U \<noteq> 0"
  shows "kept ld (current s) s R own (s\<lparr>memory := (memory s)\<lparr>ram := (ram (memory s))(pa + va mod 4096 := b)\<rparr>\<rparr>)"
proof -
  let ?i = "current s" and ?m = "(memory s)\<lparr>ram := (ram (memory s))(pa + va mod 4096 := b)\<rparr>"
  have ok: "kernel_ok ld s R own" using run by (simp add: running_def)
  note iso = kernel_okD(1) [OF ok] and r = running_root [OF run]
  have pa: "pa = CONSOLE_ADDR \<or> own pa = Some ?i" by (rule isolatedD(10) [OF iso r l])
  have pg: "page_of (pa + va mod 4096) = pa" by (rule page_of_offset [OF lookup_aligned [OF l(1)]])
  have f: "ram ?m x = ram (memory s) x" if "page_of x \<noteq> pa" for x using that pg by auto
  have "R pa = None" using pa isolatedD(3,9) [OF iso] by auto
  then have tb: "ram ?m x = ram (memory s) x" if "R (page_of x) \<noteq> None" for x using f that by metis
  have iso': "isolated (kernel_end ld) ?m R (proc_roots (ptable s)) own" and lk: "\<And>r va. root R r \<Longrightarrow> lookup (ram ?m) r va = lookup (ram (memory s)) r va"
    using iso_frame [OF iso, of ?m] tb by simp_all
  have con: "own CONSOLE_ADDR \<noteq> Some j" for j using isolatedD(7) [OF iso, of CONSOLE_ADDR j] console_reserved by blast
  have "ram ?m x = ram (memory s) x" if "own (page_of x) = Some j" "j \<noteq> ?i" for x j by (rule f) (use pa that con in auto)
  then have sp: "spares ?i (pagetable (ptable s ! ?i)) (memory s) R own ?m R own" using lk unfolding spares_def by auto
  have "kernel_ok ld (s\<lparr>memory := ?m\<rparr>) R own"
    by (rule kernel_okI) (use iso' kernel_okD [OF ok] lk isolatedD(4) [OF iso] space_ok_same [of "ram ?m" _ "ram (memory s)"] in auto)
  then have "running ld (s\<lparr>memory := ?m\<rparr>) R own" using run by (simp add: running_def)
  then show ?thesis using sp unfolding kept_def by auto
qed

lemma kstep_keeps:
  assumes "kstep ld i s t" and "running ld s R own" and "link_ok ld"
  shows "i = current s" "kept ld i s R own t"
proof -
  show i: "i = current s" using assms(1) by (auto elim: kstepE)
  show "kept ld i s R own t"
    using assms(1)
  proof cases
    case (user_write va l pa perm b)
    then show ?thesis using user_write_keeps [OF assms(2), of va l pa perm b] by simp
  next
    case (system_call keys r out v)
    then show ?thesis using syscall_keeps [OF assms(2,3)] by simp
  next
    case (exception keys r)
    then show ?thesis using kexception_keeps [OF assms(2)] by simp
  qed
qed

lemma kept_view:
  assumes run: "running ld s R own" and k: "kept ld (current s) s R own t" and j: "j \<noteq> current s"
  shows "view t j = view s j"
proof
  fix va
  obtain T own' where sp: "spares (current s) (pagetable (ptable s ! current s)) (memory s) R own (memory t) T own'"
    and roots: "proc_roots (ptable t) j = proc_roots (ptable s) j" using k unfolding kept_def by blast
  have iso: "isolated (kernel_end ld) (memory s) R (proc_roots (ptable s)) own" using run kernel_okD(1) by (auto simp: running_def)
  show "view t j va = view s j va"
  proof (cases "proc_roots (ptable s) j")
    case None
    then show ?thesis by (simp add: view_def roots)
  next
    case (Some r)
    have "r \<noteq> pagetable (ptable s ! current s)" using isolatedD(6) [OF iso Some] running_root [OF run] j by blast
    then have lk: "lookup (ram (memory t)) r va = lookup (ram (memory s)) r va" using sparesD(3) [OF sp isolatedD(4) [OF iso Some]] by simp
    have "ram (memory t) (pa + va mod 4096) = ram (memory s) (pa + va mod 4096)"
      if l: "lookup (ram (memory s)) r va = Some (x, pa, perm)" "perm AND PTE_U \<noteq> 0" "pa \<noteq> CONSOLE_ADDR" for x pa perm
    proof -
      have "own pa = Some j" using isolatedD(10) [OF iso Some l(1,2)] l(3) by simp
      then show ?thesis using sparesD(4) [OF sp] page_of_offset [OF lookup_aligned [OF l(1)]] j by metis
    qed
    then show ?thesis by (auto simp: view_def roots lk Some split: option.splits)
  qed
qed

interpretation kni: noninterference "kernel_inv ld" "kstep ld" view for ld
proof
  fix s d t assume inv: "kernel_inv ld s" and st: "kstep ld d s t"
  then obtain R own where R: "link_ok ld" "running ld s R own" by (auto simp: kernel_inv_def)
  note k = kstep_keeps [OF st R(2,1)]
  show "kernel_inv ld t" using k(2) R(1) by (auto simp: kept_def kernel_inv_def)
  show "view t e = view s e" if "e \<noteq> d" for e using kept_view [OF R(2)] k that by simp
qed

lemma kernel_start_list: "kernel_start ld command m = Inr (out, s) \<Longrightarrow> \<exists>xs. boot_list ld command = Inr xs"
  by (auto simp: kernel_start_def boot_list_def kbind_eq_Inr Let_def)

lemma reachable_inv: "reachable ld s \<Longrightarrow> kernel_inv ld s"
proof (induction rule: reachable.induct)
  case (booted m command out s)
  obtain xs where xs: "boot_list ld command = Inr xs" using kernel_start_list [OF booted(4)] by blast
  obtain R own where k: "kernel_ok ld s R own" "current s = 1"
    "\<forall>xs. boot_list ld command = Inr xs \<longrightarrow> (\<forall>j \<in> fst ` set xs. state (ptable s ! j) = P_RUNNABLE)"
    by (rule kernel_start_iso [OF booted])
  then have "state (ptable s ! 1) = P_RUNNABLE" using boot_list_pids [OF xs] xs by blast
  then show ?case using booted(1) k(1,2) by (auto simp: kernel_inv_def running_def NPROC_def)
next
  case (stepped s i t)
  then show ?case using kni.step_inv by blast
qed

end
