(* ===== verification/Kernel_Main.thy ===== *)
theory Kernel_Main
  imports Kernel_Steps
begin

text \<open>
  The theorems on the kernel as a whole: boot, isolation and non-interference of processes, the page allocation of processes
  and scheduling.
\<close>

unbundle bit_operations_syntax

section \<open>A machine with one program\<close>

definition demo_program :: elf_header where
  "demo_program = \<lparr>e_magic = ELF_MAGIC, e_entry = 0x100000, e_programs = [\<lparr>p_type = 1, p_flags = 5, p_offset = 0x1000, p_va = 0x100000,
     p_filesz = 16, p_memsz = 64\<rparr>], e_bytes = (\<lambda>i. 0x90)\<rparr>"

definition demo_linked :: linked where
  "demo_linked = \<lparr>kernel_end = 0x50000, exception_entry = 0x40ABC, kernel_pagetable = 0x48000, images = [(''allocator'', demo_program)], tick_limit = 0\<rparr>"

lemma demo_ok: "link_ok demo_linked" "small_images (images demo_linked)"
  by (simp_all add: demo_linked_def demo_program_def link_ok_def small_images_def small_image_def small_segment_def KERNEL_START_ADDR_def
      KERNEL_STACK_TOP_def PAGESIZE_def ELF_PTYPE_LOAD_def PROC_START_ADDR_def MEMSIZE_VIRTUAL_def)

lemma demo_boots:
  obtains s where "reachable demo_linked s" "free_pages (kernel_end demo_linked) (memory s) \<noteq> {}" "current s = 1"
    "\<forall>j \<in> {1, 2, 3, 4}. state (ptable s ! j) = P_RUNNABLE"
proof -
  let ?m = "\<lparr>ram = (\<lambda>x. 0), pages = (\<lambda>q. 0)\<rparr> :: phys"
  have z: "pages ?m q = 0" for q by simp
  obtain s where s: "kernel_start demo_linked None ?m = Inr (Start, s)" "free_pages (kernel_end demo_linked) (memory s) \<noteq> {}"
    by (rule kernel_start_ok [OF demo_ok z])
  obtain R own where k: "current s = 1" "\<forall>xs. boot_list demo_linked None = Inr xs \<longrightarrow> (\<forall>j \<in> fst ` set xs. state (ptable s ! j) = P_RUNNABLE)"
    by (rule kernel_start_iso [OF demo_ok(1) small_user_images [OF demo_ok(2)] z s])
  then show thesis using that [OF reachable.booted [OF demo_ok(1) small_user_images [OF demo_ok(2)] z s] s(2)] by (auto simp: boot_list_def)
qed

lemma reachable_running:
  assumes "reachable ld s"
  obtains R own where "link_ok ld" "kernel_ok ld s R own" "running ld s R own" "proc_roots (ptable s) (current s) = Some (pagetable (ptable s ! current s))"
  using reachable_inv [OF assms] running_root unfolding kernel_inv_def running_def by blast

lemma stack_page:
  assumes "reachable ld s" and "i < NPROC" "state (ptable s ! i) \<noteq> P_FREE"
  obtains a where "lookup (ram (memory s)) (pagetable (ptable s ! i)) (MEMSIZE_VIRTUAL - PAGESIZE) = Some (0, a, PTE_PWU)" "a \<noteq> CONSOLE_ADDR"
    "user_page s i a"
proof -
  obtain R own where ok: "kernel_ok ld s R own" by (rule reachable_running [OF assms(1)])
  have r: "proc_roots (ptable s) i = Some (pagetable (ptable s ! i))" using assms(2,3) kernel_okD(2) [OF ok] by (simp add: proc_roots_def)
  obtain a where a: "lookup (ram (memory s)) (pagetable (ptable s ! i)) (MEMSIZE_VIRTUAL - PAGESIZE) = Some (0, a, PTE_PWU)" "a \<noteq> CONSOLE_ADDR"
    using kernel_okD(4) [OF ok r] by (auto simp: space_ok_def)
  have "user_page s i a" unfolding user_page_def using r a(1) by (auto simp: pte_defs intro!: exI)
  then show thesis using that a by blast
qed

section \<open>Properties of the kernel\<close>







lemma page_alloc_ok:
  assumes ok: "kernel_ok ld s R own" and r: "proc_roots (ptable s) (current s) = Some r" and f: "free_pages (kernel_end ld) (memory s) \<noteq> {}"
    and addr: "4096 dvd addr" "0 \<le> addr" "addr < MEMSIZE_VIRTUAL"
  obtains p s' where "syscall_page_alloc ld addr s = Inr (0, s')" "nat (p div 4096) \<in> free_pages (kernel_end ld) (memory s)" "4096 dvd p" "0 \<le> p"
    "allocatable_physical_address (kernel_end ld) p"
    "lookup (ram (memory s')) r addr = Some (0, p, PTE_PWU)" "\<forall>x. p \<le> x \<and> x < p + 4096 \<longrightarrow> ram (memory s') x = 0"
    "\<forall>va. vpre va 0 \<noteq> vpre addr 0 \<longrightarrow> lookup (ram (memory s')) r va = lookup (ram (memory s)) r va"
    "\<exists>T. tables (ram (memory s')) T \<and> root T r" "s' = s\<lparr>memory := memory s'\<rparr>"
proof -
  let ?ke = "kernel_end ld"
  note iso = kernel_okD(1) [OF ok]
  note ri = isolatedD(4) [OF iso r]
  have pt: "pagetable (ptable s ! current s) = r" using r by (auto simp: proc_roots_def split: if_splits)
  have can: "va_is_canonical addr" using addr by (intro low_canonical) (auto simp: MEMSIZE_VIRTUAL_def)
  obtain p u where k: "kalloc ?ke PAGESIZE (memory s) = (p, u)" by (cases "kalloc ?ke PAGESIZE (memory s)")
  have p: "p \<noteq> 0" using kalloc_none k f by blast
  note iu = iso_kalloc [OF iso k p, of "current s"] and kl = kalloc_lookup(2) [OF isolatedD(1,2) [OF iso] k p ri] and pp = allocated_page [OF k p]
  obtain rv m T where m: "memory_map ?ke r addr p PTE_PWU u = Inr (rv, m)" "mapped ?ke r addr p PTE_PWU u R rv m T"
    by (rule isolated_map_ok [OF iu r can addr(1) pp PWU_bits(1,2)])
  have "space_ok (ram u) r" using kernel_okD(4) [OF ok r] kl by (rule space_ok_same [rotated])
  then have "wlevel (ram u) r addr = 0" by (rule space_wlevel [OF isolatedD(1) [OF iu] ri]) (use addr in \<open>simp add: vpre_def MEMSIZE_VIRTUAL_def\<close>)
  then have rv: "rv = 0" using m(2) unfolding mapped_def by blast
  have l: "lookup (ram m) r addr = Some (0, p, PTE_PWU)" using m(2) rv PWU_bits(3) unfolding mapped_def by simp
  have im: "isolated ?ke m T (proc_roots (ptable s)) (own(p \<mapsto> current s))" by (rule iso_mapped [OF iu r m(2)]) simp
  have v: "memory_virtual_to_physical r addr m = Inr p"
    using virtual_to_physical [OF isolatedD(1) [OF im] isolatedD(4) [OF im r] can] l addr(1) by simp
  have b: "4096 \<le> p" "p < 0x200000" "4096 dvd p" using kalloc_page [OF k p] by auto
  then have "p + 4096 \<le> 0x200000" by (auto elim!: dvdE)
  then have ram: "in_ram p" "in_ram (p + PAGESIZE - 1)" using b by (auto simp: in_ram_def PAGESIZE_def MEMSIZE_PHYSICAL_def)
  have o: "(own(p \<mapsto> current s)) p = Some (current s)" by simp
  note fill = fill_own_page [OF im o b(3)]
  let ?s = "s\<lparr>memory := m\<lparr>ram := mem_fill p 0 4096 (ram m)\<rparr>\<rparr>"
  have code: "syscall_page_alloc ld addr s = Inr (0, ?s)" using k p pt m(1) v ram by (simp add: syscall_page_alloc_def PAGESIZE_def)
  have lk: "lookup (ram (memory ?s)) r va = lookup (ram m) r va" for va using fill(2) [OF isolatedD(4) [OF im r]] by simp
  have "lookup (ram m) r va = lookup (ram (memory s)) r va" if "vpre va 0 \<noteq> vpre addr 0" for va
    using that m(2) ri kl unfolding mapped_def by metis
  then have other: "\<forall>va. vpre va 0 \<noteq> vpre addr 0 \<longrightarrow> lookup (ram (memory ?s)) r va = lookup (ram (memory s)) r va" using lk by simp
  have tb: "\<exists>T. tables (ram (memory ?s)) T \<and> root T r" using isolatedD(1) [OF fill(1)] isolatedD(4) [OF im r] by auto
  show thesis
    by (rule that [OF code kalloc_free(2) [OF k p] b(3) pp(2) kalloc_new(3) [OF k p isolatedD(2) [OF iso]] _ _ other tb])
      (use l lk in \<open>auto simp: mem_fill_def\<close>)
qed

text \<open>
  C8: boot. With a kernel that is linked between its start and its stack, and programs of at most twelve segments that lie each in
  a page, \<^verbatim>\<open>kernel_start\<close> fails no assertion and starts the first process, in a state from which the other theorems hold.
\<close>

theorem kernel_boots:
  assumes "link_ok ld" and "small_images (images ld)" and "\<forall>q. pages m q = 0"
  shows "\<exists>s. kernel_start ld command m = Inr (Start, s) \<and> reachable ld s \<and> current s = 1"
proof -
  have z: "pages m q = 0" for q using assms(3) by simp
  obtain s where s: "kernel_start ld command m = Inr (Start, s)" "free_pages (kernel_end ld) (memory s) \<noteq> {}"
    by (rule kernel_start_ok [OF assms(1,2) z])
  note img = small_user_images [OF assms(2)]
  have "current s = 1" by (rule kernel_start_iso [OF assms(1) img z s])
  then show ?thesis using s(1) reachable.booted [OF assms(1) img z s] by blast
qed

theorem kernel_boots_witness:
  "\<exists>s. kernel_start demo_linked (Some ''allocator'') \<lparr>ram = (\<lambda>x. 0xF4), pages = (\<lambda>q. 0)\<rparr> = Inr (Start, s) \<and> reachable demo_linked s \<and> current s = 1"
  by (rule kernel_boots [OF demo_ok]) simp

lemma boot_one:
  assumes pgm: "program_image (images ld) (program_number (images ld) name) = Inr (Some elf)" and ne: "e_programs elf \<noteq> []"
  shows "boot_list ld (Some name) = Inr [(1, name)]"
  using assms by (simp add: boot_list_def image_empty_def)





text \<open>
  An address that is not aligned fails an assertion in the kernel, which stops it, as long as a page is free; by \<^verbatim>\<open>u-lib.hh\<close> the
  call returns -1 for an argument that is not valid.
\<close>

theorem unaligned_page_alloc_panics:
  assumes "reachable ld s" and "free_pages (kernel_end ld) (memory s) \<noteq> {}" and "addr mod 4096 \<noteq> 0"
  shows "syscall_page_alloc ld addr s = Inl Assertion_failed"
proof -
  obtain R own where R: "kernel_ok ld s R own" "proc_roots (ptable s) (current s) = Some (pagetable (ptable s ! current s))"
    by (rule reachable_running [OF assms(1)])
  note iso = kernel_okD(1) [OF R(1)]
  obtain p u where k: "kalloc (kernel_end ld) PAGESIZE (memory s) = (p, u)" by (cases "kalloc (kernel_end ld) PAGESIZE (memory s)")
  have p: "p \<noteq> 0" using kalloc_none k assms(2) by blast
  note iu = iso_kalloc [OF iso k p]
  have "memory_map (kernel_end ld) (pagetable (ptable s ! current s)) addr p PTE_PWU u = Inl Assertion_failed"
    by (rule memory_map_refused [OF isolatedD(1) [OF iu] isolatedD(4) [OF iu R(2)] _ PWU_bits(3)]) (use assms(3) in simp)
  then show ?thesis using k p by (simp add: syscall_page_alloc_def)
qed

theorem unaligned_page_alloc_panics_witness: "\<exists>s. reachable demo_linked s \<and> syscall_page_alloc demo_linked 0x100001 s = Inl Assertion_failed"
proof -
  obtain s where s: "reachable demo_linked s" "free_pages (kernel_end demo_linked) (memory s) \<noteq> {}" by (rule demo_boots)
  show ?thesis using unaligned_page_alloc_panics [OF s, of "0x100001"] s(1) by auto
qed

text \<open>
  C39: the address is not checked against the kernel's part of the address space. A process that allocates the page of the
  kernel's exception entry gets a page of its own there, and the kernel fails an assertion when it is to run the process again.
\<close>

theorem page_alloc_replaces_kernel:
  assumes "reachable ld s" and "free_pages (kernel_end ld) (memory s) \<noteq> {}" and "addr = page_of (exception_entry ld)"
  shows "\<exists>p s'. syscall_page_alloc ld addr s = Inr (0, s')
    \<and> lookup (ram (memory s')) (pagetable (ptable s ! current s)) (exception_entry ld) = Some (0, p, PTE_PWU)
    \<and> check_pagetable ld (pagetable (ptable s ! current s)) (memory s') = Inl Assertion_failed"
proof -
  let ?r = "pagetable (ptable s ! current s)" and ?e = "exception_entry ld"
  obtain R own where R: "link_ok ld" "kernel_ok ld s R own" "proc_roots (ptable s) (current s) = Some ?r"
    by (rule reachable_running [OF assms(1)])
  note b = link_bounds [OF R(1)]
  have addr: "4096 dvd addr" "0x40000 \<le> addr" "addr \<le> ?e" "?e < addr + 4096"
    using b page_of_page [of ?e] by (auto simp: assms(3) page_of_def minus_mod_eq_mult_div)
  have lim: "0 \<le> addr" "addr < MEMSIZE_VIRTUAL" using addr b by (auto simp: MEMSIZE_VIRTUAL_def)
  obtain p s' T where s': "syscall_page_alloc ld addr s = Inr (0, s')" "4096 dvd p" "0 \<le> p" "allocatable_physical_address (kernel_end ld) p"
    "lookup (ram (memory s')) ?r addr = Some (0, p, PTE_PWU)" "tables (ram (memory s')) T" "root T ?r"
    by (rule page_alloc_ok [OF R(2,3) assms(2) addr(1) lim]) blast
  have "vpre ?e 0 = vpre addr 0" by (rule page_number [OF addr(1) lim(1) addr(3,4)]) (use b in auto)
  then have l: "lookup (ram (memory s')) ?r ?e = Some (0, p, PTE_PWU)" using s'(5) lookup_cong [of ?e addr] by simp
  have can: "va_is_canonical ?e" using b by (intro low_canonical) auto
  have pa: "memory_virtual_to_physical ?r ?e (memory s') = Inr (p + ?e mod 4096)"
    using virtual_to_physical [OF s'(6,7) can] l by simp
  have "p \<noteq> addr"
  proof
    assume "p = addr"
    then show False using s'(4) addr b by (auto simp: allocatable_physical_address_def KERNEL_START_ADDR_def round_up_def round_down_def PAGESIZE_def minus_mod_eq_mult_div)
  qed
  then have "p + ?e mod 4096 \<noteq> ?e" using addr by (auto simp: assms(3) page_of_def)
  moreover have "?r mod PAGESIZE = 0" using tablesD(1) [OF s'(6)] s'(7) by (auto simp: root_def page_ok_def PAGESIZE_def)
  ultimately have "check_pagetable ld ?r (memory s') = Inl Assertion_failed"
    using pa by (auto simp: check_pagetable_def memory_virtual_to_physical_def kbind_eq_Inr)
  then show ?thesis using s'(1) l by blast
qed

theorem page_alloc_replaces_kernel_witness:
  "\<exists>s s'. reachable demo_linked s \<and> syscall_page_alloc demo_linked 0x40000 s = Inr (0, s')
     \<and> check_pagetable demo_linked (pagetable (ptable s ! current s)) (memory s') = Inl Assertion_failed"
proof -
  obtain s where s: "reachable demo_linked s" "free_pages (kernel_end demo_linked) (memory s) \<noteq> {}" by (rule demo_boots)
  have "0x40000 = page_of (exception_entry demo_linked)" by (simp add: demo_linked_def page_of_def)
  from page_alloc_replaces_kernel [OF s this] show ?thesis using s(1) by blast
qed

section \<open>Scheduling\<close>

lemma schedule_next:
  assumes ok: "kernel_ok ld s R own" and ld: "link_ok ld" and c: "current s < NPROC" and keys: "\<And>n. check_keyboard (keys n) = None"
    and j: "next_runnable (ptable s) (current s) j"
  shows "\<exists>t. schedule ld keys s = Some (Inr (Start, t)) \<and> current t = j \<and> memory t = memory s \<and> ptable t = ptable s \<and> ticks t = ticks s"
proof -
  from j obtain d where d: "1 \<le> d" "j = (current s + d) mod NPROC" "state (ptable s ! j) = P_RUNNABLE"
    "\<forall>e. 1 \<le> e \<and> e < d \<longrightarrow> state (ptable s ! ((current s + e) mod NPROC)) \<noteq> P_RUNNABLE" unfolding next_runnable_def by blast
  have "\<exists>t. same_but_viewer s t \<and> schedule_loop ld keys 1 (current s) s = Some (run ld ((current s + d) mod NPROC) t)"
    by (rule schedule_loop_next [where keys = keys, OF d(1) _ d(4)]) (use d(2,3) keys in simp_all)
  then obtain t where t: "same_but_viewer s t" "schedule_loop ld keys 1 (current s) s = Some (run ld j t)" using d(2) by blast
  have e: "memory t = memory s" "ptable t = ptable s" "ticks t = ticks s" using t(1) by (auto simp: same_but_viewer_def)
  have "j < NPROC" using d(2) by (simp add: NPROC_def)
  then have "run ld j t = Inr (Start, t\<lparr>current := j\<rparr>)" using run_ok [OF kernel_ok_viewer [OF ok e(1,2)] ld] d(3) e by simp
  moreover have "nat (pid (ptable s ! current s)) = current s" using kernel_okD(3) [OF ok c] by simp
  ultimately show ?thesis using t(2) e by (auto simp: schedule_def)
qed

lemma timer_next:
  assumes run: "running ld s R own" and ld: "link_ok ld" and r: "reg_intno r = 32" and keys: "\<And>n. check_keyboard (keys n) = None"
    and lim: "tick_limit ld = 0 \<or> ticks s < tick_limit ld"
  shows "\<exists>t. kexception ld keys r s = Some (Inr (Start, t)) \<and> next_runnable (ptable s) (current s) (current t) \<and> memory t = memory s
    \<and> ticks t = (ticks s + 1) mod 2 ^ 64 \<and> ptable t = (ptable s)[current s := (ptable s ! current s)\<lparr>regs := r\<rparr>]"
proof -
  let ?i = "current s" and ?p = "(ptable s ! current s)\<lparr>regs := r\<rparr>"
  have ok: "kernel_ok ld s R own" and i: "?i < NPROC" "state (ptable s ! ?i) = P_RUNNABLE" using run by (auto simp: running_def)
  have len: "length (ptable s) = NPROC" by (rule kernel_okD(2) [OF ok])
  define s2 where "s2 = memshow (set_proc ?i ?p s)"
  define s3 where "s3 = s2\<lparr>ticks := (ticks s2 + 1) mod 2 ^ 64\<rparr>"
  have e: "memory s3 = memory s" "ptable s3 = (ptable s)[?i := ?p]" "current s3 = ?i" "ticks s3 = (ticks s + 1) mod 2 ^ 64" "ticks s2 = ticks s"
    using memshow_viewer [of "set_proc ?i ?p s"] by (auto simp: s3_def s2_def same_but_viewer_def set_proc_def)
  have ok1: "kernel_ok ld (set_proc ?i ?p s) R own" by (rule kernel_ok_proc [OF ok i(1)]; simp add: i)
  have ok3: "kernel_ok ld s3 R own" by (rule kernel_ok_viewer [OF ok1]) (simp_all add: e set_proc_def)
  have st: "state (ptable s3 ! k) = state (ptable s ! k)" for k using len i by (cases "k = ?i") (auto simp: e)
  obtain j where j: "next_runnable (ptable s3) ?i j" using next_runnable_ex i st by metis
  have c3: "current s3 < NPROC" using i e by simp
  obtain t where t: "schedule ld keys s3 = Some (Inr (Start, t))" "current t = j" "memory t = memory s3" "ptable t = ptable s3" "ticks t = ticks s3"
    using schedule_next [where keys = keys, OF ok3 ld c3 _ j [folded e(3)]] keys by blast
  have "kexception ld keys r s = schedule ld keys s3"
    using r keys lim e(5) unfolding kexception_def Let_def s3_def s2_def by auto
  moreover have "next_runnable (ptable s) ?i j" using j unfolding next_runnable_def st .
  ultimately show ?thesis using t e by auto
qed

text \<open>
  C24: round robin. On a timer interrupt, when no key stops the machine and the tick limit is not reached, the kernel returns
  and the next runnable process in the order of the table runs; memory and the states of the processes do not change.
\<close>

theorem timer_runs_next:
  assumes "reachable ld s" and "reg_intno r = 32" and "\<forall>n. check_keyboard (keys n) = None" and "tick_limit ld = 0 \<or> ticks s < tick_limit ld"
  shows "\<exists>t. kexception ld keys r s = Some (Inr (Start, t)) \<and> next_runnable (ptable s) (current s) (current t) \<and> memory t = memory s
    \<and> ticks t = (ticks s + 1) mod 2 ^ 64 \<and> ptable t = (ptable s)[current s := (ptable s ! current s)\<lparr>regs := r\<rparr>]"
proof -
  obtain R own where "link_ok ld" "running ld s R own" by (rule reachable_running [OF assms(1)])
  then show ?thesis using timer_next [where keys = keys, OF _ _ assms(2) _ assms(4)] assms(3) by blast
qed

theorem timer_runs_next_witness:
  "\<exists>s t. reachable demo_linked s \<and> current s = 1 \<and> kexception demo_linked (\<lambda>n. - 1) (zero_regs\<lparr>reg_intno := 32\<rparr>) s = Some (Inr (Start, t)) \<and> current t = 2"
proof -
  obtain s where s: "reachable demo_linked s" "current s = 1" "\<forall>j \<in> {1, 2, 3, 4}. state (ptable s ! j) = P_RUNNABLE" by (rule demo_boots)
  have "\<exists>t. kexception demo_linked (\<lambda>n. - 1) (zero_regs\<lparr>reg_intno := 32\<rparr>) s = Some (Inr (Start, t)) \<and> next_runnable (ptable s) (current s) (current t)
    \<and> memory t = memory s \<and> ticks t = (ticks s + 1) mod 2 ^ 64
    \<and> ptable t = (ptable s)[current s := (ptable s ! current s)\<lparr>regs := zero_regs\<lparr>reg_intno := 32\<rparr>\<rparr>]"
    by (rule timer_runs_next [OF s(1)]) (simp_all add: check_keyboard_def demo_linked_def)
  then obtain t where t: "kexception demo_linked (\<lambda>n. - 1) (zero_regs\<lparr>reg_intno := 32\<rparr>) s = Some (Inr (Start, t))" "next_runnable (ptable s) 1 (current t)"
    using s(2) by auto
  then obtain d where d: "1 \<le> d" "current t = (1 + d) mod NPROC" "\<forall>e. 1 \<le> e \<and> e < d \<longrightarrow> state (ptable s ! ((1 + e) mod NPROC)) \<noteq> P_RUNNABLE"
    unfolding next_runnable_def by blast
  have "\<not> 1 < d" using d(3) [rule_format, of 1] s(3) by (auto simp: NPROC_def numeral_2_eq_2)
  then have "d = 1" using d(1) by simp
  then have "current t = 2" using d(2) by (simp add: NPROC_def)
  then show ?thesis using s(1,2) t(1) by blast
qed

definition timer_tick :: "linked \<Rightarrow> kernel \<Rightarrow> kernel \<Rightarrow> bool" where
  "timer_tick ld s t \<longleftrightarrow> (\<exists>keys r. reg_intno r = 32 \<and> (\<forall>n. check_keyboard (keys n) = None) \<and> kexception ld keys r s = Some (Inr (Start, t)))"

lemma timer_tick_next:
  assumes "kernel_inv ld s" and "timer_tick ld s t"
  shows "kernel_inv ld t" "next_runnable (ptable s) (current s) (current t)" "\<And>k. state (ptable t ! k) = state (ptable s ! k)"
proof -
  obtain R own where R: "link_ok ld" "running ld s R own" using assms(1) by (auto simp: kernel_inv_def)
  obtain keys r where k: "reg_intno r = 32" "\<And>n. check_keyboard (keys n) = None" "kexception ld keys r s = Some (Inr (Start, t))"
    using assms(2) by (auto simp: timer_tick_def)
  show "kernel_inv ld t" by (rule kni.step_inv [OF assms(1) kstep.exception [OF refl k(3)]])
  have "ticks (memshow (set_proc (current s) ((ptable s ! current s)\<lparr>regs := r\<rparr>) s)) = ticks s"
    using memshow_viewer [of "set_proc (current s) ((ptable s ! current s)\<lparr>regs := r\<rparr>) s"] by (simp add: same_but_viewer_def set_proc_def)
  then have lim: "tick_limit ld = 0 \<or> ticks s < tick_limit ld"
    using k unfolding kexception_def Let_def by (auto split: if_splits)
  obtain t' where t': "kexception ld keys r s = Some (Inr (Start, t'))" "next_runnable (ptable s) (current s) (current t')"
    "ptable t' = (ptable s)[current s := (ptable s ! current s)\<lparr>regs := r\<rparr>]" using timer_next [where keys = keys, OF R(2,1) k(1) _ lim] k(2) by blast
  then show "next_runnable (ptable s) (current s) (current t)" using k(3) by simp
  have "t' = t" using t'(1) k(3) by simp
  then show "state (ptable t ! k) = state (ptable s ! k)" for k using t'(3) R(2)
    by (cases "k = current s"; cases "current s < length (ptable s)") (auto simp: running_def list_update_beyond)
qed

text \<open>How many places \<open>j\<close> is ahead of \<open>i\<close> in the table.\<close>

definition ahead :: "nat \<Rightarrow> nat \<Rightarrow> nat" where
  "ahead i j = (if i < j then j - i else j + NPROC - i)"

lemma ahead_next:
  assumes "next_runnable pt i k" and "i < NPROC" "j < NPROC" "state (pt ! j) = P_RUNNABLE" and "k \<noteq> j"
  shows "k < NPROC" "ahead k j < ahead i j"
proof -
  obtain d where d: "1 \<le> d" "d \<le> NPROC" "k = (i + d) mod NPROC" "\<forall>e. 1 \<le> e \<and> e < d \<longrightarrow> state (pt ! ((i + e) mod NPROC)) \<noteq> P_RUNNABLE"
    using assms(1) unfolding next_runnable_def by blast
  let ?a = "ahead i j"
  have a: "1 \<le> ?a" "(i + ?a) mod NPROC = j" using assms(2,3) by (auto simp: ahead_def NPROC_def)
  have "\<not> ?a < d" using d(4) [rule_format, of ?a] a assms(4) by auto
  moreover have "?a \<noteq> d" using a(2) d(3) assms(5) by auto
  ultimately have lt: "d < ?a" by simp
  show "k < NPROC" using d(3) by (simp add: NPROC_def)
  have k: "k = (if i + d < NPROC then i + d else i + d - NPROC)" using d assms(2) by (auto simp: NPROC_def mod_if)
  show "ahead k j < ?a" using lt k d(1) assms(2,3) by (auto simp: ahead_def NPROC_def split: if_splits)
qed

lemma tick_run:
  assumes "kernel_inv ld (f 0)" and "\<forall>n. timer_tick ld (f n) (f (Suc n))"
  shows "kernel_inv ld (f n)" "state (ptable (f n) ! k) = state (ptable (f 0) ! k)"
proof -
  have "kernel_inv ld (f n) \<and> (\<forall>k. state (ptable (f n) ! k) = state (ptable (f 0) ! k))"
    by (induction n) (use assms timer_tick_next in auto)
  then show "kernel_inv ld (f n)" "state (ptable (f n) ! k) = state (ptable (f 0) ! k)" by auto
qed

lemma tick_reaches:
  assumes "kernel_inv ld (f 0)" and t: "\<forall>n. timer_tick ld (f n) (f (Suc n))" and j: "j < NPROC" "state (ptable (f 0) ! j) = P_RUNNABLE"
  shows "(\<exists>n \<le> N. current (f n) = j) \<or> ahead (current (f N)) j + N \<le> ahead (current (f 0)) j"
proof (induction N)
  case (Suc N)
  note run = tick_run [OF assms(1) t]
  have c: "current (f N) < NPROC" using run(1) [of N] by (auto simp: kernel_inv_def running_def)
  have nx: "next_runnable (ptable (f N)) (current (f N)) (current (f (Suc N)))" using timer_tick_next(2) [OF run(1)] t by blast
  show ?case
  proof (cases "current (f (Suc N)) = j")
    case False
    then have "ahead (current (f (Suc N))) j < ahead (current (f N)) j" using ahead_next(2) [OF nx c j(1)] run(2) [of N j] j(2) by simp
    then show ?thesis using Suc by (auto intro: le_SucI)
  qed auto
qed simp

text \<open>
  C12: no process starves. Under timer interrupts alone, every runnable process is the running one after at most sixteen of them.
\<close>

theorem no_starvation:
  assumes "reachable ld (f 0)" and "\<forall>n. timer_tick ld (f n) (f (Suc n))" and "j < NPROC" and "state (ptable (f 0) ! j) = P_RUNNABLE"
  shows "\<exists>n \<le> NPROC. current (f n) = j"
proof (rule ccontr)
  assume n: "\<not> ?thesis"
  have inv: "kernel_inv ld (f 0)" by (rule reachable_inv [OF assms(1)])
  from tick_reaches [OF inv assms(2-4), of NPROC] n have "ahead (current (f NPROC)) j + NPROC \<le> ahead (current (f 0)) j" by blast
  moreover have c: "current (f n) < NPROC" for n using tick_run(1) [OF inv assms(2), of n] by (auto simp: kernel_inv_def running_def)
  have "1 \<le> ahead (current (f NPROC)) j" "ahead (current (f 0)) j \<le> NPROC"
    using c [of NPROC] c [of 0] assms(3) by (auto simp: ahead_def NPROC_def)
  ultimately show False by simp
qed

theorem no_starvation_witness:
  "\<exists>f. reachable demo_linked (f 0) \<and> (\<forall>n. timer_tick demo_linked (f n) (f (Suc n))) \<and> (\<exists>n \<le> NPROC. current (f n) = 4)"
proof -
  obtain s where s: "reachable demo_linked s" "\<forall>j \<in> {1, 2, 3, 4}. state (ptable s ! j) = P_RUNNABLE" by (rule demo_boots)
  have ex: "\<exists>t. kernel_inv demo_linked t \<and> timer_tick demo_linked u t" if "kernel_inv demo_linked u" for u
  proof -
    obtain R own where R: "link_ok demo_linked" "running demo_linked u R own" using \<open>kernel_inv demo_linked u\<close> by (auto simp: kernel_inv_def)
    obtain t where "kexception demo_linked (\<lambda>n. - 1) (zero_regs\<lparr>reg_intno := 32\<rparr>) u = Some (Inr (Start, t))"
      using timer_next [OF R(2,1), of "zero_regs\<lparr>reg_intno := 32\<rparr>" "\<lambda>n. - 1"] by (auto simp: check_keyboard_def demo_linked_def)
    then have "timer_tick demo_linked u t" unfolding timer_tick_def
      by (intro exI [of _ "\<lambda>n. - 1"] exI [of _ "zero_regs\<lparr>reg_intno := 32\<rparr>"]) (simp add: check_keyboard_def)
    then show ?thesis using timer_tick_next(1) [OF that] by blast
  qed
  have "\<exists>f. \<forall>n. (kernel_inv demo_linked (f n) \<and> (n = 0 \<longrightarrow> f n = s)) \<and> timer_tick demo_linked (f n) (f (Suc n))"
    by (rule dependent_nat_choice) (use ex reachable_inv [OF s(1)] in auto)
  then obtain f where f: "f 0 = s" and t: "\<forall>n. timer_tick demo_linked (f n) (f (Suc n))" by auto
  have "\<exists>n \<le> NPROC. current (f n) = 4" by (rule no_starvation [OF _ t]) (use s f in \<open>auto simp: NPROC_def\<close>)
  then show ?thesis using s(1) f t by auto
qed

end
