(* ===== verification/Spec2Isabelle.thy ===== *)
theory Spec2Isabelle
  imports Basic_Main Recover Password_Cracker Jvm_Main Mm_Implicit Mm_Explicit Asan Kernel_Main
begin

text \<open>
  A verification library for the projects of the repository \<^verbatim>\<open>Computer-Systems\<close>, all under \<^verbatim>\<open>src/\<close>. Each
  project is a program of its own; a group of theories models each of them, in the order of the code,
  and all of them build on \<^verbatim>\<open>Prelude\<close> (machine types, C character classes, number printing, generic
  lemmas, the collections \<^verbatim>\<open>step_simps\<close> and \<^verbatim>\<open>frag_simps\<close>).

  \<^bold>\<open>The compiler\<close> (\<^verbatim>\<open>src/assembly-compiler\<close>). \<^verbatim>\<open>compiler.c\<close> parses a TeenyBASIC file into a syntax tree
  (\<^verbatim>\<open>parser.c\<close>, \<^verbatim>\<open>ast.c\<close>) and prints x86-64 assembly (\<^verbatim>\<open>compile.c\<close>).
  \<^item> \<^verbatim>\<open>Basic_Ast\<close>: the node type, its constructors with their null handling, the debug printer, and the
    blocks that \<^verbatim>\<open>free_ast\<close> releases, each exactly once.
  \<^item> \<^verbatim>\<open>Basic_Parser\<close>: every function of the parser over a seekable file. It returns on every file with
    fuel of at least three more than four times the bytes left, which \<^verbatim>\<open>parse\<close> is given, the result does
    not depend on the fuel, the scanned words fit their buffer, and accepted trees are grammatical.
  \<^item> \<^verbatim>\<open>X86_Machine\<close>: the instructions that are printed, their text, and a machine for them.
    \<^verbatim>\<open>Basic_Compile\<close>: the code generator with its label counters and the constant folder.
  \<^item> \<^verbatim>\<open>Basic_Semantics\<close>: what a program means. \<^verbatim>\<open>Basic_Correct\<close>, \<^verbatim>\<open>Basic_Labels\<close> and \<^verbatim>\<open>Basic_Simulation\<close>:
    labels are unique, and the generated code simulates the program, for grammatical programs whose
    constant subexpressions are whole printed expressions; \<^verbatim>\<open>folding_inside_expression\<close> shows that
    other programs are miscompiled. \<^verbatim>\<open>Basic_Main\<close>: the program from its arguments to the output, end to end.

  \<^bold>\<open>The FAT16 recovery\<close> (\<^verbatim>\<open>src/file-directory-tree\<close>).
  \<^item> \<^verbatim>\<open>Directory_Tree\<close>: \<^verbatim>\<open>directory_tree.c\<close>; the selection sort against sorting by \<^verbatim>\<open>strcmp\<close>, the printed
    tree, its creation in a file system, the release of its memory.
  \<^item> \<^verbatim>\<open>Fat16\<close>: the packed structures of \<^verbatim>\<open>fat16.h\<close> as bytes, disk positions in 64-bit arithmetic, names.
  \<^item> \<^verbatim>\<open>Recover\<close>: \<^verbatim>\<open>recover.c\<close>. \<^verbatim>\<open>follow\<close> takes fuel, as the directories of a damaged image may form a
    cycle; on an image that holds a tree, fuel above the depth of the tree recovers exactly that tree.

  \<^bold>\<open>The thread pool\<close> (\<^verbatim>\<open>src/threadpool\<close>).
  \<^item> \<^verbatim>\<open>Work_Queue\<close>: \<^verbatim>\<open>queue.c\<close> as a linked list in an explicit store; the locale \<^verbatim>\<open>fifo\<close> is its contract.
  \<^item> \<^verbatim>\<open>Thread_Pool\<close>: \<^verbatim>\<open>thread_pool.c\<close> as a step relation over the linked queue with condition variables;
    every item is executed once, in order, no wakeup is lost, and \<^verbatim>\<open>thread_pool_finish\<close> returns under
    every schedule. A critical section of the queue is one step.
  \<^item> \<^verbatim>\<open>Password_Cracker\<close>: \<^verbatim>\<open>password_cracker.c\<close>; \<^verbatim>\<open>crypt_r\<close>, the dictionary and the contents of fresh
    memory are arguments.

  \<^bold>\<open>The Java virtual machine\<close> (\<^verbatim>\<open>src/java-virtual-machine\<close>).
  \<^item> \<^verbatim>\<open>Class_File\<close>: the structures and readers of \<^verbatim>\<open>read_class.c\<close>, and that reading what a writer
    wrote gives it back. \<^verbatim>\<open>Jvm_Heap\<close>: \<^verbatim>\<open>heap.c\<close> and the locale \<^verbatim>\<open>ref_heap\<close>.
  \<^item> \<^verbatim>\<open>Jvm\<close>: every handler of \<^verbatim>\<open>jvm.c\<close> and the loop, with one unit of fuel for an instruction.
    \<^verbatim>\<open>Jvm_Typing\<close>: a stack discipline under which no array is left. \<^verbatim>\<open>Jvm_Main\<close>: the program on the
    bytes of a class file, fuel monotonicity, the arithmetic of the Java specification.

  \<^bold>\<open>The allocators\<close> (\<^verbatim>\<open>src/malloc\<close>).
  \<^item> \<^verbatim>\<open>Memlib\<close>: \<^verbatim>\<open>memlib.c\<close>, a byte memory with a break. \<^verbatim>\<open>Heap_Blocks\<close>: lists of blocks that tile a heap.
  \<^item> \<^verbatim>\<open>Allocator\<close>: the locale \<^verbatim>\<open>allocator\<close>, what a client of \<^verbatim>\<open>mm.h\<close> relies on. \<^verbatim>\<open>Mdriver\<close>: the validity,
    utilization and speed runs of \<^verbatim>\<open>mdriver.c\<close>, proved inside locales that extend \<^verbatim>\<open>allocator\<close>.
  \<^item> \<^verbatim>\<open>Mm_Implicit\<close>, \<^verbatim>\<open>Mm_Explicit\<close>: the two packages at the level of bytes, their loops as partial
    functions that are proved to return, and the interpretations of the locales on them, from which
    the theorems about whole traces follow.

  \<^bold>\<open>The address sanitizer\<close> (\<^verbatim>\<open>src/signal-handler\<close>).
  \<^item> \<^verbatim>\<open>Asan\<close>: \<^verbatim>\<open>myasan.c\<close> over a byte memory with page protection, and its refinement of a contract that
    speaks of the log of allocations only, for whole runs of a checked program.

  \<^bold>\<open>The operating system\<close> (\<^verbatim>\<open>src/mini-operating-system\<close>). A kernel for one processor with four-level page tables; physical
  memory is a map from addresses to bytes with reference counts of its pages, and failed assertions, panics and faults of the
  kernel are values. The linked addresses, the program images and the keys typed are parameters.
  \<^item> \<^verbatim>\<open>Page_Table\<close>: the constants, \<^verbatim>\<open>kalloc\<close>, the iterators of \<^verbatim>\<open>k-vmiter.cc\<close> and the helpers of \<^verbatim>\<open>util.c\<close>; an iterator
    finds what a walk from the root finds. \<^verbatim>\<open>Address_Space\<close>: page tables in which each page has a role, and the law of
    \<^verbatim>\<open>memory_map\<close>: the address is mapped and no other address of any table changes.
  \<^item> \<^verbatim>\<open>Kernel\<close>: processes, program images, and the functions of \<^verbatim>\<open>kernel.c\<close> with what they use of \<^verbatim>\<open>k-hardware.cc\<close>. The loop
    of \<^verbatim>\<open>schedule\<close> is a partial function, as it spins when nothing is runnable.
  \<^item> \<^verbatim>\<open>Isolation\<close>: which pages a process can reach, and that page table operations keep processes apart.
    \<^verbatim>\<open>Process_Setup\<close>, \<^verbatim>\<open>Process_Image\<close>: loading a program keeps isolation as long as a page is left, succeeds for images whose
    segments each lie in a page, and leaves the bytes of the image in the process.
  \<^item> \<^verbatim>\<open>Kernel_Boot\<close>: the page table of the kernel, the invariant of the kernel, and the boot. \<^verbatim>\<open>Kernel_Steps\<close>: the invariant under
    every write, system call and exception, and the locale \<^verbatim>\<open>noninterference\<close> with its interpretation on the kernel.
    \<^verbatim>\<open>Kernel_Main\<close>: the theorems on reachable states: isolation, non-interference, page allocation, round robin. They start
    from a boot that left a page free; twelve segments in each of four programs leave one. The arguments of
    \<^verbatim>\<open>sys_page_alloc\<close> in the step relation are as \<^verbatim>\<open>u-lib.hh\<close> asks; \<^verbatim>\<open>page_alloc_replaces_kernel\<close> shows why.


  \<^bold>\<open>Not modelled.\<close>
  \<^item> \<^verbatim>\<open>src/malloc/driver\<close>: the reading of trace files, the command line, the messages and the score of
    \<^verbatim>\<open>mdriver.c\<close>, and the timers (\<^verbatim>\<open>clock.c\<close>, \<^verbatim>\<open>fcyc.c\<close>, \<^verbatim>\<open>fsecs.c\<close>, \<^verbatim>\<open>ftimer.c\<close>), which measure real time.
  \<^item> \<^verbatim>\<open>src/signal-handler/util.c\<close>: the message and the backtrace of a report, which call \<^verbatim>\<open>backtrace()\<close> and a
    child process; the exit codes are in \<^verbatim>\<open>Asan\<close>.
  \<^item> \<^verbatim>\<open>src/assembly-compiler/runtime\<close>: only the effect of \<^verbatim>\<open>print_int\<close> on the machine is modelled; the timing
    harness is not.
  \<^item> \<^verbatim>\<open>src/meltdown\<close>: the attack measures cache timing, which no model of the source has.
  \<^item> Test programs, example inputs, traces, expected outputs, makefiles, and the words of
    \<^verbatim>\<open>dictionary_words.h\<close>, which are data.
  \<^item> \<^verbatim>\<open>src/mini-operating-system\<close>: the boot loader and the entry code in assembly, device registers (interrupt
    controllers, timer, PCI, keyboard codes), segment descriptors, the console with its printers and the other string
    functions of \<^verbatim>\<open>lib.cc\<close>, the memory viewer, the user programs, and the tools of the build.
\<close>

end
